(* ===== verification/Prelude.thy ===== *)
theory Prelude
  imports Main "HOL-Library.Word"
begin

unbundle bit_operations_syntax

text \<open>
  Shared vocabulary of the development: the machine integer types of the C sources, the reading
  of bytes and registers as bit strings (least significant bit first, the order of the DEFLATE
  format), and the generic lemmas on lists and words that the component theories use.  The bit
  string of the first \<open>n\<close> bits of a value is \<open>bits_of n v\<close>, a byte sequence is flattened by
  \<open>bytes_bits\<close>.  Lemmas that reduce an operation on registers to one on bit strings are collected
  in \<open>bitstream\<close>; facts about what an operation leaves alone are collected in \<open>frame\<close>.
\<close>

named_theorems bitstream \<open>operations on bit buffers as operations on bit strings\<close>
named_theorems frame \<open>fields an operation leaves unchanged\<close>

section \<open>Machine integers\<close>

type_synonym byte = "8 word"
type_synonym ush = "16 word"
type_synonym uint32 = "32 word"
type_synonym ulong = "64 word"

section \<open>Values as bit strings\<close>

definition bits_of :: "nat \<Rightarrow> 'a::semiring_bits \<Rightarrow> bool list" where
  "bits_of n v = map (bit v) [0..<n]"

definition bytes_bits :: "byte list \<Rightarrow> bool list" where
  "bytes_bits bs = concat (map (bits_of 8) bs)"

lemma length_bits_of [simp]: "length (bits_of n v) = n"
  by (simp add: bits_of_def)

lemma nth_bits_of [simp]: "i < n \<Longrightarrow> bits_of n v ! i = bit v i"
  by (simp add: bits_of_def)

lemma bits_of_0 [simp]: "bits_of 0 v = []"
  by (simp add: bits_of_def)

lemma bits_of_eq_iff: "bits_of n v = bits_of n w \<longleftrightarrow> (\<forall>i<n. bit v i = bit w i)"
  by (auto simp: bits_of_def)

lemma bits_of_add: "bits_of (m + n) v = bits_of m v @ map (\<lambda>i. bit v (m + i)) [0..<n]"
proof (rule nth_equalityI)
  fix i assume "i < length (bits_of (m + n) v)"
  then show "bits_of (m + n) v ! i = (bits_of m v @ map (\<lambda>i. bit v (m + i)) [0..<n]) ! i"
    by (auto simp: nth_append)
qed simp

lemma bits_of_split:
  "bits_of (m + n) (v :: 'a::len word) = bits_of m v @ bits_of n (drop_bit m v)"
  by (rule nth_equalityI) (auto simp: nth_append bit_drop_bit_eq)

lemma take_bits_of [simp]: "take m (bits_of n v) = bits_of (min m n) v"
  by (rule nth_equalityI) auto

lemma drop_bits_of: "drop m (bits_of n (v :: 'a::len word)) = bits_of (n - m) (drop_bit m v)"
  by (rule nth_equalityI) (auto simp: bit_drop_bit_eq)

lemma bits_of_ucast [simp]:
  "n \<le> LENGTH('b) \<Longrightarrow> bits_of n (ucast (v :: 'a::len word) :: 'b::len word) = bits_of n v"
  by (rule nth_equalityI) (auto simp: bit_simps)

lemma bits_of_take_bit [simp]:
  "n \<le> m \<Longrightarrow> bits_of n (take_bit m (v :: 'a::len word)) = bits_of n v"
  by (rule nth_equalityI) (auto simp: bit_take_bit_iff)

lemma bits_of_word_zero [simp]: "bits_of n (0 :: 'a::len word) = replicate n False"
  by (rule nth_equalityI) auto

lemma bytes_bits_Nil [simp]: "bytes_bits [] = []"
  by (simp add: bytes_bits_def)

lemma bytes_bits_Cons [simp]: "bytes_bits (b # bs) = bits_of 8 b @ bytes_bits bs"
  by (simp add: bytes_bits_def)

lemma bytes_bits_append [simp]: "bytes_bits (as @ bs) = bytes_bits as @ bytes_bits bs"
  by (simp add: bytes_bits_def)

lemma length_bytes_bits [simp]: "length (bytes_bits bs) = 8 * length bs"
  by (induction bs) auto

lemma bits_of_8_inject: "bits_of 8 (a :: byte) = bits_of 8 b \<Longrightarrow> a = b"
  by (rule bit_word_eqI) (simp add: bits_of_eq_iff)

lemma bytes_bits_inject: "bytes_bits as = bytes_bits bs \<Longrightarrow> as = bs"
proof (induction as arbitrary: bs)
  case Nil
  then have "length (bytes_bits bs) = 0" by simp
  then show ?case by simp
next
  case (Cons a as)
  then have "length (bytes_bits bs) = 8 + length (bytes_bits as)"
    by (metis bytes_bits_Cons length_append length_bits_of)
  then obtain b bs' where bs: "bs = b # bs'"
    by (cases bs) auto
  with Cons.prems have "bits_of 8 a = bits_of 8 b" and "bytes_bits as = bytes_bits bs'"
    by auto
  then show ?case
    using Cons.IH bits_of_8_inject bs by blast
qed

section \<open>Bit strings as values\<close>

definition val_of :: "bool list \<Rightarrow> nat" where
  "val_of bs = horner_sum of_bool 2 bs"

lemma val_of_Nil [simp]: "val_of [] = 0"
  by (simp add: val_of_def)

lemma val_of_Cons [simp]: "val_of (b # bs) = of_bool b + 2 * val_of bs"
  by (simp add: val_of_def)

lemma val_of_bits_of: "val_of (bits_of n v) = take_bit n v"
  by (simp add: val_of_def bits_of_def horner_sum_bit_eq_take_bit)

lemma val_of_append: "val_of (as @ bs) = val_of as + 2 ^ length as * val_of bs"
  by (induction as) auto

lemma val_of_less: "val_of bs < 2 ^ length bs"
  by (induction bs) (auto simp: of_bool_def)

lemma bits_of_val_of: "bits_of (length bs) (val_of bs) = bs"
  by (rule nth_equalityI) (simp_all add: val_of_def bit_horner_sum_bit_iff)

lemma bits_of_unat: "bits_of n (unat (v :: 'a::len word)) = bits_of n v"
  by (rule nth_equalityI) (auto simp: bit_unsigned_iff)

lemma val_of_bits_of_word: "val_of (bits_of n (v :: 'a::len word)) = take_bit n (unat v)"
  by (simp flip: bits_of_unat add: val_of_bits_of)

section \<open>Words\<close>

lemma word_plus_or: "a AND b = 0 \<Longrightarrow> a + b = a OR b" for a b :: "'a::len word"
  by (rule disjunctive_add_eq_or)

lemma word_bit_ge: "take_bit n w = w \<Longrightarrow> n \<le> i \<Longrightarrow> \<not> bit w i" for w :: "'a::len word"
  by (metis bit_take_bit_iff linorder_not_le)

lemma unat_take_bit: "unat (take_bit n w) = take_bit n (unat w)" for w :: "'a::len word"
  by (fact unsigned_take_bit_eq)

lemma word_unat_lt_iff_bits:
  "unat w < 2 ^ n \<longleftrightarrow> take_bit n w = w" for w :: "'a::len word"
proof -
  have "unat w < 2 ^ n \<longleftrightarrow> take_bit n (unat w) = unat w"
    by (simp add: take_bit_nat_eq_self_iff)
  also have "\<dots> \<longleftrightarrow> take_bit n w = w"
    by (metis unat_take_bit word_unat_eq_iff)
  finally show ?thesis .
qed

section \<open>Lists\<close>

lemma take_Suc_nth: "i < length xs \<Longrightarrow> take (Suc i) xs = take i xs @ [xs ! i]"
  by (rule take_Suc_conv_app_nth)

lemma take_list_update_Suc:
  "i < length xs \<Longrightarrow> take (Suc i) (xs[i := x]) = take i xs @ [x]"
  by (simp add: take_Suc_conv_app_nth)

text \<open>Enumeration of a table with its indices, so that a property of every entry of a constant
  table is one evaluation.\<close>

fun indexed :: "nat \<Rightarrow> 'a list \<Rightarrow> (nat \<times> 'a) list" where
  "indexed n [] = []"
| "indexed n (x # xs) = (n, x) # indexed (n + 1) xs"

lemma indexed_nth: "i < length xs \<Longrightarrow> (n + i, xs ! i) \<in> set (indexed n xs)"
proof (induction xs arbitrary: n i)
  case Nil
  then show ?case by simp
next
  case (Cons x xs)
  show ?case
  proof (cases i)
    case 0
    then show ?thesis by simp
  next
    case (Suc j)
    with Cons.prems have "(Suc n + j, xs ! j) \<in> set (indexed (Suc n) xs)"
      by (intro Cons.IH) simp
    with Suc show ?thesis by simp
  qed
qed

lemma list_all_indexed_nth:
  "list_all P (indexed 0 xs) \<Longrightarrow> i < length xs \<Longrightarrow> P (i, xs ! i)"
  using indexed_nth [of i xs 0] by (auto simp: list_all_iff)

end
