(* ===== verification/Zlib_Base.thy ===== *)
theory Zlib_Base
  imports Prelude
begin

text \<open>
  The public constants of libz_j (zfunc.h): flush values, return codes, strategies; the error
  message table and its lookup (zutil.c, zutil.h), and the byte-order helper \<^verbatim>\<open>ZSWAP32\<close>.
  Return codes are C \<open>int\<close>s and are kept as HOL integers.
\<close>

abbreviation (input) "Z_NO_FLUSH \<equiv> (0::int)"
abbreviation (input) "Z_FINISH \<equiv> (4::int)"
abbreviation (input) "Z_BLOCK \<equiv> (5::int)"
abbreviation (input) "Z_TREES \<equiv> (6::int)"

abbreviation (input) "Z_OK \<equiv> (0::int)"
abbreviation (input) "Z_STREAM_END \<equiv> (1::int)"
abbreviation (input) "Z_NEED_DICT \<equiv> (2::int)"
abbreviation (input) "Z_ERRNO \<equiv> (-1::int)"
abbreviation (input) "Z_STREAM_ERROR \<equiv> (-2::int)"
abbreviation (input) "Z_DATA_ERROR \<equiv> (-3::int)"
abbreviation (input) "Z_MEM_ERROR \<equiv> (-4::int)"
abbreviation (input) "Z_BUF_ERROR \<equiv> (-5::int)"
abbreviation (input) "Z_VERSION_ERROR \<equiv> (-6::int)"

abbreviation (input) "Z_DEFAULT_COMPRESSION \<equiv> (-1::int)"
abbreviation (input) "Z_FIXED \<equiv> (4::int)"
abbreviation (input) "Z_DEFLATED \<equiv> (8::int)"

text \<open>\<open>z_errmsg\<close> is indexed by \<^verbatim>\<open>Z_NEED_DICT - err\<close> (macro \<^verbatim>\<open>ERR_MSG\<close>).\<close>

definition z_errmsg :: "string list" where
  "z_errmsg = [''need dictionary'', ''stream end'', '''', ''file error'', ''stream error'',
     ''data error'', ''insufficient memory'', ''buffer error'', ''incompatible version'', '''']"

definition ERR_MSG :: "int \<Rightarrow> string option" where
  "ERR_MSG err = (let i = Z_NEED_DICT - err in
     if 0 \<le> i \<and> i < int (length z_errmsg) then Some (z_errmsg ! nat i) else None)"

definition zError :: "int \<Rightarrow> string option" where
  "zError err = ERR_MSG err"

definition ZSWAP32 :: "ulong \<Rightarrow> ulong" where
  "ZSWAP32 q = (drop_bit 24 q AND 0xff) + (drop_bit 8 q AND 0xff00)
     + push_bit 8 (q AND 0xff00) + push_bit 24 (q AND 0xff)"

text \<open>Every return code of the library has a message.\<close>

lemma ERR_MSG_defined: "-6 \<le> err \<Longrightarrow> err \<le> 2 \<Longrightarrow> \<exists>m. ERR_MSG err = Some m"
  by (auto simp: ERR_MSG_def z_errmsg_def Let_def)

end
