(* ===== verification/Bit_Sink.thy ===== *)
theory Bit_Sink
  imports Prelude
begin

text \<open>
  The 16-bit output register shared by the two bit writers of libz_j: the \<^verbatim>\<open>send_bits\<close> macro of
  trees.c (fields \<open>bi_buf\<close>, \<open>bi_valid\<close>, output to \<open>pending_buf\<close>) and the \<^verbatim>\<open>my_send_bits\<close> macro of
  inflate.c (fields \<open>my_bi_buf\<close>, \<open>my_bi_valid\<close>, output to \<open>header_buf\<close>).  Both hold up to 16 bits in
  a register whose unused high bits are zero and spill it as two little-endian bytes.  This theory
  proves the register arithmetic once, and states as the locale \<open>bit_sink\<close> what a writer promises:
  its output, read as a bit string, grows by exactly the bits of the value sent.
\<close>

section \<open>The register\<close>

text \<open>The register update of both macros when the value still fits, and when it does not: the bits
  that fill the register, and the bits left over after it has been spilled.  \<open>value\<close> is a C
  \<open>int\<close>; \<^verbatim>\<open>(ush)value << valid\<close> is computed in \<open>int\<close> and cut back to 16 bits by the assignment.\<close>

definition reg_fill :: "ush \<Rightarrow> nat \<Rightarrow> uint32 \<Rightarrow> ush" where
  "reg_fill buf valid v = buf OR ucast (push_bit valid (ucast (ucast v :: ush) :: uint32))"

definition reg_rest :: "nat \<Rightarrow> uint32 \<Rightarrow> ush" where
  "reg_rest valid v = drop_bit (16 - valid) (ucast v)"

text \<open>The register invariant: at most 16 bits are valid and all bits above them are zero.\<close>

definition reg_ok :: "ush \<Rightarrow> nat \<Rightarrow> bool" where
  "reg_ok buf valid \<longleftrightarrow> valid \<le> 16 \<and> take_bit valid buf = buf"

lemma reg_ok_0 [simp]: "reg_ok 0 0"
  by (simp add: reg_ok_def)

lemma reg_ok_bit: "reg_ok buf valid \<Longrightarrow> bit buf i \<Longrightarrow> i < valid"
  by (metis reg_ok_def word_bit_ge not_le)

lemma bit_reg_fill:
  "bit (reg_fill buf valid v) i \<longleftrightarrow> bit buf i \<or> i < 16 \<and> valid \<le> i \<and> bit v (i - valid)"
  by (auto simp: reg_fill_def bit_simps)

lemma bit_reg_rest: "bit (reg_rest valid v) i \<longleftrightarrow> bit v (16 - valid + i) \<and> 16 - valid + i < 16"
  by (auto simp: reg_rest_def bit_simps)

lemma reg_fill_fits:
  assumes "reg_ok buf valid" and "valid + n \<le> 16"
  shows "bits_of (valid + n) (reg_fill buf valid v) = bits_of valid buf @ bits_of n v"
proof (rule nth_equalityI)
  fix i assume "i < length (bits_of (valid + n) (reg_fill buf valid v))"
  with assms show "bits_of (valid + n) (reg_fill buf valid v) ! i = (bits_of valid buf @ bits_of n v) ! i"
    by (auto simp: nth_append bit_reg_fill dest: reg_ok_bit)
qed simp

lemma reg_fill_ok:
  assumes "reg_ok buf valid" and "valid + n \<le> 16" and "take_bit n v = v"
  shows "reg_ok (reg_fill buf valid v) (valid + n)"
proof -
  have "\<not> bit (reg_fill buf valid v) i" if "valid + n \<le> i" for i
    using assms that by (fastforce simp: bit_reg_fill dest: reg_ok_bit word_bit_ge [of n v "i - valid"])
  then have "take_bit (valid + n) (reg_fill buf valid v) = reg_fill buf valid v"
    by (intro bit_word_eqI) (auto simp: bit_take_bit_iff not_le [symmetric])
  with assms(2) show ?thesis by (simp add: reg_ok_def)
qed

lemma reg_spill:
  assumes "reg_ok buf valid" and "16 < valid + n" and "n \<le> 16"
  shows "bits_of 16 (reg_fill buf valid v) @ bits_of (valid + n - 16) (reg_rest valid v)
       = bits_of valid buf @ bits_of n v"
proof (rule nth_equalityI)
  have v: "valid \<le> 16" using assms(1) by (simp add: reg_ok_def)
  then show "length (bits_of 16 (reg_fill buf valid v) @ bits_of (valid + n - 16) (reg_rest valid v))
    = length (bits_of valid buf @ bits_of n v)"
    using assms by simp
  fix i assume "i < length (bits_of 16 (reg_fill buf valid v) @ bits_of (valid + n - 16) (reg_rest valid v))"
  then have i: "i < valid + n" using assms v by simp
  show "(bits_of 16 (reg_fill buf valid v) @ bits_of (valid + n - 16) (reg_rest valid v)) ! i
    = (bits_of valid buf @ bits_of n v) ! i"
  proof (cases "i < 16")
    case True
    with assms i v show ?thesis
      by (auto simp: nth_append bit_reg_fill dest: reg_ok_bit)
  next
    case False
    then obtain j where j: "i = 16 + j" using le_Suc_ex by (metis not_less)
    have "i - valid = 16 - valid + j" using j v by simp
    moreover have "16 - valid + j < 16" using i j assms(3) v by linarith
    ultimately show ?thesis
      using j i assms v by (simp add: nth_append bit_reg_rest)
  qed
qed

lemma reg_rest_ok:
  assumes "reg_ok buf valid" and "16 < valid + n" and "n \<le> 16" and "take_bit n v = v"
  shows "reg_ok (reg_rest valid v) (valid + n - 16)"
proof -
  have v: "valid \<le> 16" using assms(1) by (simp add: reg_ok_def)
  have "\<not> bit (reg_rest valid v) i" if "valid + n - 16 \<le> i" for i
    using assms(4) that v assms(2,3)
    by (auto simp: bit_reg_rest dest!: word_bit_ge [of n v "16 - valid + i"])
  then have "take_bit (valid + n - 16) (reg_rest valid v) = reg_rest valid v"
    by (intro bit_word_eqI) (auto simp: bit_take_bit_iff not_le [symmetric])
  with assms v show ?thesis by (simp add: reg_ok_def)
qed

text \<open>A register of which only the low byte (or both bytes) is written out when the stream is
  padded to a byte boundary.\<close>

definition pad8 :: "bool list \<Rightarrow> bool list" where
  "pad8 bs = bs @ replicate ((8 - length bs mod 8) mod 8) False"

lemma length_pad8: "8 dvd length (pad8 bs)"
proof -
  have "8 dvd length bs + (8 - length bs mod 8) mod 8"
  proof (cases "length bs mod 8 = 0")
    case True
    then show ?thesis by (simp add: dvd_eq_mod_eq_0)
  next
    case False
    then have "(8 - length bs mod 8) mod 8 = 8 - length bs mod 8" by simp
    moreover have "length bs + (8 - length bs mod 8) = 8 * (length bs div 8) + 8"
      using mult_div_mod_eq [of 8 "length bs"] mod_less_divisor [of 8 "length bs"] by linarith
    ultimately show ?thesis by simp
  qed
  then show ?thesis by (simp add: pad8_def)
qed

lemma pad8_aligned [simp]: "8 dvd length bs \<Longrightarrow> pad8 bs = bs"
  by (simp add: pad8_def dvd_eq_mod_eq_0)

lemma pad8_append_aligned: "8 dvd length as \<Longrightarrow> pad8 (as @ bs) = as @ pad8 bs"
  by (auto simp: pad8_def elim!: dvdE)

lemma reg_pad:
  assumes "reg_ok buf valid" and "valid \<le> n" and "n - valid < 8" and "8 dvd n"
  shows "bits_of n buf = pad8 (bits_of valid buf)"
proof -
  obtain d where d: "n = valid + d" "d < 8" using assms(2,3) by (metis le_add_diff_inverse)
  have "(8 - valid mod 8) mod 8 = d"
  proof (cases "d = 0")
    case True
    with d assms(4) show ?thesis by (simp add: dvd_eq_mod_eq_0)
  next
    case False
    obtain q where q: "valid + d = 8 * q" using assms(4) d by (auto elim: dvdE)
    with False d have "valid = 8 * (q - 1) + (8 - d)" by (cases q) auto
    then have "valid mod 8 = 8 - d" using False by (metis diff_less mod_less mod_mult_self4 neq0_conv zero_less_numeral)
    with False d show ?thesis by simp
  qed
  then have "(8 - valid mod 8) mod 8 = n - valid" using d by simp
  moreover have "bits_of n buf = bits_of valid buf @ replicate (n - valid) False"
    using assms(1,2) by (intro nth_equalityI) (auto simp: nth_append dest: reg_ok_bit)
  ultimately show ?thesis by (simp add: pad8_def)
qed

lemma reg_short_bytes: "bits_of 8 (ucast w :: byte) @ bits_of 8 (ucast (drop_bit 8 w) :: byte) = bits_of 16 w"
  for w :: ush
  using bits_of_split [of 8 8 w] by simp

section \<open>Sequences of values\<close>

text \<open>A sequence of values, each with its width, and the bits it stands for.\<close>

definition send_all :: "(uint32 \<Rightarrow> nat \<Rightarrow> 's \<Rightarrow> 's) \<Rightarrow> (uint32 \<times> nat) list \<Rightarrow> 's \<Rightarrow> 's" where
  "send_all send vs s = fold (\<lambda>(v, n). send v n) vs s"

definition widths :: "(uint32 \<times> nat) list \<Rightarrow> nat" where
  "widths vs = sum_list (map snd vs)"

definition vbits :: "(uint32 \<times> nat) list \<Rightarrow> bool list" where
  "vbits vs = concat (map (\<lambda>(v, n). bits_of n v) vs)"

definition sendable :: "(uint32 \<times> nat) list \<Rightarrow> bool" where
  "sendable vs \<longleftrightarrow> list_all (\<lambda>(v, n). n \<le> 16 \<and> take_bit n v = v) vs"

lemma send_all_simps [simp]:
  "send_all send [] s = s"
  "send_all send ((v, n) # vs) s = send_all send vs (send v n s)"
  by (simp_all add: send_all_def)

lemma send_all_append: "send_all send (us @ vs) s = send_all send vs (send_all send us s)"
  by (simp add: send_all_def)

lemma widths_simps [simp]:
  "widths [] = 0" "widths ((v, n) # vs) = n + widths vs" "widths (us @ vs) = widths us + widths vs"
  by (simp_all add: widths_def)

lemma vbits_simps [simp]:
  "vbits [] = []" "vbits ((v, n) # vs) = bits_of n v @ vbits vs" "vbits (us @ vs) = vbits us @ vbits vs"
  by (simp_all add: vbits_def)

lemma sendable_simps [simp]:
  "sendable []"
  "sendable ((v, n) # vs) \<longleftrightarrow> n \<le> 16 \<and> take_bit n v = v \<and> sendable vs"
  "sendable (us @ vs) \<longleftrightarrow> sendable us \<and> sendable vs"
  by (simp_all add: sendable_def)

lemma length_vbits [simp]: "length (vbits vs) = widths vs"
  by (induction vs) auto

section \<open>What a bit writer promises\<close>

text \<open>
  \<open>out s\<close> is everything written so far as one bit string (bytes already spilled, then the valid
  bits of the register), \<open>send v n s\<close> writes the low \<open>n\<close> bits of \<open>v\<close>, \<open>windup s\<close> pads to a byte
  boundary and empties the register, \<open>room k s\<close> says that the output buffer can take \<open>k\<close> more
  bits, whatever their grouping.  The laws are the contract of trees.c's and inflate.c's writers.
\<close>

locale bit_sink =
  fixes invar :: "'s \<Rightarrow> bool"
    and room :: "nat \<Rightarrow> 's \<Rightarrow> bool"
    and out :: "'s \<Rightarrow> bool list"
    and send :: "uint32 \<Rightarrow> nat \<Rightarrow> 's \<Rightarrow> 's"
    and windup :: "'s \<Rightarrow> 's"
  assumes out_send: "invar s \<Longrightarrow> room n s \<Longrightarrow> n \<le> 16 \<Longrightarrow> take_bit n v = v \<Longrightarrow>
      out (send v n s) = out s @ bits_of n v"
    and invar_send: "invar s \<Longrightarrow> room n s \<Longrightarrow> n \<le> 16 \<Longrightarrow> take_bit n v = v \<Longrightarrow> invar (send v n s)"
    and room_send: "invar s \<Longrightarrow> room (n + k) s \<Longrightarrow> n \<le> 16 \<Longrightarrow> take_bit n v = v \<Longrightarrow>
      room k (send v n s)"
    and room_mono: "room n s \<Longrightarrow> m \<le> n \<Longrightarrow> room m s"
    and out_windup: "invar s \<Longrightarrow> room 0 s \<Longrightarrow> out (windup s) = pad8 (out s)"
    and invar_windup: "invar s \<Longrightarrow> room 0 s \<Longrightarrow> invar (windup s)"
begin

lemma send_all_correct:
  assumes "invar s" and "room (widths vs + k) s" and "sendable vs"
  shows "out (send_all send vs s) = out s @ vbits vs \<and> invar (send_all send vs s) \<and>
    room k (send_all send vs s)"
  using assms
proof (induction vs arbitrary: s)
  case Nil
  then show ?case by simp
next
  case (Cons x vs)
  obtain v n where x: "x = (v, n)" by fastforce
  have n: "n \<le> 16" "take_bit n v = v" and vs: "sendable vs"
    using Cons.prems(3) x by auto
  have r: "room (n + (widths vs + k)) s"
    using Cons.prems(2) x by (simp add: ac_simps)
  then have rn: "room n s" by (rule room_mono) simp
  have "invar (send v n s)" "room (widths vs + k) (send v n s)"
    using invar_send room_send Cons.prems(1) r rn n by blast+
  from Cons.IH [OF this vs] show ?case
    using out_send [OF Cons.prems(1) rn n] x by simp
qed

end

end
