(* ===== verification/Bit_Writer.thy ===== *)
theory Bit_Writer
  imports Bit_Sink
begin

text \<open>
  The output side of trees.c: the part of \<^verbatim>\<open>deflate_state\<close> that collects the compressed bits
  (\<open>pending_buf\<close>, \<open>pending\<close>, \<open>bi_buf\<close>, \<open>bi_valid\<close>) and the routines that write to it
  (\<open>put_byte\<close>, \<open>put_short\<close>, \<open>send_bits\<close>, \<open>bi_flush\<close>, \<open>bi_windup\<close>), and \<open>bi_reverse\<close>.
  \<open>pending_buf\<close> is the whole allocated array; a write outside it is undefined behaviour in C and
  sets the ghost flag \<open>oob\<close>.  The record is extensible: every routine applies as it is to the full
  \<open>deflate_state\<close> of the later theories.  The theory shows that the writer implements the
  \<open>bit_sink\<close> contract and that it never touches the array outside the bytes it adds.
\<close>

section \<open>Model\<close>

record writer =
  pending_buf :: "byte list"
  pending :: nat
  bi_buf :: ush
  bi_valid :: nat
  oob :: bool

abbreviation (input) "Buf_size \<equiv> (16::nat)"

definition put_byte :: "byte \<Rightarrow> 'z writer_scheme \<Rightarrow> 'z writer_scheme" where
  "put_byte c s = (if pending s < length (pending_buf s)
     then s\<lparr>pending_buf := (pending_buf s)[pending s := c], pending := pending s + 1\<rparr>
     else s\<lparr>pending := pending s + 1, oob := True\<rparr>)"

definition put_short :: "ush \<Rightarrow> 'z writer_scheme \<Rightarrow> 'z writer_scheme" where
  "put_short w s = put_byte (ucast (drop_bit 8 w)) (put_byte (ucast (w AND 0xff)) s)"

definition putShortMSB :: "uint32 \<Rightarrow> 'z writer_scheme \<Rightarrow> 'z writer_scheme" where
  "putShortMSB b s = put_byte (ucast (b AND 0xff)) (put_byte (ucast (drop_bit 8 b)) s)"

definition send_bits :: "uint32 \<Rightarrow> nat \<Rightarrow> 'z writer_scheme \<Rightarrow> 'z writer_scheme" where
  "send_bits value len s =
    (if int (bi_valid s) > int Buf_size - int len
     then let s1 = s\<lparr>bi_buf := reg_fill (bi_buf s) (bi_valid s) value\<rparr>;
              s2 = put_short (bi_buf s1) s1
          in s2\<lparr>bi_buf := reg_rest (bi_valid s) value, bi_valid := bi_valid s + len - Buf_size\<rparr>
     else s\<lparr>bi_buf := reg_fill (bi_buf s) (bi_valid s) value, bi_valid := bi_valid s + len\<rparr>)"

definition bi_flush :: "'z writer_scheme \<Rightarrow> 'z writer_scheme" where
  "bi_flush s =
    (if bi_valid s = 16 then (put_short (bi_buf s) s)\<lparr>bi_buf := 0, bi_valid := 0\<rparr>
     else if bi_valid s \<ge> 8
     then (put_byte (ucast (bi_buf s)) s)\<lparr>bi_buf := drop_bit 8 (bi_buf s), bi_valid := bi_valid s - 8\<rparr>
     else s)"

definition bi_windup :: "'z writer_scheme \<Rightarrow> 'z writer_scheme" where
  "bi_windup s =
    (let s1 = (if bi_valid s > 8 then put_short (bi_buf s) s
               else if bi_valid s > 0 then put_byte (ucast (bi_buf s)) s
               else s)
     in s1\<lparr>bi_buf := 0, bi_valid := 0\<rparr>)"

text \<open>\<^verbatim>\<open>bi_reverse\<close>: the do-while loop runs at least once; \<open>--len > 0\<close> is the loop test.\<close>

fun bi_reverse_loop :: "uint32 \<Rightarrow> nat \<Rightarrow> uint32 \<Rightarrow> uint32" where
  "bi_reverse_loop code len res =
    (let res' = res OR (code AND 1); code' = drop_bit 1 code; res'' = push_bit 1 res'
     in if len - 1 > 0 then bi_reverse_loop code' (len - 1) res'' else drop_bit 1 res'')"

definition bi_reverse :: "uint32 \<Rightarrow> nat \<Rightarrow> uint32" where
  "bi_reverse code len = bi_reverse_loop code len 0"

declare bi_reverse_loop.simps [simp del]

section \<open>Abstraction and invariant\<close>

definition wout :: "'z writer_scheme \<Rightarrow> bool list" where
  "wout s = bytes_bits (take (pending s) (pending_buf s)) @ bits_of (bi_valid s) (bi_buf s)"

definition wroom :: "nat \<Rightarrow> 'z writer_scheme \<Rightarrow> bool" where
  "wroom k s \<longleftrightarrow> 8 * pending s + bi_valid s + k \<le> 8 * length (pending_buf s)"

definition winv :: "'z writer_scheme \<Rightarrow> bool" where
  "winv s \<longleftrightarrow> reg_ok (bi_buf s) (bi_valid s) \<and> \<not> oob s"

section \<open>Bytes\<close>

lemma put_byte_in:
  "pending s < length (pending_buf s) \<Longrightarrow>
   put_byte c s = s\<lparr>pending_buf := (pending_buf s)[pending s := c], pending := pending s + 1\<rparr>"
  by (simp add: put_byte_def)

lemma put_byte_frame [frame, simp]:
  "bi_buf (put_byte c s) = bi_buf s" "bi_valid (put_byte c s) = bi_valid s"
  "pending (put_byte c s) = pending s + 1"
  "length (pending_buf (put_byte c s)) = length (pending_buf s)"
  "writer.more (put_byte c s) = writer.more s"
  by (simp_all add: put_byte_def)

lemma put_short_frame [frame, simp]:
  "bi_buf (put_short w s) = bi_buf s" "bi_valid (put_short w s) = bi_valid s"
  "pending (put_short w s) = pending s + 2"
  "length (pending_buf (put_short w s)) = length (pending_buf s)"
  "writer.more (put_short w s) = writer.more s"
  by (simp_all add: put_short_def)

lemma put_byte_oob [simp]: "pending s < length (pending_buf s) \<Longrightarrow> oob (put_byte c s) = oob s"
  by (simp add: put_byte_def)

lemma put_short_oob [simp]: "pending s + 2 \<le> length (pending_buf s) \<Longrightarrow> oob (put_short w s) = oob s"
  by (simp add: put_short_def)

lemma put_byte_bytes [bitstream]:
  "pending s < length (pending_buf s) \<Longrightarrow>
   take (Suc (pending s)) (pending_buf (put_byte c s)) = take (pending s) (pending_buf s) @ [c]"
  by (simp add: put_byte_in take_list_update_Suc)

lemma put_short_bytes [bitstream]:
  assumes "pending s + 2 \<le> length (pending_buf s)"
  shows "bytes_bits (take (pending s + 2) (pending_buf (put_short w s)))
    = bytes_bits (take (pending s) (pending_buf s)) @ bits_of 16 w"
proof -
  have lo: "bits_of 8 (ucast (w AND 0xff) :: byte) = bits_of 8 (ucast w :: byte)"
    by (rule nth_equalityI) (auto simp: bit_simps mask_eq_exp_minus_1 simp flip: take_bit_eq_mask
        [of 8 w, unfolded mask_eq_exp_minus_1, simplified])
  let ?s = "put_byte (ucast (w AND 0xff)) s"
  have "take (Suc (pending ?s)) (pending_buf (put_short w s))
    = take (pending ?s) (pending_buf ?s) @ [ucast (drop_bit 8 w)]"
    unfolding put_short_def using assms by (intro put_byte_bytes) simp
  moreover have "take (pending ?s) (pending_buf ?s) = take (pending s) (pending_buf s) @ [ucast (w AND 0xff)]"
    using assms put_byte_bytes [of s] by simp
  ultimately show ?thesis
    using reg_short_bytes [of w] lo by simp
qed

text \<open>Bytes below \<open>pending\<close> and bytes from the new \<open>pending\<close> on are never changed.\<close>

lemma put_byte_nth [frame]:
  "i \<noteq> pending s \<Longrightarrow> pending_buf (put_byte c s) ! i = pending_buf s ! i"
  by (simp add: put_byte_def)

lemma put_short_nth [frame]:
  "i \<noteq> pending s \<Longrightarrow> i \<noteq> Suc (pending s) \<Longrightarrow> pending_buf (put_short w s) ! i = pending_buf s ! i"
  by (simp add: put_short_def put_byte_nth)

section \<open>send\_bits\<close>

lemma send_bits_fits:
  "bi_valid s + n \<le> 16 \<Longrightarrow> send_bits v n s =
     s\<lparr>bi_buf := reg_fill (bi_buf s) (bi_valid s) v, bi_valid := bi_valid s + n\<rparr>"
  by (simp add: send_bits_def)

lemma send_bits_spills:
  "16 < bi_valid s + n \<Longrightarrow> send_bits v n s =
     (put_short (reg_fill (bi_buf s) (bi_valid s) v) (s\<lparr>bi_buf := reg_fill (bi_buf s) (bi_valid s) v\<rparr>))
       \<lparr>bi_buf := reg_rest (bi_valid s) v, bi_valid := bi_valid s + n - 16\<rparr>"
  by (simp add: send_bits_def Let_def)

lemma send_bits_total [bitstream]:
  "8 * pending (send_bits v n s) + bi_valid (send_bits v n s) = 8 * pending s + bi_valid s + n"
  by (cases "bi_valid s + n \<le> 16") (auto simp: send_bits_fits send_bits_spills not_le)

lemma send_bits_frame [frame, simp]:
  "length (pending_buf (send_bits v n s)) = length (pending_buf s)"
  "writer.more (send_bits v n s) = writer.more s"
  by (cases "bi_valid s + n \<le> 16"; simp add: send_bits_fits send_bits_spills)+

lemma send_bits_pending_mono: "pending s \<le> pending (send_bits v n s)"
  by (cases "bi_valid s + n \<le> 16") (auto simp: send_bits_fits send_bits_spills)

lemma send_bits_nth [frame]:
  "pending (send_bits v n s) \<le> i \<Longrightarrow> pending_buf (send_bits v n s) ! i = pending_buf s ! i"
  by (cases "bi_valid s + n \<le> 16") (auto simp: send_bits_fits send_bits_spills put_short_nth)

lemma send_bits_correct:
  assumes "winv s" and "wroom n s" and "n \<le> 16" and "take_bit n v = v"
  shows "wout (send_bits v n s) = wout s @ bits_of n v" and "winv (send_bits v n s)"
proof -
  have ok: "reg_ok (bi_buf s) (bi_valid s)" and no: "\<not> oob s"
    using assms(1) by (auto simp: winv_def)
  have "wout (send_bits v n s) = wout s @ bits_of n v \<and> winv (send_bits v n s)"
  proof (cases "bi_valid s + n \<le> 16")
    case True
    then show ?thesis
      using ok no assms(4) reg_fill_fits [OF ok True] reg_fill_ok [OF ok True]
      by (simp add: send_bits_fits wout_def winv_def)
  next
    case False
    then have f: "16 < bi_valid s + n" by simp
    with assms(2) have room: "pending s + 2 \<le> length (pending_buf s)"
      by (simp add: wroom_def)
    let ?s = "s\<lparr>bi_buf := reg_fill (bi_buf s) (bi_valid s) v\<rparr>"
    have "bytes_bits (take (pending s + 2) (pending_buf (put_short (reg_fill (bi_buf s) (bi_valid s) v) ?s)))
      = bytes_bits (take (pending s) (pending_buf s)) @ bits_of 16 (reg_fill (bi_buf s) (bi_valid s) v)"
      using put_short_bytes [of ?s] room by simp
    then show ?thesis
      using ok no f room assms(3,4) reg_spill [OF ok f assms(3), of v] reg_rest_ok [OF ok f assms(3,4)]
      by (simp add: send_bits_spills wout_def winv_def)
  qed
  then show "wout (send_bits v n s) = wout s @ bits_of n v" and "winv (send_bits v n s)"
    by auto
qed

section \<open>Flushing\<close>

lemma bi_windup_frame [frame, simp]:
  "bi_buf (bi_windup s) = 0" "bi_valid (bi_windup s) = 0"
  "length (pending_buf (bi_windup s)) = length (pending_buf s)"
  "writer.more (bi_windup s) = writer.more s"
  by (simp_all add: bi_windup_def Let_def)

lemma bi_windup_correct:
  assumes "winv s" and "wroom 0 s"
  shows "wout (bi_windup s) = pad8 (wout s)" and "winv (bi_windup s)"
proof -
  have ok: "reg_ok (bi_buf s) (bi_valid s)" and no: "\<not> oob s"
    using assms(1) by (auto simp: winv_def)
  then have v: "bi_valid s \<le> 16" by (simp add: reg_ok_def)
  consider (two) "bi_valid s > 8" | (one) "0 < bi_valid s" "bi_valid s \<le> 8" | (none) "bi_valid s = 0"
    by linarith
  then have "wout (bi_windup s) = pad8 (wout s) \<and> winv (bi_windup s)"
  proof cases
    case two
    then have room: "pending s + 2 \<le> length (pending_buf s)" using assms(2) by (simp add: wroom_def)
    have "bits_of 16 (bi_buf s) = pad8 (bits_of (bi_valid s) (bi_buf s))"
      using two v by (intro reg_pad [OF ok]) auto
    then show ?thesis
      using two room no put_short_bytes [OF room, of "bi_buf s"]
      by (simp add: bi_windup_def wout_def winv_def pad8_append_aligned)
  next
    case one
    then have room: "pending s < length (pending_buf s)" using assms(2) by (simp add: wroom_def)
    have "bits_of 8 (bi_buf s) = pad8 (bits_of (bi_valid s) (bi_buf s))"
      using one by (intro reg_pad [OF ok]) auto
    then show ?thesis
      using one room no put_byte_bytes [OF room, of "ucast (bi_buf s)"]
      by (simp add: bi_windup_def wout_def winv_def pad8_append_aligned)
  next
    case none
    then show ?thesis
      using no by (simp add: bi_windup_def wout_def winv_def)
  qed
  then show "wout (bi_windup s) = pad8 (wout s)" and "winv (bi_windup s)" by auto
qed

lemma bi_flush_frame [frame, simp]:
  "length (pending_buf (bi_flush s)) = length (pending_buf s)"
  "writer.more (bi_flush s) = writer.more s"
  by (simp_all add: bi_flush_def)

lemma bi_flush_correct:
  assumes "winv s" and "wroom 0 s"
  shows "wout (bi_flush s) = wout s" and "winv (bi_flush s)" and "bi_valid (bi_flush s) < 8"
proof -
  have ok: "reg_ok (bi_buf s) (bi_valid s)" and no: "\<not> oob s"
    using assms(1) by (auto simp: winv_def)
  then have v: "bi_valid s \<le> 16" by (simp add: reg_ok_def)
  consider (two) "bi_valid s = 16" | (one) "8 \<le> bi_valid s" "bi_valid s < 16" | (none) "bi_valid s < 8"
    using v by linarith
  then have "wout (bi_flush s) = wout s \<and> winv (bi_flush s) \<and> bi_valid (bi_flush s) < 8"
  proof cases
    case two
    then have room: "pending s + 2 \<le> length (pending_buf s)" using assms(2) by (simp add: wroom_def)
    show ?thesis
      using two room no put_short_bytes [OF room, of "bi_buf s"]
      by (simp add: bi_flush_def wout_def winv_def)
  next
    case one
    then have room: "pending s < length (pending_buf s)" using assms(2) by (simp add: wroom_def)
    have "bits_of (bi_valid s) (bi_buf s) = bits_of 8 (bi_buf s) @ bits_of (bi_valid s - 8) (drop_bit 8 (bi_buf s))"
      using one bits_of_split [of 8 "bi_valid s - 8" "bi_buf s"] by simp
    moreover have "reg_ok (drop_bit 8 (bi_buf s)) (bi_valid s - 8)"
      using ok one by (auto simp: reg_ok_def take_bit_drop_bit)
    ultimately show ?thesis
      using one room no put_byte_bytes [OF room, of "ucast (bi_buf s)"]
      by (simp add: bi_flush_def wout_def winv_def)
  next
    case none
    then show ?thesis using assms(1) by (simp add: bi_flush_def)
  qed
  then show "wout (bi_flush s) = wout s" and "winv (bi_flush s)" and "bi_valid (bi_flush s) < 8" by auto
qed

lemma bi_flush_idem: "bi_valid s < 8 \<Longrightarrow> bi_flush s = s"
  by (simp add: bi_flush_def)

text \<open>The writer of trees.c keeps the \<open>bit_sink\<close> contract.\<close>

interpretation wsink: bit_sink winv wroom wout send_bits bi_windup
proof unfold_locales
  fix s :: "'z writer_scheme" and n k :: nat and v :: uint32
  assume "winv s" and "wroom (n + k) s" and "n \<le> 16" and "take_bit n v = v"
  then show "wroom k (send_bits v n s)"
    using send_bits_total [of v n s] by (simp add: wroom_def)
qed (auto simp: send_bits_correct bi_windup_correct, auto simp: wroom_def)

end
