(* ===== verification/Code_Tables.thy ===== *)
theory Code_Tables
  imports Prelude
begin

text \<open>
  The constant tables of libz_j: the code data structures of deflate.h and inftrees.h, the static
  trees and the length and distance code tables of trees.h, the extra-bit and base tables of
  trees.c and inftrees.c, and the prebuilt decoding tables of inffixed.h.  The encoder (deflate.c,
  trees.c) and the decoder (inflate.c) each have their own copy of this information in a different
  form.  The theorems state that they agree: every fixed code sent with \<open>static_ltree\<close> is looked up
  in \<open>lenfix\<close> as the same symbol, and the (code, extra bits) pair that the encoder computes for a
  match length or distance denotes that length or distance for the decoder.
\<close>

section \<open>Data structures\<close>

text \<open>\<^verbatim>\<open>struct ct_data_s\<close>: two unions, \<open>freq\<close>/\<open>code\<close> and \<open>dad\<close>/\<open>len\<close>.\<close>

record ct_data =
  fc :: ush
  dl :: ush

abbreviation (input) "Freq t \<equiv> fc t"
abbreviation (input) "Code t \<equiv> fc t"
abbreviation (input) "Len t \<equiv> dl t"

definition ct :: "ush \<times> ush \<Rightarrow> ct_data" where
  "ct p = \<lparr>fc = fst p, dl = snd p\<rparr>"

text \<open>An entry of a decoding table (\<^verbatim>\<open>code\<close> of inftrees.h, \<^verbatim>\<open>code_\<close> of deflate.h).\<close>

record code =
  c_op :: byte
  c_bits :: byte
  c_val :: ush

definition mk_code :: "byte \<times> byte \<times> ush \<Rightarrow> code" where
  "mk_code = (\<lambda>(p, b, v). \<lparr>c_op = p, c_bits = b, c_val = v\<rparr>)"

datatype codetype = CODES | LENS | DISTS

abbreviation (input) "LENGTH_CODES \<equiv> (29::nat)"
abbreviation (input) "LITERALS \<equiv> (256::nat)"
abbreviation (input) "L_CODES \<equiv> (286::nat)"
abbreviation (input) "D_CODES \<equiv> (30::nat)"
abbreviation (input) "BL_CODES \<equiv> (19::nat)"
abbreviation (input) "HEAP_SIZE \<equiv> (573::nat)"
abbreviation (input) "END_BLOCK \<equiv> (256::nat)"
abbreviation (input) "MAXBITS \<equiv> (15::nat)"

section \<open>Tables of trees.c and trees.h\<close>

text \<open>The long tables are written in rows of 32 entries.\<close>

definition extra_lbits :: "nat list" where
  "extra_lbits =
    [0, 0, 0, 0, 0, 0, 0, 0, 1, 1, 1, 1, 2, 2, 2, 2, 3, 3, 3, 3, 4, 4, 4, 4, 5, 5, 5, 5, 0]"

definition extra_dbits :: "nat list" where
  "extra_dbits =
    [0, 0, 0, 0, 1, 1, 2, 2, 3, 3, 4, 4, 5, 5, 6, 6, 7, 7, 8, 8, 9, 9, 10, 10, 11, 11, 12, 12,
     13, 13]"

definition bl_order :: "nat list" where
  "bl_order = [16, 17, 18, 0, 8, 7, 9, 6, 10, 5, 11, 4, 12, 3, 13, 2, 14, 1, 15]"

definition static_ltree_rows :: "(ush \<times> ush) list list" where
  "static_ltree_rows = [
    [
     (12, 8), (140, 8), (76, 8), (204, 8), (44, 8), (172, 8), (108, 8), (236, 8), (28, 8),
     (156, 8), (92, 8), (220, 8), (60, 8), (188, 8), (124, 8), (252, 8), (2, 8), (130, 8),
     (66, 8), (194, 8), (34, 8), (162, 8), (98, 8), (226, 8), (18, 8), (146, 8), (82, 8),
     (210, 8), (50, 8), (178, 8), (114, 8), (242, 8)],
    [
     (10, 8), (138, 8), (74, 8), (202, 8), (42, 8), (170, 8), (106, 8), (234, 8), (26, 8),
     (154, 8), (90, 8), (218, 8), (58, 8), (186, 8), (122, 8), (250, 8), (6, 8), (134, 8),
     (70, 8), (198, 8), (38, 8), (166, 8), (102, 8), (230, 8), (22, 8), (150, 8), (86, 8),
     (214, 8), (54, 8), (182, 8), (118, 8), (246, 8)],
    [
     (14, 8), (142, 8), (78, 8), (206, 8), (46, 8), (174, 8), (110, 8), (238, 8), (30, 8),
     (158, 8), (94, 8), (222, 8), (62, 8), (190, 8), (126, 8), (254, 8), (1, 8), (129, 8),
     (65, 8), (193, 8), (33, 8), (161, 8), (97, 8), (225, 8), (17, 8), (145, 8), (81, 8),
     (209, 8), (49, 8), (177, 8), (113, 8), (241, 8)],
    [
     (9, 8), (137, 8), (73, 8), (201, 8), (41, 8), (169, 8), (105, 8), (233, 8), (25, 8),
     (153, 8), (89, 8), (217, 8), (57, 8), (185, 8), (121, 8), (249, 8), (5, 8), (133, 8),
     (69, 8), (197, 8), (37, 8), (165, 8), (101, 8), (229, 8), (21, 8), (149, 8), (85, 8),
     (213, 8), (53, 8), (181, 8), (117, 8), (245, 8)],
    [
     (13, 8), (141, 8), (77, 8), (205, 8), (45, 8), (173, 8), (109, 8), (237, 8), (29, 8),
     (157, 8), (93, 8), (221, 8), (61, 8), (189, 8), (125, 8), (253, 8), (19, 9), (275, 9),
     (147, 9), (403, 9), (83, 9), (339, 9), (211, 9), (467, 9), (51, 9), (307, 9), (179, 9),
     (435, 9), (115, 9), (371, 9), (243, 9), (499, 9)],
    [
     (11, 9), (267, 9), (139, 9), (395, 9), (75, 9), (331, 9), (203, 9), (459, 9), (43, 9),
     (299, 9), (171, 9), (427, 9), (107, 9), (363, 9), (235, 9), (491, 9), (27, 9), (283, 9),
     (155, 9), (411, 9), (91, 9), (347, 9), (219, 9), (475, 9), (59, 9), (315, 9), (187, 9),
     (443, 9), (123, 9), (379, 9), (251, 9), (507, 9)],
    [
     (7, 9), (263, 9), (135, 9), (391, 9), (71, 9), (327, 9), (199, 9), (455, 9), (39, 9),
     (295, 9), (167, 9), (423, 9), (103, 9), (359, 9), (231, 9), (487, 9), (23, 9), (279, 9),
     (151, 9), (407, 9), (87, 9), (343, 9), (215, 9), (471, 9), (55, 9), (311, 9), (183, 9),
     (439, 9), (119, 9), (375, 9), (247, 9), (503, 9)],
    [
     (15, 9), (271, 9), (143, 9), (399, 9), (79, 9), (335, 9), (207, 9), (463, 9), (47, 9),
     (303, 9), (175, 9), (431, 9), (111, 9), (367, 9), (239, 9), (495, 9), (31, 9), (287, 9),
     (159, 9), (415, 9), (95, 9), (351, 9), (223, 9), (479, 9), (63, 9), (319, 9), (191, 9),
     (447, 9), (127, 9), (383, 9), (255, 9), (511, 9)],
    [
     (0, 7), (64, 7), (32, 7), (96, 7), (16, 7), (80, 7), (48, 7), (112, 7), (8, 7), (72, 7),
     (40, 7), (104, 7), (24, 7), (88, 7), (56, 7), (120, 7), (4, 7), (68, 7), (36, 7),
     (100, 7), (20, 7), (84, 7), (52, 7), (116, 7), (3, 8), (131, 8), (67, 8), (195, 8),
     (35, 8), (163, 8), (99, 8), (227, 8)]]"

definition static_ltree :: "ct_data list" where
  "static_ltree = map ct (concat static_ltree_rows)"

definition static_dtree :: "ct_data list" where
  "static_dtree = map ct [
     (0, 5), (16, 5), (8, 5), (24, 5), (4, 5), (20, 5), (12, 5), (28, 5), (2, 5), (18, 5),
     (10, 5), (26, 5), (6, 5), (22, 5), (14, 5), (30, 5), (1, 5), (17, 5), (9, 5), (25, 5),
     (5, 5), (21, 5), (13, 5), (29, 5), (3, 5), (19, 5), (11, 5), (27, 5), (7, 5), (23, 5)]"

definition j_dist_code_rows :: "nat list list" where
  "j_dist_code_rows = [
    [
     0, 1, 2, 3, 4, 4, 5, 5, 6, 6, 6, 6, 7, 7, 7, 7, 8, 8, 8, 8, 8, 8, 8, 8, 9, 9, 9, 9, 9, 9,
     9, 9],
    [
     10, 10, 10, 10, 10, 10, 10, 10, 10, 10, 10, 10, 10, 10, 10, 10, 11, 11, 11, 11, 11, 11,
     11, 11, 11, 11, 11, 11, 11, 11, 11, 11],
    [
     12, 12, 12, 12, 12, 12, 12, 12, 12, 12, 12, 12, 12, 12, 12, 12, 12, 12, 12, 12, 12, 12,
     12, 12, 12, 12, 12, 12, 12, 12, 12, 12],
    [
     13, 13, 13, 13, 13, 13, 13, 13, 13, 13, 13, 13, 13, 13, 13, 13, 13, 13, 13, 13, 13, 13,
     13, 13, 13, 13, 13, 13, 13, 13, 13, 13],
    [
     14, 14, 14, 14, 14, 14, 14, 14, 14, 14, 14, 14, 14, 14, 14, 14, 14, 14, 14, 14, 14, 14,
     14, 14, 14, 14, 14, 14, 14, 14, 14, 14],
    [
     14, 14, 14, 14, 14, 14, 14, 14, 14, 14, 14, 14, 14, 14, 14, 14, 14, 14, 14, 14, 14, 14,
     14, 14, 14, 14, 14, 14, 14, 14, 14, 14],
    [
     15, 15, 15, 15, 15, 15, 15, 15, 15, 15, 15, 15, 15, 15, 15, 15, 15, 15, 15, 15, 15, 15,
     15, 15, 15, 15, 15, 15, 15, 15, 15, 15],
    [
     15, 15, 15, 15, 15, 15, 15, 15, 15, 15, 15, 15, 15, 15, 15, 15, 15, 15, 15, 15, 15, 15,
     15, 15, 15, 15, 15, 15, 15, 15, 15, 15],
    [
     0, 0, 16, 17, 18, 18, 19, 19, 20, 20, 20, 20, 21, 21, 21, 21, 22, 22, 22, 22, 22, 22, 22,
     22, 23, 23, 23, 23, 23, 23, 23, 23],
    [
     24, 24, 24, 24, 24, 24, 24, 24, 24, 24, 24, 24, 24, 24, 24, 24, 25, 25, 25, 25, 25, 25,
     25, 25, 25, 25, 25, 25, 25, 25, 25, 25],
    [
     26, 26, 26, 26, 26, 26, 26, 26, 26, 26, 26, 26, 26, 26, 26, 26, 26, 26, 26, 26, 26, 26,
     26, 26, 26, 26, 26, 26, 26, 26, 26, 26],
    [
     27, 27, 27, 27, 27, 27, 27, 27, 27, 27, 27, 27, 27, 27, 27, 27, 27, 27, 27, 27, 27, 27,
     27, 27, 27, 27, 27, 27, 27, 27, 27, 27],
    [
     28, 28, 28, 28, 28, 28, 28, 28, 28, 28, 28, 28, 28, 28, 28, 28, 28, 28, 28, 28, 28, 28,
     28, 28, 28, 28, 28, 28, 28, 28, 28, 28],
    [
     28, 28, 28, 28, 28, 28, 28, 28, 28, 28, 28, 28, 28, 28, 28, 28, 28, 28, 28, 28, 28, 28,
     28, 28, 28, 28, 28, 28, 28, 28, 28, 28],
    [
     29, 29, 29, 29, 29, 29, 29, 29, 29, 29, 29, 29, 29, 29, 29, 29, 29, 29, 29, 29, 29, 29,
     29, 29, 29, 29, 29, 29, 29, 29, 29, 29],
    [
     29, 29, 29, 29, 29, 29, 29, 29, 29, 29, 29, 29, 29, 29, 29, 29, 29, 29, 29, 29, 29, 29,
     29, 29, 29, 29, 29, 29, 29, 29, 29, 29]]"

definition j_dist_code :: "nat list" where
  "j_dist_code = concat j_dist_code_rows"

definition j_length_code_rows :: "nat list list" where
  "j_length_code_rows = [
    [
     0, 1, 2, 3, 4, 5, 6, 7, 8, 8, 9, 9, 10, 10, 11, 11, 12, 12, 12, 12, 13, 13, 13, 13, 14,
     14, 14, 14, 15, 15, 15, 15],
    [
     16, 16, 16, 16, 16, 16, 16, 16, 17, 17, 17, 17, 17, 17, 17, 17, 18, 18, 18, 18, 18, 18,
     18, 18, 19, 19, 19, 19, 19, 19, 19, 19],
    [
     20, 20, 20, 20, 20, 20, 20, 20, 20, 20, 20, 20, 20, 20, 20, 20, 21, 21, 21, 21, 21, 21,
     21, 21, 21, 21, 21, 21, 21, 21, 21, 21],
    [
     22, 22, 22, 22, 22, 22, 22, 22, 22, 22, 22, 22, 22, 22, 22, 22, 23, 23, 23, 23, 23, 23,
     23, 23, 23, 23, 23, 23, 23, 23, 23, 23],
    [
     24, 24, 24, 24, 24, 24, 24, 24, 24, 24, 24, 24, 24, 24, 24, 24, 24, 24, 24, 24, 24, 24,
     24, 24, 24, 24, 24, 24, 24, 24, 24, 24],
    [
     25, 25, 25, 25, 25, 25, 25, 25, 25, 25, 25, 25, 25, 25, 25, 25, 25, 25, 25, 25, 25, 25,
     25, 25, 25, 25, 25, 25, 25, 25, 25, 25],
    [
     26, 26, 26, 26, 26, 26, 26, 26, 26, 26, 26, 26, 26, 26, 26, 26, 26, 26, 26, 26, 26, 26,
     26, 26, 26, 26, 26, 26, 26, 26, 26, 26],
    [
     27, 27, 27, 27, 27, 27, 27, 27, 27, 27, 27, 27, 27, 27, 27, 27, 27, 27, 27, 27, 27, 27,
     27, 27, 27, 27, 27, 27, 27, 27, 27, 28]]"

definition j_length_code :: "nat list" where
  "j_length_code = concat j_length_code_rows"

definition base_length :: "nat list" where
  "base_length = [
     0, 1, 2, 3, 4, 5, 6, 7, 8, 10, 12, 14, 16, 20, 24, 28, 32, 40, 48, 56, 64, 80, 96, 112,
     128, 160, 192, 224, 0]"

definition base_dist :: "nat list" where
  "base_dist = [
     0, 1, 2, 3, 4, 6, 8, 12, 16, 24, 32, 48, 64, 96, 128, 192, 256, 384, 512, 768, 1024, 1536,
     2048, 3072, 4096, 6144, 8192, 12288, 16384, 24576]"

text \<open>\<^verbatim>\<open>d_code\<close> of deflate.h; its argument is the distance minus one.\<close>

definition d_code :: "nat \<Rightarrow> nat" where
  "d_code dist = (if dist < 256 then j_dist_code ! dist else j_dist_code ! (256 + dist div 128))"

section \<open>Tables of inftrees.c and inffixed.h\<close>

definition lbase :: "ush list" where
  "lbase = [3, 4, 5, 6, 7, 8, 9, 10, 11, 13, 15, 17, 19, 23, 27, 31,
     35, 43, 51, 59, 67, 83, 99, 115, 131, 163, 195, 227, 258, 0, 0]"

definition lext :: "ush list" where
  "lext = [16, 16, 16, 16, 16, 16, 16, 16, 17, 17, 17, 17, 18, 18, 18, 18,
     19, 19, 19, 19, 20, 20, 20, 20, 21, 21, 21, 21, 16, 194, 65]"

definition dbase :: "ush list" where
  "dbase = [1, 2, 3, 4, 5, 7, 9, 13, 17, 25, 33, 49, 65, 97, 129, 193,
     257, 385, 513, 769, 1025, 1537, 2049, 3073, 4097, 6145,
     8193, 12289, 16385, 24577, 0, 0]"

definition dext :: "ush list" where
  "dext = [16, 16, 16, 16, 17, 17, 18, 18, 19, 19, 20, 20, 21, 21, 22, 22,
     23, 23, 24, 24, 25, 25, 26, 26, 27, 27, 28, 28, 29, 29, 64, 64]"

definition lenfix_rows :: "(byte \<times> byte \<times> ush) list list" where
  "lenfix_rows = [
    [
     (96, 7, 0), (0, 8, 80), (0, 8, 16), (20, 8, 115), (18, 7, 31), (0, 8, 112), (0, 8, 48),
     (0, 9, 192), (16, 7, 10), (0, 8, 96), (0, 8, 32), (0, 9, 160), (0, 8, 0), (0, 8, 128),
     (0, 8, 64), (0, 9, 224), (16, 7, 6), (0, 8, 88), (0, 8, 24), (0, 9, 144), (19, 7, 59),
     (0, 8, 120), (0, 8, 56), (0, 9, 208), (17, 7, 17), (0, 8, 104), (0, 8, 40), (0, 9, 176),
     (0, 8, 8), (0, 8, 136), (0, 8, 72), (0, 9, 240)],
    [
     (16, 7, 4), (0, 8, 84), (0, 8, 20), (21, 8, 227), (19, 7, 43), (0, 8, 116), (0, 8, 52),
     (0, 9, 200), (17, 7, 13), (0, 8, 100), (0, 8, 36), (0, 9, 168), (0, 8, 4), (0, 8, 132),
     (0, 8, 68), (0, 9, 232), (16, 7, 8), (0, 8, 92), (0, 8, 28), (0, 9, 152), (20, 7, 83),
     (0, 8, 124), (0, 8, 60), (0, 9, 216), (18, 7, 23), (0, 8, 108), (0, 8, 44), (0, 9, 184),
     (0, 8, 12), (0, 8, 140), (0, 8, 76), (0, 9, 248)],
    [
     (16, 7, 3), (0, 8, 82), (0, 8, 18), (21, 8, 163), (19, 7, 35), (0, 8, 114), (0, 8, 50),
     (0, 9, 196), (17, 7, 11), (0, 8, 98), (0, 8, 34), (0, 9, 164), (0, 8, 2), (0, 8, 130),
     (0, 8, 66), (0, 9, 228), (16, 7, 7), (0, 8, 90), (0, 8, 26), (0, 9, 148), (20, 7, 67),
     (0, 8, 122), (0, 8, 58), (0, 9, 212), (18, 7, 19), (0, 8, 106), (0, 8, 42), (0, 9, 180),
     (0, 8, 10), (0, 8, 138), (0, 8, 74), (0, 9, 244)],
    [
     (16, 7, 5), (0, 8, 86), (0, 8, 22), (64, 8, 0), (19, 7, 51), (0, 8, 118), (0, 8, 54),
     (0, 9, 204), (17, 7, 15), (0, 8, 102), (0, 8, 38), (0, 9, 172), (0, 8, 6), (0, 8, 134),
     (0, 8, 70), (0, 9, 236), (16, 7, 9), (0, 8, 94), (0, 8, 30), (0, 9, 156), (20, 7, 99),
     (0, 8, 126), (0, 8, 62), (0, 9, 220), (18, 7, 27), (0, 8, 110), (0, 8, 46), (0, 9, 188),
     (0, 8, 14), (0, 8, 142), (0, 8, 78), (0, 9, 252)],
    [
     (96, 7, 0), (0, 8, 81), (0, 8, 17), (21, 8, 131), (18, 7, 31), (0, 8, 113), (0, 8, 49),
     (0, 9, 194), (16, 7, 10), (0, 8, 97), (0, 8, 33), (0, 9, 162), (0, 8, 1), (0, 8, 129),
     (0, 8, 65), (0, 9, 226), (16, 7, 6), (0, 8, 89), (0, 8, 25), (0, 9, 146), (19, 7, 59),
     (0, 8, 121), (0, 8, 57), (0, 9, 210), (17, 7, 17), (0, 8, 105), (0, 8, 41), (0, 9, 178),
     (0, 8, 9), (0, 8, 137), (0, 8, 73), (0, 9, 242)],
    [
     (16, 7, 4), (0, 8, 85), (0, 8, 21), (16, 8, 258), (19, 7, 43), (0, 8, 117), (0, 8, 53),
     (0, 9, 202), (17, 7, 13), (0, 8, 101), (0, 8, 37), (0, 9, 170), (0, 8, 5), (0, 8, 133),
     (0, 8, 69), (0, 9, 234), (16, 7, 8), (0, 8, 93), (0, 8, 29), (0, 9, 154), (20, 7, 83),
     (0, 8, 125), (0, 8, 61), (0, 9, 218), (18, 7, 23), (0, 8, 109), (0, 8, 45), (0, 9, 186),
     (0, 8, 13), (0, 8, 141), (0, 8, 77), (0, 9, 250)],
    [
     (16, 7, 3), (0, 8, 83), (0, 8, 19), (21, 8, 195), (19, 7, 35), (0, 8, 115), (0, 8, 51),
     (0, 9, 198), (17, 7, 11), (0, 8, 99), (0, 8, 35), (0, 9, 166), (0, 8, 3), (0, 8, 131),
     (0, 8, 67), (0, 9, 230), (16, 7, 7), (0, 8, 91), (0, 8, 27), (0, 9, 150), (20, 7, 67),
     (0, 8, 123), (0, 8, 59), (0, 9, 214), (18, 7, 19), (0, 8, 107), (0, 8, 43), (0, 9, 182),
     (0, 8, 11), (0, 8, 139), (0, 8, 75), (0, 9, 246)],
    [
     (16, 7, 5), (0, 8, 87), (0, 8, 23), (64, 8, 0), (19, 7, 51), (0, 8, 119), (0, 8, 55),
     (0, 9, 206), (17, 7, 15), (0, 8, 103), (0, 8, 39), (0, 9, 174), (0, 8, 7), (0, 8, 135),
     (0, 8, 71), (0, 9, 238), (16, 7, 9), (0, 8, 95), (0, 8, 31), (0, 9, 158), (20, 7, 99),
     (0, 8, 127), (0, 8, 63), (0, 9, 222), (18, 7, 27), (0, 8, 111), (0, 8, 47), (0, 9, 190),
     (0, 8, 15), (0, 8, 143), (0, 8, 79), (0, 9, 254)],
    [
     (96, 7, 0), (0, 8, 80), (0, 8, 16), (20, 8, 115), (18, 7, 31), (0, 8, 112), (0, 8, 48),
     (0, 9, 193), (16, 7, 10), (0, 8, 96), (0, 8, 32), (0, 9, 161), (0, 8, 0), (0, 8, 128),
     (0, 8, 64), (0, 9, 225), (16, 7, 6), (0, 8, 88), (0, 8, 24), (0, 9, 145), (19, 7, 59),
     (0, 8, 120), (0, 8, 56), (0, 9, 209), (17, 7, 17), (0, 8, 104), (0, 8, 40), (0, 9, 177),
     (0, 8, 8), (0, 8, 136), (0, 8, 72), (0, 9, 241)],
    [
     (16, 7, 4), (0, 8, 84), (0, 8, 20), (21, 8, 227), (19, 7, 43), (0, 8, 116), (0, 8, 52),
     (0, 9, 201), (17, 7, 13), (0, 8, 100), (0, 8, 36), (0, 9, 169), (0, 8, 4), (0, 8, 132),
     (0, 8, 68), (0, 9, 233), (16, 7, 8), (0, 8, 92), (0, 8, 28), (0, 9, 153), (20, 7, 83),
     (0, 8, 124), (0, 8, 60), (0, 9, 217), (18, 7, 23), (0, 8, 108), (0, 8, 44), (0, 9, 185),
     (0, 8, 12), (0, 8, 140), (0, 8, 76), (0, 9, 249)],
    [
     (16, 7, 3), (0, 8, 82), (0, 8, 18), (21, 8, 163), (19, 7, 35), (0, 8, 114), (0, 8, 50),
     (0, 9, 197), (17, 7, 11), (0, 8, 98), (0, 8, 34), (0, 9, 165), (0, 8, 2), (0, 8, 130),
     (0, 8, 66), (0, 9, 229), (16, 7, 7), (0, 8, 90), (0, 8, 26), (0, 9, 149), (20, 7, 67),
     (0, 8, 122), (0, 8, 58), (0, 9, 213), (18, 7, 19), (0, 8, 106), (0, 8, 42), (0, 9, 181),
     (0, 8, 10), (0, 8, 138), (0, 8, 74), (0, 9, 245)],
    [
     (16, 7, 5), (0, 8, 86), (0, 8, 22), (64, 8, 0), (19, 7, 51), (0, 8, 118), (0, 8, 54),
     (0, 9, 205), (17, 7, 15), (0, 8, 102), (0, 8, 38), (0, 9, 173), (0, 8, 6), (0, 8, 134),
     (0, 8, 70), (0, 9, 237), (16, 7, 9), (0, 8, 94), (0, 8, 30), (0, 9, 157), (20, 7, 99),
     (0, 8, 126), (0, 8, 62), (0, 9, 221), (18, 7, 27), (0, 8, 110), (0, 8, 46), (0, 9, 189),
     (0, 8, 14), (0, 8, 142), (0, 8, 78), (0, 9, 253)],
    [
     (96, 7, 0), (0, 8, 81), (0, 8, 17), (21, 8, 131), (18, 7, 31), (0, 8, 113), (0, 8, 49),
     (0, 9, 195), (16, 7, 10), (0, 8, 97), (0, 8, 33), (0, 9, 163), (0, 8, 1), (0, 8, 129),
     (0, 8, 65), (0, 9, 227), (16, 7, 6), (0, 8, 89), (0, 8, 25), (0, 9, 147), (19, 7, 59),
     (0, 8, 121), (0, 8, 57), (0, 9, 211), (17, 7, 17), (0, 8, 105), (0, 8, 41), (0, 9, 179),
     (0, 8, 9), (0, 8, 137), (0, 8, 73), (0, 9, 243)],
    [
     (16, 7, 4), (0, 8, 85), (0, 8, 21), (16, 8, 258), (19, 7, 43), (0, 8, 117), (0, 8, 53),
     (0, 9, 203), (17, 7, 13), (0, 8, 101), (0, 8, 37), (0, 9, 171), (0, 8, 5), (0, 8, 133),
     (0, 8, 69), (0, 9, 235), (16, 7, 8), (0, 8, 93), (0, 8, 29), (0, 9, 155), (20, 7, 83),
     (0, 8, 125), (0, 8, 61), (0, 9, 219), (18, 7, 23), (0, 8, 109), (0, 8, 45), (0, 9, 187),
     (0, 8, 13), (0, 8, 141), (0, 8, 77), (0, 9, 251)],
    [
     (16, 7, 3), (0, 8, 83), (0, 8, 19), (21, 8, 195), (19, 7, 35), (0, 8, 115), (0, 8, 51),
     (0, 9, 199), (17, 7, 11), (0, 8, 99), (0, 8, 35), (0, 9, 167), (0, 8, 3), (0, 8, 131),
     (0, 8, 67), (0, 9, 231), (16, 7, 7), (0, 8, 91), (0, 8, 27), (0, 9, 151), (20, 7, 67),
     (0, 8, 123), (0, 8, 59), (0, 9, 215), (18, 7, 19), (0, 8, 107), (0, 8, 43), (0, 9, 183),
     (0, 8, 11), (0, 8, 139), (0, 8, 75), (0, 9, 247)],
    [
     (16, 7, 5), (0, 8, 87), (0, 8, 23), (64, 8, 0), (19, 7, 51), (0, 8, 119), (0, 8, 55),
     (0, 9, 207), (17, 7, 15), (0, 8, 103), (0, 8, 39), (0, 9, 175), (0, 8, 7), (0, 8, 135),
     (0, 8, 71), (0, 9, 239), (16, 7, 9), (0, 8, 95), (0, 8, 31), (0, 9, 159), (20, 7, 99),
     (0, 8, 127), (0, 8, 63), (0, 9, 223), (18, 7, 27), (0, 8, 111), (0, 8, 47), (0, 9, 191),
     (0, 8, 15), (0, 8, 143), (0, 8, 79), (0, 9, 255)]]"

definition lenfix :: "code list" where
  "lenfix = map mk_code (concat lenfix_rows)"

definition distfix :: "code list" where
  "distfix = map mk_code [
     (16, 5, 1), (23, 5, 257), (19, 5, 17), (27, 5, 4097), (17, 5, 5), (25, 5, 1025),
     (21, 5, 65), (29, 5, 16385), (16, 5, 3), (24, 5, 513), (20, 5, 33), (28, 5, 8193),
     (18, 5, 9), (26, 5, 2049), (22, 5, 129), (64, 5, 0), (16, 5, 2), (23, 5, 385),
     (19, 5, 25), (27, 5, 6145), (17, 5, 7), (25, 5, 1537), (21, 5, 97), (29, 5, 24577),
     (16, 5, 4), (24, 5, 769), (20, 5, 49), (28, 5, 12289), (18, 5, 13), (26, 5, 3073),
     (22, 5, 193), (64, 5, 0)]"

section \<open>Bit reversal\<close>

fun rev_bits :: "nat \<Rightarrow> nat \<Rightarrow> nat" where
  "rev_bits 0 x = 0"
| "rev_bits (Suc n) x = (x mod 2) * 2 ^ n + rev_bits n (x div 2)"

lemma rev_bits_less: "rev_bits n x < 2 ^ n"
proof (induction n arbitrary: x)
  case (Suc n)
  have "x mod 2 * 2 ^ n \<le> 1 * 2 ^ n" by (intro mult_right_mono) auto
  with Suc.IH [of "x div 2"] have "x mod 2 * 2 ^ n + rev_bits n (x div 2) < 2 ^ n + 2 ^ n" by linarith
  then show ?case by simp
qed simp

lemma rev_bits_add: "rev_bits (m + k) x = rev_bits m x * 2 ^ k + rev_bits k (x div 2 ^ m)"
  by (induction m arbitrary: x) (simp_all add: algebra_simps power_add div_mult2_eq)

lemma rev_bits_prefix: "m \<le> n \<Longrightarrow> rev_bits n x div 2 ^ (n - m) = rev_bits m x"
  using rev_bits_add [of m "n - m" x] rev_bits_less [of "n - m" "x div 2 ^ m"] by simp

lemma rev_bits_val_of: "rev_bits n x = val_of (rev (bits_of n x))"
proof (induction n arbitrary: x)
  case (Suc n)
  have "bits_of (Suc n) x = odd x # bits_of n (x div 2)"
    by (rule nth_equalityI) (auto simp: nth_Cons bit_0 bit_Suc split: nat.split)
  with Suc.IH [of "x div 2"] show ?case
    by (simp add: val_of_append mod2_eq_if)
qed simp

lemma rev_bits_mod: "rev_bits n (x mod 2 ^ n) = rev_bits n x"
proof -
  have "bits_of n (take_bit n x) = bits_of n x"
    by (rule nth_equalityI) (simp_all add: bit_take_bit_iff)
  then show ?thesis by (simp add: rev_bits_val_of take_bit_eq_mod)
qed

lemma rev_bits_rev_bits: "rev_bits n (rev_bits n x) = x mod 2 ^ n"
proof -
  have "bits_of n (val_of (rev (bits_of n x))) = rev (bits_of n x)"
    using bits_of_val_of [of "rev (bits_of n x)"] by simp
  then show ?thesis
    by (simp add: rev_bits_val_of val_of_bits_of take_bit_eq_mod)
qed

lemma rev_bits_unfold:
  "rev_bits 9 x = rev_bits (Suc (Suc (Suc (Suc (Suc (Suc (Suc (Suc (Suc 0))))))))) x"
  "rev_bits 8 x = rev_bits (Suc (Suc (Suc (Suc (Suc (Suc (Suc (Suc 0)))))))) x"
  "rev_bits 7 x = rev_bits (Suc (Suc (Suc (Suc (Suc (Suc (Suc 0))))))) x"
  "rev_bits 5 x = rev_bits (Suc (Suc (Suc (Suc (Suc 0))))) x"
  by (simp_all only: numeral_eq_Suc pred_numeral_simps BitM.simps)

lemma rev_bits_numerals:
  "rev_bits 9 x = (x mod 2) * 256 + (x div 2 mod 2) * 128 + (x div 4 mod 2) * 64
    + (x div 8 mod 2) * 32 + (x div 16 mod 2) * 16 + (x div 32 mod 2) * 8 + (x div 64 mod 2) * 4
    + (x div 128 mod 2) * 2 + x div 256 mod 2"
  "rev_bits 8 x = (x mod 2) * 128 + (x div 2 mod 2) * 64 + (x div 4 mod 2) * 32 + (x div 8 mod 2) * 16
    + (x div 16 mod 2) * 8 + (x div 32 mod 2) * 4 + (x div 64 mod 2) * 2 + x div 128 mod 2"
  "rev_bits 7 x = (x mod 2) * 64 + (x div 2 mod 2) * 32 + (x div 4 mod 2) * 16 + (x div 8 mod 2) * 8
    + (x div 16 mod 2) * 4 + (x div 32 mod 2) * 2 + x div 64 mod 2"
  "rev_bits 5 x = (x mod 2) * 16 + (x div 2 mod 2) * 8 + (x div 4 mod 2) * 4
    + (x div 8 mod 2) * 2 + x div 16 mod 2"
  by (simp_all only: rev_bits_unfold rev_bits.simps div_mult2_eq [symmetric]) simp_all

section \<open>The fixed code of RFC 1951\<close>

text \<open>Section 3.2.6 of the RFC: the lengths of the fixed literal/length code and its code words,
  most significant bit first; the stream carries code words with their bits reversed.\<close>

definition fixed_len :: "nat \<Rightarrow> nat" where
  "fixed_len c = (if c < 144 then 8 else if c < 256 then 9 else if c < 280 then 7 else 8)"

definition fixed_code :: "nat \<Rightarrow> nat" where
  "fixed_code c = (if c < 144 then 48 + c else if c < 256 then 400 + (c - 144)
     else if c < 280 then c - 256 else 192 + (c - 280))"

text \<open>The symbol selected by the next nine bits of the stream, the bits given most significant
  first and least significant first.\<close>

definition fixed_sym_rev :: "nat \<Rightarrow> nat" where
  "fixed_sym_rev r = (if r < 96 then 256 + r div 4 else if r < 384 then r div 2 - 48
     else if r < 400 then 280 + (r div 2 - 192) else 144 + (r - 400))"

definition fixed_sym :: "nat \<Rightarrow> nat" where
  "fixed_sym x = fixed_sym_rev (rev_bits 9 x)"

lemma fixed_sym_code:
  assumes "c < 288" and "x mod 2 ^ fixed_len c = rev_bits (fixed_len c) (fixed_code c)"
  shows "fixed_sym x = c"
proof -
  let ?n = "fixed_len c" and ?r = "rev_bits 9 x"
  have n: "?n \<le> 9" by (simp add: fixed_len_def)
  have "fixed_code c < 2 ^ ?n" using assms(1) by (auto simp: fixed_code_def fixed_len_def)
  then have "rev_bits ?n (x mod 2 ^ ?n) = fixed_code c"
    using assms(2) by (simp add: rev_bits_rev_bits)
  then have d: "?r div 2 ^ (9 - ?n) = fixed_code c"
    using rev_bits_prefix [OF n] by (simp add: rev_bits_mod)
  show ?thesis
  proof -
    consider "c < 144" | "144 \<le> c" "c < 256" | "256 \<le> c" "c < 280" | "280 \<le> c" by linarith
    then show ?thesis
      by cases (use d assms(1) in \<open>auto simp: fixed_sym_def fixed_sym_rev_def fixed_len_def fixed_code_def\<close>)
  qed
qed

text \<open>The decoding table entry that stands for a literal/length symbol: literals carry the byte,
  256 is the end of block, 257 to 285 carry base and extra bits, 286 and 287 are invalid.\<close>

definition fixed_entry :: "nat \<Rightarrow> code" where
  "fixed_entry c = mk_code
    (if c < 256 then (0, of_nat (fixed_len c), of_nat c)
     else if c = 256 then (96, 7, 0)
     else if c < 286 then (ucast (lext ! (c - 257)), of_nat (fixed_len c), lbase ! (c - 257))
     else (64, 8, 0))"

section \<open>Evaluation of the tables\<close>

text \<open>Each check below is a predicate on one (index, entry) pair, evaluated on every entry, one row
  of the table after the other.\<close>

lemma list_all_indexed_rows:
  "list_all P (indexed n (concat [])) \<longleftrightarrow> True"
  "length r = 32 \<Longrightarrow> list_all P (indexed n (concat (r # rs))) \<longleftrightarrow>
     list_all P (indexed n r) \<and> list_all P (indexed (n + 32) (concat rs))"
proof -
  have "indexed n (as @ bs) = indexed n as @ indexed (n + length as) bs" for n and as bs :: "'a list"
    by (induction as arbitrary: n) simp_all
  then show "length r = 32 \<Longrightarrow> list_all P (indexed n (concat (r # rs))) \<longleftrightarrow>
     list_all P (indexed n r) \<and> list_all P (indexed (n + 32) (concat rs))" by simp
qed simp

lemma list_all_indexed_map:
  "list_all P (indexed n (map f xs)) \<longleftrightarrow> list_all (\<lambda>(i, x). P (i, f x)) (indexed n xs)"
  by (induction xs arbitrary: n) auto

definition lenfix_ok :: "nat \<times> byte \<times> byte \<times> ush \<Rightarrow> bool" where
  "lenfix_ok = (\<lambda>(x, e). mk_code e = fixed_entry (fixed_sym x))"

definition static_ltree_ok :: "nat \<times> ush \<times> ush \<Rightarrow> bool" where
  "static_ltree_ok = (\<lambda>(c, t, l).
     unat l = fixed_len c \<and> unat t = rev_bits (fixed_len c) (fixed_code c))"

definition static_dtree_ok :: "nat \<times> ush \<times> ush \<Rightarrow> bool" where
  "static_dtree_ok = (\<lambda>(c, t, l). l = 5 \<and> unat t = rev_bits 5 c \<and>
     distfix ! unat t = mk_code (ucast (dext ! c), 5, dbase ! c))"

definition length_code_ok :: "nat \<times> nat \<Rightarrow> bool" where
  "length_code_ok = (\<lambda>(lc, code). code < LENGTH_CODES \<and>
     (if extra_lbits ! code = 0 then unat (lbase ! code) = lc + 3
      else base_length ! code \<le> lc \<and> lc < base_length ! code + 2 ^ (extra_lbits ! code)))"

text \<open>The entry of \<open>j_dist_code\<close> at \<open>i\<close> covers the distances minus one in an interval: the single
  value \<open>i\<close> below 256, and 128 consecutive values above.  Entries 256 and 257 are never used.\<close>

definition dist_code_ok :: "nat \<times> nat \<Rightarrow> bool" where
  "dist_code_ok = (\<lambda>(i, code). i = 256 \<or> i = 257 \<or> code < D_CODES \<and>
     (if i < 256 then base_dist ! code \<le> i \<and> i < base_dist ! code + 2 ^ (extra_dbits ! code)
      else base_dist ! code \<le> 128 * (i - 256) \<and>
           128 * (i - 256) + 127 < base_dist ! code + 2 ^ (extra_dbits ! code)))"

lemmas table_ok_pairs =
  lenfix_ok_def [THEN fun_cong, of "(x, e)" for x e, unfolded prod.case]
  static_ltree_ok_def [THEN fun_cong, of "(x, e)" for x e, unfolded prod.case]
  static_dtree_ok_def [THEN fun_cong, of "(x, e)" for x e, unfolded prod.case]
  length_code_ok_def [THEN fun_cong, of "(x, e)" for x e, unfolded prod.case]
  dist_code_ok_def [THEN fun_cong, of "(x, e)" for x e, unfolded prod.case]

lemma lenfix_rows_ok: "list_all lenfix_ok (indexed 0 (concat lenfix_rows))"
  by (simp add: lenfix_rows_def list_all_indexed_rows table_ok_pairs fixed_entry_def fixed_sym_def
      fixed_sym_rev_def rev_bits_numerals fixed_len_def mk_code_def lext_def lbase_def del: concat.simps)

lemma static_ltree_rows_ok: "list_all static_ltree_ok (indexed 0 (concat static_ltree_rows))"
  by (simp add: static_ltree_rows_def list_all_indexed_rows table_ok_pairs rev_bits_numerals
      fixed_len_def fixed_code_def del: concat.simps)

lemma static_dtree_ok_all: "list_all (\<lambda>(c, t). static_dtree_ok (c, Code t, Len t)) (indexed 0 static_dtree)"
  by (simp add: static_dtree_def table_ok_pairs rev_bits_numerals ct_def mk_code_def distfix_def
      dext_def dbase_def)

lemma length_code_rows_ok: "list_all length_code_ok (indexed 0 (concat j_length_code_rows))"
  by (simp add: j_length_code_rows_def list_all_indexed_rows table_ok_pairs lbase_def extra_lbits_def
      base_length_def del: concat.simps)

lemma dist_code_rows_ok: "list_all dist_code_ok (indexed 0 (concat j_dist_code_rows))"
  by (simp add: j_dist_code_rows_def list_all_indexed_rows table_ok_pairs extra_dbits_def base_dist_def
      del: concat.simps)

lemma table_lengths [simp]:
  "length lenfix = 512" "length distfix = 32" "length static_ltree = 288" "length static_dtree = 30"
  "length j_dist_code = 512" "length j_length_code = 256" "length bl_order = 19"
  "length extra_lbits = 29" "length extra_dbits = 30" "length base_length = 29" "length base_dist = 30"
  "length lbase = 31" "length lext = 31" "length dbase = 32" "length dext = 32"
  by (simp_all add: lenfix_def lenfix_rows_def distfix_def static_ltree_def static_ltree_rows_def
      static_dtree_def j_dist_code_def j_dist_code_rows_def j_length_code_def j_length_code_rows_def
      bl_order_def extra_lbits_def extra_dbits_def base_length_def base_dist_def
      lbase_def lext_def dbase_def dext_def)

text \<open>The extra-bit counts of the decoder's tables are those of the encoder plus the flag 16, and the
  bases differ by the offset of the smallest length (3) or distance (1).\<close>

definition lcode_ok :: "nat \<times> nat \<Rightarrow> bool" where
  "lcode_ok = (\<lambda>(i, e). unat (lext ! i) = 16 + e \<and> e \<le> 5 \<and>
     (e \<noteq> 0 \<longrightarrow> unat (lbase ! i) = base_length ! i + 3))"

definition dcode_ok :: "nat \<times> nat \<Rightarrow> bool" where
  "dcode_ok = (\<lambda>(i, e). unat (dext ! i) = 16 + e \<and> e \<le> 13 \<and> unat (dbase ! i) = base_dist ! i + 1)"

lemma lcode_ok_all: "list_all lcode_ok (indexed 0 extra_lbits)"
  by (simp add: extra_lbits_def lcode_ok_def lext_def lbase_def base_length_def)

lemma dcode_ok_all: "list_all dcode_ok (indexed 0 extra_dbits)"
  by (simp add: extra_dbits_def dcode_ok_def dext_def dbase_def base_dist_def)

lemma static_ltree_nth:
  assumes "c < 288"
  shows "unat (Len (static_ltree ! c)) = fixed_len c"
    and "unat (Code (static_ltree ! c)) = rev_bits (fixed_len c) (fixed_code c)"
proof -
  have len: "length (concat static_ltree_rows) = 288"
    using table_lengths(3) by (simp add: static_ltree_def)
  have "static_ltree_ok (c, concat static_ltree_rows ! c)"
    using list_all_indexed_nth [OF static_ltree_rows_ok] len assms by simp
  moreover have "static_ltree ! c = ct (concat static_ltree_rows ! c)"
    unfolding static_ltree_def using len assms by (intro nth_map) simp
  ultimately show "unat (Len (static_ltree ! c)) = fixed_len c"
    and "unat (Code (static_ltree ! c)) = rev_bits (fixed_len c) (fixed_code c)"
    by (auto simp: static_ltree_ok_def ct_def split: prod.splits)
qed

lemma lenfix_nth: "x < 512 \<Longrightarrow> lenfix ! x = fixed_entry (fixed_sym x)"
proof -
  have len: "length (concat lenfix_rows) = 512"
    using table_lengths(1) by (simp add: lenfix_def)
  assume x: "x < 512"
  have "lenfix_ok (x, concat lenfix_rows ! x)"
    using list_all_indexed_nth [OF lenfix_rows_ok] len x by simp
  moreover have "lenfix ! x = mk_code (concat lenfix_rows ! x)"
    unfolding lenfix_def using len x by (intro nth_map) simp
  ultimately show ?thesis by (simp add: lenfix_ok_def split: prod.splits)
qed

section \<open>Encoder and decoder tables agree\<close>

lemma fixed_entry_bits: "c < 288 \<Longrightarrow> unat (c_bits (fixed_entry c)) = fixed_len c"
  by (auto simp: fixed_entry_def mk_code_def fixed_len_def)

text \<open>C13: Nine bits of lookahead that start with the code word of symbol \<open>c\<close> in the encoder's
  \<open>static_ltree\<close> select, in the decoder's \<open>lenfix\<close>, the table entry of that same symbol \<open>c\<close>, and the
  number of bits the decoder drops is the length of the code word.\<close>

theorem fixed_literal_lookup:
  assumes "c < 288" and "x < 512"
    and "x mod 2 ^ unat (Len (static_ltree ! c)) = unat (Code (static_ltree ! c))"
  shows "lenfix ! x = fixed_entry c \<and>
    unat (c_bits (lenfix ! x)) = unat (Len (static_ltree ! c))"
proof -
  have "lenfix ! x = fixed_entry c"
    using assms fixed_sym_code [of c x] by (simp add: static_ltree_nth lenfix_nth)
  with assms(1) show ?thesis by (simp add: fixed_entry_bits static_ltree_nth)
qed

theorem fixed_literal_lookup_witness:
  "lenfix ! 0x1b2 = fixed_entry 0x1d \<and> unat (c_bits (lenfix ! 0x1b2)) = unat (Len (static_ltree ! 0x1d))"
proof -
  have "(0x1b2::nat) mod 2 ^ unat (Len (static_ltree ! 0x1d)) = unat (Code (static_ltree ! 0x1d))"
    by (simp add: static_ltree_nth fixed_len_def fixed_code_def rev_bits_numerals)
  then show ?thesis by (intro fixed_literal_lookup) simp_all
qed

text \<open>C14: The five-bit distance codes that the encoder sends from \<open>static_dtree\<close> select, in the
  decoder's \<open>distfix\<close>, the entry with the base and the extra bits of the same distance code.\<close>

theorem fixed_distance_lookup:
  assumes "c < D_CODES"
  shows "Len (static_dtree ! c) = 5 \<and> unat (Code (static_dtree ! c)) < 32 \<and>
    distfix ! unat (Code (static_dtree ! c)) = mk_code (ucast (dext ! c), 5, dbase ! c)"
proof -
  have "static_dtree_ok (c, Code (static_dtree ! c), Len (static_dtree ! c))"
    using list_all_indexed_nth [OF static_dtree_ok_all, of c] assms by simp
  then show ?thesis
    using rev_bits_less [of 5 c] by (auto simp: static_dtree_ok_def)
qed

theorem fixed_distance_lookup_witness:
  "distfix ! unat (Code (static_dtree ! 29)) = mk_code (ucast (dext ! 29), 5, dbase ! 29)"
  using fixed_distance_lookup [of 29] by simp

lemma length_code_facts:
  assumes "lc < 256"
  shows "j_length_code ! lc < LENGTH_CODES" and "extra_lbits ! (j_length_code ! lc) \<le> 5"
    and "extra_lbits ! (j_length_code ! lc) \<noteq> 0 \<Longrightarrow> base_length ! (j_length_code ! lc) \<le> lc"
    and "extra_lbits ! (j_length_code ! lc) \<noteq> 0 \<Longrightarrow>
      lc - base_length ! (j_length_code ! lc) < 2 ^ (extra_lbits ! (j_length_code ! lc))"
    and "unat (lext ! (j_length_code ! lc)) = 16 + extra_lbits ! (j_length_code ! lc)"
    and "unat (lbase ! (j_length_code ! lc)) + (if extra_lbits ! (j_length_code ! lc) = 0 then 0
      else lc - base_length ! (j_length_code ! lc)) = lc + 3"
proof -
  let ?code = "j_length_code ! lc"
  have ok: "length_code_ok (lc, ?code)"
    using list_all_indexed_nth [OF length_code_rows_ok, of lc] table_lengths(6) assms
    by (simp add: j_length_code_def)
  then have "?code < 29" by (simp add: length_code_ok_def)
  then have lc: "lcode_ok (?code, extra_lbits ! ?code)"
    using list_all_indexed_nth [OF lcode_ok_all, of ?code] by simp
  show "?code < LENGTH_CODES" by fact
  show "extra_lbits ! ?code \<le> 5" and "unat (lext ! ?code) = 16 + extra_lbits ! ?code"
    using lc by (auto simp: lcode_ok_def)
  show "base_length ! ?code \<le> lc" if "extra_lbits ! ?code \<noteq> 0"
    using that ok by (auto simp: length_code_ok_def split: if_splits)
  show "lc - base_length ! ?code < 2 ^ (extra_lbits ! ?code)" if "extra_lbits ! ?code \<noteq> 0"
    using that ok by (auto simp: length_code_ok_def split: if_splits)
  show "unat (lbase ! ?code) + (if extra_lbits ! ?code = 0 then 0 else lc - base_length ! ?code) = lc + 3"
    using lc ok by (auto simp: length_code_ok_def lcode_ok_def split: if_splits)
qed

lemma dist_code_facts:
  assumes "1 \<le> dist" and "dist \<le> 32768"
  shows "d_code (dist - 1) < D_CODES" and "base_dist ! d_code (dist - 1) \<le> dist - 1"
    and "dist - 1 - base_dist ! d_code (dist - 1) < 2 ^ (extra_dbits ! d_code (dist - 1))"
    and "extra_dbits ! d_code (dist - 1) \<le> 13"
    and "unat (dext ! d_code (dist - 1)) = 16 + extra_dbits ! d_code (dist - 1)"
    and "unat (dbase ! d_code (dist - 1)) + (dist - 1 - base_dist ! d_code (dist - 1)) = dist"
proof -
  let ?d = "dist - 1" and ?code = "d_code (dist - 1)"
  have ok: "dist_code_ok (i, j_dist_code ! i)" if "i < 512" for i
    using list_all_indexed_nth [OF dist_code_rows_ok, of i] table_lengths(5) that
    by (simp add: j_dist_code_def)
  have c: "?code < 30 \<and> base_dist ! ?code \<le> ?d \<and> ?d < base_dist ! ?code + 2 ^ (extra_dbits ! ?code)"
  proof (cases "?d < 256")
    case True
    then show ?thesis using ok [of ?d] by (simp add: d_code_def dist_code_ok_def)
  next
    case False
    define k where "k = ?d div 128"
    have i: "256 + k < 512" "2 \<le> k" "128 * k \<le> ?d" "?d \<le> 128 * k + 127"
      using False assms by (auto simp: k_def)
    have code: "?code = j_dist_code ! (256 + k)"
      using False by (simp add: d_code_def k_def)
    have "dist_code_ok (256 + k, ?code)" using ok [OF i(1)] code by simp
    then have "?code < 30 \<and> base_dist ! ?code \<le> 128 * k \<and>
      128 * k + 127 < base_dist ! ?code + 2 ^ (extra_dbits ! ?code)"
      using i(2) by (auto simp: dist_code_ok_def)
    then show ?thesis using i(3,4) by linarith
  qed
  have "dcode_ok (?code, extra_dbits ! ?code)"
    using list_all_indexed_nth [OF dcode_ok_all, of ?code] c by simp
  then have dc: "unat (dext ! ?code) = 16 + extra_dbits ! ?code" "extra_dbits ! ?code \<le> 13"
    "unat (dbase ! ?code) = base_dist ! ?code + 1"
    by (auto simp: dcode_ok_def)
  show "?code < D_CODES" and "base_dist ! ?code \<le> ?d" using c by simp_all
  show "?d - base_dist ! ?code < 2 ^ (extra_dbits ! ?code)" using c by linarith
  show "extra_dbits ! ?code \<le> 13" and "unat (dext ! ?code) = 16 + extra_dbits ! ?code" using dc by simp_all
  show "unat (dbase ! ?code) + (?d - base_dist ! ?code) = dist" using c dc(3) assms(1) by linarith
qed

text \<open>C15: For every match length (stored as length minus 3 in a byte) the length code, extra bit
  count and extra value that \<open>compress_block\<close> computes from \<open>j_length_code\<close>, \<open>extra_lbits\<close> and
  \<open>base_length\<close> denote that same length under the decoder's \<open>lbase\<close> and \<open>lext\<close>.\<close>

theorem length_code_roundtrip:
  assumes "lc < 256"
  shows "let code = j_length_code ! lc; extra = extra_lbits ! code;
             v = (if extra = 0 then 0 else lc - base_length ! code)
         in code < LENGTH_CODES \<and> extra \<le> 5 \<and> v < 2 ^ extra \<and> unat (lext ! code) = 16 + extra \<and>
            unat (lbase ! code) + v = lc + 3"
  using length_code_facts [OF assms] unfolding Let_def by simp

theorem length_code_roundtrip_witness:
  "let code = j_length_code ! 200; extra = extra_lbits ! code;
       v = (if extra = 0 then 0 else 200 - base_length ! code)
   in code < LENGTH_CODES \<and> extra \<le> 5 \<and> v < 2 ^ extra \<and> unat (lext ! code) = 16 + extra \<and>
      unat (lbase ! code) + v = 203"
  using length_code_roundtrip [of 200] by simp

text \<open>C16: For every match distance from 1 to 32768 the distance code, extra bit count and extra value
  that \<open>compress_block\<close> computes from \<open>d_code\<close>, \<open>extra_dbits\<close> and \<open>base_dist\<close> denote that same distance
  under the decoder's \<open>dbase\<close> and \<open>dext\<close>.\<close>

theorem dist_code_roundtrip:
  assumes "1 \<le> dist" and "dist \<le> 32768"
  shows "let code = d_code (dist - 1); extra = extra_dbits ! code; v = dist - 1 - base_dist ! code
         in code < D_CODES \<and> extra \<le> 13 \<and> v < 2 ^ extra \<and> unat (dext ! code) = 16 + extra \<and>
            unat (dbase ! code) + v = dist"
  using dist_code_facts [OF assms] unfolding Let_def by simp

theorem dist_code_roundtrip_witness:
  "let code = d_code 32767; extra = extra_dbits ! code; v = 32767 - base_dist ! code
   in code < D_CODES \<and> extra \<le> 13 \<and> v < 2 ^ extra \<and> unat (dext ! code) = 16 + extra \<and>
      unat (dbase ! code) + v = 32768"
  using dist_code_roundtrip [of 32768] by simp

end
