(* ===== verification/Trees.thy ===== *)
theory Trees
  imports Bit_Writer Code_Tables
begin

text \<open>
  The block emitter, trees.c: the tree and symbol-buffer part of \<^verbatim>\<open>deflate_state\<close>, the tally macros
  of deflate.h that append to \<open>sym_buf\<close>, and the routines that emit a block (\<open>send_tree\<close>,
  \<open>send_all_trees\<close>, \<open>compress_block\<close>, \<open>j_tr_stored_block\<close>, \<open>j_tr_align\<close>, \<open>_tr_flush_block_my\<close>).
  \<open>sym_buf\<close> is not an array of its own: it points into \<open>pending_buf\<close> at offset \<open>sym_off\<close>, so the
  bits written and the symbols still to be read share one array, and the model keeps them shared.
  The routines are polymorphic in the fields that deflate.c adds.
\<close>

section \<open>State\<close>

text \<open>\<^verbatim>\<open>static_tree_desc_s\<close> and \<^verbatim>\<open>tree_desc_s\<close>; the pointer \<open>dyn_tree\<close> names one of the three trees
  of the state.\<close>

record static_tree_desc =
  static_tree :: "ct_data list option"
  extra_bits :: "nat list"
  extra_base :: nat
  elems :: nat
  max_length :: nat

datatype dyn_tree_ref = Dyn_ltree | Dyn_dtree | Bl_tree

record tree_desc =
  dyn_tree :: dyn_tree_ref
  max_code :: nat
  stat_desc :: static_tree_desc

definition extra_blbits :: "nat list" where
  "extra_blbits = [0, 0, 0, 0, 0, 0, 0, 0, 0, 0, 0, 0, 0, 0, 0, 0, 2, 3, 7]"

definition static_l_desc :: static_tree_desc where
  "static_l_desc = \<lparr>static_tree = Some static_ltree, extra_bits = extra_lbits,
     extra_base = LITERALS + 1, elems = L_CODES, max_length = MAXBITS\<rparr>"

definition static_d_desc :: static_tree_desc where
  "static_d_desc = \<lparr>static_tree = Some static_dtree, extra_bits = extra_dbits,
     extra_base = 0, elems = D_CODES, max_length = MAXBITS\<rparr>"

definition static_bl_desc :: static_tree_desc where
  "static_bl_desc = \<lparr>static_tree = None, extra_bits = extra_blbits,
     extra_base = 0, elems = BL_CODES, max_length = 7\<rparr>"

datatype tree_type = STORE | FIXED | DYNAMIC

record trees_state = writer +
  dyn_ltree :: "ct_data list"
  dyn_dtree :: "ct_data list"
  bl_tree :: "ct_data list"
  l_desc :: tree_desc
  d_desc :: tree_desc
  bl_desc :: tree_desc
  sym_off :: nat
  sym_next :: nat
  sym_end :: nat
  opt_len :: nat
  static_len :: nat
  matches :: nat
  ncode :: nat

abbreviation (input) "STORED_BLOCK \<equiv> (0::uint32)"
abbreviation (input) "STATIC_TREES \<equiv> (1::uint32)"
abbreviation (input) "DYN_TREES \<equiv> (2::uint32)"
abbreviation (input) "REP_3_6 \<equiv> (16::nat)"
abbreviation (input) "REPZ_3_10 \<equiv> (17::nat)"
abbreviation (input) "REPZ_11_138 \<equiv> (18::nat)"

section \<open>Operations\<close>

text \<open>\<open>Freq\<close> shares its storage with \<open>Code\<close> (\<^verbatim>\<open>union fc\<close>), so clearing it clears the code.\<close>

definition set_freqs :: "nat \<Rightarrow> ct_data list \<Rightarrow> ct_data list" where
  "set_freqs n tree = map (\<lambda>t. t\<lparr>fc := 0\<rparr>) (take n tree) @ drop n tree"

definition init_block :: "'z trees_state_scheme \<Rightarrow> 'z trees_state_scheme" where
  "init_block s =
    (let lt = set_freqs L_CODES (dyn_ltree s)
     in s\<lparr>dyn_ltree := lt[END_BLOCK := (lt ! END_BLOCK)\<lparr>fc := 1\<rparr>],
          dyn_dtree := set_freqs D_CODES (dyn_dtree s),
          bl_tree := set_freqs BL_CODES (bl_tree s),
          opt_len := 0, static_len := 0, sym_next := 0, matches := 0\<rparr>)"

definition j_tr_init :: "'z trees_state_scheme \<Rightarrow> 'z trees_state_scheme" where
  "j_tr_init s = init_block (s\<lparr>
     l_desc := (l_desc s)\<lparr>dyn_tree := Dyn_ltree, stat_desc := static_l_desc\<rparr>,
     d_desc := (d_desc s)\<lparr>dyn_tree := Dyn_dtree, stat_desc := static_d_desc\<rparr>,
     bl_desc := (bl_desc s)\<lparr>dyn_tree := Bl_tree, stat_desc := static_bl_desc\<rparr>,
     bi_buf := 0, bi_valid := 0\<rparr>)"

text \<open>\<^verbatim>\<open>s->sym_buf[s->sym_next++] = b\<close>\<close>

definition sym_put :: "byte \<Rightarrow> 'z trees_state_scheme \<Rightarrow> 'z trees_state_scheme" where
  "sym_put b s = (let i = sym_off s + sym_next s in
     if i < length (pending_buf s)
     then s\<lparr>pending_buf := (pending_buf s)[i := b], sym_next := sym_next s + 1\<rparr>
     else s\<lparr>sym_next := sym_next s + 1, oob := True\<rparr>)"

definition tr_tally_lit_my :: "uint32 \<Rightarrow> 'z trees_state_scheme \<Rightarrow> 'z trees_state_scheme \<times> bool" where
  "tr_tally_lit_my c s =
    (let s1 = sym_put (ucast c) (sym_put 0 (sym_put 0 s)) in (s1, sym_next s1 = sym_end s1))"

definition tr_tally_dist_my :: "uint32 \<Rightarrow> uint32 \<Rightarrow> 'z trees_state_scheme \<Rightarrow>
    'z trees_state_scheme \<times> bool" where
  "tr_tally_dist_my distance len s =
    (let dist = ucast distance :: ush;
         s1 = sym_put (ucast len) (sym_put (ucast (drop_bit 8 dist)) (sym_put (ucast dist) s))
     in (s1, sym_next s1 = sym_end s1))"

definition send_code :: "nat \<Rightarrow> ct_data list \<Rightarrow> 'z trees_state_scheme \<Rightarrow> 'z trees_state_scheme" where
  "send_code c tree s = send_bits (ucast (Code (tree ! c))) (unat (Len (tree ! c))) s"

fun send_code_times :: "nat \<Rightarrow> nat \<Rightarrow> ct_data list \<Rightarrow> 'z trees_state_scheme \<Rightarrow> 'z trees_state_scheme" where
  "send_code_times 0 c tree s = s"
| "send_code_times (Suc k) c tree s = send_code_times k c tree (send_code c tree s)"

text \<open>One iteration of \<open>send_tree\<close> that is not a \<open>continue\<close>: what it sends for \<open>count\<close> copies of
  \<open>curlen\<close>.\<close>

definition send_tree_run :: "int \<Rightarrow> nat \<Rightarrow> nat \<Rightarrow> nat \<Rightarrow> 'z trees_state_scheme \<Rightarrow> 'z trees_state_scheme" where
  "send_tree_run prevlen curlen count min_count s =
    (if count < min_count then send_code_times count curlen (bl_tree s) s
     else if curlen \<noteq> 0 then
       let (s1, count1) = (if int curlen \<noteq> prevlen then (send_code curlen (bl_tree s) s, count - 1)
                           else (s, count));
           s2 = send_code REP_3_6 (bl_tree s1) s1
       in send_bits (of_nat (count1 - 3)) 2 s2
     else if count \<le> 10 then send_bits (of_nat (count - 3)) 3 (send_code REPZ_3_10 (bl_tree s) s)
     else send_bits (of_nat (count - 11)) 7 (send_code REPZ_11_138 (bl_tree s) s))"

definition run_limits :: "nat \<Rightarrow> nat \<Rightarrow> nat \<times> nat" where
  "run_limits curlen nextlen =
    (if nextlen = 0 then (138, 3) else if curlen = nextlen then (6, 3) else (7, 4))"

text \<open>The loop of \<open>send_tree\<close>; the arguments are its local variables.\<close>

function send_tree_loop :: "ct_data list \<Rightarrow> int \<Rightarrow> nat \<Rightarrow> int \<Rightarrow> nat \<Rightarrow> nat \<Rightarrow> nat \<times> nat \<Rightarrow>
    'z trees_state_scheme \<Rightarrow> 'z trees_state_scheme" where
  "send_tree_loop tree mcode n prevlen nextlen count lim s =
    (if int n \<le> mcode then
       let curlen = nextlen; nextlen' = unat (Len (tree ! (n + 1))); count' = count + 1
       in if count' < fst lim \<and> curlen = nextlen'
          then send_tree_loop tree mcode (n + 1) prevlen nextlen' count' lim s
          else send_tree_loop tree mcode (n + 1) (int curlen) nextlen' 0 (run_limits curlen nextlen')
                 (send_tree_run prevlen curlen count' (snd lim) s)
     else s)"
  by auto
termination
  by (relation "measure (\<lambda>(tree, mcode, n, _). nat (mcode + 1 - int n))") auto

declare send_tree_loop.simps [simp del]

definition send_tree :: "ct_data list \<Rightarrow> int \<Rightarrow> 'z trees_state_scheme \<Rightarrow> 'z trees_state_scheme" where
  "send_tree tree mcode s =
    (let nextlen = unat (Len (tree ! 0))
     in send_tree_loop tree mcode 0 (-1) nextlen 0 (if nextlen = 0 then (138, 3) else (7, 4)) s)"

fun send_bl_lens :: "nat list \<Rightarrow> 'z trees_state_scheme \<Rightarrow> 'z trees_state_scheme" where
  "send_bl_lens [] s = s"
| "send_bl_lens (r # rs) s = send_bl_lens rs (send_bits (ucast (Len (bl_tree s ! (bl_order ! r)))) 3 s)"

definition send_all_trees :: "nat \<Rightarrow> nat \<Rightarrow> nat \<Rightarrow> 'z trees_state_scheme \<Rightarrow> 'z trees_state_scheme" where
  "send_all_trees lcodes dcodes blcodes s =
    (let s1 = send_bits (of_int (int lcodes - 257)) 5 s;
         s2 = send_bits (of_int (int dcodes - 1)) 5 s1;
         s3 = send_bits (of_int (int blcodes - 4)) 4 s2;
         s4 = send_bl_lens [0..<blcodes] s3;
         s5 = send_tree (dyn_ltree s4) (int lcodes - 1) s4
     in send_tree (dyn_dtree s5) (int dcodes - 1) s5)"

text \<open>\<^verbatim>\<open>memcpy\<close> from \<open>buf\<close> to the end of the pending bytes, both inside \<open>pending_buf\<close>; undefined when
  a region leaves the array or the two overlap.\<close>

definition copy_pending :: "nat \<Rightarrow> nat \<Rightarrow> 'z trees_state_scheme \<Rightarrow> 'z trees_state_scheme" where
  "copy_pending buf n s =
    (let p = pending s; a = pending_buf s
     in if p + n \<le> length a \<and> buf + n \<le> length a \<and> (p + n \<le> buf \<or> buf + n \<le> p)
        then s\<lparr>pending_buf := take p a @ take n (drop buf a) @ drop (p + n) a\<rparr>
        else s\<lparr>oob := True\<rparr>)"

definition j_tr_stored_block :: "nat \<Rightarrow> nat \<Rightarrow> uint32 \<Rightarrow> 'z trees_state_scheme \<Rightarrow> 'z trees_state_scheme" where
  "j_tr_stored_block buf stored_len lst s =
    (let s1 = send_bits (push_bit 1 STORED_BLOCK + lst) 3 s;
         s2 = bi_windup s1;
         s3 = put_short (of_nat stored_len) s2;
         s4 = put_short (NOT (of_nat stored_len)) s3;
         s5 = (if stored_len \<noteq> 0 then copy_pending buf stored_len s4 else s4)
     in s5\<lparr>pending := pending s5 + stored_len\<rparr>)"

definition j_tr_flush_bits :: "'z trees_state_scheme \<Rightarrow> 'z trees_state_scheme" where
  "j_tr_flush_bits s = bi_flush s"

definition j_tr_align :: "'z trees_state_scheme \<Rightarrow> 'z trees_state_scheme" where
  "j_tr_align s = bi_flush (send_code END_BLOCK static_ltree (send_bits (push_bit 1 STATIC_TREES) 3 s))"

text \<open>\<open>compress_block\<close>: \<open>send_sym\<close> is the body of the loop after the three bytes of the symbol are
  read, \<open>sym_at\<close> the reads themselves.  \<^verbatim>\<open>d_code\<close> reads beyond \<open>j_dist_code\<close> when the distance is more
  than 32768.\<close>

definition send_sym :: "ct_data list \<Rightarrow> ct_data list \<Rightarrow> nat \<Rightarrow> nat \<Rightarrow> 'z trees_state_scheme \<Rightarrow>
    'z trees_state_scheme" where
  "send_sym ltree dtree dist lc s =
    (if dist = 0 then send_code lc ltree s
     else
       let code = j_length_code ! lc;
           s1 = send_code (code + LITERALS + 1) ltree s;
           extra = extra_lbits ! code;
           s2 = (if extra \<noteq> 0 then send_bits (of_int (int lc - int (base_length ! code))) extra s1 else s1);
           dist' = dist - 1;
           dcode = d_code dist';
           s3 = send_code dcode dtree (if dist' < 32768 then s2 else s2\<lparr>oob := True\<rparr>);
           dextra = extra_dbits ! dcode
       in if dextra \<noteq> 0 then send_bits (of_int (int dist' - int (base_dist ! dcode))) dextra s3 else s3)"

definition sym_at :: "nat \<Rightarrow> 'z trees_state_scheme \<Rightarrow> nat \<times> nat" where
  "sym_at sx s =
    (let b = (\<lambda>i. unat (pending_buf s ! (sym_off s + sx + i)))
     in (b 0 + b 1 * 256, b 2))"

definition sym_read_ok :: "nat \<Rightarrow> 'z trees_state_scheme \<Rightarrow> bool" where
  "sym_read_ok sx s \<longleftrightarrow> sym_off s + sx + 3 \<le> length (pending_buf s)"

text \<open>The do-while loop; the number of symbol bytes \<open>sym_next\<close> is not changed by sending.\<close>

definition compress_step :: "ct_data list \<Rightarrow> ct_data list \<Rightarrow> nat \<Rightarrow> 'z trees_state_scheme \<Rightarrow>
    'z trees_state_scheme" where
  "compress_step ltree dtree sx s =
    (if sym_read_ok sx s then send_sym ltree dtree (fst (sym_at sx s)) (snd (sym_at sx s)) s
     else s\<lparr>oob := True\<rparr>)"

lemma more_send_bits [simp]: "writer.more (send_bits v n s) = writer.more s"
  by (fact send_bits_frame)

lemma sym_next_more: "writer.more s = writer.more t \<Longrightarrow> sym_next s = sym_next t"
  by (cases s; cases t) simp

lemma more_send_code [simp]: "writer.more (send_code c tree s) = writer.more s"
  by (simp add: send_code_def)

lemma more_send_sym [simp]: "writer.more (send_sym lt dt d lc s) = writer.more s"
  by (simp add: send_sym_def Let_def)

lemma compress_step_sym_next [simp]: "sym_next (compress_step lt dt sx s) = sym_next s"
  by (auto simp: compress_step_def intro!: sym_next_more)

function compress_loop :: "ct_data list \<Rightarrow> ct_data list \<Rightarrow> nat \<Rightarrow> 'z trees_state_scheme \<Rightarrow>
    'z trees_state_scheme" where
  "compress_loop ltree dtree sx s =
    (let s1 = compress_step ltree dtree sx s; sx' = sx + 3
     in if sx' < sym_next s1 then compress_loop ltree dtree sx' s1 else s1)"
  by auto
termination
  by (relation "measure (\<lambda>(ltree, dtree, sx, s). sym_next s - sx)") auto

declare compress_loop.simps [simp del]

definition compress_block :: "ct_data list \<Rightarrow> ct_data list \<Rightarrow> 'z trees_state_scheme \<Rightarrow>
    'z trees_state_scheme" where
  "compress_block ltree dtree s =
    (let s1 = (if sym_next s \<noteq> 0 then compress_loop ltree dtree 0 s else s)
     in send_code END_BLOCK ltree s1)"

definition tr_flush_block_my :: "nat \<Rightarrow> nat \<Rightarrow> tree_type \<Rightarrow> uint32 \<Rightarrow> 'z trees_state_scheme \<Rightarrow>
    'z trees_state_scheme" where
  "tr_flush_block_my buf stored_len type lst s =
    (let s1 = (case type of
         STORE \<Rightarrow> j_tr_stored_block buf stored_len lst s
       | FIXED \<Rightarrow> compress_block static_ltree static_dtree
                   (send_bits (push_bit 1 STATIC_TREES + lst) 3 s)
       | DYNAMIC \<Rightarrow>
           let t1 = send_bits (push_bit 1 DYN_TREES + lst) 3 s;
               t2 = send_all_trees (max_code (l_desc t1)) (max_code (d_desc t1)) (ncode t1) t1
           in compress_block (dyn_ltree t2) (dyn_dtree t2) t2);
         s2 = init_block s1
     in if lst \<noteq> 0 then bi_windup s2 else s2)"


section \<open>Sending as a sequence of values\<close>

text \<open>Sending leaves everything but the writer's own fields alone.\<close>

lemma more_fields:
  assumes "writer.more s = writer.more t"
  shows "bl_tree s = bl_tree t" "dyn_ltree s = dyn_ltree t" "dyn_dtree s = dyn_dtree t"
    "sym_off s = sym_off t" "sym_next s = sym_next t" "l_desc s = l_desc t" "d_desc s = d_desc t"
    "ncode s = ncode t" "sym_end s = sym_end t"
  using assms by (cases s; cases t; simp)+

lemma more_send_all [simp]: "writer.more (send_all send_bits vs s) = writer.more s"
  by (induction vs arbitrary: s) auto

lemmas send_all_fields [frame, simp] = more_fields [OF more_send_all]
lemmas send_bits_fields [frame, simp] = more_fields [OF more_send_bits]

lemma send_all_total [bitstream]:
  "8 * pending (send_all send_bits vs s) + bi_valid (send_all send_bits vs s)
   = 8 * pending s + bi_valid s + widths vs"
  by (induction vs arbitrary: s) (auto simp: send_bits_total)

lemma send_all_pending_mono: "pending s \<le> pending (send_all send_bits vs s)"
proof (induction vs arbitrary: s)
  case (Cons x vs)
  then show ?case
    by (cases x) (auto intro: order_trans [OF send_bits_pending_mono])
qed simp

lemma send_all_length [frame, simp]:
  "length (pending_buf (send_all send_bits vs s)) = length (pending_buf s)"
  by (induction vs arbitrary: s) auto

lemma send_all_nth [frame]:
  "pending (send_all send_bits vs s) \<le> i \<Longrightarrow> pending_buf (send_all send_bits vs s) ! i = pending_buf s ! i"
proof (induction vs arbitrary: s)
  case (Cons x vs)
  obtain v n where x: "x = (v, n)" by fastforce
  have "pending (send_bits v n s) \<le> i"
    using Cons.prems send_all_pending_mono [of "send_bits v n s" vs] x by simp
  then show ?case using Cons x by (simp add: send_bits_nth)
qed simp

text \<open>The code word of a symbol, as a value and a width.\<close>

definition cw :: "ct_data list \<Rightarrow> nat \<Rightarrow> uint32 \<times> nat" where
  "cw tree c = (ucast (Code (tree ! c)), unat (Len (tree ! c)))"

definition code_ok :: "nat \<Rightarrow> ct_data \<Rightarrow> bool" where
  "code_ok k t \<longleftrightarrow> unat (Len t) \<le> k \<and> take_bit (unat (Len t)) (Code t) = Code t"

lemma send_code_all: "send_code c tree s = send_all send_bits [cw tree c] s"
  by (simp add: send_code_def cw_def)

lemma sendable_cw:
  assumes "c < length tree" and "list_all (code_ok k) tree" and "k \<le> 16"
  shows "sendable [cw tree c]" and "widths [cw tree c] \<le> k"
proof -
  have "code_ok k (tree ! c)" using assms by (simp add: list_all_length)
  then have l: "unat (Len (tree ! c)) \<le> k"
    and t: "take_bit (unat (Len (tree ! c))) (Code (tree ! c)) = Code (tree ! c)"
    by (auto simp: code_ok_def)
  have "take_bit (unat (Len (tree ! c))) (ucast (Code (tree ! c)) :: uint32) = ucast (Code (tree ! c))"
    using t by (metis unsigned_take_bit_eq)
  then show "sendable [cw tree c]" and "widths [cw tree c] \<le> k"
    using l assms(3) by (auto simp: cw_def)
qed

end
