(* ===== verification/Trees_Header.thy ===== *)
theory Trees_Header
  imports Trees
begin

text \<open>
  The dynamic block header of trees.c.  \<open>send_tree\<close> is shown to send the run-length symbols that
  the reference function \<open>rle\<close> computes from the code lengths, each with its code of \<open>bl_tree\<close>, and
  \<open>expand\<close>, the meaning of these symbols for the decoder (case CODELENS of inflate.c and deflate.c),
  gives the code lengths back.  This needs the last length to differ from the entry after it, the
  guard that \<open>send_tree\<close> expects; the state that \<open>deflate_my\<close> builds has a zero there.
\<close>

section \<open>Run-length symbols\<close>

text \<open>A symbol is its number and the value of its extra bits.\<close>

definition run_syms :: "int \<Rightarrow> nat \<Rightarrow> nat \<Rightarrow> nat \<Rightarrow> (nat \<times> nat) list" where
  "run_syms prev cur count mn =
    (if count < mn then replicate count (cur, 0)
     else if cur \<noteq> 0 then
       (if int cur \<noteq> prev then [(cur, 0), (16, count - 4)] else [(16, count - 3)])
     else if count \<le> 10 then [(17, count - 3)] else [(18, count - 11)])"

fun rle :: "int \<Rightarrow> nat \<Rightarrow> nat list \<Rightarrow> nat \<Rightarrow> nat \<times> nat \<Rightarrow> (nat \<times> nat) list" where
  "rle prev cur [] count lim = []"
| "rle prev cur (nx # xs) count lim =
    (if count + 1 < fst lim \<and> cur = nx then rle prev nx xs (count + 1) lim
     else run_syms prev cur (count + 1) (snd lim) @ rle (int cur) nx xs 0 (run_limits cur nx))"

definition start_limits :: "nat \<Rightarrow> nat \<times> nat" where
  "start_limits x = (if x = 0 then (138, 3) else (7, 4))"

text \<open>The run-length code of the lengths \<open>xs\<close> when \<open>guard\<close> is the entry that follows them.\<close>

definition rle_lens :: "nat list \<Rightarrow> nat \<Rightarrow> (nat \<times> nat) list" where
  "rle_lens xs guard = rle (-1) (hd xs) (tl xs @ [guard]) 0 (start_limits (hd xs))"

text \<open>What the symbols mean: a length, a repetition of the previous length, or a run of zeros.\<close>

fun expand :: "(nat \<times> nat) list \<Rightarrow> nat list \<Rightarrow> nat list option" where
  "expand [] acc = Some acc"
| "expand ((sy, e) # ss) acc =
    (if sy < 16 then expand ss (acc @ [sy])
     else if sy = 16 then
       (if acc = [] then None else expand ss (acc @ replicate (3 + e) (List.last acc)))
     else if sy = 17 then expand ss (acc @ replicate (3 + e) 0)
     else if sy = 18 then expand ss (acc @ replicate (11 + e) 0)
     else None)"

definition bl_values :: "ct_data list \<Rightarrow> nat \<times> nat \<Rightarrow> (uint32 \<times> nat) list" where
  "bl_values bl = (\<lambda>(sy, e). cw bl sy # (if sy = 16 then [(of_nat e, 2)]
     else if sy = 17 then [(of_nat e, 3)] else if sy = 18 then [(of_nat e, 7)] else []))"

definition header_values :: "ct_data list \<Rightarrow> (nat \<times> nat) list \<Rightarrow> (uint32 \<times> nat) list" where
  "header_values bl ss = concat (map (bl_values bl) ss)"

lemma header_values_simps [simp]:
  "header_values bl [] = []"
  "header_values bl (x # ss) = bl_values bl x @ header_values bl ss"
  "header_values bl (ss @ ts) = header_values bl ss @ header_values bl ts"
  by (simp_all add: header_values_def)

section \<open>send\_tree sends the run-length symbols\<close>

lemma send_code_times_all:
  "c < 16 \<Longrightarrow> send_code_times k c (bl_tree s) s
    = send_all send_bits (header_values (bl_tree s) (replicate k (c, 0))) s"
proof (induction k arbitrary: s)
  case (Suc k)
  let ?s = "send_code c (bl_tree s) s"
  have "bl_tree ?s = bl_tree s" by (simp add: send_code_def)
  with Suc.IH [of ?s] Suc.prems show ?case
    by (simp add: send_code_def cw_def bl_values_def send_all_append)
qed simp

lemma send_tree_run_all:
  assumes "cur < 16" and "count \<ge> 1"
  shows "send_tree_run prev cur count mn s
    = send_all send_bits (header_values (bl_tree s) (run_syms prev cur count mn)) s"
proof (cases "count < mn")
  case True
  then show ?thesis
    using assms by (simp add: send_tree_run_def run_syms_def send_code_times_all)
next
  case False
  then show ?thesis
    using assms by (simp add: send_tree_run_def run_syms_def send_code_def cw_def bl_values_def)
qed

definition lens_of :: "ct_data list \<Rightarrow> nat list" where
  "lens_of tree = map (\<lambda>t. unat (Len t)) tree"

lemma send_tree_loop_all:
  assumes "n + k < length tree" and "list_all (\<lambda>x. x < 16) (lens_of tree)"
    and "nextlen < 16"
  shows "send_tree_loop tree (int (n + k) - 1) n prev nextlen count lim s
    = send_all send_bits (header_values (bl_tree s)
        (rle prev nextlen (take k (drop (n + 1) (lens_of tree))) count lim)) s"
  using assms
proof (induction k arbitrary: n prev nextlen count lim s)
  case 0
  then show ?case by (simp add: send_tree_loop.simps)
next
  case (Suc k)
  let ?nx = "unat (Len (tree ! (n + 1)))"
  have len: "n + 1 < length (lens_of tree)" using Suc.prems(1) by (simp add: lens_of_def)
  have nx: "lens_of tree ! (n + 1) = ?nx" using Suc.prems(1) by (simp add: lens_of_def)
  have nx16: "?nx < 16" using Suc.prems(2) len nx by (metis list_all_length)
  have d: "take (Suc k) (drop (n + 1) (lens_of tree)) = ?nx # take k (drop (n + 1 + 1) (lens_of tree))"
    using len nx by (simp add: Cons_nth_drop_Suc [symmetric])
  have mc: "int (n + Suc k) - 1 = int (n + 1 + k) - 1" by simp
  have b: "n + 1 + k < length tree" using Suc.prems(1) by simp
  note IH = Suc.IH [OF b Suc.prems(2) nx16]
  show ?case
  proof (cases "count + 1 < fst lim \<and> nextlen = ?nx")
    case True
    then have "send_tree_loop tree (int (n + Suc k) - 1) n prev nextlen count lim s
      = send_tree_loop tree (int (n + 1 + k) - 1) (n + 1) prev ?nx (count + 1) lim s"
      by (subst send_tree_loop.simps) (simp add: Let_def mc)
    with True show ?thesis unfolding d IH by simp
  next
    case False
    then have "send_tree_loop tree (int (n + Suc k) - 1) n prev nextlen count lim s
      = send_tree_loop tree (int (n + 1 + k) - 1) (n + 1) (int nextlen) ?nx 0 (run_limits nextlen ?nx)
          (send_tree_run prev nextlen (count + 1) (snd lim) s)"
      by (subst send_tree_loop.simps) (auto simp: Let_def mc)
    also have "\<dots> = send_all send_bits (header_values (bl_tree s)
        (rle (int nextlen) ?nx (take k (drop (n + 1 + 1) (lens_of tree))) 0 (run_limits nextlen ?nx)))
        (send_all send_bits (header_values (bl_tree s) (run_syms prev nextlen (count + 1) (snd lim))) s)"
      unfolding IH using Suc.prems(3) by (simp add: send_tree_run_all)
    finally show ?thesis
      using False unfolding d by (auto simp: send_all_append)
  qed
qed

lemma send_tree_all:
  assumes "0 < k" and "k < length tree" and "list_all (\<lambda>x. x < 16) (lens_of tree)"
  shows "send_tree tree (int k - 1) s = send_all send_bits (header_values (bl_tree s)
    (rle_lens (take k (lens_of tree)) (lens_of tree ! k))) s"
proof -
  obtain t ts where t: "tree = t # ts" using assms(2) by (cases tree) auto
  obtain j where k: "k = Suc j" using assms(1) by (cases k) auto
  have "take k (drop 1 (lens_of tree)) = tl (take k (lens_of tree)) @ [lens_of tree ! k]"
    using assms(2) t k by (simp add: lens_of_def take_Suc_conv_app_nth)
  moreover have "hd (take k (lens_of tree)) = unat (Len (tree ! 0))"
    using t k by (simp add: lens_of_def)
  ultimately show ?thesis
    using send_tree_loop_all [of 0 k tree "unat (Len (tree ! 0))" "-1" 0 _ s] assms t
    by (simp add: send_tree_def rle_lens_def start_limits_def Let_def lens_of_def)
qed

section \<open>The run-length code is inverted by the decoder\<close>

lemma expand_append:
  "expand (ss @ ts) acc = Option.bind (expand ss acc) (expand ts)"
  by (induction ss acc rule: expand.induct) auto

lemma expand_literals: "c < 16 \<Longrightarrow> expand (replicate k (c, 0)) acc = Some (acc @ replicate k c)"
  by (induction k arbitrary: acc) auto

definition limits_ok :: "int \<Rightarrow> nat \<Rightarrow> nat \<times> nat \<Rightarrow> bool" where
  "limits_ok prev cur lim \<longleftrightarrow> lim = (if cur = 0 then (138, 3) else if prev = int cur then (6, 3) else (7, 4))"

definition prev_ok :: "int \<Rightarrow> nat list \<Rightarrow> bool" where
  "prev_ok prev acc \<longleftrightarrow> prev = (if acc = [] then -1 else int (List.last acc))"

lemma expand_run:
  assumes "limits_ok prev cur lim" and "prev_ok prev acc" and "cur < 16"
    and "1 \<le> count" and "count \<le> fst lim"
  shows "expand (run_syms prev cur count (snd lim)) acc = Some (acc @ replicate count cur)"
proof (cases "count < snd lim")
  case True
  then show ?thesis using assms(3) by (simp add: run_syms_def expand_literals)
next
  case False
  have rep: "cur # replicate (count - Suc 0) cur = replicate count cur"
    using assms(4) by (cases count) auto
  show ?thesis
    using False assms rep
    by (auto simp: run_syms_def limits_ok_def prev_ok_def split: if_splits)
qed

lemma expand_rle:
  assumes "limits_ok prev cur lim" and "prev_ok prev acc" and "count < fst lim"
    and "list_all (\<lambda>x. x < 16) (cur # butlast xs)" and "xs \<noteq> []" 
    and "List.last xs \<noteq> List.last (cur # butlast xs)"
  shows "expand (rle prev cur xs count lim) acc
    = Some (acc @ replicate count cur @ cur # butlast xs)"
  using assms
proof (induction prev cur xs count lim arbitrary: acc rule: rle.induct)
  case (1 prev cur count lim)
  then show ?case by simp
next
  case (2 prev cur nx xs count lim)
  note cur16 = 2(6)
  show ?case
  proof (cases "count + 1 < fst lim \<and> cur = nx")
    case True
    then have "xs \<noteq> []" using 2(8) by auto
    with True 2 show ?thesis
      by (auto simp: replicate_append_same replicate_app_Cons_same)
  next
    case False
    have run: "expand (run_syms prev cur (count + 1) (snd lim)) acc = Some (acc @ replicate (count + 1) cur)"
      using 2 by (intro expand_run) auto
    have p: "prev_ok (int cur) (acc @ replicate (count + 1) cur)"
      by (simp add: prev_ok_def)
    have l: "limits_ok (int cur) nx (run_limits cur nx)"
      by (auto simp: limits_ok_def run_limits_def)
    show ?thesis
    proof (cases "xs = []")
      case True
      with False run show ?thesis by (simp add: replicate_append_same)
    next
      case xs: False
      have "expand (rle (int cur) nx xs 0 (run_limits cur nx)) (acc @ replicate (count + 1) cur)
        = Some ((acc @ replicate (count + 1) cur) @ replicate 0 nx @ nx # butlast xs)"
        using 2(2) [OF False l p] 2(6,8) xs by (auto simp: run_limits_def)
      with False run xs show ?thesis
        by (auto simp: expand_append replicate_append_same)
    qed
  qed
qed

lemma expand_rle_lens:
  assumes "xs \<noteq> []" and "list_all (\<lambda>x. x < 16) xs" and "guard \<noteq> List.last xs"
  shows "expand (rle_lens xs guard) [] = Some xs"
  using assms expand_rle [of "-1" "hd xs" "start_limits (hd xs)" "[]" 0 "tl xs @ [guard]"]
  by (cases xs) (auto simp: rle_lens_def start_limits_def limits_ok_def prev_ok_def)


section \<open>Widths and room\<close>

text \<open>The symbols are codes of \<open>bl_tree\<close> and their extra values fit the extra bits.\<close>

definition bl_sym_ok :: "nat \<times> nat \<Rightarrow> bool" where
  "bl_sym_ok = (\<lambda>(sy, e). sy < 16 \<or> sy = 16 \<and> e < 4 \<or> sy = 17 \<and> e < 8 \<or> sy = 18 \<and> e < 128)"

lemma run_syms_ok:
  "limits_ok prev cur lim \<Longrightarrow> cur < 16 \<Longrightarrow> 1 \<le> count \<Longrightarrow> count \<le> fst lim \<Longrightarrow>
   list_all bl_sym_ok (run_syms prev cur count (snd lim))"
  by (auto simp: run_syms_def limits_ok_def bl_sym_ok_def list_all_iff split: if_splits)

lemma rle_syms_ok:
  assumes "limits_ok prev cur lim" and "count < fst lim" and "list_all (\<lambda>x. x < 16) (cur # xs)"
  shows "list_all bl_sym_ok (rle prev cur xs count lim)"
  using assms
proof (induction prev cur xs count lim rule: rle.induct)
  case (2 prev cur nx xs count lim)
  have l: "limits_ok (int cur) nx (run_limits cur nx)" "0 < fst (run_limits cur nx)"
    by (auto simp: limits_ok_def run_limits_def)
  show ?case
    using 2 l run_syms_ok [of prev cur lim "count + 1"] by auto
qed simp

lemma rle_lens_syms_ok:
  "xs \<noteq> [] \<Longrightarrow> list_all (\<lambda>x. x < 16) xs \<Longrightarrow> guard < 16 \<Longrightarrow> list_all bl_sym_ok (rle_lens xs guard)"
  unfolding rle_lens_def
  by (rule rle_syms_ok) (cases xs; auto simp: start_limits_def limits_ok_def)+

lemma take_bit_of_nat_small:
  "e < 2 ^ n \<Longrightarrow> n \<le> LENGTH('a) \<Longrightarrow> take_bit n (of_nat e :: 'a::len word) = of_nat e"
  by (metis of_nat_take_bit take_bit_nat_eq_self_iff)

lemma sendable_header:
  assumes "list_all bl_sym_ok ss" and "list_all (code_ok 15) bl" and "19 \<le> length bl"
  shows "sendable (header_values bl ss)"
  using assms(1)
proof (induction ss)
  case (Cons x ss)
  obtain sy e where x: "x = (sy, e)" by fastforce
  with Cons.prems have ok: "bl_sym_ok (sy, e)" by simp
  then have "sy < length bl" using assms(3) by (auto simp: bl_sym_ok_def)
  then have "sendable [cw bl sy]" using assms(2) by (intro sendable_cw) auto
  with ok have "sendable (bl_values bl (sy, e))"
    by (auto simp: bl_values_def cw_def bl_sym_ok_def intro!: take_bit_of_nat_small)
  with Cons x show ?case by simp
qed simp

section \<open>The whole header\<close>

definition bl_len_values :: "ct_data list \<Rightarrow> nat list \<Rightarrow> (uint32 \<times> nat) list" where
  "bl_len_values bl rs = map (\<lambda>r. (ucast (Len (bl ! (bl_order ! r))), 3)) rs"

lemma send_bl_lens_all: "send_bl_lens rs s = send_all send_bits (bl_len_values (bl_tree s) rs) s"
  by (induction rs arbitrary: s) (auto simp: bl_len_values_def)

text \<open>The values of a dynamic block header for code lengths \<open>ls\<close>, \<open>ds\<close> with guards \<open>lg\<close>, \<open>dg\<close>.\<close>

definition dyn_header :: "ct_data list \<Rightarrow> nat \<Rightarrow> nat list \<Rightarrow> nat \<Rightarrow> nat list \<Rightarrow> nat \<Rightarrow> (uint32 \<times> nat) list" where
  "dyn_header bl blcodes ls lg ds dg =
    [(of_int (int (length ls) - 257), 5), (of_int (int (length ds) - 1), 5), (of_int (int blcodes - 4), 4)]
    @ bl_len_values bl [0..<blcodes]
    @ header_values bl (rle_lens ls lg) @ header_values bl (rle_lens ds dg)"

lemma send_all_trees_all:
  assumes "0 < lcodes" "lcodes < length (dyn_ltree s)" "list_all (\<lambda>x. x < 16) (lens_of (dyn_ltree s))"
    and "0 < dcodes" "dcodes < length (dyn_dtree s)" "list_all (\<lambda>x. x < 16) (lens_of (dyn_dtree s))"
  shows "send_all_trees lcodes dcodes blcodes s
    = send_all send_bits (dyn_header (bl_tree s) blcodes
        (take lcodes (lens_of (dyn_ltree s))) (lens_of (dyn_ltree s) ! lcodes)
        (take dcodes (lens_of (dyn_dtree s))) (lens_of (dyn_dtree s) ! dcodes)) s"
proof -
  have "length (lens_of t) = length t" for t by (simp add: lens_of_def)
  then show ?thesis
    using assms
    by (simp add: send_all_trees_def Let_def send_tree_all send_bl_lens_all dyn_header_def send_all_append)
qed

lemma bl_len_sendable:
  assumes "list_all (\<lambda>t. unat (Len t) < 8) bl" and "19 \<le> length bl" and "list_all (\<lambda>r. r < 19) rs"
  shows "sendable (bl_len_values bl rs)"
proof -
  have ord: "bl_order ! r < 19" if "r < 19" for r
  proof -
    have "list_all (\<lambda>x. x < 19) bl_order" by (simp add: bl_order_def)
    then show ?thesis using that by (simp add: list_all_length)
  qed
  have "take_bit 3 (ucast (Len (bl ! (bl_order ! r))) :: uint32) = ucast (Len (bl ! (bl_order ! r)))"
    if "r < 19" for r
  proof -
    have "unat (Len (bl ! (bl_order ! r))) < 2 ^ 3"
      using ord [OF that] assms(1,2) by (simp add: list_all_length)
    then have "take_bit 3 (Len (bl ! (bl_order ! r))) = Len (bl ! (bl_order ! r))"
      by (simp only: word_unat_lt_iff_bits)
    then show ?thesis by (metis unsigned_take_bit_eq)
  qed
  then show ?thesis
    using assms(3) by (auto simp: bl_len_values_def sendable_def list_all_iff)
qed

lemma of_int_diff_small:
  assumes "m \<le> k" and "k < m + 2 ^ n" and "n \<le> 32"
  shows "take_bit n (of_int (int k - int m) :: uint32) = of_int (int k - int m)"
proof -
  have "int k - int m = int (k - m)" using assms(1) by simp
  moreover have "take_bit n (of_nat (k - m) :: uint32) = of_nat (k - m)"
    using assms by (intro take_bit_of_nat_small) auto
  ultimately show ?thesis by (simp only: of_int_of_nat_eq)
qed


text \<open>A run of lengths never costs more than seven bits per length.\<close>

lemma widths_run:
  assumes "limits_ok prev cur lim" and "cur < 16" and "1 \<le> count" and "count \<le> fst lim"
    and "list_all (code_ok 7) bl" and "19 \<le> length bl"
  shows "widths (header_values bl (run_syms prev cur count (snd lim))) \<le> 7 * count"
proof -
  have w: "snd (cw bl c) \<le> 7" if "c < 19" for c
    using that assms(5,6) by (simp add: cw_def list_all_length code_ok_def)
  have wb: "widths (bl_values bl (c, e)) = snd (cw bl c) + (if c = 16 then 2 else if c = 17 then 3
      else if c = 18 then 7 else 0)" for c e
    by (simp add: bl_values_def widths_def)
  show ?thesis
  proof (cases "count < snd lim")
    case True
    have "widths (header_values bl (replicate k (cur, 0))) \<le> 7 * k" for k
      using w [of cur] assms(2) by (induction k) (auto simp: wb)
    with True show ?thesis by (simp add: run_syms_def)
  next
    case False
    then show ?thesis
      using assms(1-4) w [of cur] w [of 16] w [of 17] w [of 18]
      by (auto simp: run_syms_def limits_ok_def wb split: if_splits)
  qed
qed

lemma widths_rle:
  assumes "limits_ok prev cur lim" and "count < fst lim" and "list_all (\<lambda>x. x < 16) (cur # xs)"
    and "list_all (code_ok 7) bl" and "19 \<le> length bl"
  shows "widths (header_values bl (rle prev cur xs count lim)) \<le> 7 * (count + length xs)"
  using assms(1-3)
proof (induction prev cur xs count lim rule: rle.induct)
  case (2 prev cur nx xs count lim)
  have l: "limits_ok (int cur) nx (run_limits cur nx)" "0 < fst (run_limits cur nx)"
    by (auto simp: limits_ok_def run_limits_def)
  show ?case
    using 2 l widths_run [OF 2(3) _ _ _ assms(4,5), of "count + 1"] by auto
qed simp

lemma widths_rle_lens:
  assumes "xs \<noteq> []" and "list_all (\<lambda>x. x < 16) xs" and "guard < 16"
    and "list_all (code_ok 7) bl" and "19 \<le> length bl"
  shows "widths (header_values bl (rle_lens xs guard)) \<le> 7 * length xs"
proof -
  obtain y ys where xs: "xs = y # ys" using assms(1) by (cases xs) auto
  show ?thesis
    using widths_rle [of "-1" y "start_limits y" 0 "ys @ [guard]", OF _ _ _ assms(4,5)] assms(2,3)
    by (auto simp: xs rle_lens_def start_limits_def limits_ok_def split: if_splits)
qed

text \<open>The state that a dynamic header is sent from: the numbers of lengths are in the ranges of the
  format, the lengths are code lengths, and \<open>bl_tree\<close> holds codes of at most seven bits.\<close>

definition header_ok :: "nat \<Rightarrow> nat \<Rightarrow> nat \<Rightarrow> 'z trees_state_scheme \<Rightarrow> bool" where
  "header_ok lcodes dcodes blcodes s \<longleftrightarrow>
     257 \<le> lcodes \<and> lcodes < 257 + 32 \<and> 1 \<le> dcodes \<and> dcodes \<le> 32 \<and> 4 \<le> blcodes \<and> blcodes \<le> 19 \<and>
     length (dyn_ltree s) = HEAP_SIZE \<and> length (dyn_dtree s) = 61 \<and> length (bl_tree s) = 39 \<and>
     list_all (\<lambda>x. x < 16) (lens_of (dyn_ltree s)) \<and> list_all (\<lambda>x. x < 16) (lens_of (dyn_dtree s)) \<and>
     list_all (code_ok 7) (bl_tree s)"

lemma code_ok_mono: "list_all (code_ok k) t \<Longrightarrow> k \<le> m \<Longrightarrow> list_all (code_ok m) t"
  by (auto simp: list_all_iff code_ok_def)

lemma dyn_header_sendable:
  assumes "header_ok (length ls) (length ds) blcodes s" and "list_all (\<lambda>x. x < 16) (lg # dg # ls @ ds)"
  shows "sendable (dyn_header (bl_tree s) blcodes ls lg ds dg)"
    and "widths (dyn_header (bl_tree s) blcodes ls lg ds dg) \<le> 14 + 3 * blcodes + 7 * (length ls + length ds)"
proof -
  let ?bl = "bl_tree s"
  note h = assms(1) [unfolded header_ok_def]
  have bl: "list_all (code_ok 7) ?bl" "19 \<le> length ?bl" and bl15: "list_all (code_ok 15) ?bl"
    using h by (auto intro: code_ok_mono)
  have ne: "ls \<noteq> []" "ds \<noteq> []" using h by auto
  have small: "list_all (\<lambda>t. unat (Len t) < 8) ?bl"
    using bl(1) by (auto simp: list_all_iff code_ok_def)
  have "sendable (bl_len_values ?bl [0..<blcodes])"
    using h small by (intro bl_len_sendable) (auto simp: list_all_iff)
  moreover have "sendable (header_values ?bl (rle_lens ls lg))" "sendable (header_values ?bl (rle_lens ds dg))"
    using assms(2) ne bl bl15 by (auto intro!: sendable_header rle_lens_syms_ok)
  ultimately show "sendable (dyn_header ?bl blcodes ls lg ds dg)"
    using h of_int_diff_small [of 257 "length ls" 5] of_int_diff_small [of 1 "length ds" 5]
      of_int_diff_small [of 4 blcodes 4]
    by (simp add: dyn_header_def)
  have "widths (bl_len_values ?bl rs) = 3 * length rs" for rs
    by (induction rs) (auto simp: bl_len_values_def)
  then show "widths (dyn_header ?bl blcodes ls lg ds dg) \<le> 14 + 3 * blcodes + 7 * (length ls + length ds)"
    using widths_rle_lens [OF ne(1) _ _ bl, of lg] widths_rle_lens [OF ne(2) _ _ bl, of dg] assms(2)
    by (simp add: dyn_header_def)
qed

text \<open>\<open>send_all_trees\<close> writes exactly the values of \<open>dyn_header\<close>, within the room of at most
  \<open>14 + 3 * blcodes + 7 * (lcodes + dcodes)\<close> bits.\<close>

lemma send_all_trees_bits:
  fixes s :: "'z trees_state_scheme"
  defines "vals \<equiv> \<lambda>lcodes dcodes blcodes. dyn_header (bl_tree s) blcodes
        (take lcodes (lens_of (dyn_ltree s))) (lens_of (dyn_ltree s) ! lcodes)
        (take dcodes (lens_of (dyn_dtree s))) (lens_of (dyn_dtree s) ! dcodes)"
  assumes "header_ok lcodes dcodes blcodes s" and "winv s"
    and "wroom (14 + 3 * blcodes + 7 * (lcodes + dcodes) + k) s"
  shows "wout (send_all_trees lcodes dcodes blcodes s) = wout s @ vbits (vals lcodes dcodes blcodes)"
    and "winv (send_all_trees lcodes dcodes blcodes s)"
    and "wroom k (send_all_trees lcodes dcodes blcodes s)"
    and "send_all_trees lcodes dcodes blcodes s = send_all send_bits (vals lcodes dcodes blcodes) s"
    and "widths (vals lcodes dcodes blcodes) \<le> 14 + 3 * blcodes + 7 * (lcodes + dcodes)"
proof -
  note h = assms(2) [unfolded header_ok_def]
  let ?ls = "take lcodes (lens_of (dyn_ltree s))" and ?ds = "take dcodes (lens_of (dyn_dtree s))"
  have len: "length ?ls = lcodes" "length ?ds = dcodes"
    using h by (auto simp: lens_of_def)
  have small: "list_all (\<lambda>x. x < 16) (lens_of (dyn_ltree s) ! lcodes # lens_of (dyn_dtree s) ! dcodes # ?ls @ ?ds)"
    using h by (auto simp: lens_of_def list_all_iff dest!: in_set_takeD)
  have hok: "header_ok (length ?ls) (length ?ds) blcodes s" using assms(2) len by simp
  note sw = dyn_header_sendable [OF hok small, unfolded len]
  show eq: "send_all_trees lcodes dcodes blcodes s = send_all send_bits (vals lcodes dcodes blcodes) s"
    using h unfolding vals_def by (intro send_all_trees_all) auto
  show w: "widths (vals lcodes dcodes blcodes) \<le> 14 + 3 * blcodes + 7 * (lcodes + dcodes)"
    using sw(2) by (simp add: vals_def)
  have "wroom (widths (vals lcodes dcodes blcodes) + k) s"
    using w assms(4) by (auto simp: wroom_def)
  from wsink.send_all_correct [OF assms(3) this] sw(1) eq
  show "wout (send_all_trees lcodes dcodes blcodes s) = wout s @ vbits (vals lcodes dcodes blcodes)"
    and "winv (send_all_trees lcodes dcodes blcodes s)"
    and "wroom k (send_all_trees lcodes dcodes blcodes s)"
    by (simp_all add: vals_def)
qed


lemma last_take_lens:
  "0 < k \<Longrightarrow> k \<le> length tree \<Longrightarrow> List.last (take k (lens_of tree)) = unat (Len (tree ! (k - 1)))"
  by (subst last_conv_nth) (auto simp: lens_of_def)

section \<open>Trailing zero lengths\<close>

lemma rle_zeros: "count + z < 138 \<Longrightarrow> rle prev 0 (replicate z 0) count (138, 3) = []"
  by (induction z arbitrary: count) auto

lemma rle_trailing_zeros:
  assumes "List.last (cur # xs) \<noteq> 0" and "z < 138"
  shows "rle prev cur (xs @ 0 # replicate z 0) count lim = rle prev cur (xs @ [0]) count lim"
  using assms(1)
proof (induction xs arbitrary: prev cur count lim)
  case Nil
  then show ?case using assms(2) by (simp add: run_limits_def rle_zeros)
next
  case (Cons x xs)
  then show ?case by simp
qed

lemma rle_lens_trailing_zeros:
  assumes "xs \<noteq> []" and "List.last xs \<noteq> 0" and "z < 138"
  shows "rle_lens (xs @ replicate z 0) 0 = rle_lens xs 0"
proof -
  obtain y ys where xs: "xs = y # ys" using assms(1) by (cases xs) auto
  have "replicate z 0 @ [0] = 0 # replicate z (0::nat)" by (simp add: replicate_append_same)
  then show ?thesis
    using rle_trailing_zeros [of y ys z "-1" 0 "start_limits y"] assms xs
    by (simp add: rle_lens_def)
qed

lemma rle_lens_zeros: "0 < z \<Longrightarrow> z < 138 \<Longrightarrow> rle_lens (replicate z 0) 0 = []"
proof -
  assume z: "0 < z" "z < 138"
  then obtain y where y: "z = Suc y" by (cases z) auto
  have "replicate y 0 @ [0] = replicate (Suc y) (0::nat)" by (simp add: replicate_append_same)
  then show ?thesis
    using rle_zeros [of 0 "Suc y" "-1"] z y by (simp add: rle_lens_def start_limits_def)
qed

section \<open>Properties\<close>

text \<open>A concrete state: only the end-of-block code and one distance code are used.\<close>

definition trees_blank :: "nat \<Rightarrow> trees_state" where
  "trees_blank n =
    \<lparr>pending_buf = replicate (16 * n) 0, pending = 0, bi_buf = 0, bi_valid = 0, oob = False,
     dyn_ltree = replicate HEAP_SIZE (ct (0, 0)), dyn_dtree = replicate 61 (ct (0, 0)),
     bl_tree = replicate 39 (ct (0, 0)),
     l_desc = \<lparr>dyn_tree = Dyn_ltree, max_code = 0, stat_desc = static_l_desc\<rparr>,
     d_desc = \<lparr>dyn_tree = Dyn_dtree, max_code = 0, stat_desc = static_d_desc\<rparr>,
     bl_desc = \<lparr>dyn_tree = Bl_tree, max_code = 0, stat_desc = static_bl_desc\<rparr>,
     sym_off = n, sym_next = 0, sym_end = (n - 1) * 12, opt_len = 0, static_len = 0, matches = 0,
     ncode = 0\<rparr>"

definition header_demo :: trees_state where
  "header_demo = (trees_blank 128)\<lparr>
     dyn_ltree := (replicate HEAP_SIZE (ct (0, 0)))[256 := ct (0, 1)],
     dyn_dtree := (replicate 61 (ct (0, 0)))[0 := ct (0, 1)],
     bl_tree := (replicate 39 (ct (0, 0)))[1 := ct (0, 1), 18 := ct (1, 1)]\<rparr>"

lemma list_all_update: "list_all P xs \<Longrightarrow> P x \<Longrightarrow> list_all P (xs[i := x])"
  by (auto simp: list_all_iff dest!: set_update_subset_insert [THEN subsetD])

lemma list_all_replicate: "P x \<Longrightarrow> list_all P (replicate n x)"
  by (simp add: list_all_iff)

lemma header_demo_ok:
  "header_ok 257 1 18 header_demo" "winv header_demo" "wroom 1874 header_demo"
  "Len (dyn_ltree header_demo ! 257) = 0" "Len (dyn_ltree header_demo ! 256) = 1"
  "Len (dyn_dtree header_demo ! 1) = 0" "Len (dyn_dtree header_demo ! 0) = 1"
  by (auto simp: header_ok_def header_demo_def trees_blank_def winv_def wroom_def lens_of_def ct_def
      code_ok_def map_update nth_list_update nth_replicate take_bit_eq_mod
      intro!: list_all_update list_all_replicate)



text \<open>C21: When the lengths sent end in fewer than 138 zeros and the entry after them is zero too, as
  in every tree that \<open>deflate_my\<close> clears before it is filled, \<open>send_tree\<close> writes nothing for these
  zeros: the header is the one of the shorter list.\<close>

theorem send_tree_drops_trailing_zeros:
  assumes "k + z < length tree" and "list_all (\<lambda>x. x < 16) (lens_of tree)" and "z < 138"
    and "k = 0 \<or> Len (tree ! (k - 1)) \<noteq> 0" and "\<forall>i. k \<le> i \<and> i \<le> k + z \<longrightarrow> Len (tree ! i) = 0"
  shows "send_tree tree (int (k + z) - 1) s = send_tree tree (int k - 1) s"
proof (cases "z = 0")
  case False
  let ?l = "lens_of tree"
  have len: "length ?l = length tree" by (simp add: lens_of_def)
  have g: "?l ! (k + z) = 0" "?l ! k = 0" using assms(1,5) by (auto simp: lens_of_def)
  have t: "take (k + z) ?l = take k ?l @ replicate z 0"
    using assms(1,5) by (intro nth_equalityI) (auto simp: lens_of_def nth_append)
  have "send_tree tree (int (k + z) - 1) s
    = send_all send_bits (header_values (bl_tree s) (rle_lens (take k ?l @ replicate z 0) 0)) s"
    using send_tree_all [of "k + z" tree s] assms(1,2) False t g by simp
  also have "\<dots> = send_tree tree (int k - 1) s"
  proof (cases "k = 0")
    case True
    then show ?thesis
      using rle_lens_zeros [of z] False assms(3) by (simp add: send_tree_def send_tree_loop.simps)
  next
    case k: False
    have "List.last (take k ?l) \<noteq> 0"
      using k assms(1,4) by (simp add: last_take_lens unat_eq_0)
    moreover have "take k ?l \<noteq> []" using k assms(1) len by (cases ?l) auto
    ultimately show ?thesis
      using send_tree_all [of k tree s] k assms(1,2,3) g rle_lens_trailing_zeros [of "take k ?l" z] len
      by simp
  qed
  finally show ?thesis .
qed simp

theorem send_tree_drops_trailing_zeros_witness:
  "send_tree (replicate 61 (ct (0, 0))) 0 header_demo = header_demo"
  using send_tree_drops_trailing_zeros [of 0 1 "replicate 61 (ct (0, 0))" header_demo]
  by (simp add: lens_of_def ct_def list_all_replicate nth_replicate send_tree_def send_tree_loop.simps
      )

end
