(* ===== verification/Trees_Blocks.thy ===== *)
theory Trees_Blocks
  imports Trees_Header
begin

text \<open>
  The block bodies of trees.c.  The symbols tallied into \<open>sym_buf\<close> are read back by \<open>compress_block\<close>
  while the compressed bits are written into the same array in front of them.  The condition
  \<open>overlay_ok\<close> says that the writer never passes the symbol about to be read; under it
  \<open>compress_block\<close> writes exactly the codes of the tallied symbols.  The stored, fixed and dynamic
  branches of \<open>_tr_flush_block_my\<close> follow.
\<close>

section \<open>The values of a symbol\<close>

definition sym_values :: "ct_data list \<Rightarrow> ct_data list \<Rightarrow> nat \<times> nat \<Rightarrow> (uint32 \<times> nat) list" where
  "sym_values lt dt = (\<lambda>(dist, lc).
    if dist = 0 then [cw lt lc]
    else let code = j_length_code ! lc; extra = extra_lbits ! code;
             dcode = d_code (dist - 1); dextra = extra_dbits ! dcode
         in cw lt (code + 257) # (if extra \<noteq> 0 then [(of_nat (lc - base_length ! code), extra)] else [])
            @ cw dt dcode # (if dextra \<noteq> 0 then [(of_nat (dist - 1 - base_dist ! dcode), dextra)] else []))"

definition sym_ok :: "nat \<times> nat \<Rightarrow> bool" where
  "sym_ok = (\<lambda>(dist, lc). dist \<le> 32768 \<and> lc < 256)"

lemma send_sym_all:
  assumes "sym_ok (dist, lc)"
  shows "send_sym lt dt dist lc s = send_all send_bits (sym_values lt dt (dist, lc)) s"
proof (cases "dist = 0")
  case True
  then show ?thesis by (simp add: send_sym_def sym_values_def send_code_all)
next
  case False
  have lc: "lc < 256" and d: "1 \<le> dist" "dist \<le> 32768"
    using False assms by (auto simp: sym_ok_def)
  have l: "int lc - int (base_length ! (j_length_code ! lc)) = int (lc - base_length ! (j_length_code ! lc))"
    if "extra_lbits ! (j_length_code ! lc) \<noteq> 0"
    using length_code_facts(3) [OF lc that] by simp
  have dd: "int (dist - 1) - int (base_dist ! d_code (dist - 1)) = int (dist - 1 - base_dist ! d_code (dist - 1))"
    using dist_code_facts(2) [OF d] by simp
  show ?thesis
    using False d l unfolding send_sym_def sym_values_def Let_def dd
    by (auto simp: send_code_def cw_def add.commute [of 257] simp del: of_nat_diff)
qed

text \<open>The trees of a block: every code is at most 15 bits and fits its length.\<close>

definition trees_ok :: "ct_data list \<Rightarrow> ct_data list \<Rightarrow> bool" where
  "trees_ok lt dt \<longleftrightarrow> 286 \<le> length lt \<and> 30 \<le> length dt \<and> list_all (code_ok 15) lt \<and> list_all (code_ok 15) dt"

lemma sendable_sym:
  assumes "trees_ok lt dt" and "sym_ok (dist, lc)"
  shows "sendable (sym_values lt dt (dist, lc))"
proof -
  have s: "sendable [cw lt c]" if "c < 286" for c
    using assms(1) that by (intro sendable_cw(1) [of c lt 15]) (auto simp: trees_ok_def)
  have t: "sendable [cw dt c]" if "c < 30" for c
    using assms(1) that by (intro sendable_cw(1) [of c dt 15]) (auto simp: trees_ok_def)
  have lc: "lc < 256" using assms(2) by (simp add: sym_ok_def)
  show ?thesis
  proof (cases "dist = 0")
    case True
    then show ?thesis using s [of lc] lc by (simp add: sym_values_def)
  next
    case False
    then have d: "1 \<le> dist" "dist \<le> 32768" using assms(2) by (auto simp: sym_ok_def)
    note L = length_code_facts [OF lc] and D = dist_code_facts [OF d]
    have "take_bit (extra_lbits ! (j_length_code ! lc))
        (of_nat (lc - base_length ! (j_length_code ! lc)) :: uint32) = of_nat (lc - base_length ! (j_length_code ! lc))"
      if "extra_lbits ! (j_length_code ! lc) \<noteq> 0"
      using L(2) L(4) [OF that] by (intro take_bit_of_nat_small) auto
    moreover have "take_bit (extra_dbits ! d_code (dist - 1))
        (of_nat (dist - 1 - base_dist ! d_code (dist - 1)) :: uint32)
        = of_nat (dist - 1 - base_dist ! d_code (dist - 1))"
      using D(3,4) by (intro take_bit_of_nat_small) auto
    ultimately show ?thesis
      using False L(1,2) D(1,4) s [of "j_length_code ! lc + 257"] t [of "d_code (dist - 1)"]
      by (simp add: sym_values_def Let_def cw_def del: of_nat_diff)
  qed
qed

section \<open>Reading symbols while writing bits\<close>

definition syms :: "'z trees_state_scheme \<Rightarrow> nat \<Rightarrow> nat \<Rightarrow> (nat \<times> nat) list" where
  "syms s sx n = map (\<lambda>i. sym_at (sx + 3 * i) s) [0..<n]"

lemma syms_Suc: "syms s sx (Suc n) = sym_at sx s # syms s (sx + 3) n"
  by (simp add: syms_def upt_conv_Cons map_Suc_upt [symmetric] ac_simps del: upt_Suc)

lemma syms_snoc: "syms s sx (Suc n) = syms s sx n @ [sym_at (sx + 3 * n) s]"
  by (simp add: syms_def)

lemma length_syms [simp]: "length (syms s sx n) = n"
  by (simp add: syms_def)

text \<open>\<open>overlay_ok b p vs\<close>: when \<open>b\<close> bits are written and the next symbol to read starts at byte \<open>p\<close>,
  the bits written so far always end at or before the symbol read next.\<close>

fun overlay_ok :: "nat \<Rightarrow> nat \<Rightarrow> (uint32 \<times> nat) list list \<Rightarrow> bool" where
  "overlay_ok b p [] = True"
| "overlay_ok b p (v # vs) = (b \<le> 8 * p \<and> overlay_ok (b + widths v) (p + 3) vs)"

definition wbits :: "'z writer_scheme \<Rightarrow> nat" where
  "wbits s = 8 * pending s + bi_valid s"

lemma wbits_send_all [bitstream, simp]: "wbits (send_all send_bits vs s) = wbits s + widths vs"
  by (simp add: wbits_def send_all_total)

lemma le_of_mult8: "8 * p + b \<le> 8 * q \<Longrightarrow> p \<le> q" for p q b :: nat
  by linarith

lemma sym_at_unchanged:
  assumes "wbits (send_all send_bits vs s) \<le> 8 * (sym_off s + sx)"
  shows "sym_at sx (send_all send_bits vs s) = sym_at sx s"
proof -
  have "pending (send_all send_bits vs s) \<le> sym_off s + sx"
    using assms le_of_mult8 unfolding wbits_def by blast
  then have "pending (send_all send_bits vs s) \<le> sym_off s + sx + i" for i
    by (rule trans_le_add1)
  then show ?thesis by (simp add: sym_at_def send_all_nth)
qed

lemma syms_unchanged:
  assumes "wbits (send_all send_bits vs s) \<le> 8 * (sym_off s + sx)"
  shows "syms (send_all send_bits vs s) sx n = syms s sx n"
proof -
  have "sym_at (sx + 3 * i) (send_all send_bits vs s) = sym_at (sx + 3 * i) s" for i
    using assms by (intro sym_at_unchanged) auto
  then show ?thesis by (simp add: syms_def)
qed

lemma compress_loop_all:
  assumes "list_all sym_ok (syms s sx (Suc n))" and "sx + 3 * Suc n = sym_next s"
    and "sym_off s + sym_next s \<le> length (pending_buf s)"
    and "overlay_ok (wbits s) (sym_off s + sx) (map (sym_values lt dt) (syms s sx (Suc n)))"
  shows "compress_loop lt dt sx s
    = send_all send_bits (concat (map (sym_values lt dt) (syms s sx (Suc n)))) s"
  using assms
proof (induction n arbitrary: sx s)
  case 0
  obtain dist lc where dl: "sym_at sx s = (dist, lc)" by fastforce
  have "sym_read_ok sx s" using 0 by (simp add: sym_read_ok_def)
  with 0 dl show ?case
    by (subst compress_loop.simps) (simp add: compress_step_def syms_Suc syms_def send_sym_all)
next
  case (Suc n)
  obtain dist lc where dl: "sym_at sx s = (dist, lc)" by fastforce
  let ?v = "sym_values lt dt (dist, lc)"
  let ?s = "send_all send_bits ?v s"
  have rd: "sym_read_ok sx s" using Suc.prems by (simp add: sym_read_ok_def)
  have ok: "sym_ok (dist, lc)" using Suc.prems(1) dl by (simp add: syms_Suc [of s sx])
  have step: "compress_step lt dt sx s = ?s"
    using rd ok dl by (simp add: compress_step_def send_sym_all)
  have ov: "overlay_ok (wbits ?s) (sym_off s + (sx + 3)) (map (sym_values lt dt) (syms s (sx + 3) (Suc n)))"
    using Suc.prems(4) dl by (simp add: syms_Suc [of s sx] ac_simps)
  then have "wbits ?s \<le> 8 * (sym_off s + (sx + 3))"
    by (simp add: syms_Suc)
  then have un: "syms ?s (sx + 3) (Suc n) = syms s (sx + 3) (Suc n)"
    by (rule syms_unchanged)
  have "compress_loop lt dt (sx + 3) ?s
    = send_all send_bits (concat (map (sym_values lt dt) (syms ?s (sx + 3) (Suc n)))) ?s"
  proof (rule Suc.IH)
    show "list_all sym_ok (syms ?s (sx + 3) (Suc n))"
      unfolding un using Suc.prems(1) by (simp add: syms_Suc [of s sx])
    show "overlay_ok (wbits ?s) (sym_off ?s + (sx + 3)) (map (sym_values lt dt) (syms ?s (sx + 3) (Suc n)))"
      unfolding un using ov by simp
  qed (use Suc.prems in simp_all)
  moreover have "compress_loop lt dt sx s = compress_loop lt dt (sx + 3) ?s"
    using Suc.prems(2) step by (subst compress_loop.simps) simp
  ultimately show ?case
    using dl unfolding un syms_Suc [of s sx "Suc n"] by (simp add: send_all_append)
qed

definition block_values :: "ct_data list \<Rightarrow> ct_data list \<Rightarrow> (nat \<times> nat) list \<Rightarrow> (uint32 \<times> nat) list" where
  "block_values lt dt xs = concat (map (sym_values lt dt) xs) @ [cw lt END_BLOCK]"

lemma compress_block_all:
  assumes "list_all sym_ok (syms s 0 n)" and "sym_next s = 3 * n"
    and "sym_off s + sym_next s \<le> length (pending_buf s)"
    and "overlay_ok (wbits s) (sym_off s) (map (sym_values lt dt) (syms s 0 n))"
  shows "compress_block lt dt s = send_all send_bits (block_values lt dt (syms s 0 n)) s"
proof (cases n)
  case 0
  then show ?thesis
    using assms(2) by (simp add: compress_block_def block_values_def send_code_all syms_def)
next
  case (Suc m)
  then show ?thesis
    using assms compress_loop_all [of s 0 m lt dt]
    by (simp add: compress_block_def block_values_def send_code_all send_all_append)
qed

lemma sendable_block:
  assumes "trees_ok lt dt" and "list_all sym_ok xs"
  shows "sendable (block_values lt dt xs)"
proof -
  have "sendable (concat (map (sym_values lt dt) xs))"
    using assms(2)
  proof (induction xs)
    case (Cons x xs)
    then show ?case using sendable_sym [OF assms(1)] by (cases x) simp
  qed simp
  moreover have "sendable [cw lt END_BLOCK]"
    using assms(1) by (intro sendable_cw(1) [of _ lt 15]) (auto simp: trees_ok_def)
  ultimately show ?thesis by (simp add: block_values_def)
qed


section \<open>How many symbols fit\<close>

lemma overlay_bound:
  assumes "list_all (\<lambda>v. widths v \<le> 24 + k) vs" and "b + k * (length vs - 1) \<le> 8 * p"
  shows "overlay_ok b p vs"
  using assms
proof (induction vs arbitrary: b p)
  case (Cons v vs)
  show ?case
  proof (cases "vs = []")
    case True
    then show ?thesis using Cons.prems by simp
  next
    case False
    then obtain m where m: "length vs = Suc m" by (cases vs) auto
    have "b + widths v + k * m \<le> b + (24 + k) + k * m" using Cons.prems(1) by simp
    also have "\<dots> = b + k * length vs + 24" using m by simp
    also have "\<dots> \<le> 8 * (p + 3)" using Cons.prems(2) m by simp
    finally have "overlay_ok (b + widths v) (p + 3) vs"
      using Cons.prems(1) m by (intro Cons.IH) auto
    then show ?thesis using Cons.prems(2) by simp
  qed
qed simp

lemma widths_concat_le: "list_all (\<lambda>v. widths v \<le> k) vs \<Longrightarrow> widths (concat vs) \<le> k * length vs"
  by (induction vs) auto

text \<open>The static trees: every code fits, and a symbol takes at most 31 bits.\<close>

lemma code_okI: "unat (Len t) \<le> k \<Longrightarrow> unat (Code t) < 2 ^ unat (Len t) \<Longrightarrow> code_ok k t"
  by (simp add: code_ok_def flip: word_unat_lt_iff_bits)

lemma static_dtree_nth:
  assumes "c < 30"
  shows "Len (static_dtree ! c) = 5" and "unat (Code (static_dtree ! c)) < 32"
proof -
  have "static_dtree_ok (c, Code (static_dtree ! c), Len (static_dtree ! c))"
    using list_all_indexed_nth [OF static_dtree_ok_all, of c] assms by simp
  then show "Len (static_dtree ! c) = 5" and "unat (Code (static_dtree ! c)) < 32"
    using rev_bits_less [of 5 c] by (auto simp: static_dtree_ok_def)
qed

lemma fixed_len_le: "fixed_len c \<le> 9" "257 \<le> c \<Longrightarrow> fixed_len c \<le> 8" "fixed_len 256 = 7"
  by (auto simp: fixed_len_def)

lemma static_trees_ok: "trees_ok static_ltree static_dtree"
proof -
  have "code_ok 15 (static_ltree ! c)" if "c < 288" for c
    using static_ltree_nth [OF that] fixed_len_le(1) [of c] rev_bits_less [of "fixed_len c"]
    by (intro code_okI) auto
  moreover have "code_ok 15 (static_dtree ! c)" if "c < 30" for c
    using static_dtree_nth [OF that] by (intro code_okI) auto
  ultimately show ?thesis by (simp add: trees_ok_def list_all_length)
qed

lemma static_sym_widths:
  assumes "sym_ok x"
  shows "widths (sym_values static_ltree static_dtree x) \<le> 31"
proof -
  obtain dist lc where x: "x = (dist, lc)" by fastforce
  have lc: "lc < 256" using assms x by (simp add: sym_ok_def)
  have cl: "snd (cw static_ltree c) = fixed_len c" if "c < 288" for c
    using static_ltree_nth(1) [OF that] by (simp add: cw_def)
  have cd: "snd (cw static_dtree c) = 5" if "c < 30" for c
    using static_dtree_nth(1) [OF that] by (simp add: cw_def)
  show ?thesis
  proof (cases "dist = 0")
    case True
    then show ?thesis
      using lc cl [of lc] fixed_len_le(1) [of lc] x by (simp add: sym_values_def widths_def)
  next
    case False
    then have d: "1 \<le> dist" "dist \<le> 32768" using assms x by (auto simp: sym_ok_def)
    show ?thesis
      using False x length_code_facts(1,2) [OF lc] dist_code_facts(1,4) [OF d]
        cl [of "j_length_code ! lc + 257"] cd [of "d_code (dist - 1)"]
        fixed_len_le(2) [of "j_length_code ! lc + 257"]
      by (simp add: sym_values_def widths_def Let_def)
  qed
qed

lemma sym_widths:
  assumes "trees_ok lt dt" and "sym_ok x"
  shows "widths (sym_values lt dt x) \<le> 48"
proof -
  obtain dist lc where x: "x = (dist, lc)" by fastforce
  have lc: "lc < 256" using assms(2) x by (simp add: sym_ok_def)
  have cl: "snd (cw lt c) \<le> 15" if "c < 286" for c
    using that assms(1) by (simp add: cw_def trees_ok_def list_all_length code_ok_def)
  have cd: "snd (cw dt c) \<le> 15" if "c < 30" for c
    using that assms(1) by (simp add: cw_def trees_ok_def list_all_length code_ok_def)
  show ?thesis
  proof (cases "dist = 0")
    case True
    then show ?thesis using lc cl [of lc] x by (simp add: sym_values_def widths_def)
  next
    case False
    then have d: "1 \<le> dist" "dist \<le> 32768" using assms(2) x by (auto simp: sym_ok_def)
    show ?thesis
      using False x length_code_facts(1,2) [OF lc] dist_code_facts(1,4) [OF d]
        cl [of "j_length_code ! lc + 257"] cd [of "d_code (dist - 1)"]
      by (simp add: sym_values_def widths_def Let_def)
  qed
qed

section \<open>Block headers and ends\<close>

lemma init_block_writer [frame, simp]:
  "pending_buf (init_block s) = pending_buf s" "pending (init_block s) = pending s"
  "bi_buf (init_block s) = bi_buf s" "bi_valid (init_block s) = bi_valid s" "oob (init_block s) = oob s"
  "sym_off (init_block s) = sym_off s" "sym_end (init_block s) = sym_end s"
  "sym_next (init_block s) = 0"
  by (simp_all add: init_block_def Let_def)

lemma init_block_out [simp]:
  "wout (init_block s) = wout s" "winv (init_block s) = winv s" "wroom k (init_block s) = wroom k s"
  by (simp_all add: wout_def winv_def wroom_def)

text \<open>The values a Huffman block is made of: the three header bits, the code lengths of a dynamic
  block, the symbols and the end-of-block code.\<close>

definition block_head :: "tree_type \<Rightarrow> uint32 \<Rightarrow> 'z trees_state_scheme \<Rightarrow> (uint32 \<times> nat) list" where
  "block_head type lst s = (case type of
     STORE \<Rightarrow> [(lst, 3)]
   | FIXED \<Rightarrow> [(2 + lst, 3)]
   | DYNAMIC \<Rightarrow> let lcodes = max_code (l_desc s); dcodes = max_code (d_desc s)
       in (4 + lst, 3) # dyn_header (bl_tree s) (ncode s)
            (take lcodes (lens_of (dyn_ltree s))) (lens_of (dyn_ltree s) ! lcodes)
            (take dcodes (lens_of (dyn_dtree s))) (lens_of (dyn_dtree s) ! dcodes))"

definition block_ltree :: "tree_type \<Rightarrow> 'z trees_state_scheme \<Rightarrow> ct_data list" where
  "block_ltree type s = (if type = DYNAMIC then dyn_ltree s else static_ltree)"

definition block_dtree :: "tree_type \<Rightarrow> 'z trees_state_scheme \<Rightarrow> ct_data list" where
  "block_dtree type s = (if type = DYNAMIC then dyn_dtree s else static_dtree)"

definition header_state_ok :: "tree_type \<Rightarrow> 'z trees_state_scheme \<Rightarrow> bool" where
  "header_state_ok type s \<longleftrightarrow>
    (type = DYNAMIC \<longrightarrow> header_ok (max_code (l_desc s)) (max_code (d_desc s)) (ncode s) s)"

lemma block_head_sendable:
  assumes "header_state_ok type s" and "lst \<in> {0, 1}"
  shows "sendable (block_head type lst s)"
    and "type = DYNAMIC \<Longrightarrow> widths (block_head type lst s)
      \<le> 17 + 3 * ncode s + 7 * (max_code (l_desc s) + max_code (d_desc s))"
proof -
  have l: "lst = 0 \<or> lst = 1" using assms(2) by auto
  let ?ls = "take (max_code (l_desc s)) (lens_of (dyn_ltree s))" and ?lg = "lens_of (dyn_ltree s) ! max_code (l_desc s)"
  let ?ds = "take (max_code (d_desc s)) (lens_of (dyn_dtree s))" and ?dg = "lens_of (dyn_dtree s) ! max_code (d_desc s)"
  have dyn: "sendable (dyn_header (bl_tree s) (ncode s) ?ls ?lg ?ds ?dg)"
    "widths (dyn_header (bl_tree s) (ncode s) ?ls ?lg ?ds ?dg)
      \<le> 14 + 3 * ncode s + 7 * (max_code (l_desc s) + max_code (d_desc s))" if "type = DYNAMIC"
  proof -
    have h: "header_ok (max_code (l_desc s)) (max_code (d_desc s)) (ncode s) s"
      using assms(1) that by (simp add: header_state_ok_def)
    then have "length ?ls = max_code (l_desc s)" "length ?ds = max_code (d_desc s)"
      by (auto simp: lens_of_def header_ok_def)
    moreover have "list_all (\<lambda>x. x < 16) (?lg # ?dg # ?ls @ ?ds)"
      using h by (auto simp: header_ok_def lens_of_def list_all_iff dest!: in_set_takeD)
    ultimately show "sendable (dyn_header (bl_tree s) (ncode s) ?ls ?lg ?ds ?dg)"
      "widths (dyn_header (bl_tree s) (ncode s) ?ls ?lg ?ds ?dg)
        \<le> 14 + 3 * ncode s + 7 * (max_code (l_desc s) + max_code (d_desc s))"
      using dyn_header_sendable [of ?ls ?ds "ncode s" s ?lg ?dg] h by simp_all
  qed
  show "sendable (block_head type lst s)"
    using dyn l by (cases type) (auto simp: block_head_def Let_def take_bit_eq_mod)
  show "widths (block_head type lst s) \<le> 17 + 3 * ncode s + 7 * (max_code (l_desc s) + max_code (d_desc s))"
    if "type = DYNAMIC"
    using dyn that by (simp add: block_head_def Let_def)
qed

text \<open>What \<open>_tr_flush_block_my\<close> sends for a Huffman block.\<close>

lemma flush_block_all:
  assumes "type \<noteq> STORE" and "header_state_ok type s"
    and "list_all sym_ok (syms s 0 n)" and "sym_next s = 3 * n"
    and "sym_off s + sym_next s \<le> length (pending_buf s)"
    and "wbits s + widths (block_head type lst s) \<le> 8 * sym_off s"
    and "overlay_ok (wbits s + widths (block_head type lst s)) (sym_off s)
          (map (sym_values (block_ltree type s) (block_dtree type s)) (syms s 0 n))"
  shows "tr_flush_block_my buf len type lst s =
    (let s1 = init_block (send_all send_bits (block_head type lst s
        @ block_values (block_ltree type s) (block_dtree type s) (syms s 0 n)) s)
     in if lst \<noteq> 0 then bi_windup s1 else s1)"
proof -
  let ?h = "block_head type lst s"
  let ?s = "send_all send_bits ?h s"
  have un: "syms ?s 0 n = syms s 0 n"
    using assms(6) by (intro syms_unchanged) simp
  have "compress_block (block_ltree type s) (block_dtree type s) ?s
    = send_all send_bits (block_values (block_ltree type s) (block_dtree type s) (syms ?s 0 n)) ?s"
    using assms un by (intro compress_block_all) simp_all
  then have body: "compress_block (block_ltree type s) (block_dtree type s) ?s
    = send_all send_bits (?h @ block_values (block_ltree type s) (block_dtree type s) (syms s 0 n)) s"
    by (simp add: un send_all_append)
  have "(case type of STORE \<Rightarrow> j_tr_stored_block buf len lst s
       | FIXED \<Rightarrow> compress_block static_ltree static_dtree (send_bits (push_bit 1 STATIC_TREES + lst) 3 s)
       | DYNAMIC \<Rightarrow> let t1 = send_bits (push_bit 1 DYN_TREES + lst) 3 s;
               t2 = send_all_trees (max_code (l_desc t1)) (max_code (d_desc t1)) (ncode t1) t1
           in compress_block (dyn_ltree t2) (dyn_dtree t2) t2)
    = compress_block (block_ltree type s) (block_dtree type s) ?s"
  proof (cases type)
    case DYNAMIC
    let ?t = "send_bits (4 + lst) 3 s"
    have "header_ok (max_code (l_desc s)) (max_code (d_desc s)) (ncode s) s"
      using assms(2) DYNAMIC by (simp add: header_state_ok_def)
    then have "send_all_trees (max_code (l_desc s)) (max_code (d_desc s)) (ncode s) ?t = ?s"
      using send_all_trees_all [of "max_code (l_desc s)" ?t "max_code (d_desc s)" "ncode s"] DYNAMIC
      by (auto simp: header_ok_def block_head_def Let_def)
    with DYNAMIC show ?thesis by (simp add: Let_def block_ltree_def block_dtree_def)
  qed (use assms(1) in \<open>auto simp: block_head_def block_ltree_def block_dtree_def\<close>)
  with body show ?thesis by (simp add: tr_flush_block_my_def)
qed

lemma block_trees_ok:
  "type = DYNAMIC \<Longrightarrow> trees_ok (dyn_ltree s) (dyn_dtree s) \<Longrightarrow> trees_ok (block_ltree type s) (block_dtree type s)"
  "type \<noteq> DYNAMIC \<Longrightarrow> trees_ok (block_ltree type s) (block_dtree type s)"
  by (simp_all add: block_ltree_def block_dtree_def static_trees_ok)

lemma flush_block_bits:
  assumes "winv s" and "type \<noteq> STORE" and "lst \<in> {0, 1}" and "header_state_ok type s"
    and "trees_ok (block_ltree type s) (block_dtree type s)"
    and "list_all sym_ok (syms s 0 n)" and "sym_next s = 3 * n"
    and "sym_off s + sym_next s \<le> length (pending_buf s)"
    and "wbits s + widths (block_head type lst s) \<le> 8 * sym_off s"
    and "overlay_ok (wbits s + widths (block_head type lst s)) (sym_off s)
          (map (sym_values (block_ltree type s) (block_dtree type s)) (syms s 0 n))"
    and "wroom (widths (block_head type lst s
          @ block_values (block_ltree type s) (block_dtree type s) (syms s 0 n))) s"
  shows "wout (tr_flush_block_my buf len type lst s) =
      (if lst = 0 then id else pad8) (wout s @ vbits (block_head type lst s
         @ block_values (block_ltree type s) (block_dtree type s) (syms s 0 n)))
    \<and> winv (tr_flush_block_my buf len type lst s)"
proof -
  let ?vs = "block_head type lst s @ block_values (block_ltree type s) (block_dtree type s) (syms s 0 n)"
  have "sendable ?vs"
    using assms by (simp add: block_head_sendable sendable_block)
  then have c: "wout (send_all send_bits ?vs s) = wout s @ vbits ?vs" "winv (send_all send_bits ?vs s)"
    "wroom 0 (send_all send_bits ?vs s)"
    using wsink.send_all_correct [OF assms(1), of ?vs 0] assms(11) by auto
  then show ?thesis
    unfolding flush_block_all [OF assms(2,4,6-10)] Let_def
    by (cases "lst = 0") (simp_all add: wsink.out_windup wsink.invar_windup)
qed

section \<open>When a block fits\<close>

text \<open>The condition under which the block of the symbols \<open>xs\<close> comes out right.\<close>

definition block_fits :: "tree_type \<Rightarrow> uint32 \<Rightarrow> (nat \<times> nat) list \<Rightarrow> 'z trees_state_scheme \<Rightarrow> bool" where
  "block_fits type lst xs t \<longleftrightarrow>
    (let h = block_head type lst t; lt = block_ltree type t; dt = block_dtree type t in
     header_state_ok type t \<and> trees_ok lt dt \<and> sym_off t + 3 * length xs \<le> length (pending_buf t) \<and>
     wbits t + widths h \<le> 8 * sym_off t \<and> overlay_ok (wbits t + widths h) (sym_off t) (map (sym_values lt dt) xs) \<and>
     wroom (widths (h @ block_values lt dt xs)) t)"

lemma fixed_fits:
  assumes "list_all sym_ok xs" and "sym_off t + 3 * length xs \<le> length (pending_buf t)" and "wbits t + 7 * length xs + 10 \<le> 8 * sym_off t"
  shows "block_fits FIXED lst xs t"
proof -
  let ?vs = "map (sym_values static_ltree static_dtree) xs"
  have w: "list_all (\<lambda>v. widths v \<le> 24 + 7) ?vs" using assms(1) static_sym_widths by (auto simp: list_all_iff)
  then have "widths (concat ?vs) \<le> 31 * length xs" using widths_concat_le [of 31 ?vs] by simp
  moreover have "snd (cw static_ltree 256) = 7" using static_ltree_nth(1) [of 256] fixed_len_le(3) by (simp add: cw_def)
  ultimately have total: "widths (block_values static_ltree static_dtree xs) \<le> 31 * length xs + 7" by (simp add: block_values_def widths_def)
  have "overlay_ok (wbits t + 3) (sym_off t) ?vs" using w assms(3) by (intro overlay_bound [of 7]) auto
  then show ?thesis using assms total
    by (simp add: block_fits_def block_head_def block_ltree_def block_dtree_def header_state_ok_def static_trees_ok wroom_def wbits_def Let_def)
qed

lemma dynamic_fits:
  assumes "header_state_ok DYNAMIC t" and "lst \<in> {0, 1}" and "trees_ok (dyn_ltree t) (dyn_dtree t)" and "list_all sym_ok xs"
    and "sym_off t + 3 * length xs \<le> length (pending_buf t)"
    and "wbits t + 17 + 3 * ncode t + 7 * (max_code (l_desc t) + max_code (d_desc t)) + 24 * length xs + 15 \<le> 8 * sym_off t"
  shows "block_fits DYNAMIC lst xs t"
proof -
  let ?vs = "map (sym_values (dyn_ltree t) (dyn_dtree t)) xs"
  have w: "list_all (\<lambda>v. widths v \<le> 24 + 24) ?vs" using assms(4) sym_widths [OF assms(3)] by (auto simp: list_all_iff)
  then have "widths (concat ?vs) \<le> 48 * length xs" using widths_concat_le [of 48 ?vs] by simp
  moreover have "widths [cw (dyn_ltree t) 256] \<le> 15" using assms(3) by (intro sendable_cw(2)) (auto simp: trees_ok_def)
  ultimately have total: "widths (block_values (dyn_ltree t) (dyn_dtree t) xs) \<le> 48 * length xs + 15" by (simp add: block_values_def)
  note h = block_head_sendable(2) [OF assms(1,2) refl]
  have "overlay_ok (wbits t + widths (block_head DYNAMIC lst t)) (sym_off t) ?vs" using w h assms(6) by (intro overlay_bound [of 24]) auto
  then show ?thesis using assms total h by (simp add: block_fits_def block_ltree_def block_dtree_def wroom_def wbits_def Let_def)
qed

lemma fits_flush:
  assumes "winv s" and "type \<noteq> STORE" and "lst \<in> {0, 1}" and "list_all sym_ok (syms s 0 n)" and "sym_next s = 3 * n"
    and "block_fits type lst (syms s 0 n) s"
  shows "wout (tr_flush_block_my buf len type lst s) =
      (if lst = 0 then id else pad8) (wout s @ vbits (block_head type lst s
         @ block_values (block_ltree type s) (block_dtree type s) (syms s 0 n)))
    \<and> winv (tr_flush_block_my buf len type lst s)"
  using assms flush_block_bits [of s type lst n buf len] by (simp add: block_fits_def Let_def)


section \<open>Tallying symbols\<close>

lemma sym_put3:
  assumes "sym_off s + sym_next s + 3 \<le> length (pending_buf s)"
  shows "sym_put c (sym_put b (sym_put a s)) = (let i = sym_off s + sym_next s in
    s\<lparr>pending_buf := (pending_buf s)[i := a, Suc i := b, Suc (Suc i) := c], sym_next := sym_next s + 3\<rparr>)"
  using assms by (simp add: sym_put_def Let_def)

lemma syms_sym_put3:
  assumes "sym_off s + sym_next s + 3 \<le> length (pending_buf s)" and "sym_next s = 3 * n"
  shows "syms (sym_put c (sym_put b (sym_put a s))) 0 (Suc n) = syms s 0 n @ [(unat a + unat b * 256, unat c)]"
proof -
  let ?t = "sym_put c (sym_put b (sym_put a s))"
  have "sym_at (3 * i) ?t = sym_at (3 * i) s" if "i < n" for i
    using that assms by (simp add: sym_put3 Let_def sym_at_def)
  then have "syms ?t 0 n = syms s 0 n" by (simp add: syms_def)
  moreover have "sym_at (3 * n) ?t = (unat a + unat b * 256, unat c)"
    using assms by (simp add: sym_put3 Let_def sym_at_def)
  ultimately show ?thesis by (simp add: syms_snoc)
qed

lemma unat_ush_less: "unat (d :: ush) < 65536"
proof -
  have "unat d < 2 ^ LENGTH(16)" by (rule unsigned_less)
  then show ?thesis by simp
qed

lemma ush_bytes: "unat (ucast (d :: ush) :: byte) + unat (ucast (drop_bit 8 d) :: byte) * 256 = unat d"
proof -
  have "unat (ucast d :: byte) = unat d mod 256" by (simp add: unsigned_ucast_eq unat_take_bit take_bit_eq_mod)
  moreover have "unat (ucast (drop_bit 8 d) :: byte) = unat d div 256"
  proof -
    have "unat d div 256 < 256" using unat_ush_less [of d] by (simp add: less_mult_imp_div_less)
    then show ?thesis
      unfolding unsigned_ucast_eq unat_take_bit unat_drop_bit_eq
      by (simp add: take_bit_eq_mod drop_bit_eq_div)
  qed
  ultimately show ?thesis by simp
qed

section \<open>Properties\<close>

text \<open>A concrete state with the literal 65 and the match of length 10 at distance 5 tallied, and
  trees in which every symbol has a code.\<close>

definition block_demo :: trees_state where
  "block_demo = (fst (tr_tally_dist_my 5 7 (fst (tr_tally_lit_my 65 (trees_blank 256)))))\<lparr>
     dyn_ltree := (replicate HEAP_SIZE (ct (0, 9)))[257 := ct (0, 0)],
     dyn_dtree := (replicate 61 (ct (0, 5)))[1 := ct (0, 0)],
     bl_tree := replicate 39 (ct (3, 5)),
     l_desc := \<lparr>dyn_tree = Dyn_ltree, max_code = 257, stat_desc = static_l_desc\<rparr>,
     d_desc := \<lparr>dyn_tree = Dyn_dtree, max_code = 1, stat_desc = static_d_desc\<rparr>,
     ncode := 19\<rparr>"

lemma block_demo_tally:
  "block_demo = (trees_blank 256)\<lparr>
     pending_buf := (replicate 4096 0)[256 := 0, 257 := 0, 258 := 65, 259 := 5, 260 := 0, 261 := 7],
     sym_next := 6,
     dyn_ltree := (replicate HEAP_SIZE (ct (0, 9)))[257 := ct (0, 0)],
     dyn_dtree := (replicate 61 (ct (0, 5)))[1 := ct (0, 0)],
     bl_tree := replicate 39 (ct (3, 5)),
     l_desc := \<lparr>dyn_tree = Dyn_ltree, max_code = 257, stat_desc = static_l_desc\<rparr>,
     d_desc := \<lparr>dyn_tree = Dyn_dtree, max_code = 1, stat_desc = static_d_desc\<rparr>,
     ncode := 19\<rparr>"
  by (simp add: block_demo_def tr_tally_dist_my_def tr_tally_lit_my_def sym_put_def trees_blank_def)

lemma block_demo_syms: "syms block_demo 0 2 = [(0, 65), (5, 7)]"
  by (simp add: block_demo_tally trees_blank_def syms_def sym_at_def upt_rec)

lemma block_demo_header: "header_ok 257 1 19 block_demo"
  by (auto simp: header_ok_def block_demo_tally trees_blank_def lens_of_def ct_def code_ok_def
      map_update nth_list_update nth_replicate take_bit_eq_mod intro!: list_all_update list_all_replicate)

lemma block_demo_ok:
  "winv block_demo" "header_state_ok DYNAMIC block_demo" "syms block_demo 0 2 = [(0, 65), (5, 7)]"
  "trees_ok (dyn_ltree block_demo) (dyn_dtree block_demo)"
  "max_code (l_desc block_demo) = 257" "max_code (d_desc block_demo) = 1" "ncode block_demo = 19"
  "wbits block_demo = 0" "sym_off block_demo = 256" "sym_next block_demo = 6"
  "length (pending_buf block_demo) = 4096"
  using block_demo_header block_demo_syms
  by (auto simp: block_demo_tally trees_blank_def winv_def header_state_ok_def wbits_def trees_ok_def
      ct_def code_ok_def intro!: list_all_update list_all_replicate)

text \<open>C22: When the bits of the block never catch up with the symbols still to be read in the shared
  array, \<open>_tr_flush_block_my\<close> for a fixed or dynamic block appends to the output exactly the three
  header bits, for a dynamic block the code lengths, then the code of every tallied symbol in order
  and the end-of-block code, and after the last block pads to a byte.\<close>

theorem flush_block_huffman:
  assumes "winv s" and "type \<noteq> STORE" and "lst \<in> {0, 1}" and "header_state_ok type s"
    and "trees_ok (block_ltree type s) (block_dtree type s)"
    and "list_all sym_ok (syms s 0 n)" and "sym_next s = 3 * n"
    and "sym_off s + sym_next s \<le> length (pending_buf s)"
    and "wbits s + widths (block_head type lst s) \<le> 8 * sym_off s"
    and "overlay_ok (wbits s + widths (block_head type lst s)) (sym_off s)
          (map (sym_values (block_ltree type s) (block_dtree type s)) (syms s 0 n))"
    and "wroom (widths (block_head type lst s
          @ block_values (block_ltree type s) (block_dtree type s) (syms s 0 n))) s"
  shows "wout (tr_flush_block_my buf len type lst s) =
      (if lst = 0 then id else pad8) (wout s @ vbits (block_head type lst s
         @ block_values (block_ltree type s) (block_dtree type s) (syms s 0 n)))
    \<and> winv (tr_flush_block_my buf len type lst s)"
  by (rule flush_block_bits [OF assms])

theorem flush_block_huffman_witness:
  "let s = block_demo; vs = block_head FIXED 1 s @ block_values static_ltree static_dtree [(0, 65), (5, 7)]
   in wout (tr_flush_block_my 256 6 FIXED 1 s) = pad8 (wout s @ vbits vs)
      \<and> winv (tr_flush_block_my 256 6 FIXED 1 s)"
proof -
  have w: "widths (sym_values static_ltree static_dtree x) \<le> 31" if "x \<in> {(0, 65), (5, 7)}" for x
    using that by (intro static_sym_widths) (auto simp: sym_ok_def)
  have e: "snd (cw static_ltree 256) = 7"
    using static_ltree_nth(1) [of 256] fixed_len_le(3) by (simp add: cw_def)
  show ?thesis
    using flush_block_huffman [of block_demo FIXED 1 2 256 6] block_demo_ok w [of "(0, 65)"] w [of "(5, 7)"] e
    by (simp add: Let_def header_state_ok_def block_ltree_def block_dtree_def static_trees_ok block_head_def
        sym_ok_def block_values_def wroom_def wbits_def widths_def)
qed

text \<open>C23: A dynamic block is encoded exactly whenever its longest possible header, \<open>24 n\<close> bits (48 bits
  for each symbol, less its three bytes) and one more code fit in front of \<open>sym_buf\<close>, whatever the
  code lengths are.\<close>

theorem dynamic_block_exact:
  assumes "winv s" and "lst \<in> {0, 1}" and "header_state_ok DYNAMIC s"
    and "trees_ok (dyn_ltree s) (dyn_dtree s)"
    and "list_all sym_ok (syms s 0 n)" and "sym_next s = 3 * n"
    and "sym_off s + sym_next s \<le> length (pending_buf s)"
    and "wbits s + 17 + 3 * ncode s + 7 * (max_code (l_desc s) + max_code (d_desc s)) + 24 * n + 15
      \<le> 8 * sym_off s"
  shows "wout (tr_flush_block_my buf len DYNAMIC lst s) =
      (if lst = 0 then id else pad8) (wout s @ vbits (block_head DYNAMIC lst s
         @ block_values (dyn_ltree s) (dyn_dtree s) (syms s 0 n)))
    \<and> winv (tr_flush_block_my buf len DYNAMIC lst s)"
proof -
  have "block_fits DYNAMIC lst (syms s 0 n) s" using assms by (intro dynamic_fits) simp_all
  then show ?thesis using fits_flush [of s DYNAMIC lst n buf len] assms by (simp add: block_ltree_def block_dtree_def)
qed

theorem dynamic_block_exact_witness:
  "let s = block_demo; vs = block_head DYNAMIC 1 s @ block_values (dyn_ltree s) (dyn_dtree s) [(0, 65), (5, 7)]
   in wout (tr_flush_block_my 256 6 DYNAMIC 1 s) = pad8 (wout s @ vbits vs)
      \<and> winv (tr_flush_block_my 256 6 DYNAMIC 1 s)"
  using dynamic_block_exact [of block_demo 1 2 256 6] block_demo_ok
  by (simp add: Let_def sym_ok_def)

text \<open>C24: A fixed block of \<open>n\<close> valid symbols is encoded exactly whenever \<open>7 n + 10\<close> bits plus the bits
  already pending fit in front of \<open>sym_buf\<close>: the 31 bits a symbol may take outrun its three bytes
  by seven bits.\<close>

theorem fixed_block_exact:
  assumes "winv s" and "lst \<in> {0, 1}" and "list_all sym_ok (syms s 0 n)" and "sym_next s = 3 * n"
    and "sym_off s + sym_next s \<le> length (pending_buf s)"
    and "wbits s + 7 * n + 10 \<le> 8 * sym_off s"
  shows "wout (tr_flush_block_my buf len FIXED lst s) =
      (if lst = 0 then id else pad8) (wout s @ bits_of 3 (2 + lst)
         @ vbits (block_values static_ltree static_dtree (syms s 0 n)))
    \<and> winv (tr_flush_block_my buf len FIXED lst s)"
proof -
  have "block_fits FIXED lst (syms s 0 n) s" using assms by (intro fixed_fits) simp_all
  then show ?thesis using fits_flush [of s FIXED lst n buf len] assms by (simp add: block_head_def block_ltree_def block_dtree_def)
qed

theorem fixed_block_exact_witness:
  "wout (tr_flush_block_my 256 6 FIXED 0 block_demo) =
     wout block_demo @ bits_of 3 (2::uint32) @ vbits (block_values static_ltree static_dtree [(0, 65), (5, 7)])"
  using fixed_block_exact [of block_demo 0 2 256 6] block_demo_ok
  by (simp add: sym_ok_def)

text \<open>C25: Tallying a literal or a match appends one symbol to the list that \<open>compress_block\<close> will read,
  with the byte or the distance and length as given, leaves the earlier symbols and the bits already
  pending alone, and reports full exactly when \<open>sym_next\<close> reaches \<open>sym_end\<close>.\<close>

theorem tally_appends:
  assumes "sym_next s = 3 * n" and "sym_off s + sym_next s + 3 \<le> length (pending_buf s)"
    and "pending s \<le> sym_off s"
  shows "(case tr_tally_lit_my c s of (t, full) \<Rightarrow>
        syms t 0 (Suc n) = syms s 0 n @ [(0, unat (ucast c :: byte))] \<and> sym_next t = 3 * Suc n \<and>
        wout t = wout s \<and> winv t = winv s \<and> full = (3 * Suc n = sym_end s))
    \<and> (case tr_tally_dist_my d l s of (t, full) \<Rightarrow>
        syms t 0 (Suc n) = syms s 0 n @ [(unat (ucast d :: ush), unat (ucast l :: byte))] \<and>
        sym_next t = 3 * Suc n \<and>
        wout t = wout s \<and> winv t = winv s \<and> full = (3 * Suc n = sym_end s))"
proof -
  let ?t = "\<lambda>a b c. sym_put c (sym_put b (sym_put a s))"
  have f: "sym_next (?t a b c) = 3 * Suc n \<and> wout (?t a b c) = wout s \<and> winv (?t a b c) = winv s
      \<and> sym_end (?t a b c) = sym_end s" for a b c
    using assms by (simp add: sym_put3 Let_def wout_def winv_def)
  then show ?thesis
    using syms_sym_put3 [OF assms(2,1)]
    by (simp add: tr_tally_lit_my_def tr_tally_dist_my_def Let_def ush_bytes)
qed

theorem tally_appends_witness:
  "(case tr_tally_dist_my 0x1234 9 (trees_blank 128) of (t, full) \<Rightarrow> syms t 0 1 = [(0x1234, 9)] \<and> \<not> full)"
  using tally_appends [of "trees_blank 128" 0 0 "0x1234" 9]
  by (auto simp: trees_blank_def syms_def split: prod.splits)

end
