(* ===== verification/Trees_Stored.thy ===== *)
theory Trees_Stored
  imports Trees_Blocks
begin

text \<open>
  Stored blocks.  \<open>deflate_my\<close> collects the raw bytes of a stored block in \<open>sym_buf\<close> and
  \<open>j_tr_stored_block\<close> copies them from there to the end of the pending output, inside one array.
\<close>

section \<open>Byte aligned writes\<close>

lemma put_short_out:
  assumes "winv s" and "bi_valid s = 0" and "pending s + 2 \<le> length (pending_buf s)"
  shows "wout (put_short w s) = wout s @ bits_of 16 w" and "winv (put_short w s)"
  using assms put_short_bytes [OF assms(3), of w] by (simp_all add: wout_def winv_def)

lemma bi_windup_pending:
  "bi_valid s \<le> 16 \<Longrightarrow> pending (bi_windup s) = pending s + (bi_valid s + 7) div 8"
proof -
  assume v: "bi_valid s \<le> 16"
  consider "bi_valid s > 8" | "0 < bi_valid s" "bi_valid s \<le> 8" | "bi_valid s = 0" by linarith
  then show ?thesis
  proof cases
    case 1
    then have "(bi_valid s + 7) div 8 = 2" using v by (intro div_nat_eqI) auto
    with 1 show ?thesis by (simp add: bi_windup_def)
  next
    case 2
    then have "(bi_valid s + 7) div 8 = 1" by (intro div_nat_eqI) auto
    with 2 show ?thesis by (simp add: bi_windup_def)
  next
    case 3
    then show ?thesis by (simp add: bi_windup_def)
  qed
qed

lemma bi_windup_nth [frame]:
  "pending (bi_windup s) \<le> i \<Longrightarrow> pending_buf (bi_windup s) ! i = pending_buf s ! i"
  by (auto simp: bi_windup_def Let_def put_short_nth put_byte_nth split: if_splits)

lemma send_bits_valid: "bi_valid s \<le> 16 \<Longrightarrow> n \<le> 16 \<Longrightarrow> bi_valid (send_bits v n s) \<le> 16"
  by (cases "bi_valid s + n \<le> 16") (auto simp: send_bits_fits send_bits_spills)

lemma ceil8: "8 * ((m + 7) div 8) \<le> m + 7" "m \<le> 8 * ((m + 7) div 8)" for m :: nat
  using div_mult_mod_eq [of "m + 7" 8] mod_less_divisor [of 8 "m + 7"] by linarith+

lemma mult8_bounds:
  assumes "8 * p \<le> a + (42::nat)" and "a + 35 \<le> 8 * p"
  shows "8 * q < a + 35 + 8 * n \<Longrightarrow> \<not> p + n \<le> q" and "a + 42 < 8 * q \<Longrightarrow> \<not> q \<le> p"
    and "a + 42 + 8 * n \<le> 8 * q \<Longrightarrow> p + n \<le> q"
  using assms by linarith+

text \<open>The state after the header of a stored block and the two length fields.\<close>

definition stored_head :: "nat \<Rightarrow> uint32 \<Rightarrow> 'z trees_state_scheme \<Rightarrow> 'z trees_state_scheme" where
  "stored_head n lst s = put_short (NOT (of_nat n)) (put_short (of_nat n) (bi_windup (send_bits lst 3 s)))"

lemma j_tr_stored_block_head:
  "j_tr_stored_block buf n lst s =
    (let s1 = stored_head n lst s; s2 = (if n \<noteq> 0 then copy_pending buf n s1 else s1)
     in s2\<lparr>pending := pending s2 + n\<rparr>)"
  by (simp add: j_tr_stored_block_def stored_head_def)

lemma stored_head_pending:
  assumes "bi_valid s \<le> 16"
  shows "8 * pending (stored_head n lst s) \<le> wbits s + 42" and "wbits s + 35 \<le> 8 * pending (stored_head n lst s)"
    and "bi_valid (stored_head n lst s) = 0"
proof -
  let ?t = "send_bits lst 3 s"
  have t: "8 * pending ?t + bi_valid ?t = wbits s + 3" by (simp add: wbits_def send_bits_total)
  have "pending (bi_windup ?t) = pending ?t + (bi_valid ?t + 7) div 8"
    using assms by (intro bi_windup_pending send_bits_valid) auto
  then show "8 * pending (stored_head n lst s) \<le> wbits s + 42"
    and "wbits s + 35 \<le> 8 * pending (stored_head n lst s)"
    using t ceil8 [of "bi_valid ?t"] by (simp_all add: stored_head_def)
  show "bi_valid (stored_head n lst s) = 0" by (simp add: stored_head_def)
qed

lemma stored_head_nth:
  assumes "pending (stored_head n lst s) \<le> i"
  shows "pending_buf (stored_head n lst s) ! i = pending_buf s ! i"
proof -
  let ?u = "bi_windup (send_bits lst 3 s)"
  have u: "pending ?u + 4 \<le> i" using assms by (simp add: stored_head_def)
  have "pending (send_bits lst 3 s) \<le> i"
    using u by (auto simp: bi_windup_def Let_def split: if_splits)
  with u show ?thesis
    by (simp add: stored_head_def put_short_nth bi_windup_nth send_bits_nth)
qed

lemma stored_head_frame [simp]:
  "length (pending_buf (stored_head n lst s)) = length (pending_buf s)"
  by (simp add: stored_head_def)

lemma stored_head_out:
  assumes "winv s" and "lst \<in> {0, 1}" and "wbits s + 42 \<le> 8 * length (pending_buf s)"
  shows "wout (stored_head n lst s) = pad8 (wout s @ bits_of 3 lst)
      @ bits_of 16 (of_nat n :: ush) @ bits_of 16 (NOT (of_nat n) :: ush)"
    and "winv (stored_head n lst s)"
proof -
  let ?t = "send_bits lst 3 s" and ?u = "bi_windup (send_bits lst 3 s)"
  have v: "bi_valid s \<le> 16" using assms(1) by (simp add: winv_def reg_ok_def)
  have "take_bit 3 lst = lst" using assms(2) by (auto simp: take_bit_eq_mod)
  then have t: "wout ?t = wout s @ bits_of 3 lst" "winv ?t" "wroom 0 ?t"
    using assms(1,3) send_bits_correct [of s 3 lst] wsink.room_send [of s 3 0 lst]
    by (auto simp: wroom_def wbits_def)
  then have u: "wout ?u = pad8 (wout s @ bits_of 3 lst)" "winv ?u"
    using wsink.out_windup [OF t(2,3)] wsink.invar_windup [OF t(2,3)] by simp_all
  have p: "8 * (pending ?u + 4) \<le> wbits s + 42"
    using stored_head_pending(1) [OF v, of n lst] by (simp add: stored_head_def)
  then have "pending ?u + 4 \<le> length (pending_buf s)"
    using assms(3) le_of_mult8 [of "pending ?u + 4" 0 "length (pending_buf s)"] by simp
  then have s3: "wout (put_short (of_nat n) ?u) = wout ?u @ bits_of 16 (of_nat n :: ush)"
    "winv (put_short (of_nat n) ?u)"
    using u by (intro put_short_out; simp)+
  then show "wout (stored_head n lst s) = pad8 (wout s @ bits_of 3 lst)
      @ bits_of 16 (of_nat n :: ush) @ bits_of 16 (NOT (of_nat n) :: ush)"
    and "winv (stored_head n lst s)"
    using u put_short_out [of "put_short (of_nat n) ?u" "NOT (of_nat n)"] \<open>pending ?u + 4 \<le> _\<close>
    by (simp_all add: stored_head_def)
qed

lemma stored_block_out:
  assumes "winv s" and "lst \<in> {0, 1}" and "buf + n \<le> length (pending_buf s)"
    and "wbits s + 42 + 8 * n \<le> 8 * buf"
  shows "wout (j_tr_stored_block buf n lst s) = pad8 (wout s @ bits_of 3 lst)
      @ bits_of 16 (of_nat n :: ush) @ bits_of 16 (NOT (of_nat n) :: ush)
      @ bytes_bits (take n (drop buf (pending_buf s)))"
    and "winv (j_tr_stored_block buf n lst s)" and "bi_valid (j_tr_stored_block buf n lst s) = 0"
proof -
  let ?h = "stored_head n lst s"
  let ?P = "pending ?h"
  have v: "bi_valid s \<le> 16" using assms(1) by (simp add: winv_def reg_ok_def)
  note P = stored_head_pending [OF v, of n lst]
  have room: "?P + n \<le> buf" using mult8_bounds(3) [OF P(1,2)] assms(4) .
  have same: "take n (drop buf (pending_buf ?h)) = take n (drop buf (pending_buf s))"
    using room assms(3) by (intro nth_equalityI) (auto simp: stored_head_nth)
  have h: "wout ?h = bytes_bits (take ?P (pending_buf ?h))" using P(3) by (simp add: wout_def)
  have len: "?P + n \<le> length (pending_buf s)" using room assms(3) by linarith
  let ?b = "take ?P (pending_buf ?h) @ take n (drop buf (pending_buf ?h)) @ drop (?P + n) (pending_buf ?h)"
  have blk: "j_tr_stored_block buf n lst s = ?h\<lparr>pending_buf := ?b, pending := ?P + n\<rparr>"
    using len room assms(3)
    by (cases "n = 0") (simp_all add: j_tr_stored_block_head Let_def copy_pending_def)
  have m: "min (length (pending_buf s)) ?P = ?P" using len by simp
  have "take (?P + n) ?b = take ?P (pending_buf ?h) @ take n (drop buf (pending_buf ?h))"
    using len assms(3) by simp
  then show "wout (j_tr_stored_block buf n lst s) = pad8 (wout s @ bits_of 3 lst)
      @ bits_of 16 (of_nat n :: ush) @ bits_of 16 (NOT (of_nat n) :: ush)
      @ bytes_bits (take n (drop buf (pending_buf s)))"
    using stored_head_out(1) [OF assms(1,2), of n] assms(3,4) P(3) h same
    by (simp add: blk wout_def m)
  show "winv (j_tr_stored_block buf n lst s)" and "bi_valid (j_tr_stored_block buf n lst s) = 0"
    using stored_head_out(2) [OF assms(1,2), of n] assms(3,4) P(3) by (simp_all add: blk winv_def)
qed

section \<open>Properties\<close>



text \<open>C27: A stored block that does not fit in front of \<open>sym_buf\<close> makes the \<open>memcpy\<close> of
  \<open>j_tr_stored_block\<close> copy between overlapping regions, which is undefined: with the default
  \<open>lit_bufsize\<close> of 16384 and an empty output this is every stored block of more than 16379 bytes,
  although the format and \<open>deflate_my\<close> admit 65535.\<close>

theorem stored_block_overlap:
  assumes "bi_valid s \<le> 16" and "wbits s + 35 + 8 * n > 8 * sym_off s" and "wbits s + 42 < 8 * (sym_off s + n)"
    and "0 < n"
  shows "oob (j_tr_stored_block (sym_off s) n lst s)"
proof -
  let ?h = "stored_head n lst s"
  note P = stored_head_pending [OF assms(1), of n lst]
  have "\<not> pending ?h + n \<le> sym_off s" "\<not> sym_off s + n \<le> pending ?h"
    using mult8_bounds [OF P(1,2)] assms(2,3) by auto
  then have "oob (copy_pending (sym_off s) n ?h)" unfolding copy_pending_def Let_def by auto
  then show ?thesis using assms(4) by (simp add: j_tr_stored_block_head Let_def)
qed

theorem stored_block_overlap_witness: "oob (j_tr_stored_block 16384 16380 0 (trees_blank 16384))"
  using stored_block_overlap [of "trees_blank 16384" 16380 0]
  by (simp add: trees_blank_def wbits_def)

end
