(* ===== verification/Inftrees.thy ===== *)
theory Inftrees
  imports Code_Tables
begin

text \<open>
  Building decoding tables, \<open>inflate_table\<close> of inftrees.c and its copy \<open>inflate_table_my\<close> of
  deflate.c.  The two are the same text except that the copy also stores the length and the code of
  every symbol in a tree for the encoder; one core is defined with the tree and the two routines are
  its projections.  \<open>*table\<close> is an index into the array \<open>codes\<close> of the state.  Undefined behaviour
  (an index outside an array, a counter below zero) is the value \<open>None\<close>; the return codes 0, -1
  and 1 are values.
\<close>

section \<open>Counting and sorting the lengths\<close>

abbreviation (input) "ENOUGH_LENS \<equiv> (852::nat)"
abbreviation (input) "ENOUGH_DISTS \<equiv> (592::nat)"
abbreviation (input) "ENOUGH \<equiv> (1444::nat)"

fun count_lens :: "nat list \<Rightarrow> nat list \<Rightarrow> nat list option" where
  "count_lens [] count = Some count"
| "count_lens (l # ls) count =
    (if l < length count then count_lens ls (count[l := count ! l + 1]) else None)"

text \<open>\<^verbatim>\<open>for (max = MAXBITS; max >= 1; max--) if (count[max] != 0) break;\<close> and the loop for \<open>min\<close>.\<close>

fun find_max :: "nat \<Rightarrow> nat list \<Rightarrow> nat" where
  "find_max 0 count = 0"
| "find_max (Suc m) count = (if count ! Suc m \<noteq> 0 then Suc m else find_max m count)"

function find_min :: "nat \<Rightarrow> nat \<Rightarrow> nat list \<Rightarrow> nat" where
  "find_min mn mx count = (if mn < mx then if count ! mn \<noteq> 0 then mn else find_min (mn + 1) mx count else mn)"
  by auto
termination by (relation "measure (\<lambda>(mn, mx, _). mx - mn)") auto

declare find_min.simps [simp del]

text \<open>The check for an over-subscribed set: \<open>None\<close> when \<open>left\<close> becomes negative.\<close>

fun check_left :: "nat list \<Rightarrow> int \<Rightarrow> int option" where
  "check_left [] left = Some left"
| "check_left (c # cs) left =
    (let left' = left * 2 - int c in if left' < 0 then None else check_left cs left')"

fun make_offs :: "nat \<Rightarrow> nat \<Rightarrow> nat list \<Rightarrow> nat list \<Rightarrow> nat list" where
  "make_offs 0 len count offs = offs"
| "make_offs (Suc k) len count offs =
    make_offs k (len + 1) count (offs[len + 1 := offs ! len + count ! len])"

fun sort_syms :: "nat list \<Rightarrow> nat \<Rightarrow> nat list \<Rightarrow> nat list \<Rightarrow> nat list option" where
  "sort_syms [] sm offs work = Some work"
| "sort_syms (l # ls) sm offs work =
    (if l \<noteq> 0 then
       (if l < length offs \<and> offs ! l < length work
        then sort_syms ls (sm + 1) (offs[l := offs ! l + 1]) (work[offs ! l := sm])
        else None)
     else sort_syms ls (sm + 1) offs work)"

section \<open>Filling the tables\<close>

definition table_entry :: "codetype \<Rightarrow> nat list \<Rightarrow> nat \<Rightarrow> nat \<Rightarrow> code" where
  "table_entry type work w b =
    (let base = (case type of CODES \<Rightarrow> map of_nat work | LENS \<Rightarrow> lbase | DISTS \<Rightarrow> dbase);
         extra = (case type of CODES \<Rightarrow> map of_nat work | LENS \<Rightarrow> lext | DISTS \<Rightarrow> dext);
         match = (case type of CODES \<Rightarrow> 20 | LENS \<Rightarrow> 257 | DISTS \<Rightarrow> 0)
     in if w + 1 < match then \<lparr>c_op = 0, c_bits = of_nat b, c_val = of_nat w\<rparr>
        else if w \<ge> match
        then \<lparr>c_op = ucast (extra ! (w - match)), c_bits = of_nat b, c_val = base ! (w - match)\<rparr>
        else \<lparr>c_op = 96, c_bits = of_nat b, c_val = 0\<rparr>)"

text \<open>\<^verbatim>\<open>do { fill -= incr; next[(huff >> drop) + fill] = here; } while (fill != 0)\<close>\<close>

function fill_entries :: "nat \<Rightarrow> nat \<Rightarrow> nat \<Rightarrow> code \<Rightarrow> code list \<Rightarrow> code list option" where
  "fill_entries i incr fill here tab =
    (if incr = 0 \<or> fill < incr \<or> length tab \<le> i + (fill - incr) then None
     else let fill' = fill - incr; tab' = tab[i + fill' := here]
          in if fill' \<noteq> 0 then fill_entries i incr fill' here tab' else Some tab')"
  by auto
termination by (relation "measure (\<lambda>(i, incr, fill, _). fill)") auto

declare fill_entries.simps [simp del]

text \<open>The backwards increment: \<^verbatim>\<open>incr = 1U << (len - 1); while (huff & incr) incr >>= 1;\<close>\<close>

fun find_incr :: "nat \<Rightarrow> nat \<Rightarrow> nat" where
  "find_incr huff 0 = 0"
| "find_incr huff (Suc i) = (if bit huff i then find_incr huff i else 2 ^ i)"

definition back_incr :: "nat \<Rightarrow> nat \<Rightarrow> nat" where
  "back_incr huff len =
    (let incr = find_incr huff len in if incr \<noteq> 0 then (huff AND (incr - 1)) + incr else 0)"

text \<open>The number of index bits of a new sub-table.\<close>

function extend_curr :: "nat list \<Rightarrow> nat \<Rightarrow> nat \<Rightarrow> nat \<Rightarrow> int \<Rightarrow> nat" where
  "extend_curr count drp mx cur left =
    (if cur + drp < mx then
       let left' = left - int (count ! (cur + drp))
       in if left' \<le> 0 then cur else extend_curr count drp mx (cur + 1) (left' * 2)
     else cur)"
  by auto
termination by (relation "measure (\<lambda>(count, drp, mx, cur, left). mx - (cur + drp))") auto

declare extend_curr.simps [simp del]

text \<open>The local variables of the main loop.  \<open>tb_low = None\<close> is the initial \<^verbatim>\<open>(unsigned)(-1)\<close>.\<close>

record tb =
  tb_tab :: "code list"
  tb_tree :: "ct_data list"
  tb_huff :: nat
  tb_sym :: nat
  tb_len :: nat
  tb_next :: nat
  tb_curr :: nat
  tb_drop :: nat
  tb_low :: "nat option"
  tb_used :: nat
  tb_count :: "nat list"

datatype tb_result = More tb | Break tb | Return int tb

definition space_exceeded :: "codetype \<Rightarrow> nat \<Rightarrow> bool" where
  "space_exceeded type used \<longleftrightarrow> type = LENS \<and> used > ENOUGH_LENS \<or> type = DISTS \<and> used > ENOUGH_DISTS"

text \<open>Entering one symbol.\<close>

definition tb_enter :: "codetype \<Rightarrow> nat list \<Rightarrow> tb \<Rightarrow> tb option" where
  "tb_enter type work t =
    (if tb_sym t < length work then
       let w = work ! tb_sym t; here = table_entry type work w (tb_len t - tb_drop t) in
       (case fill_entries (tb_next t + drop_bit (tb_drop t) (tb_huff t)) (2 ^ (tb_len t - tb_drop t))
               (2 ^ tb_curr t) here (tb_tab t) of
          None \<Rightarrow> None
        | Some tab \<Rightarrow>
            if w < length (tb_tree t)
            then Some (t\<lparr>tb_tab := tab, tb_tree := (tb_tree t)[w := ct (of_nat (tb_huff t), of_nat (tb_len t))]\<rparr>)
            else None)
     else None)"

text \<open>Opening a sub-table: \<open>base\<close> is the value of \<^verbatim>\<open>*table\<close>.\<close>

definition tb_subtable :: "codetype \<Rightarrow> nat \<Rightarrow> nat \<Rightarrow> nat \<Rightarrow> tb \<Rightarrow> tb_result option" where
  "tb_subtable type root mx base t =
    (let drp = (if tb_drop t = 0 then root else tb_drop t);
         nxt = tb_next t + 2 ^ tb_curr t;
         cur = extend_curr (tb_count t) drp mx (tb_len t - drp) (2 ^ (tb_len t - drp));
         used = tb_used t + 2 ^ cur;
         low = tb_huff t AND (2 ^ root - 1)
     in if space_exceeded type used then Some (Return 1 t)
        else if base + low < length (tb_tab t)
        then Some (More (t\<lparr>tb_drop := drp, tb_next := nxt, tb_curr := cur, tb_used := used,
               tb_low := Some low,
               tb_tab := (tb_tab t)[base + low :=
                 \<lparr>c_op = of_nat cur, c_bits = of_nat root, c_val = of_nat (nxt - base)\<rparr>]\<rparr>))
        else None)"

definition tb_step :: "codetype \<Rightarrow> nat list \<Rightarrow> nat list \<Rightarrow> nat \<Rightarrow> nat \<Rightarrow> nat \<Rightarrow> tb \<Rightarrow> tb_result option" where
  "tb_step type lens work root mx base t0 =
    (case tb_enter type work t0 of
       None \<Rightarrow> None
     | Some t \<Rightarrow>
         let len = tb_len t; huff = back_incr (tb_huff t) len; sm = tb_sym t + 1
         in if length (tb_count t) \<le> len \<or> tb_count t ! len = 0 then None
            else
              let count = (tb_count t)[len := tb_count t ! len - 1];
                  t1 = t\<lparr>tb_huff := huff, tb_sym := sm, tb_count := count\<rparr>
              in if count ! len = 0 \<and> len = mx then Some (Break t1)
                 else if count ! len = 0 \<and> (length work \<le> sm \<or> length lens \<le> work ! sm) then None
                 else
                   let t2 = (if count ! len = 0 then t1\<lparr>tb_len := lens ! (work ! sm)\<rparr> else t1)
                   in if tb_len t2 > root \<and> Some (huff AND (2 ^ root - 1)) \<noteq> tb_low t2
                      then tb_subtable type root mx base t2
                      else Some (More t2))"

text \<open>The loop ends after one iteration per symbol with a nonzero length; the fuel is the number of
  symbols.\<close>

fun tb_loop :: "nat \<Rightarrow> codetype \<Rightarrow> nat list \<Rightarrow> nat list \<Rightarrow> nat \<Rightarrow> nat \<Rightarrow> nat \<Rightarrow> tb \<Rightarrow> tb_result option" where
  "tb_loop 0 type lens work root mx base t = None"
| "tb_loop (Suc fuel) type lens work root mx base t =
    (case tb_step type lens work root mx base t of
       Some (More t') \<Rightarrow> tb_loop fuel type lens work root mx base t'
     | r \<Rightarrow> r)"

section \<open>inflate\_table\<close>

record table_out =
  to_ret :: int
  to_tab :: "code list"
  to_table :: nat
  to_bits :: nat
  to_work :: "nat list"
  to_tree :: "ct_data list"

text \<open>After the loop: the one entry left open by an incomplete code of length one.\<close>

definition tb_finish :: "nat \<Rightarrow> nat \<Rightarrow> nat list \<Rightarrow> tb \<Rightarrow> table_out option" where
  "tb_finish root base work t =
    (let out = (\<lambda>tab. \<lparr>to_ret = 0, to_tab = tab, to_table = base + tb_used t, to_bits = root,
                      to_work = work, to_tree = tb_tree t\<rparr>)
     in if tb_huff t \<noteq> 0 then
          (if tb_next t + tb_huff t < length (tb_tab t)
           then Some (out ((tb_tab t)[tb_next t + tb_huff t :=
                  \<lparr>c_op = 64, c_bits = of_nat (tb_len t - tb_drop t), c_val = 0\<rparr>]))
           else None)
        else Some (out (tb_tab t)))"

text \<open>The check for an over-subscribed or incomplete set of lengths.\<close>

definition lens_refused :: "codetype \<Rightarrow> nat \<Rightarrow> nat list \<Rightarrow> bool" where
  "lens_refused type mx count =
    (case check_left (tl count) 1 of
       None \<Rightarrow> True
     | Some left \<Rightarrow> left > 0 \<and> (type = CODES \<or> mx \<noteq> 1))"

text \<open>From the initialisation of the loop variables to the end.\<close>

definition table_fill :: "codetype \<Rightarrow> nat list \<Rightarrow> nat list \<Rightarrow> nat list \<Rightarrow> nat \<Rightarrow> nat \<Rightarrow> nat \<Rightarrow> code list \<Rightarrow> nat \<Rightarrow> nat \<Rightarrow>
    ct_data list \<Rightarrow> table_out option" where
  "table_fill type lens work count mn mx root tab base bits tree =
    (if space_exceeded type (2 ^ root)
     then Some \<lparr>to_ret = 1, to_tab = tab, to_table = base, to_bits = bits, to_work = work, to_tree = tree\<rparr>
     else
       case tb_loop (Suc (length lens)) type lens work root mx base
           \<lparr>tb_tab = tab, tb_tree = tree, tb_huff = 0, tb_sym = 0, tb_len = mn,
            tb_next = base, tb_curr = root, tb_drop = 0, tb_low = None,
            tb_used = 2 ^ root, tb_count = count\<rparr> of
         Some (Break t) \<Rightarrow> tb_finish root base work t
       | Some (Return r t) \<Rightarrow> Some \<lparr>to_ret = r, to_tab = tb_tab t, to_table = base, to_bits = bits,
            to_work = work, to_tree = tb_tree t\<rparr>
       | _ \<Rightarrow> None)"

definition table_core :: "codetype \<Rightarrow> nat list \<Rightarrow> nat \<Rightarrow> code list \<Rightarrow> nat \<Rightarrow> nat \<Rightarrow> nat list \<Rightarrow> ct_data list \<Rightarrow>
    table_out option" where
  "table_core type lens0 codes tab base bits work0 tree =
    (let lens = take codes lens0 in
     if length lens0 < codes then None else
     case count_lens lens (replicate 16 0) of
       None \<Rightarrow> None
     | Some count \<Rightarrow>
       let mx = find_max MAXBITS count;
           root0 = (if bits > mx then mx else bits)
       in if mx = 0 then
            (let here = \<lparr>c_op = 64, c_bits = 1, c_val = 0\<rparr>
             in if base + 1 < length tab
                then Some (\<lparr>to_ret = 0, to_tab = tab[base := here, base + 1 := here], to_table = base + 2,
                            to_bits = 1, to_work = work0, to_tree = tree\<rparr>)
                else None)
          else
            let mn = find_min 1 mx count;
                root = (if root0 < mn then mn else root0)
            in if lens_refused type mx count
               then Some \<lparr>to_ret = -1, to_tab = tab, to_table = base, to_bits = bits,
                          to_work = work0, to_tree = tree\<rparr>
               else
                 case sort_syms lens 0 (make_offs 14 1 count (replicate 16 0)) work0 of
                   None \<Rightarrow> None
                 | Some work \<Rightarrow> table_fill type lens work count mn mx root tab base bits tree)"

definition inflate_table_my :: "codetype \<Rightarrow> nat list \<Rightarrow> nat \<Rightarrow> code list \<Rightarrow> nat \<Rightarrow> nat \<Rightarrow> nat list \<Rightarrow>
    ct_data list \<Rightarrow> table_out option" where
  "inflate_table_my type lens codes tab base bits work tree =
    table_core type lens codes tab base bits work tree"

text \<open>Without the tree; the dummy tree has room for every symbol.\<close>

definition inflate_table :: "codetype \<Rightarrow> nat list \<Rightarrow> nat \<Rightarrow> code list \<Rightarrow> nat \<Rightarrow> nat \<Rightarrow> nat list \<Rightarrow>
    table_out option" where
  "inflate_table type lens codes tab base bits work =
    table_core type lens codes tab base bits work (replicate codes (ct (0, 0)))"

end
