(* ===== verification/Inftrees_Sort.thy ===== *)
theory Inftrees_Sort
  imports Inftrees
begin

text \<open>
  The preparatory passes of \<open>inflate_table\<close>: the length counts, the check of the Kraft sum and the
  counting sort that puts the symbols in the order of their codes.
\<close>

section \<open>Counting\<close>

definition lens_ok :: "nat list \<Rightarrow> bool" where
  "lens_ok ls \<longleftrightarrow> list_all (\<lambda>l. l \<le> MAXBITS) ls"

definition len_counts :: "nat list \<Rightarrow> nat list" where
  "len_counts ls = map (count_list ls) [0..<16]"

lemma len_counts_nth [simp]: "l \<le> 15 \<Longrightarrow> len_counts ls ! l = count_list ls l"
  by (simp add: len_counts_def)

lemma length_len_counts [simp]: "length (len_counts ls) = 16"
  by (simp add: len_counts_def)

lemma count_lens_from:
  assumes "lens_ok ls" and "length cs = 16"
  shows "count_lens ls cs = Some (map (\<lambda>l. cs ! l + count_list ls l) [0..<16])"
  using assms
proof (induction ls arbitrary: cs)
  case Nil
  then show ?case by (auto intro: nth_equalityI)
next
  case (Cons l ls)
  then show ?case
    by (auto simp: lens_ok_def nth_list_update intro!: nth_equalityI)
qed

lemma count_lens_counts: "lens_ok ls \<Longrightarrow> count_lens ls (replicate 16 0) = Some (len_counts ls)"
  by (auto simp: count_lens_from len_counts_def nth_replicate intro!: nth_equalityI)

lemma find_max_spec:
  "find_max m cs \<le> m \<and> (find_max m cs \<noteq> 0 \<longrightarrow> cs ! find_max m cs \<noteq> 0)
    \<and> (\<forall>l. find_max m cs < l \<and> l \<le> m \<longrightarrow> cs ! l = 0)"
  by (induction m) (auto simp: le_Suc_eq)

lemma find_min_spec:
  "mn \<le> mx \<Longrightarrow> mn \<le> find_min mn mx cs \<and> find_min mn mx cs \<le> mx
    \<and> (find_min mn mx cs < mx \<longrightarrow> cs ! find_min mn mx cs \<noteq> 0)
    \<and> (\<forall>l. mn \<le> l \<and> l < find_min mn mx cs \<longrightarrow> cs ! l = 0)"
proof (induction mn mx cs rule: find_min.induct)
  case (1 mn mx cs)
  show ?case
  proof (cases "mn < mx \<and> cs ! mn = 0")
    case True
    with 1 have IH: "mn + 1 \<le> find_min (mn + 1) mx cs \<and> find_min (mn + 1) mx cs \<le> mx
      \<and> (find_min (mn + 1) mx cs < mx \<longrightarrow> cs ! find_min (mn + 1) mx cs \<noteq> 0)
      \<and> (\<forall>l. mn + 1 \<le> l \<and> l < find_min (mn + 1) mx cs \<longrightarrow> cs ! l = 0)"
      by simp
    have "find_min mn mx cs = find_min (mn + 1) mx cs"
      using True by (simp add: find_min.simps [of mn])
    with IH True show ?thesis
      by (metis Suc_eq_plus1 Suc_leI add_leD1 le_neq_implies_less)
  next
    case False
    then show ?thesis using 1 by (auto simp: find_min.simps [of mn])
  qed
qed

section \<open>The Kraft sum\<close>

text \<open>Each code of length \<open>l\<close> takes \<open>2 ^ (15 - l)\<close> of the \<open>2 ^ 15\<close> units of code space.\<close>

definition units :: "nat \<Rightarrow> nat" where
  "units l = (if l = 0 then 0 else 2 ^ (MAXBITS - l))"

definition kraft :: "nat list \<Rightarrow> nat" where
  "kraft ls = sum_list (map units ls)"

fun weigh :: "nat list \<Rightarrow> nat" where
  "weigh [] = 0"
| "weigh (c # cs) = c * 2 ^ length cs + weigh cs"

lemma check_left_weigh:
  assumes "0 \<le> left"
  shows "check_left cs left = (let v = left * 2 ^ length cs - int (weigh cs) in if v < 0 then None else Some v)"
  using assms
proof (induction cs arbitrary: left)
  case (Cons c cs)
  let ?l = "left * 2 - int c"
  have v: "left * 2 ^ length (c # cs) - int (weigh (c # cs)) = ?l * 2 ^ length cs - int (weigh cs)"
    by (simp add: algebra_simps)
  show ?case
  proof (cases "?l < 0")
    case True
    then have "?l * 2 ^ length cs < 0" by (simp add: mult_neg_pos)
    then have "left * 2 ^ length (c # cs) - int (weigh (c # cs)) < 0" unfolding v by linarith
    with True show ?thesis by (simp add: Let_def)
  next
    case False
    with Cons.IH [of ?l] v show ?thesis by (simp add: Let_def)
  qed
qed (simp add: Let_def)

lemma weigh_map: "weigh (map f [a..<a + n]) = (\<Sum>l\<in>{a..<a + n}. f l * 2 ^ (a + n - 1 - l))"
proof (induction n arbitrary: a)
  case (Suc n)
  have "[a..<a + Suc n] = a # [Suc a..<Suc a + n]" by (simp add: upt_conv_Cons)
  moreover have "{a..<a + Suc n} = insert a {Suc a..<Suc a + n}" by auto
  ultimately show ?case using Suc.IH [of "Suc a"] by simp
qed simp

lemma weigh_counts: "lens_ok ls \<Longrightarrow> weigh (tl (len_counts ls)) = kraft ls"
proof -
  assume ok: "lens_ok ls"
  have w: "weigh (tl (len_counts ls)) = (\<Sum>l\<in>{1..15}. count_list ls l * 2 ^ (15 - l))"
  proof -
    have "tl (len_counts ls) = map (count_list ls) [1..<1 + 15]"
      by (simp add: len_counts_def map_tl [symmetric] del: upt_Suc)
    moreover have "{1..<1 + 15} = {1..15::nat}" by auto
    ultimately show ?thesis using weigh_map [of "count_list ls" 1 15] by simp
  qed
  have "(\<Sum>l\<in>{1..15}. count_list ls l * 2 ^ (15 - l)) = kraft ls"
    using ok
  proof (induction ls)
    case (Cons a ls)
    have "(\<Sum>l\<in>{1..15}. count_list (a # ls) l * 2 ^ (15 - l))
      = (\<Sum>l\<in>{1..15}. count_list ls l * 2 ^ (15 - l)) + (\<Sum>l\<in>{1..15}. if l = a then 2 ^ (15 - l) else 0)"
      unfolding sum.distrib [symmetric] by (rule sum.cong) auto
    also have "(\<Sum>l\<in>{1..15}. if l = a then 2 ^ (15 - l) else (0::nat)) = units a"
      using Cons.prems by (auto simp: lens_ok_def units_def sum.delta)
    finally show ?case using Cons by (simp add: kraft_def lens_ok_def)
  qed (simp add: kraft_def)
  with w show ?thesis by simp
qed

lemma check_left_kraft:
  "lens_ok ls \<Longrightarrow> check_left (tl (len_counts ls)) 1
    = (if kraft ls \<le> 2 ^ 15 then Some (2 ^ 15 - int (kraft ls)) else None)"
  by (simp add: check_left_weigh weigh_counts Let_def)


section \<open>The counting sort\<close>

text \<open>The symbols that have a code, their order (by length, then by symbol) and their rank in it.\<close>

definition coded :: "nat list \<Rightarrow> nat set" where
  "coded ls = {s. s < length ls \<and> ls ! s \<noteq> 0}"

definition before :: "nat list \<Rightarrow> nat \<Rightarrow> nat \<Rightarrow> bool" where
  "before ls a b \<longleftrightarrow> ls ! a < ls ! b \<or> ls ! a = ls ! b \<and> a < b"

definition rank :: "nat list \<Rightarrow> nat \<Rightarrow> nat" where
  "rank ls s = card {r \<in> coded ls. before ls r s}"

lemma finite_coded [simp]: "finite (coded ls)"
  by (simp add: coded_def)

lemma before_trans: "before ls a b \<Longrightarrow> before ls b c \<Longrightarrow> before ls a c"
  by (auto simp: before_def)

lemma before_irrefl [simp]: "\<not> before ls a a"
  by (simp add: before_def)

lemma before_total: "a \<noteq> b \<Longrightarrow> before ls a b \<or> before ls b a"
  by (auto simp: before_def)

lemma rank_mono: "a \<in> coded ls \<Longrightarrow> before ls a b \<Longrightarrow> rank ls a < rank ls b"
proof -
  assume a: "a \<in> coded ls" and b: "before ls a b"
  have "{r \<in> coded ls. before ls r a} \<subseteq> {r \<in> coded ls. before ls r b}"
    using b by (auto intro: before_trans)
  moreover have "a \<in> {r \<in> coded ls. before ls r b} - {r \<in> coded ls. before ls r a}"
    using a b by simp
  ultimately have "{r \<in> coded ls. before ls r a} \<subset> {r \<in> coded ls. before ls r b}" by blast
  then show ?thesis unfolding rank_def by (intro psubset_card_mono) auto
qed

lemma rank_less: "s \<in> coded ls \<Longrightarrow> rank ls s < card (coded ls)"
proof -
  assume s: "s \<in> coded ls"
  have "{r \<in> coded ls. before ls r s} \<subseteq> coded ls - {s}" by auto
  then have "rank ls s \<le> card (coded ls - {s})"
    unfolding rank_def by (intro card_mono) auto
  also have "\<dots> < card (coded ls)" using s by (intro psubset_card_mono) auto
  finally show ?thesis .
qed

lemma rank_inj: "inj_on (rank ls) (coded ls)"
  by (rule inj_onI) (metis before_total rank_mono less_irrefl)

lemma rank_bij: "bij_betw (rank ls) (coded ls) {..<card (coded ls)}"
proof -
  have "rank ls ` coded ls \<subseteq> {..<card (coded ls)}" using rank_less by auto
  moreover have "card (rank ls ` coded ls) = card {..<card (coded ls)}"
    using rank_inj by (simp add: card_image)
  ultimately show ?thesis
    using rank_inj by (simp add: bij_betw_def card_subset_eq)
qed

text \<open>The work array after the sort: position \<open>rank ls s\<close> holds \<open>s\<close>.\<close>

definition sorted_work :: "nat list \<Rightarrow> nat list \<Rightarrow> bool" where
  "sorted_work ls work \<longleftrightarrow> card (coded ls) \<le> length work \<and> (\<forall>s\<in>coded ls. work ! rank ls s = s)"

lemma count_list_card: "count_list ls l = card {s. s < length ls \<and> ls ! s = l}"
proof -
  have "count_list ls l = length (filter ((=) l) ls)"
    by (induction ls) auto
  also have "\<dots> = card {s. s < length ls \<and> l = ls ! s}"
    by (simp add: length_filter_conv_card)
  finally show ?thesis by (simp add: eq_commute)
qed

lemma make_offs_nth:
  assumes "length offs = 16" and "length cs = 16" and "len + k = 15" and "1 \<le> len"
    and "\<forall>l. 1 \<le> l \<and> l \<le> len \<longrightarrow> offs ! l = (\<Sum>j\<in>{1..<l}. cs ! j)"
  shows "length (make_offs k len cs offs) = 16 \<and>
    (\<forall>l. 1 \<le> l \<and> l \<le> 15 \<longrightarrow> make_offs k len cs offs ! l = (\<Sum>j\<in>{1..<l}. cs ! j))"
  using assms
proof (induction k arbitrary: len offs)
  case (Suc k)
  let ?o = "offs[len + 1 := offs ! len + cs ! len]"
  have "?o ! l = (\<Sum>j\<in>{1..<l}. cs ! j)" if "1 \<le> l" "l \<le> len + 1" for l
    using that Suc.prems by (cases "l = len + 1") auto
  then show ?case using Suc.IH [of ?o "len + 1"] Suc.prems by simp
qed simp

lemma offs_below:
  assumes "l \<le> 15"
  shows "(\<Sum>j\<in>{1..<l}. len_counts ls ! j) = card {s \<in> coded ls. ls ! s < l}"
  using assms
proof (induction l)
  case (Suc l)
  show ?case
  proof (cases "l = 0")
    case True
    then show ?thesis by (auto simp: coded_def)
  next
    case False
    have "{s \<in> coded ls. ls ! s < Suc l} = {s \<in> coded ls. ls ! s < l} \<union> {s. s < length ls \<and> ls ! s = l}"
      using False by (auto simp: coded_def)
    moreover have "{s \<in> coded ls. ls ! s < l} \<inter> {s. s < length ls \<and> ls ! s = l} = {}" by auto
    ultimately have "card {s \<in> coded ls. ls ! s < Suc l} = card {s \<in> coded ls. ls ! s < l} + count_list ls l"
      by (simp add: card_Un_disjoint count_list_card)
    moreover have "{1..<Suc l} = insert l {1..<l}" using False by auto
    ultimately show ?thesis using Suc by simp
  qed
qed simp

definition seen :: "nat list \<Rightarrow> nat \<Rightarrow> nat \<Rightarrow> nat" where
  "seen ls n l = card {s \<in> coded ls. ls ! s < l \<or> ls ! s = l \<and> s < n}"

lemma seen_rank: "n < length ls \<Longrightarrow> seen ls n (ls ! n) = rank ls n"
  unfolding seen_def rank_def before_def by simp

lemma seen_step:
  assumes "n < length ls" and "ls ! n \<noteq> 0"
  shows "seen ls (Suc n) l = seen ls n l + (if ls ! n = l then 1 else 0)"
proof -
  have n: "n \<in> coded ls" using assms by (simp add: coded_def)
  have "{s \<in> coded ls. ls ! s < l \<or> ls ! s = l \<and> s < Suc n}
    = (if ls ! n = l then insert n {s \<in> coded ls. ls ! s < l \<or> ls ! s = l \<and> s < n}
       else {s \<in> coded ls. ls ! s < l \<or> ls ! s = l \<and> s < n})"
    using n by (auto simp: less_Suc_eq)
  then show ?thesis by (simp add: seen_def)
qed

lemma seen_skip: "ls ! n = 0 \<Longrightarrow> 1 \<le> l \<Longrightarrow> seen ls (Suc n) l = seen ls n l"
  unfolding seen_def by (rule arg_cong [where f = card]) (auto simp: less_Suc_eq)

lemma sort_syms_from:
  assumes "lens_ok ls" and "n \<le> length ls" and "card (coded ls) \<le> length work" and "length offs = 16"
    and "\<forall>l. 1 \<le> l \<and> l \<le> 15 \<longrightarrow> offs ! l = seen ls n l"
    and "\<forall>s\<in>coded ls. s < n \<longrightarrow> work ! rank ls s = s"
  shows "\<exists>work'. sort_syms (drop n ls) n offs work = Some work' \<and> sorted_work ls work' \<and>
    length work' = length work"
  using assms
proof (induction "length ls - n" arbitrary: n offs work)
  case 0
  then show ?case by (auto simp: sorted_work_def coded_def)
next
  case (Suc k)
  then have n: "n < length ls" by simp
  have d: "drop n ls = ls ! n # drop (Suc n) ls" using n by (simp add: Cons_nth_drop_Suc)
  have l15: "ls ! n \<le> 15" using Suc.prems(1) n by (simp add: lens_ok_def list_all_length)
  show ?case
  proof (cases "ls ! n = 0")
    case True
    have "\<exists>work'. sort_syms (drop (Suc n) ls) (Suc n) offs work = Some work' \<and> sorted_work ls work' \<and>
      length work' = length work"
    proof (rule Suc.hyps(1))
      show "\<forall>l. 1 \<le> l \<and> l \<le> 15 \<longrightarrow> offs ! l = seen ls (Suc n) l"
        using Suc.prems(5) seen_skip [OF True] by simp
      show "\<forall>s\<in>coded ls. s < Suc n \<longrightarrow> work ! rank ls s = s"
        using Suc.prems(6) True by (auto simp: coded_def less_Suc_eq)
    qed (use Suc n in auto)
    then show ?thesis using True d by simp
  next
    case False
    have nc: "n \<in> coded ls" using False n by (simp add: coded_def)
    have o: "offs ! (ls ! n) = rank ls n"
      using Suc.prems(5) l15 False seen_rank [OF n] by simp
    let ?o = "offs[ls ! n := rank ls n + 1]" and ?w = "work[rank ls n := n]"
    have "\<exists>work'. sort_syms (drop (Suc n) ls) (Suc n) ?o ?w = Some work' \<and> sorted_work ls work' \<and>
      length work' = length ?w"
    proof (rule Suc.hyps(1))
      show "\<forall>l. 1 \<le> l \<and> l \<le> 15 \<longrightarrow> ?o ! l = seen ls (Suc n) l"
        using Suc.prems(4,5) o seen_step [OF n False] seen_rank [OF n] by (auto simp: nth_list_update)
      show "\<forall>s\<in>coded ls. s < Suc n \<longrightarrow> ?w ! rank ls s = s"
      proof (intro ballI impI)
        fix s assume s: "s \<in> coded ls" "s < Suc n"
        show "?w ! rank ls s = s"
        proof (cases "s = n")
          case True
          then show ?thesis using rank_less [OF nc] Suc.prems(3) by simp
        next
          case False
          then have "rank ls s \<noteq> rank ls n" using rank_inj nc s by (auto dest: inj_onD)
          then show ?thesis using False s Suc.prems(6) by simp
        qed
      qed
    qed (use Suc n in auto)
    moreover have "rank ls n < length work" using rank_less [OF nc] Suc.prems(3) by simp
    ultimately show ?thesis using False d o l15 Suc.prems(4) by simp
  qed
qed

lemma sort_syms_sorted:
  assumes "lens_ok ls" and "card (coded ls) \<le> length work"
  shows "\<exists>work'. sort_syms ls 0 (make_offs 14 1 (len_counts ls) (replicate 16 0)) work = Some work' \<and>
    sorted_work ls work' \<and> length work' = length work"
proof -
  let ?o = "make_offs 14 1 (len_counts ls) (replicate 16 0)"
  have o: "length ?o = 16 \<and> (\<forall>l. 1 \<le> l \<and> l \<le> 15 \<longrightarrow> ?o ! l = (\<Sum>j\<in>{1..<l}. len_counts ls ! j))"
    by (rule make_offs_nth) auto
  have "?o ! l = seen ls 0 l" if "1 \<le> l" "l \<le> 15" for l
    using o that offs_below [of l ls] by (simp add: seen_def)
  then show ?thesis using sort_syms_from [of ls 0 work ?o] assms o by simp
qed

end
