(* ===== verification/Inftrees_Codes.thy ===== *)
theory Inftrees_Codes
  imports Inftrees_Sort
begin

text \<open>
  The canonical code behind \<open>inflate_table\<close>.  Read most significant bit first and padded to 15 bits,
  the code of the \<open>k\<close>-th symbol in sorted order is \<open>pos k\<close>, the code space used by the symbols before
  it.  The variable \<open>huff\<close> of the C loop is this position with its 15 bits reversed, and the
  backwards increment adds one code of the current length to it.
\<close>

section \<open>Backwards increment\<close>

lemma nat_and_low: "h AND (2 ^ i - 1) = h mod 2 ^ i" for h :: nat
  unfolding take_bit_eq_mod [symmetric] take_bit_eq_mask mask_eq_exp_minus_1 ..

lemma bit_rev_bits_top: "bit (rev_bits (Suc n) q) n \<longleftrightarrow> odd q"
proof -
  have "rev_bits (Suc n) q div 2 ^ n = q mod 2"
    using rev_bits_less [of n "q div 2"] by simp
  then show ?thesis by (simp add: bit_iff_odd odd_iff_mod_2_eq_one)
qed

lemma rev_bits_Suc_even: "even q \<Longrightarrow> rev_bits (Suc n) q = rev_bits n (q div 2)"
  by simp

lemma find_incr_mod: "find_incr (h mod 2 ^ n) n = find_incr h n"
proof -
  have "find_incr (h mod 2 ^ m) n = find_incr h n" if "n \<le> m" for m
    using that
    by (induction n) (auto simp: bit_take_bit_iff simp flip: take_bit_eq_mod)
  then show ?thesis by simp
qed

lemma find_incr_le: "find_incr h n \<noteq> 0 \<Longrightarrow> find_incr h n < 2 ^ n \<and> (\<exists>i<n. find_incr h n = 2 ^ i)"
  by (induction n) (auto simp: less_Suc_eq split: if_splits intro: less_trans)

lemma back_incr_mod: "back_incr (h mod 2 ^ n) n = back_incr h n"
proof -
  have "(h mod 2 ^ n) AND (2 ^ i - 1) = h AND (2 ^ i - 1)" if "i < n" for i
    using that unfolding nat_and_low by (simp add: mod_mod_cancel le_imp_power_dvd)
  then show ?thesis
    unfolding back_incr_def find_incr_mod Let_def
    using find_incr_le [of h n] by auto
qed

lemma back_incr_rev: "back_incr (rev_bits n q) n = rev_bits n (q + 1)"
proof (induction n arbitrary: q)
  case 0
  then show ?case by (simp add: back_incr_def)
next
  case (Suc n)
  show ?case
  proof (cases "odd q")
    case True
    then have b: "bit (rev_bits (Suc n) q) n" using bit_rev_bits_top by blast
    then have "back_incr (rev_bits (Suc n) q) (Suc n) = back_incr (rev_bits (Suc n) q) n"
      by (simp add: back_incr_def del: rev_bits.simps)
    also have "\<dots> = back_incr (rev_bits (Suc n) q mod 2 ^ n) n" by (simp only: back_incr_mod)
    also have "rev_bits (Suc n) q mod 2 ^ n = rev_bits n (q div 2)"
      using rev_bits_less [of n "q div 2"] by simp
    also have "back_incr (rev_bits n (q div 2)) n = rev_bits n (q div 2 + 1)" by (rule Suc.IH)
    also have "\<dots> = rev_bits (Suc n) (q + 1)" using True by simp
    finally show ?thesis .
  next
    case False
    then have nb: "\<not> bit (rev_bits (Suc n) q) n" using bit_rev_bits_top by blast
    have e: "rev_bits (Suc n) q = rev_bits n (q div 2)" using False by simp
    have "rev_bits n (q div 2) AND (2 ^ n - 1) = rev_bits n (q div 2)"
      using rev_bits_less [of n "q div 2"] unfolding nat_and_low by simp
    then have "back_incr (rev_bits (Suc n) q) (Suc n) = rev_bits n (q div 2) + 2 ^ n"
      using nb unfolding back_incr_def Let_def e [symmetric] by (simp del: rev_bits.simps)
    also have "\<dots> = rev_bits (Suc n) (q + 1)" using False by (simp add: mod2_eq_if)
    finally show ?thesis .
  qed
qed

lemma rev_bits_zero [simp]: "rev_bits n 0 = 0"
  by (induction n) simp_all

lemma rev_bits_low_zero: "rev_bits n (q * 2 ^ n) = 0"
  using rev_bits_mod [of n "q * 2 ^ n"] by simp

lemma rev15_aligned: "l \<le> 15 \<Longrightarrow> rev_bits 15 (q * 2 ^ (15 - l)) = rev_bits l q"
  using rev_bits_add [of "15 - l" l "q * 2 ^ (15 - l)"] rev_bits_low_zero [of "15 - l" q] by simp

lemma rev15_mod: "l \<le> 15 \<Longrightarrow> rev_bits 15 p mod 2 ^ l = rev_bits l (p div 2 ^ (15 - l))"
  using rev_bits_add [of "15 - l" l p] rev_bits_less [of l "p div 2 ^ (15 - l)"] by simp

lemma back_incr_rev15:
  assumes "1 \<le> l" and "l \<le> 15" and "2 ^ (15 - l) dvd p"
  shows "back_incr (rev_bits 15 p) l = rev_bits 15 (p + 2 ^ (15 - l))"
proof -
  obtain q where p: "p = q * 2 ^ (15 - l)" using assms(3) by (metis dvdE mult.commute)
  have "p + 2 ^ (15 - l) = (q + 1) * 2 ^ (15 - l)" using p by simp
  then show ?thesis using assms(2) p by (simp only: rev15_aligned back_incr_rev)
qed

lemma rev_bits_inject: "a < 2 ^ n \<Longrightarrow> b < 2 ^ n \<Longrightarrow> rev_bits n a = rev_bits n b \<Longrightarrow> a = b"
  by (metis rev_bits_rev_bits mod_less)

section \<open>Positions of the sorted symbols\<close>

definition lenseq :: "nat list \<Rightarrow> nat list \<Rightarrow> nat \<Rightarrow> nat" where
  "lenseq ls work i = ls ! (work ! i)"

definition pos :: "nat list \<Rightarrow> nat list \<Rightarrow> nat \<Rightarrow> nat" where
  "pos ls work k = (\<Sum>i<k. units (lenseq ls work i))"

abbreviation (input) "ncoded ls \<equiv> card (coded ls)"

lemma pos_Suc: "pos ls work (Suc k) = pos ls work k + units (lenseq ls work k)"
  by (simp add: pos_def)

lemma pos_mono: "i \<le> j \<Longrightarrow> pos ls work i \<le> pos ls work j"
  unfolding pos_def by (rule sum_mono2) auto

lemma work_coded:
  assumes "sorted_work ls work" and "i < ncoded ls"
  shows "work ! i \<in> coded ls" and "rank ls (work ! i) = i"
proof -
  obtain s where "s \<in> coded ls" "rank ls s = i"
    using rank_bij [of ls] assms(2) unfolding bij_betw_def by (metis imageE lessThan_iff)
  then show "work ! i \<in> coded ls" and "rank ls (work ! i) = i"
    using assms(1) by (auto simp: sorted_work_def)
qed

lemma work_inj:
  assumes "sorted_work ls work" and "i < ncoded ls" and "j < ncoded ls" and "work ! i = work ! j"
  shows "i = j"
  using assms work_coded(2) by metis

lemma work_before:
  assumes "sorted_work ls work" and "i < j" and "j < ncoded ls"
  shows "before ls (work ! i) (work ! j)"
proof -
  have i: "i < ncoded ls" using assms by simp
  have "work ! i \<noteq> work ! j" using work_inj [OF assms(1) i assms(3)] assms(2) by auto
  moreover have "\<not> before ls (work ! j) (work ! i)"
    using rank_mono [OF work_coded(1) [OF assms(1,3)], of "work ! i"] work_coded(2) [OF assms(1)] assms i
    by fastforce
  ultimately show ?thesis using before_total by blast
qed

lemma lenseq_mono:
  assumes "sorted_work ls work" and "i \<le> j" and "j < ncoded ls"
  shows "lenseq ls work i \<le> lenseq ls work j"
proof (cases "i = j")
  case False
  then show ?thesis using work_before [OF assms(1), of i j] assms by (auto simp: before_def lenseq_def)
qed simp

lemma lenseq_range:
  assumes "sorted_work ls work" and "lens_ok ls" and "i < ncoded ls"
  shows "1 \<le> lenseq ls work i" and "lenseq ls work i \<le> 15"
  using work_coded(1) [OF assms(1,3)] assms(2)
  by (auto simp: coded_def lenseq_def lens_ok_def list_all_length)

lemma units_lenseq:
  "sorted_work ls work \<Longrightarrow> lens_ok ls \<Longrightarrow> i < ncoded ls \<Longrightarrow> units (lenseq ls work i) = 2 ^ (15 - lenseq ls work i)"
  using lenseq_range(1) by (fastforce simp: units_def)

lemma work_image: "sorted_work ls work \<Longrightarrow> bij_betw (\<lambda>i. work ! i) {..<ncoded ls} (coded ls)"
proof (rule bij_betw_byWitness [where f' = "rank ls"])
  assume w: "sorted_work ls work"
  show "\<forall>i\<in>{..<ncoded ls}. rank ls (work ! i) = i" using work_coded(2) [OF w] by simp
  show "\<forall>s\<in>coded ls. work ! rank ls s = s" using w by (simp add: sorted_work_def)
  show "(!) work ` {..<ncoded ls} \<subseteq> coded ls" using work_coded(1) [OF w] by auto
  show "rank ls ` coded ls \<subseteq> {..<ncoded ls}" using rank_less by auto
qed

lemma pos_total:
  assumes "sorted_work ls work"
  shows "pos ls work (ncoded ls) = kraft ls"
proof -
  have "pos ls work (ncoded ls) = (\<Sum>s\<in>coded ls. units (ls ! s))"
    unfolding pos_def lenseq_def by (rule sum.reindex_bij_betw [OF work_image [OF assms]])
  also have "\<dots> = (\<Sum>s<length ls. units (ls ! s))"
    by (rule sum.mono_neutral_left) (auto simp: coded_def units_def)
  also have "\<dots> = kraft ls"
    by (simp add: kraft_def sum_list_sum_nth atLeast0LessThan)
  finally show ?thesis .
qed

lemma pos_dvd:
  assumes "sorted_work ls work" and "lens_ok ls" and "k < ncoded ls"
  shows "2 ^ (15 - lenseq ls work k) dvd pos ls work k"
  unfolding pos_def
proof (rule dvd_sum)
  fix i assume "i \<in> {..<k}"
  then have i: "i < ncoded ls" "lenseq ls work i \<le> lenseq ls work k"
    using assms lenseq_mono by auto
  then show "2 ^ (15 - lenseq ls work k) dvd units (lenseq ls work i)"
    using units_lenseq [OF assms(1,2)] by (simp add: le_imp_power_dvd)
qed

lemma pos_less:
  assumes "sorted_work ls work" and "lens_ok ls" and "kraft ls \<le> 2 ^ 15" and "k < ncoded ls"
  shows "pos ls work k < 2 ^ 15"
proof -
  have "pos ls work k < pos ls work (Suc k)"
    using units_lenseq [OF assms(1,2,4)] by (simp add: pos_Suc)
  also have "\<dots> \<le> pos ls work (ncoded ls)" using assms(4) by (intro pos_mono) simp
  finally show ?thesis using pos_total [OF assms(1)] assms(3) by simp
qed

text \<open>The codes are prefix free: the code of a later symbol does not start with an earlier code.\<close>

definition hcode :: "nat list \<Rightarrow> nat list \<Rightarrow> nat \<Rightarrow> nat" where
  "hcode ls work k = rev_bits 15 (pos ls work k)"

lemma hcode_less:
  assumes "sorted_work ls work" and "lens_ok ls" and "k < ncoded ls"
  shows "hcode ls work k < 2 ^ lenseq ls work k"
proof -
  let ?l = "lenseq ls work k"
  obtain q where "pos ls work k = q * 2 ^ (15 - ?l)"
    using pos_dvd [OF assms] by (metis dvdE mult.commute)
  then show ?thesis
    unfolding hcode_def using lenseq_range(2) [OF assms] by (simp only: rev15_aligned rev_bits_less)
qed

lemma hcode_block:
  assumes "sorted_work ls work" and "lens_ok ls" and "kraft ls \<le> 2 ^ 15"
    and "i < ncoded ls" and "k < ncoded ls" and "l \<le> 15"
  shows "hcode ls work i mod 2 ^ l = hcode ls work k mod 2 ^ l \<longleftrightarrow>
    pos ls work i div 2 ^ (15 - l) = pos ls work k div 2 ^ (15 - l)"
proof -
  have b: "pos ls work j div 2 ^ (15 - l) < 2 ^ l" if "j < ncoded ls" for j
    using pos_less [OF assms(1-3) that] assms(6)
    by (simp add: less_mult_imp_div_less flip: power_add)
  show ?thesis
    using rev_bits_inject [OF b [OF assms(4)] b [OF assms(5)]] assms(6) by (auto simp: hcode_def rev15_mod)
qed

lemma prefix_free:
  assumes "sorted_work ls work" and "lens_ok ls" and "kraft ls \<le> 2 ^ 15" and "i < k" and "k < ncoded ls"
  shows "hcode ls work k mod 2 ^ lenseq ls work i \<noteq> hcode ls work i"
proof
  let ?l = "lenseq ls work i"
  assume eq: "hcode ls work k mod 2 ^ ?l = hcode ls work i"
  have i: "i < ncoded ls" using assms by simp
  have l: "?l \<le> 15" using lenseq_range [OF assms(1,2) i] by simp
  have "hcode ls work i mod 2 ^ ?l = hcode ls work i"
    using hcode_less [OF assms(1,2) i] by simp
  with eq have "hcode ls work i mod 2 ^ ?l = hcode ls work k mod 2 ^ ?l" by simp
  then have same: "pos ls work i div 2 ^ (15 - ?l) = pos ls work k div 2 ^ (15 - ?l)"
    using hcode_block [OF assms(1-3) i assms(5) l] by simp
  have "pos ls work i + 2 ^ (15 - ?l) = pos ls work (Suc i)"
    using units_lenseq [OF assms(1,2) i] by (simp add: pos_Suc)
  also have "\<dots> \<le> pos ls work k" using assms(4) by (intro pos_mono) simp
  finally have "(pos ls work i + 2 ^ (15 - ?l)) div 2 ^ (15 - ?l) \<le> pos ls work k div 2 ^ (15 - ?l)"
    by (rule div_le_mono)
  then have "pos ls work i div 2 ^ (15 - ?l) + 1 \<le> pos ls work k div 2 ^ (15 - ?l)"
    by (simp only: div_add_self2 [OF power_not_zero [OF zero_neq_numeral [symmetric]]])
  with same show False by linarith
qed

lemma hcode_step:
  assumes "sorted_work ls work" and "lens_ok ls" and "k < ncoded ls"
  shows "back_incr (hcode ls work k) (lenseq ls work k) = hcode ls work (Suc k)"
  unfolding hcode_def pos_Suc units_lenseq [OF assms]
  using lenseq_range [OF assms] pos_dvd [OF assms] by (intro back_incr_rev15)

end
