(* ===== verification/Inftrees_Fill.thy ===== *)
theory Inftrees_Fill
  imports Inftrees_Codes
begin

text \<open>
  The pieces of the main loop of \<open>inflate_table\<close>: replicating an entry, the counts of the symbols
  still to be entered, and the size of a new sub-table.
\<close>

section \<open>Replicating an entry\<close>

lemma fill_entries_ex:
  assumes "0 < incr" and "i + n * incr < length tab"
  shows "\<exists>tab'. fill_entries i incr (Suc n * incr) here tab = Some tab' \<and> length tab' = length tab \<and>
    (\<forall>x. tab' ! x = (if \<exists>c\<le>n. x = i + c * incr then here else tab ! x))"
  using assms
proof (induction n arbitrary: tab)
  case 0
  then show ?case by (simp add: fill_entries.simps Let_def nth_list_update)
next
  case (Suc n)
  let ?t = "tab[i + Suc n * incr := here]"
  have "i + n * incr < length ?t" using Suc.prems by simp
  then obtain tab' where IH: "fill_entries i incr (Suc n * incr) here ?t = Some tab'"
    "length tab' = length ?t" "\<forall>x. tab' ! x = (if \<exists>c\<le>n. x = i + c * incr then here else ?t ! x)"
    using Suc.IH [of ?t] Suc.prems(1) by blast
  have "fill_entries i incr (Suc (Suc n) * incr) here tab = Some tab'"
    using Suc.prems IH(1) by (subst fill_entries.simps) (simp add: Let_def)
  moreover have "tab' ! x = (if \<exists>c\<le>Suc n. x = i + c * incr then here else tab ! x)" for x
    using IH(3) Suc.prems(2) by (auto simp: nth_list_update le_Suc_eq)
  ultimately show ?case using IH(2) by auto
qed

lemma residue_iff:
  assumes "h < incr"
  shows "(\<exists>c\<le>n. y = h + c * incr) \<longleftrightarrow> y < Suc n * incr \<and> y mod incr = h"
proof
  assume "\<exists>c\<le>n. y = h + c * incr"
  then obtain c where c: "c \<le> n" "y = h + c * incr" by blast
  have "y < incr + c * incr" using assms c by simp
  also have "\<dots> \<le> Suc n * incr" using c(1) by simp
  finally show "y < Suc n * incr \<and> y mod incr = h" using assms c by simp
next
  assume y: "y < Suc n * incr \<and> y mod incr = h"
  then have "y div incr \<le> n" using assms by (metis less_Suc_eq_le less_mult_imp_div_less)
  moreover have "y = h + (y div incr) * incr" using y by (metis add.commute div_mult_mod_eq)
  ultimately show "\<exists>c\<le>n. y = h + c * incr" by blast
qed

text \<open>The form used below: the table at \<open>nx\<close> with \<open>c\<close> index bits, a code part \<open>h\<close> of \<open>b\<close> bits.\<close>

lemma fill_entries_table:
  assumes "h < 2 ^ b" and "b \<le> c" and "nx + 2 ^ c \<le> length tab"
  shows "\<exists>tab'. fill_entries (nx + h) (2 ^ b) (2 ^ c) here tab = Some tab' \<and> length tab' = length tab \<and>
    (\<forall>y<2 ^ c. tab' ! (nx + y) = (if y mod 2 ^ b = h then here else tab ! (nx + y))) \<and>
    (\<forall>x. x < nx \<or> nx + 2 ^ c \<le> x \<longrightarrow> tab' ! x = tab ! x)"
proof -
  let ?n = "2 ^ (c - b) - 1 :: nat"
  have sz: "Suc ?n * 2 ^ b = 2 ^ c" using assms(2) by (simp flip: power_add)
  have "h + ?n * 2 ^ b < 2 ^ c" using sz assms(1) by (metis add.commute add_less_cancel_left mult_Suc)
  then have "nx + h + ?n * 2 ^ b < length tab" using assms(3) by simp
  from fill_entries_ex [OF _ this, of here] obtain tab' where
    t: "fill_entries (nx + h) (2 ^ b) (2 ^ c) here tab = Some tab'" "length tab' = length tab"
    "\<forall>x. tab' ! x = (if \<exists>k\<le>?n. x = nx + h + k * 2 ^ b then here else tab ! x)"
    unfolding sz by auto
  have iff: "(\<exists>k\<le>?n. y = h + k * 2 ^ b) \<longleftrightarrow> y < 2 ^ c \<and> y mod 2 ^ b = h" for y
    using residue_iff [OF assms(1), of ?n y] unfolding sz by simp
  have "tab' ! (nx + y) = (if y mod 2 ^ b = h then here else tab ! (nx + y))" if "y < 2 ^ c" for y
    using t(3) iff [of y] that by (auto simp: add.assoc)
  moreover have "tab' ! x = tab ! x" if "x < nx \<or> nx + 2 ^ c \<le> x" for x
  proof -
    have "\<not> (\<exists>k\<le>?n. x = nx + h + k * 2 ^ b)"
    proof
      assume "\<exists>k\<le>?n. x = nx + h + k * 2 ^ b"
      then obtain k where k: "k \<le> ?n" "x = nx + (h + k * 2 ^ b)" by (auto simp: add.assoc)
      then have "h + k * 2 ^ b < 2 ^ c" using iff [of "h + k * 2 ^ b"] by blast
      with k(2) that show False by linarith
    qed
    then show ?thesis using t(3) by auto
  qed
  ultimately show ?thesis using t(1,2) by blast
qed

section \<open>Symbols still to be entered\<close>

definition remain :: "nat list \<Rightarrow> nat list \<Rightarrow> nat \<Rightarrow> nat \<Rightarrow> nat" where
  "remain ls work k l = card {i. k \<le> i \<and> i < ncoded ls \<and> lenseq ls work i = l}"

lemma finite_remain [simp]: "finite {i. k \<le> i \<and> i < (n::nat) \<and> P i}"
  by (rule finite_subset [of _ "{..<n}"]) auto

lemma remain_0:
  assumes "sorted_work ls work" and "1 \<le> l"
  shows "remain ls work 0 l = count_list ls l"
proof -
  have "bij_betw (\<lambda>i. work ! i) {i. 0 \<le> i \<and> i < ncoded ls \<and> lenseq ls work i = l} {s \<in> coded ls. ls ! s = l}"
    using work_image [OF assms(1)] unfolding bij_betw_def lenseq_def
    by (auto simp: inj_on_def image_iff)
  then have "remain ls work 0 l = card {s \<in> coded ls. ls ! s = l}"
    unfolding remain_def by (rule bij_betw_same_card)
  also have "{s \<in> coded ls. ls ! s = l} = {s. s < length ls \<and> ls ! s = l}"
    using assms(2) by (auto simp: coded_def)
  finally show ?thesis by (simp add: count_list_card)
qed

lemma remain_Suc:
  assumes "k < ncoded ls"
  shows "remain ls work k l = remain ls work (Suc k) l + (if l = lenseq ls work k then 1 else 0)"
proof -
  have "{i. k \<le> i \<and> i < ncoded ls \<and> lenseq ls work i = l}
    = (if l = lenseq ls work k then insert k {i. Suc k \<le> i \<and> i < ncoded ls \<and> lenseq ls work i = l}
       else {i. Suc k \<le> i \<and> i < ncoded ls \<and> lenseq ls work i = l})"
    using assms by (auto simp: Suc_le_eq le_less)
  then show ?thesis by (simp add: remain_def)
qed

lemma remain_zero_iff: "remain ls work k l = 0 \<longleftrightarrow> (\<forall>i. k \<le> i \<and> i < ncoded ls \<longrightarrow> lenseq ls work i \<noteq> l)"
  by (auto simp: remain_def)

lemma remain_same_len:
  assumes "sorted_work ls work" and "k < ncoded ls" and "remain ls work (Suc k) (lenseq ls work k) \<noteq> 0"
  shows "Suc k < ncoded ls" and "lenseq ls work (Suc k) = lenseq ls work k"
proof -
  obtain i where i: "Suc k \<le> i" "i < ncoded ls" "lenseq ls work i = lenseq ls work k"
    using assms(3) unfolding remain_zero_iff by blast
  then show "Suc k < ncoded ls" by simp
  then show "lenseq ls work (Suc k) = lenseq ls work k"
    using lenseq_mono [OF assms(1), of k "Suc k"] lenseq_mono [OF assms(1) i(1,2)] i(3) by simp
qed

text \<open>The longest length.\<close>

definition max_len :: "nat list \<Rightarrow> nat \<Rightarrow> bool" where
  "max_len ls mx \<longleftrightarrow> (\<exists>s\<in>coded ls. ls ! s = mx) \<and> (\<forall>s\<in>coded ls. ls ! s \<le> mx)"

lemma max_len_last:
  assumes "sorted_work ls work" and "max_len ls mx" and "k < ncoded ls"
    and "remain ls work (Suc k) (lenseq ls work k) = 0"
  shows "lenseq ls work k = mx \<longleftrightarrow> Suc k = ncoded ls"
proof
  obtain s where s: "s \<in> coded ls" "ls ! s = mx" using assms(2) by (auto simp: max_len_def)
  then obtain j where j: "j < ncoded ls" "lenseq ls work j = mx"
    using work_image [OF assms(1)] unfolding bij_betw_def lenseq_def by (metis imageE lessThan_iff)
  show "Suc k = ncoded ls" if "lenseq ls work k = mx"
  proof (rule ccontr)
    assume "Suc k \<noteq> ncoded ls"
    then have n: "Suc k < ncoded ls" using assms(3) by simp
    have "lenseq ls work (Suc k) \<le> mx"
      using assms(2) work_coded(1) [OF assms(1) n] by (simp add: max_len_def lenseq_def)
    moreover have "mx \<le> lenseq ls work (Suc k)" using lenseq_mono [OF assms(1), of k "Suc k"] n that by simp
    ultimately show False using assms(4) that n unfolding remain_zero_iff by auto
  qed
  show "lenseq ls work k = mx" if "Suc k = ncoded ls"
  proof (rule antisym)
    show "lenseq ls work k \<le> mx"
      using assms(2) work_coded(1) [OF assms(1,3)] by (simp add: max_len_def lenseq_def)
    show "mx \<le> lenseq ls work k" using lenseq_mono [OF assms(1) _ assms(3), of j] j that by simp
  qed
qed

section \<open>The size of a sub-table\<close>

lemma extend_curr_spec:
  fixes f :: "nat \<Rightarrow> nat"
  assumes "cur + drp \<le> mx" and "len \<le> cur + drp" and "\<forall>l. len \<le> l \<and> l < mx \<longrightarrow> cs ! l = f l"
    and "left = 2 ^ cur - int (\<Sum>l\<in>{len..<cur + drp}. f l * 2 ^ (cur + drp - l))"
  shows "let c = extend_curr cs drp mx cur left in cur \<le> c \<and> c + drp \<le> mx \<and>
    (c + drp = mx \<or> 2 ^ c \<le> (\<Sum>l\<in>{len..<Suc (c + drp)}. f l * 2 ^ (c + drp - l)))"
  using assms
proof (induction cs drp mx cur left rule: extend_curr.induct)
  case (1 cs drp mx cur left)
  let ?left = "left - int (cs ! (cur + drp))"
  let ?S = "\<Sum>l\<in>{len..<cur + drp}. f l * 2 ^ (cur + drp - l)"
  show ?case
  proof (cases "cur + drp < mx")
    case False
    then show ?thesis using 1 by (simp add: extend_curr.simps [of cs drp mx cur])
  next
    case True
    have f: "cs ! (cur + drp) = f (cur + drp)" using 1(3,4) True by simp
    have S': "(\<Sum>l\<in>{len..<Suc (cur + drp)}. f l * 2 ^ (cur + drp - l)) = ?S + f (cur + drp)"
      using 1(3) by simp
    show ?thesis
    proof (cases "?left \<le> 0")
      case l: True
      then have "extend_curr cs drp mx cur left = cur"
        using True by (simp add: extend_curr.simps [of cs drp mx cur] Let_def)
      moreover have "int (2 ^ cur) \<le> int (?S + f (cur + drp))"
        using l 1(5) f by simp
      then have "2 ^ cur \<le> ?S + f (cur + drp)" by (simp only: of_nat_le_iff)
      ultimately show ?thesis using True S' unfolding Let_def by simp
    next
      case l: False
      have "extend_curr cs drp mx cur left = extend_curr cs drp mx (cur + 1) (?left * 2)"
        using True l by (simp add: extend_curr.simps [of cs drp mx cur] Let_def)
      moreover have "?left * 2 = 2 ^ (cur + 1)
        - int (\<Sum>l\<in>{len..<cur + 1 + drp}. f l * 2 ^ (cur + 1 + drp - l))"
      proof -
        have "(\<Sum>l\<in>{len..<cur + 1 + drp}. f l * 2 ^ (cur + 1 + drp - l))
          = (\<Sum>l\<in>{len..<Suc (cur + drp)}. 2 * (f l * 2 ^ (cur + drp - l)))"
          by (rule sum.cong) (auto simp: Suc_diff_le)
        also have "\<dots> = 2 * (?S + f (cur + drp))" unfolding sum_distrib_left [symmetric] S' ..
        finally show ?thesis using 1(5) f by simp
      qed
      ultimately show ?thesis
        using 1(1) [OF True refl l] 1(3,4) True by (auto simp: Let_def)
    qed
  qed
qed

text \<open>Every symbol that shares its first \<open>root\<close> bits with symbol \<open>k\<close> fits the sub-table opened for it.\<close>

lemma subtable_size:
  fixes ls work :: "nat list" and k root mx :: nat and cs :: "nat list"
  defines "c \<equiv> extend_curr cs root mx (lenseq ls work k - root) (2 ^ (lenseq ls work k - root))"
  assumes "sorted_work ls work" and "lens_ok ls" and "kraft ls \<le> 2 ^ 15" and "max_len ls mx"
    and "k < ncoded ls" and "root < lenseq ls work k"
    and "\<forall>l. 1 \<le> l \<and> l \<le> 15 \<longrightarrow> cs ! l = remain ls work k l"
  shows "lenseq ls work k - root \<le> c" and "c + root \<le> mx"
    and "k \<le> j \<Longrightarrow> j < ncoded ls \<Longrightarrow> hcode ls work j mod 2 ^ root = hcode ls work k mod 2 ^ root \<Longrightarrow>
      lenseq ls work j \<le> root + c"
proof -
  let ?len = "lenseq ls work k"
  have in_max: "lenseq ls work i \<le> mx" if "i < ncoded ls" for i
    using assms(5) work_coded(1) [OF assms(2) that] by (simp add: max_len_def lenseq_def)
  obtain s where "s \<in> coded ls" "ls ! s = mx" using assms(5) by (auto simp: max_len_def)
  then have mx15: "mx \<le> 15" using assms(3) by (auto simp: coded_def lens_ok_def list_all_length)
  have spec: "let c = extend_curr cs root mx (?len - root) (2 ^ (?len - root)) in ?len - root \<le> c \<and> c + root \<le> mx \<and>
    (c + root = mx \<or> 2 ^ c \<le> (\<Sum>l\<in>{?len..<Suc (c + root)}. remain ls work k l * 2 ^ (c + root - l)))"
    using assms(7,8) in_max [OF assms(6)] mx15 by (intro extend_curr_spec) auto
  then have c: "?len - root \<le> c" "c + root \<le> mx"
    "c + root = mx \<or> 2 ^ c \<le> (\<Sum>l\<in>{?len..<Suc (c + root)}. remain ls work k l * 2 ^ (c + root - l))"
    by (simp_all add: c_def Let_def)
  show "?len - root \<le> c" and "c + root \<le> mx" by fact+
  show "lenseq ls work j \<le> root + c"
    if j: "k \<le> j" "j < ncoded ls" "hcode ls work j mod 2 ^ root = hcode ls work k mod 2 ^ root"
  proof (rule ccontr)
    assume gt: "\<not> lenseq ls work j \<le> root + c"
    then have ne: "c + root \<noteq> mx" using in_max [OF j(2)] by auto
    let ?A = "{i. k \<le> i \<and> i < ncoded ls \<and> lenseq ls work i \<le> c + root}"
    have A: "?A \<subseteq> {k..<j}"
      using gt lenseq_mono [OF assms(2), of j] by (fastforce simp: not_le)
    have un: "(\<Union>l\<in>{?len..<Suc (c + root)}. {i. k \<le> i \<and> i < ncoded ls \<and> lenseq ls work i = l}) = ?A"
      using lenseq_mono [OF assms(2)] by fastforce
    have "(\<Sum>i\<in>?A. units (lenseq ls work i))
      = (\<Sum>l\<in>{?len..<Suc (c + root)}. \<Sum>i\<in>{i. k \<le> i \<and> i < ncoded ls \<and> lenseq ls work i = l}. units (lenseq ls work i))"
      unfolding un [symmetric] by (rule sum.UNION_disjoint) auto
    also have "\<dots> = (\<Sum>l\<in>{?len..<Suc (c + root)}. remain ls work k l * 2 ^ (15 - l))"
      using lenseq_range(1) [OF assms(2,3,6)] by (intro sum.cong) (auto simp: remain_def units_def)
    also have "\<dots> = (\<Sum>l\<in>{?len..<Suc (c + root)}. (remain ls work k l * 2 ^ (c + root - l)) * 2 ^ (15 - (c + root)))"
      using c(2) mx15 by (intro sum.cong) (auto simp flip: power_add)
    also have "\<dots> \<ge> 2 ^ c * 2 ^ (15 - (c + root))"
      unfolding sum_distrib_right [symmetric] using c(3) ne by (intro mult_right_mono) auto
    also have "2 ^ c * 2 ^ (15 - (c + root)) = (2 ^ (15 - root) :: nat)"
      using c(2) mx15 by (simp flip: power_add)
    finally have big: "2 ^ (15 - root) \<le> (\<Sum>i\<in>?A. units (lenseq ls work i))" .
    also have "\<dots> \<le> (\<Sum>i\<in>{k..<j}. units (lenseq ls work i))" using A by (intro sum_mono2) auto
    finally have "pos ls work k + 2 ^ (15 - root) \<le> pos ls work j"
      unfolding pos_def lessThan_atLeast0
      using j(1) sum.atLeastLessThan_concat [of 0 k j "\<lambda>i. units (lenseq ls work i)"] by simp
    then have "(pos ls work k + 2 ^ (15 - root)) div 2 ^ (15 - root) \<le> pos ls work j div 2 ^ (15 - root)"
      by (rule div_le_mono)
    moreover have "pos ls work j div 2 ^ (15 - root) = pos ls work k div 2 ^ (15 - root)"
      using hcode_block [OF assms(2-4) j(2) assms(6), of root] j(3) c(2) mx15 by simp
    ultimately show False by (simp add: div_add_self2)
  qed
qed

end
