(* ===== verification/Inftrees_Table.thy ===== *)
theory Inftrees_Table
  imports Inftrees_Fill
begin

text \<open>
  The main loop of \<open>inflate_table\<close>.  The invariant \<open>tb_inv\<close> says, when the first \<open>k\<close> symbols have
  been entered, what the variables and both tables contain; it is shown to be preserved, so that the
  loop ends with every symbol entered (or with the return code 1 when the table space is used up).
\<close>

section \<open>Invariant\<close>

definition link :: "nat \<Rightarrow> nat \<Rightarrow> nat \<Rightarrow> code" where
  "link c root off = \<lparr>c_op = of_nat c, c_bits = of_nat root, c_val = of_nat off\<rparr>"

abbreviation (input) "entry_at type ls work drp i \<equiv>
  table_entry type work (work ! i) (lenseq ls work i - drp)"

text \<open>Codes of at most \<open>root\<close> bits are found in the root table.\<close>

definition root_codes :: "codetype \<Rightarrow> nat list \<Rightarrow> nat list \<Rightarrow> nat \<Rightarrow> nat \<Rightarrow> nat \<Rightarrow> code list \<Rightarrow> bool" where
  "root_codes type ls work root base k tab \<longleftrightarrow>
    (\<forall>i<k. lenseq ls work i \<le> root \<longrightarrow>
      (\<forall>y<2 ^ root. y mod 2 ^ lenseq ls work i = hcode ls work i \<longrightarrow>
        tab ! (base + y) = entry_at type ls work 0 i))"

text \<open>Longer codes are found through a link in the root table; the sub-tables lie before \<open>nt\<close>, or are
  the current one, at \<open>nt\<close> with \<open>cur\<close> index bits.\<close>

definition sub_code :: "codetype \<Rightarrow> nat list \<Rightarrow> nat list \<Rightarrow> nat \<Rightarrow> nat \<Rightarrow> code list \<Rightarrow> nat \<Rightarrow> nat \<Rightarrow> nat \<Rightarrow> bool" where
  "sub_code type ls work root base tab i c off \<longleftrightarrow>
    tab ! (base + hcode ls work i mod 2 ^ root) = link c root off \<and>
    lenseq ls work i \<le> root + c \<and> 2 ^ root \<le> off \<and> c \<le> 15 \<and>
    (\<forall>z<2 ^ c. z mod 2 ^ (lenseq ls work i - root) = hcode ls work i div 2 ^ root \<longrightarrow>
       tab ! (base + off + z) = entry_at type ls work root i)"

definition sub_codes :: "codetype \<Rightarrow> nat list \<Rightarrow> nat list \<Rightarrow> nat \<Rightarrow> nat \<Rightarrow> nat \<Rightarrow> code list \<Rightarrow> nat \<Rightarrow> nat \<Rightarrow> nat option \<Rightarrow> bool" where
  "sub_codes type ls work root base k tab nt cur low \<longleftrightarrow>
    (\<forall>i<k. root < lenseq ls work i \<longrightarrow>
      (\<exists>c off. sub_code type ls work root base tab i c off \<and>
        (off + 2 ^ c \<le> nt \<or> off = nt \<and> c = cur \<and> low = Some (hcode ls work i mod 2 ^ root))))"

definition tree_codes :: "nat list \<Rightarrow> nat list \<Rightarrow> nat \<Rightarrow> ct_data list \<Rightarrow> ct_data list \<Rightarrow> bool" where
  "tree_codes ls work k tree0 tree \<longleftrightarrow> length tree = length tree0 \<and>
    (\<forall>i<k. tree ! (work ! i) = ct (of_nat (hcode ls work i), of_nat (lenseq ls work i))) \<and>
    (\<forall>s. (\<forall>i<k. s \<noteq> work ! i) \<longrightarrow> tree ! s = tree0 ! s)"

text \<open>The part of the invariant on the current table: the root table, or a sub-table.\<close>

definition tb_where :: "nat list \<Rightarrow> nat list \<Rightarrow> nat \<Rightarrow> nat \<Rightarrow> nat \<Rightarrow> tb \<Rightarrow> bool" where
  "tb_where ls work root base k t \<longleftrightarrow>
    (if tb_drop t = 0
     then tb_low t = None \<and> tb_curr t = root \<and> tb_next t = base \<and> tb_len t \<le> root
     else tb_drop t = root \<and> root < tb_len t \<and> tb_low t = Some (hcode ls work k mod 2 ^ root) \<and>
       tb_curr t \<le> 15 \<and> base + 2 ^ root \<le> tb_next t \<and>
       tb_tab t ! (base + hcode ls work k mod 2 ^ root) = link (tb_curr t) root (tb_next t - base) \<and>
       (\<forall>j. k \<le> j \<and> j < ncoded ls \<and> hcode ls work j mod 2 ^ root = hcode ls work k mod 2 ^ root \<longrightarrow>
         lenseq ls work j \<le> root + tb_curr t))"

definition tb_filled :: "codetype \<Rightarrow> nat list \<Rightarrow> nat list \<Rightarrow> nat \<Rightarrow> nat \<Rightarrow> ct_data list \<Rightarrow> nat \<Rightarrow> nat \<Rightarrow> tb \<Rightarrow> bool" where
  "tb_filled type ls work root base tree0 sz k t \<longleftrightarrow>
    tb_sym t = k \<and> tb_huff t = hcode ls work k \<and>
    length (tb_count t) = 16 \<and> (\<forall>l. 1 \<le> l \<and> l \<le> 15 \<longrightarrow> tb_count t ! l = remain ls work k l) \<and>
    tree_codes ls work k tree0 (tb_tree t) \<and>
    length (tb_tab t) = sz \<and> tb_next t + 2 ^ tb_curr t = base + tb_used t \<and> base + tb_used t \<le> sz \<and>
    base + 2 ^ root \<le> sz \<and> base \<le> tb_next t \<and>
    root_codes type ls work root base k (tb_tab t) \<and>
    sub_codes type ls work root base k (tb_tab t) (tb_next t - base) (tb_curr t) (tb_low t)"

definition tb_inv :: "codetype \<Rightarrow> nat list \<Rightarrow> nat list \<Rightarrow> nat \<Rightarrow> nat \<Rightarrow> ct_data list \<Rightarrow> nat \<Rightarrow> nat \<Rightarrow> tb \<Rightarrow> bool" where
  "tb_inv type ls work root base tree0 sz k t \<longleftrightarrow>
    tb_filled type ls work root base tree0 sz k t \<and> tb_len t = lenseq ls work k \<and>
    tb_where ls work root base k t"

text \<open>What the routine is called with: a sorted work array, lengths whose code space is not
  exceeded, room for the table, and a tree with an entry for every symbol.\<close>

definition space_of :: "codetype \<Rightarrow> nat" where
  "space_of type = (case type of CODES \<Rightarrow> 128 | LENS \<Rightarrow> ENOUGH_LENS | DISTS \<Rightarrow> ENOUGH_DISTS)"

definition build_ok :: "codetype \<Rightarrow> nat list \<Rightarrow> nat list \<Rightarrow> nat \<Rightarrow> nat \<Rightarrow> nat \<Rightarrow> ct_data list \<Rightarrow> nat \<Rightarrow> bool" where
  "build_ok type ls work root mx base tree0 sz \<longleftrightarrow>
    sorted_work ls work \<and> lens_ok ls \<and> kraft ls \<le> 2 ^ 15 \<and> max_len ls mx \<and>
    1 \<le> root \<and> root \<le> 15 \<and> (type = CODES \<longrightarrow> mx \<le> root) \<and>
    base + space_of type \<le> sz \<and> length ls \<le> length tree0"

lemma space_ok: "type \<noteq> CODES \<Longrightarrow> \<not> space_exceeded type used \<Longrightarrow> used \<le> space_of type"
  by (cases type) (auto simp: space_exceeded_def space_of_def)

section \<open>Entering a symbol\<close>

lemma hcode_div_less:
  assumes "sorted_work ls work" and "lens_ok ls" and "k < ncoded ls" and "d \<le> lenseq ls work k"
  shows "hcode ls work k div 2 ^ d < 2 ^ (lenseq ls work k - d)"
  using hcode_less [OF assms(1-3)] assms(4) by (simp add: less_mult_imp_div_less flip: power_add)

lemma drop_fits:
  assumes "tb_where ls work root base k t" and "tb_len t = lenseq ls work k" and "k < ncoded ls"
  shows "tb_drop t \<le> lenseq ls work k" and "lenseq ls work k - tb_drop t \<le> tb_curr t"
  using assms by (auto simp: tb_where_def split: if_splits)

lemma root_codes_enter:
  assumes "sorted_work ls work" and "lens_ok ls" and "kraft ls \<le> 2 ^ 15" and "k < ncoded ls"
    and "root_codes type ls work root base k tab" and "lenseq ls work k \<le> root"
    and "\<forall>y<2 ^ root. tab' ! (base + y) =
      (if y mod 2 ^ lenseq ls work k = hcode ls work k then entry_at type ls work 0 k else tab ! (base + y))"
  shows "root_codes type ls work root base (Suc k) tab'"
  unfolding root_codes_def
proof (intro allI impI)
  fix i y assume i: "i < Suc k" "lenseq ls work i \<le> root"
    and y: "y < 2 ^ root" "y mod 2 ^ lenseq ls work i = hcode ls work i"
  show "tab' ! (base + y) = entry_at type ls work 0 i"
  proof (cases "i = k")
    case True
    then show ?thesis using assms(7) y by simp
  next
    case False
    then have ik: "i < k" using i by simp
    have "y mod 2 ^ lenseq ls work k \<noteq> hcode ls work k"
    proof
      assume "y mod 2 ^ lenseq ls work k = hcode ls work k"
      then have "hcode ls work k mod 2 ^ lenseq ls work i = y mod 2 ^ lenseq ls work i"
        using lenseq_mono [OF assms(1) _ assms(4), of i] ik
        by (metis le_imp_power_dvd less_imp_le mod_mod_cancel)
      with y(2) prefix_free [OF assms(1-3) ik assms(4)] show False by simp
    qed
    then show ?thesis using assms(5,7) ik i(2) y by (auto simp: root_codes_def)
  qed
qed

lemma sub_codes_enter_root:
  assumes "sorted_work ls work" and "k < ncoded ls" and "lenseq ls work k \<le> root"
  shows "sub_codes type ls work root base (Suc k) tab' nt cur low"
  unfolding sub_codes_def
proof (intro allI impI)
  fix i assume "i < Suc k" "root < lenseq ls work i"
  then show "\<exists>c off. sub_code type ls work root base tab' i c off \<and> (off + 2 ^ c \<le> nt \<or> off = nt \<and> c = cur \<and> low = Some (hcode ls work i mod 2 ^ root))"
    using lenseq_mono [OF assms(1) _ assms(2), of i] assms(3) by simp
qed

lemma split_mod_eq:
  assumes "root \<le> l" and "a mod 2 ^ root = b mod 2 ^ root" and "a div 2 ^ root mod 2 ^ (l - root) = b div 2 ^ root"
  shows "a mod 2 ^ l = (b :: nat)"
proof -
  have "a mod 2 ^ l = a mod (2 ^ root * 2 ^ (l - root))" using assms(1) by (simp flip: power_add)
  also have "\<dots> = 2 ^ root * (a div 2 ^ root mod 2 ^ (l - root)) + a mod 2 ^ root"
    by (rule mod_mult2_eq)
  also have "\<dots> = b" using assms(2,3) by simp
  finally show ?thesis .
qed

lemma sub_codes_enter_sub:
  assumes "sorted_work ls work" and "lens_ok ls" and "kraft ls \<le> 2 ^ 15" and "k < ncoded ls"
    and "sub_codes type ls work root base k tab nt cur low" and "low = Some (hcode ls work k mod 2 ^ root)"
    and "root < lenseq ls work k" and "lenseq ls work k \<le> root + cur" and "2 ^ root \<le> nt" and "cur \<le> 15"
    and "tab ! (base + hcode ls work k mod 2 ^ root) = link cur root nt"
    and "\<forall>y<2 ^ cur. tab' ! (base + nt + y) = (if y mod 2 ^ (lenseq ls work k - root) = hcode ls work k div 2 ^ root
       then entry_at type ls work root k else tab ! (base + nt + y))"
    and "\<forall>x. x < base + nt \<longrightarrow> tab' ! x = tab ! x"
  shows "sub_codes type ls work root base (Suc k) tab' nt cur low"
  unfolding sub_codes_def
proof (intro allI impI)
  fix i assume i: "i < Suc k" "root < lenseq ls work i"
  have low: "tab' ! (base + y mod 2 ^ root) = tab ! (base + y mod 2 ^ root)" for y
  proof -
    have "y mod 2 ^ root < 2 ^ root" by simp
    then have "y mod 2 ^ root < nt" using assms(9) by (rule less_le_trans)
    then show ?thesis using assms(13) by simp
  qed
  show "\<exists>c off. sub_code type ls work root base tab' i c off \<and> (off + 2 ^ c \<le> nt \<or> off = nt \<and> c = cur \<and> low = Some (hcode ls work i mod 2 ^ root))"
  proof (cases "i = k")
    case True
    have "sub_code type ls work root base tab' k cur nt"
      unfolding sub_code_def using assms(6,8-12) low by (simp add: add.assoc)
    with True assms(6) show ?thesis by blast
  next
    case False
    then have ik: "i < k" using i by simp
    then have iN: "i < ncoded ls" using assms(4) by simp
    obtain c off where s: "sub_code type ls work root base tab i c off"
      and place: "off + 2 ^ c \<le> nt \<or> off = nt \<and> c = cur \<and> low = Some (hcode ls work i mod 2 ^ root)"
      using assms(5) ik i(2) by (auto simp: sub_codes_def)
    have keep: "tab' ! (base + off + z) = tab ! (base + off + z)"
      if z: "z < 2 ^ c" "z mod 2 ^ (lenseq ls work i - root) = hcode ls work i div 2 ^ root" for z
    proof (cases "off + 2 ^ c \<le> nt")
      case True
      then show ?thesis using z(1) assms(13) by simp
    next
      case False
      then have cur: "off = nt" "c = cur" and same: "hcode ls work k mod 2 ^ root = hcode ls work i mod 2 ^ root"
        using place assms(6) by auto
      have "z mod 2 ^ (lenseq ls work k - root) \<noteq> hcode ls work k div 2 ^ root"
      proof
        let ?d = "lenseq ls work i - root"
        assume eq: "z mod 2 ^ (lenseq ls work k - root) = hcode ls work k div 2 ^ root"
        have le: "?d \<le> lenseq ls work k - root"
          using lenseq_mono [OF assms(1) _ assms(4), of i] ik by simp
        have "hcode ls work k div 2 ^ root mod 2 ^ ?d = z mod 2 ^ ?d"
          using eq le by (metis le_imp_power_dvd mod_mod_cancel)
        with z(2) have "hcode ls work k div 2 ^ root mod 2 ^ ?d = hcode ls work i div 2 ^ root" by simp
        then have "hcode ls work k mod 2 ^ lenseq ls work i = hcode ls work i"
          using split_mod_eq [of root "lenseq ls work i"] same i(2) by simp
        with prefix_free [OF assms(1-3) ik assms(4)] show False by simp
      qed
      then show ?thesis using cur assms(12) z(1) by simp
    qed
    have "sub_code type ls work root base tab' i c off"
      using s keep low unfolding sub_code_def by auto
    with place show ?thesis by blast
  qed
qed


lemma tree_codes_enter:
  assumes "sorted_work ls work" and "k < ncoded ls" and "tree_codes ls work k tree0 tree"
    and "length ls \<le> length tree0"
  shows "tree_codes ls work (Suc k) tree0 (tree[work ! k := ct (of_nat (hcode ls work k), of_nat (lenseq ls work k))])"
proof -
  have w: "work ! k < length tree"
    using work_coded(1) [OF assms(1,2)] assms(3,4) by (auto simp: coded_def tree_codes_def)
  have "\<forall>i<k. work ! k \<noteq> work ! i"
    using work_inj [OF assms(1) _ assms(2)] assms(2) by (metis less_irrefl less_trans)
  then show ?thesis
    using assms(3) w by (auto simp: tree_codes_def nth_list_update less_Suc_eq)
qed

text \<open>The tables after a symbol has been entered.\<close>

definition entered :: "codetype \<Rightarrow> nat list \<Rightarrow> nat list \<Rightarrow> nat \<Rightarrow> nat \<Rightarrow> ct_data list \<Rightarrow> nat \<Rightarrow> nat \<Rightarrow> tb \<Rightarrow> tb \<Rightarrow> bool" where
  "entered type ls work root base tree0 sz k t t1 \<longleftrightarrow>
    t1 = t\<lparr>tb_tab := tb_tab t1, tb_tree := tb_tree t1\<rparr> \<and> length (tb_tab t1) = sz \<and>
    tree_codes ls work (Suc k) tree0 (tb_tree t1) \<and>
    root_codes type ls work root base (Suc k) (tb_tab t1) \<and>
    sub_codes type ls work root base (Suc k) (tb_tab t1) (tb_next t - base) (tb_curr t) (tb_low t) \<and>
    (tb_drop t \<noteq> 0 \<longrightarrow> tb_tab t1 ! (base + hcode ls work k mod 2 ^ root) = tb_tab t ! (base + hcode ls work k mod 2 ^ root))"

lemma tb_enter_entered:
  assumes ok: "build_ok type ls work root mx base tree0 sz" and inv: "tb_inv type ls work root base tree0 sz k t"
    and k: "k < ncoded ls"
  shows "\<exists>t1. tb_enter type work t = Some t1 \<and> entered type ls work root base tree0 sz k t t1"
proof -
  have so: "sorted_work ls work" and lo: "lens_ok ls" and kr: "kraft ls \<le> 2 ^ 15"
    using ok by (auto simp: build_ok_def)
  have len: "tb_len t = lenseq ls work k" and wh: "tb_where ls work root base k t"
    and huff: "tb_huff t = hcode ls work k" and sm: "tb_sym t = k"
    and tree: "tree_codes ls work k tree0 (tb_tree t)" and tabl: "length (tb_tab t) = sz"
    and room: "tb_next t + 2 ^ tb_curr t \<le> sz"
    and rc: "root_codes type ls work root base k (tb_tab t)"
    and sc: "sub_codes type ls work root base k (tb_tab t) (tb_next t - base) (tb_curr t) (tb_low t)"
    using inv by (auto simp: tb_inv_def tb_filled_def)
  let ?d = "tb_drop t" and ?l = "lenseq ls work k"
  note fits = drop_fits [OF wh len k]
  let ?e = "table_entry type work (work ! k) (?l - ?d)"
  have h: "hcode ls work k div 2 ^ ?d < 2 ^ (?l - ?d)" by (rule hcode_div_less [OF so lo k fits(1)])
  obtain tab' where t': "fill_entries (tb_next t + hcode ls work k div 2 ^ ?d) (2 ^ (?l - ?d)) (2 ^ tb_curr t) ?e (tb_tab t) = Some tab'"
    "length tab' = sz"
    and new: "\<forall>y<2 ^ tb_curr t. tab' ! (tb_next t + y) = (if y mod 2 ^ (?l - ?d) = hcode ls work k div 2 ^ ?d
       then ?e else tb_tab t ! (tb_next t + y))"
    and old: "\<forall>x. x < tb_next t \<or> tb_next t + 2 ^ tb_curr t \<le> x \<longrightarrow> tab' ! x = tb_tab t ! x"
    using fill_entries_table [OF h fits(2), of "tb_next t" "tb_tab t" ?e] room tabl by auto
  let ?tree = "(tb_tree t)[work ! k := ct (of_nat (hcode ls work k), of_nat ?l)]"
  let ?t1 = "t\<lparr>tb_tab := tab', tb_tree := ?tree\<rparr>"
  have wk: "k < length work" "work ! k < length (tb_tree t)"
    using so k work_coded(1) [OF so k] ok tree by (auto simp: sorted_work_def build_ok_def coded_def tree_codes_def)
  then have enter: "tb_enter type work t = Some ?t1"
    using t'(1) by (simp add: tb_enter_def sm len huff drop_bit_eq_div)
  have tr: "tree_codes ls work (Suc k) tree0 ?tree"
    using tree_codes_enter [OF so k tree] ok by (simp add: build_ok_def)
  have "root_codes type ls work root base (Suc k) tab' \<and>
    sub_codes type ls work root base (Suc k) tab' (tb_next t - base) (tb_curr t) (tb_low t) \<and>
    (?d \<noteq> 0 \<longrightarrow> tab' ! (base + hcode ls work k mod 2 ^ root) = tb_tab t ! (base + hcode ls work k mod 2 ^ root))"
  proof (cases "?d = 0")
    case True
    then have w: "tb_curr t = root" "tb_next t = base" "?l \<le> root"
      using wh len by (auto simp: tb_where_def)
    have "root_codes type ls work root base (Suc k) tab'"
      using new w True by (intro root_codes_enter [OF so lo kr k rc]) auto
    with True sub_codes_enter_root [OF so k w(3)] show ?thesis by blast
  next
    case False
    then have w: "?d = root" "root < ?l" "tb_low t = Some (hcode ls work k mod 2 ^ root)" "tb_curr t \<le> 15"
      "base + 2 ^ root \<le> tb_next t"
      "tb_tab t ! (base + hcode ls work k mod 2 ^ root) = link (tb_curr t) root (tb_next t - base)"
      "?l \<le> root + tb_curr t"
      using wh len k by (auto simp: tb_where_def)
    have nx: "base + (tb_next t - base) = tb_next t" "2 ^ root \<le> tb_next t - base" using w(5) by auto
    have low: "tab' ! (base + y) = tb_tab t ! (base + y)" if "y < 2 ^ root" for y
      using old nx that by (metis add_less_cancel_left less_le_trans)
    have "root_codes type ls work root base (Suc k) tab'"
      using rc w(2) low by (auto simp: root_codes_def less_Suc_eq)
    moreover have "sub_codes type ls work root base (Suc k) tab' (tb_next t - base) (tb_curr t) (tb_low t)"
      using w nx new old by (intro sub_codes_enter_sub [OF so lo kr k sc]) auto
    ultimately show ?thesis using low [of "hcode ls work k mod 2 ^ root"] by simp
  qed
  then have "entered type ls work root base tree0 sz k t ?t1"
    using t'(2) tr by (simp add: entered_def)
  with enter show ?thesis by blast
qed


section \<open>Moving to the next symbol\<close>

text \<open>The state after the counters have been advanced, before a sub-table is opened.\<close>

definition advanced :: "nat list \<Rightarrow> nat list \<Rightarrow> nat \<Rightarrow> tb \<Rightarrow> tb" where
  "advanced ls work k t1 = t1\<lparr>tb_huff := hcode ls work (Suc k), tb_sym := Suc k,
     tb_count := (tb_count t1)[lenseq ls work k := tb_count t1 ! lenseq ls work k - 1],
     tb_len := (if Suc k < ncoded ls then lenseq ls work (Suc k) else lenseq ls work k)\<rparr>"

lemma advanced_filled:
  assumes ok: "build_ok type ls work root mx base tree0 sz" and inv: "tb_inv type ls work root base tree0 sz k t"
    and k: "k < ncoded ls" and e: "entered type ls work root base tree0 sz k t t1"
  shows "tb_filled type ls work root base tree0 sz (Suc k) (advanced ls work k t1)"
proof -
  have so: "sorted_work ls work" and lo: "lens_ok ls" using ok by (auto simp: build_ok_def)
  obtain tab tree where t1: "t1 = t\<lparr>tb_tab := tab, tb_tree := tree\<rparr>" using e by (metis entered_def)
  have l: "1 \<le> lenseq ls work k" "lenseq ls work k \<le> 15" using lenseq_range [OF so lo k] by auto
  have "(tb_count t)[lenseq ls work k := tb_count t ! lenseq ls work k - 1] ! l = remain ls work (Suc k) l"
    if "1 \<le> l" "l \<le> 15" for l
    using inv that l remain_Suc [OF k, of work l] by (auto simp: tb_inv_def tb_filled_def nth_list_update)
  then show ?thesis
    using inv e unfolding t1 by (simp add: tb_filled_def tb_inv_def advanced_def entered_def)
qed

lemma tb_step_advance:
  assumes ok: "build_ok type ls work root mx base tree0 sz" and inv: "tb_inv type ls work root base tree0 sz k t"
    and k: "k < ncoded ls" and en: "tb_enter type work t = Some t1"
    and e: "entered type ls work root base tree0 sz k t t1"
  shows "tb_step type ls work root mx base t =
    (let t2 = advanced ls work k t1
     in if Suc k = ncoded ls then Some (Break t2)
        else if tb_len t2 > root \<and> Some (hcode ls work (Suc k) mod 2 ^ root) \<noteq> tb_low t2
        then tb_subtable type root mx base t2 else Some (More t2))"
proof -
  have so: "sorted_work ls work" and lo: "lens_ok ls" and mx: "max_len ls mx" using ok by (auto simp: build_ok_def)
  obtain tab tree where t1: "t1 = t\<lparr>tb_tab := tab, tb_tree := tree\<rparr>" using e by (metis entered_def)
  let ?l = "lenseq ls work k"
  have l: "1 \<le> ?l" "?l \<le> 15" using lenseq_range [OF so lo k] by auto
  have f: "tb_len t1 = ?l" "tb_huff t1 = hcode ls work k" "tb_sym t1 = k" "length (tb_count t1) = 16"
    "tb_count t1 ! ?l = remain ls work k ?l"
    using inv l unfolding t1 by (auto simp: tb_inv_def tb_filled_def)
  have r: "remain ls work k ?l = Suc (remain ls work (Suc k) ?l)" using remain_Suc [OF k, of work ?l] by simp
  have huff: "back_incr (hcode ls work k) ?l = hcode ls work (Suc k)" by (rule hcode_step [OF so lo k])
  have l16: "\<not> 16 \<le> ?l" "?l < 16" using l by auto
  note simps = en f r huff l16 nat_and_low [of _ root, simplified] Let_def
  show ?thesis
  proof (cases "remain ls work (Suc k) ?l = 0")
    case True
    note last = max_len_last [OF so mx k True]
    show ?thesis
    proof (cases "Suc k = ncoded ls")
      case n: True
      then have mxl: "mx = ?l" using last by simp
      have "advanced ls work k t1 = t1\<lparr>tb_huff := hcode ls work (Suc k), tb_sym := Suc k,
          tb_count := (tb_count t1)[?l := tb_count t1 ! ?l - 1]\<rparr>"
        using n f(1) by (simp add: advanced_def)
      then show ?thesis using True n unfolding tb_step_def mxl by (simp add: simps)
    next
      case n: False
      then have Sk: "Suc k < ncoded ls" using k by simp
      have w: "Suc k < length work" "work ! Suc k < length ls"
        using so Sk work_coded(1) [OF so Sk] by (auto simp: sorted_work_def coded_def)
      have "?l \<noteq> mx" using last n by simp
      moreover have "ls ! (work ! Suc k) = lenseq ls work (Suc k)" by (simp add: lenseq_def)
      ultimately show ?thesis
        using True n w Sk unfolding tb_step_def by (simp add: simps advanced_def)
    qed
  next
    case False
    note same = remain_same_len [OF so k False]
    have "advanced ls work k t1 = t1\<lparr>tb_huff := hcode ls work (Suc k), tb_sym := Suc k,
        tb_count := (tb_count t1)[?l := tb_count t1 ! ?l - 1]\<rparr>"
      using same f(1) by (simp add: advanced_def)
    then show ?thesis using False same unfolding tb_step_def by (simp add: simps)
  qed
qed


lemma advanced_fields [simp]:
  "tb_drop (advanced ls work k t) = tb_drop t" "tb_low (advanced ls work k t) = tb_low t"
  "tb_curr (advanced ls work k t) = tb_curr t" "tb_next (advanced ls work k t) = tb_next t"
  "tb_used (advanced ls work k t) = tb_used t" "tb_tab (advanced ls work k t) = tb_tab t"
  "tb_tree (advanced ls work k t) = tb_tree t" "tb_huff (advanced ls work k t) = hcode ls work (Suc k)"
  "tb_sym (advanced ls work k t) = Suc k"
  "Suc k < ncoded ls \<Longrightarrow> tb_len (advanced ls work k t) = lenseq ls work (Suc k)"
  by (simp_all add: advanced_def)

lemma entered_fields:
  assumes "entered type ls work root base tree0 sz k t t1"
  shows "tb_drop t1 = tb_drop t" "tb_low t1 = tb_low t" "tb_curr t1 = tb_curr t" "tb_next t1 = tb_next t"
    "tb_used t1 = tb_used t" "tb_len t1 = tb_len t"
proof -
  obtain tab tree where "t1 = t\<lparr>tb_tab := tab, tb_tree := tree\<rparr>" using assms by (metis entered_def)
  then show "tb_drop t1 = tb_drop t" "tb_low t1 = tb_low t" "tb_curr t1 = tb_curr t" "tb_next t1 = tb_next t"
    "tb_used t1 = tb_used t" "tb_len t1 = tb_len t" by simp_all
qed

lemma advanced_where:
  assumes so: "sorted_work ls work" and inv: "tb_inv type ls work root base tree0 sz k t"
    and k: "Suc k < ncoded ls" and e: "entered type ls work root base tree0 sz k t t1"
    and no: "\<not> (lenseq ls work (Suc k) > root \<and> Some (hcode ls work (Suc k) mod 2 ^ root) \<noteq> tb_low t1)"
  shows "tb_where ls work root base (Suc k) (advanced ls work k t1)"
proof -
  have wh: "tb_where ls work root base k t" and len: "tb_len t = lenseq ls work k"
    using inv by (auto simp: tb_inv_def)
  note f = entered_fields [OF e]
  have m: "lenseq ls work k \<le> lenseq ls work (Suc k)" using lenseq_mono [OF so _ k] by simp
  show ?thesis
  proof (cases "tb_drop t = 0")
    case True
    then show ?thesis using wh no k by (auto simp: tb_where_def f)
  next
    case False
    then have low: "tb_low t = Some (hcode ls work k mod 2 ^ root)" "root < lenseq ls work k"
      using wh len by (auto simp: tb_where_def)
    then have same: "hcode ls work (Suc k) mod 2 ^ root = hcode ls work k mod 2 ^ root"
      using no m by (simp add: f)
    have "tb_tab t1 ! (base + hcode ls work k mod 2 ^ root) = tb_tab t ! (base + hcode ls work k mod 2 ^ root)"
      using e False by (simp add: entered_def)
    then show ?thesis using wh False m k len same by (auto simp: tb_where_def f)
  qed
qed

lemma tb_subtable_inv:
  assumes ok: "build_ok type ls work root mx base tree0 sz" and inv: "tb_inv type ls work root base tree0 sz k t"
    and k: "Suc k < ncoded ls" and e: "entered type ls work root base tree0 sz k t t1"
    and yes: "lenseq ls work (Suc k) > root" "Some (hcode ls work (Suc k) mod 2 ^ root) \<noteq> tb_low t1"
  shows "(\<exists>t3. tb_subtable type root mx base (advanced ls work k t1) = Some (Return 1 t3)) \<or>
    (\<exists>t3. tb_subtable type root mx base (advanced ls work k t1) = Some (More t3) \<and>
      tb_inv type ls work root base tree0 sz (Suc k) t3)"
proof -
  have so: "sorted_work ls work" and lo: "lens_ok ls" and kr: "kraft ls \<le> 2 ^ 15" and mx: "max_len ls mx"
    and root: "1 \<le> root" "root \<le> 15" and len_tree: "length ls \<le> length tree0"
    using ok by (auto simp: build_ok_def)
  have wh: "tb_where ls work root base k t" and len: "tb_len t = lenseq ls work k"
    using inv by (auto simp: tb_inv_def)
  note f = entered_fields [OF e]
  let ?t2 = "advanced ls work k t1" and ?l = "lenseq ls work (Suc k)" and ?h = "hcode ls work (Suc k)"
  have k0: "k < ncoded ls" using k by simp
  have fl: "tb_filled type ls work root base tree0 sz (Suc k) ?t2" by (rule advanced_filled [OF ok inv k0 e])
  have type: "type \<noteq> CODES"
  proof
    assume "type = CODES"
    then have "mx \<le> root" using ok by (simp add: build_ok_def)
    moreover have "?l \<le> mx" using mx work_coded(1) [OF so k] by (simp add: max_len_def lenseq_def)
    ultimately show False using yes(1) by simp
  qed
  define c where "c = extend_curr (tb_count ?t2) root mx (?l - root) (2 ^ (?l - root))"
  have cnt: "\<forall>l. 1 \<le> l \<and> l \<le> 15 \<longrightarrow> tb_count ?t2 ! l = remain ls work (Suc k) l"
    using fl by (simp add: tb_filled_def)
  note size = subtable_size [OF so lo kr mx k yes(1) cnt, folded c_def]
  have mx15: "mx \<le> 15" using mx lo by (auto simp: max_len_def coded_def lens_ok_def list_all_length)
  have drp: "(if tb_drop t = 0 then root else tb_drop t) = root" using wh by (auto simp: tb_where_def)
  define nxt where "nxt = tb_next t + 2 ^ tb_curr t"
  have nx: "nxt = base + tb_used t" "base + 2 ^ root \<le> nxt" "base \<le> tb_next t"
    "nxt - base = (tb_next t - base) + 2 ^ tb_curr t"
  proof -
    have n: "tb_next t + 2 ^ tb_curr t = base + tb_used t" "base \<le> tb_next t"
      using inv by (simp_all add: tb_inv_def tb_filled_def)
    then show "nxt = base + tb_used t" "base \<le> tb_next t" "nxt - base = (tb_next t - base) + 2 ^ tb_curr t"
      by (simp_all add: nxt_def)
    show "base + 2 ^ root \<le> nxt"
    proof (cases "tb_drop t = 0")
      case True
      then show ?thesis using wh by (simp add: tb_where_def nxt_def)
    next
      case False
      then have "base + 2 ^ root \<le> tb_next t" using wh by (simp add: tb_where_def)
      then show ?thesis unfolding nxt_def by (rule trans_le_add1)
    qed
  qed
  let ?low = "?h mod 2 ^ root"
  have low: "?low < 2 ^ root" by simp
  have szr: "length (tb_tab t1) = sz" "base + 2 ^ root \<le> sz" "base + space_of type \<le> sz"
    using fl ok by (auto simp: tb_filled_def build_ok_def)
  let ?tab = "(tb_tab t1)[base + ?low := link c root (nxt - base)]"
  let ?t3 = "?t2\<lparr>tb_drop := root, tb_next := nxt, tb_curr := c, tb_used := tb_used t + 2 ^ c,
    tb_low := Some ?low, tb_tab := ?tab\<rparr>"
  have sub: "tb_subtable type root mx base ?t2 =
    (if space_exceeded type (tb_used t + 2 ^ c) then Some (Return 1 ?t2) else Some (More ?t3))"
  proof -
    have "tb_len ?t2 = ?l" using k by simp
    moreover have "base + ?low < length (tb_tab t1)" using low szr(1,2) by linarith
    ultimately show ?thesis
      unfolding tb_subtable_def Let_def advanced_fields(1-9) f drp nat_and_low nxt_def [symmetric]
      by (simp add: c_def [symmetric] link_def)
  qed
  show ?thesis
  proof (cases "space_exceeded type (tb_used t + 2 ^ c)")
    case True
    then show ?thesis using sub by simp
  next
    case False
    then have room: "base + (tb_used t + 2 ^ c) \<le> sz" using space_ok [OF type] szr(3) by fastforce
    have rc: "root_codes type ls work root base (Suc k) ?tab"
      unfolding root_codes_def
    proof (intro allI impI)
      fix i y assume i: "i < Suc k" "lenseq ls work i \<le> root"
        and y: "y < 2 ^ root" "y mod 2 ^ lenseq ls work i = hcode ls work i"
      have "y \<noteq> ?low"
      proof
        assume "y = ?low"
        then have "?h mod 2 ^ lenseq ls work i = hcode ls work i"
          using y(2) i(2) by (metis le_imp_power_dvd mod_mod_cancel)
        with prefix_free [OF so lo kr i(1) k] show False by simp
      qed
      then show "?tab ! (base + y) = entry_at type ls work 0 i"
        using e i y by (auto simp: entered_def root_codes_def)
    qed
    have sc: "sub_codes type ls work root base (Suc k) ?tab (nxt - base) c (Some ?low)"
      unfolding sub_codes_def
    proof (intro allI impI)
      fix i assume i: "i < Suc k" "root < lenseq ls work i"
      obtain ci off where s: "sub_code type ls work root base (tb_tab t1) i ci off"
        and place: "off + 2 ^ ci \<le> tb_next t - base \<or> off = tb_next t - base \<and> ci = tb_curr t"
        using e i by (auto simp: entered_def sub_codes_def)
      have off: "off + 2 ^ ci \<le> nxt - base" using place nx(4) by auto
      have ne: "hcode ls work i mod 2 ^ root \<noteq> ?low"
      proof
        assume "hcode ls work i mod 2 ^ root = ?low"
        moreover have iN: "i < ncoded ls" using i k by simp
        ultimately have "pos ls work i div 2 ^ (15 - root) = pos ls work (Suc k) div 2 ^ (15 - root)"
          using hcode_block [OF so lo kr iN k root(2)] by simp
        moreover have "pos ls work i div 2 ^ (15 - root) \<le> pos ls work k div 2 ^ (15 - root)"
          "pos ls work k div 2 ^ (15 - root) \<le> pos ls work (Suc k) div 2 ^ (15 - root)"
          using i(1) by (auto intro!: div_le_mono pos_mono)
        ultimately have "pos ls work k div 2 ^ (15 - root) = pos ls work (Suc k) div 2 ^ (15 - root)" by simp
        then have "hcode ls work k mod 2 ^ root = ?low"
          using hcode_block [OF so lo kr k0 k root(2)] by simp
        moreover have "root < lenseq ls work k" using lenseq_mono [OF so _ k0, of i] i by simp
        ultimately have "tb_low t = Some ?low" using wh len by (auto simp: tb_where_def split: if_splits)
        with yes(2) f show False by simp
      qed
      have "2 ^ root \<le> off" using s by (simp add: sub_code_def)
      then have "?low < off" using low by (rule less_le_trans [rotated])
      then have "base + ?low \<noteq> base + off + z" for z by simp
      then have "?tab ! (base + off + z) = tb_tab t1 ! (base + off + z)" for z by simp
      then have "sub_code type ls work root base ?tab i ci off"
        using s ne unfolding sub_code_def by auto
      with off show "\<exists>c' off. sub_code type ls work root base ?tab i c' off \<and>
          (off + 2 ^ c' \<le> nxt - base \<or> off = nxt - base \<and> c' = c \<and> Some ?low = Some (hcode ls work i mod 2 ^ root))"
        by blast
    qed
    have "base + ?low < length (tb_tab t1)" using low szr(1,2) by linarith
    then have lk: "?tab ! (base + ?low) = link c root (nxt - base)" by simp
    have "tb_filled type ls work root base tree0 sz (Suc k) ?t3"
      using fl rc sc room nx szr by (simp add: tb_filled_def)
    moreover have "tb_where ls work root base (Suc k) ?t3"
      using size root yes(1) k nx(2) szr lk mx15 by (auto simp: tb_where_def)
    ultimately have "tb_inv type ls work root base tree0 sz (Suc k) ?t3"
      using k by (simp add: tb_inv_def)
    with False sub show ?thesis by simp
  qed
qed


section \<open>The loop\<close>

lemma tb_step_inv:
  assumes ok: "build_ok type ls work root mx base tree0 sz" and inv: "tb_inv type ls work root base tree0 sz k t"
    and k: "k < ncoded ls"
  shows "(\<exists>t'. tb_step type ls work root mx base t = Some (Break t') \<and> Suc k = ncoded ls \<and>
        tb_filled type ls work root base tree0 sz (Suc k) t' \<and> tb_next t' = tb_next t \<and>
        tb_drop t' = tb_drop t \<and> tb_len t' = lenseq ls work k)
    \<or> (\<exists>t'. tb_step type ls work root mx base t = Some (More t') \<and> Suc k < ncoded ls \<and>
        tb_inv type ls work root base tree0 sz (Suc k) t')
    \<or> (\<exists>t'. tb_step type ls work root mx base t = Some (Return 1 t') \<and> Suc k < ncoded ls \<and>
        root < lenseq ls work (Suc k))"
proof -
  have so: "sorted_work ls work" using ok by (simp add: build_ok_def)
  obtain t1 where en: "tb_enter type work t = Some t1" and e: "entered type ls work root base tree0 sz k t t1"
    using tb_enter_entered [OF ok inv k] by blast
  let ?t2 = "advanced ls work k t1"
  note step = tb_step_advance [OF ok inv k en e]
  have fl: "tb_filled type ls work root base tree0 sz (Suc k) ?t2" by (rule advanced_filled [OF ok inv k e])
  note f = entered_fields [OF e]
  show ?thesis
  proof (cases "Suc k = ncoded ls")
    case True
    then have "tb_len ?t2 = lenseq ls work k" by (simp add: advanced_def)
    with True show ?thesis using step fl f by (simp add: Let_def)
  next
    case False
    then have Sk: "Suc k < ncoded ls" using k by simp
    show ?thesis
    proof (cases "lenseq ls work (Suc k) > root \<and> Some (hcode ls work (Suc k) mod 2 ^ root) \<noteq> tb_low t1")
      case True
      then show ?thesis
        using tb_subtable_inv [OF ok inv Sk e] step False Sk by (auto simp: Let_def)
    next
      case no: False
      have "tb_inv type ls work root base tree0 sz (Suc k) ?t2"
        using advanced_where [OF so inv Sk e no] fl Sk by (simp add: tb_inv_def)
      then show ?thesis using step False no Sk by (auto simp: Let_def)
    qed
  qed
qed

text \<open>With fuel for every symbol still to be entered the loop ends: all symbols are in the tables, or
  the space is used up.\<close>

lemma tb_loop_ends:
  assumes ok: "build_ok type ls work root mx base tree0 sz" and inv: "tb_inv type ls work root base tree0 sz k t"
    and "k < ncoded ls" and "ncoded ls \<le> k + fuel"
  shows "(\<exists>t'. tb_loop fuel type ls work root mx base t = Some (Break t') \<and>
        tb_filled type ls work root base tree0 sz (ncoded ls) t' \<and>
        tb_len t' = lenseq ls work (ncoded ls - 1) \<and>
        (lenseq ls work (ncoded ls - 1) \<le> root \<longrightarrow> tb_drop t' = 0 \<and> tb_next t' = base))
    \<or> (\<exists>t' j. tb_loop fuel type ls work root mx base t = Some (Return 1 t') \<and> j < ncoded ls \<and>
        root < lenseq ls work j)"
  using inv assms(3,4)
proof (induction fuel arbitrary: k t)
  case (Suc fuel)
  have so: "sorted_work ls work" using ok by (simp add: build_ok_def)
  from tb_step_inv [OF ok Suc.prems(1,2)] consider
    (Break) t' where "tb_step type ls work root mx base t = Some (Break t')" "Suc k = ncoded ls"
      "tb_filled type ls work root base tree0 sz (Suc k) t'" "tb_next t' = tb_next t" "tb_drop t' = tb_drop t"
      "tb_len t' = lenseq ls work k"
  | (More) t' where "tb_step type ls work root mx base t = Some (More t')" "Suc k < ncoded ls"
      "tb_inv type ls work root base tree0 sz (Suc k) t'"
  | (Return) t' where "tb_step type ls work root mx base t = Some (Return 1 t')" "Suc k < ncoded ls"
      "root < lenseq ls work (Suc k)"
    by blast
  then show ?case
  proof cases
    case Break
    have "tb_drop t' = 0 \<and> tb_next t' = base" if "lenseq ls work k \<le> root"
      using Suc.prems(1) that Break(4,5) by (auto simp: tb_inv_def tb_where_def split: if_splits)
    then show ?thesis using Break by (auto simp flip: Break(2))
  next
    case More
    then show ?thesis using Suc.IH [OF More(3,2)] Suc.prems(3) by simp
  next
    case Return
    then show ?thesis by auto
  qed
qed simp

end
