(* ===== verification/Inftrees_Frame.thy ===== *)
theory Inftrees_Frame
  imports Inftrees_Table
begin

text \<open>
  What \<open>inflate_table\<close> leaves alone: entries of \<open>codes\<close> before the table it builds, so that the table
  for literals and lengths survives the building of the table for distances behind it; and how much
  space a table takes.
\<close>

definition same_below :: "nat \<Rightarrow> 'a list \<Rightarrow> 'a list \<Rightarrow> bool" where
  "same_below n xs ys \<longleftrightarrow> length xs = length ys \<and> (\<forall>i<n. xs ! i = ys ! i)"

lemma same_below_refl [simp]: "same_below n xs xs"
  by (simp add: same_below_def)

lemma same_below_trans: "same_below n xs ys \<Longrightarrow> same_below n ys zs \<Longrightarrow> same_below n xs zs"
  by (simp add: same_below_def)

lemma same_below_update: "n \<le> i \<Longrightarrow> same_below n (xs[i := x]) ys \<longleftrightarrow> same_below n xs ys"
  and same_below_update2: "n \<le> i \<Longrightarrow> same_below n xs (ys[i := x]) \<longleftrightarrow> same_below n xs ys"
  by (auto simp: same_below_def)

lemma fill_entries_below:
  "fill_entries i incr fill here tab = Some tab' \<Longrightarrow> n \<le> i \<Longrightarrow> same_below n tab' tab"
proof (induction i incr fill here tab rule: fill_entries.induct)
  case (1 i incr fill here tab)
  then show ?case
    by (subst (asm) (2) fill_entries.simps) (auto simp: Let_def same_below_update same_below_update2 split: if_splits)
qed

lemma tb_enter_below:
  assumes "tb_enter type work t = Some t'" and "base \<le> tb_next t"
  shows "same_below base (tb_tab t') (tb_tab t)" "tb_next t' = tb_next t" "tb_used t' = tb_used t"
  using assms
  by (auto simp: tb_enter_def Let_def split: if_splits option.splits dest: fill_entries_below [where n = base])

lemma tb_subtable_below:
  assumes "tb_subtable type root mx base t = Some r" and "base \<le> tb_next t"
  shows "case r of More t' \<Rightarrow> same_below base (tb_tab t') (tb_tab t) \<and> base \<le> tb_next t' \<and>
        (type \<noteq> CODES \<longrightarrow> tb_used t' \<le> space_of type) \<and> tb_used t \<le> tb_used t'
    | Break t' \<Rightarrow> False
    | Return c t' \<Rightarrow> c = 1 \<and> t' = t"
  using assms space_ok [of type]
  by (auto simp: tb_subtable_def Let_def same_below_update split: if_splits)

lemma tb_step_below:
  assumes "tb_step type lens work root mx base t = Some r" and "base \<le> tb_next t"
    and "type \<noteq> CODES \<longrightarrow> tb_used t \<le> space_of type"
  shows "case r of More t' \<Rightarrow> same_below base (tb_tab t') (tb_tab t) \<and> base \<le> tb_next t' \<and>
        (type \<noteq> CODES \<longrightarrow> tb_used t' \<le> space_of type) \<and> tb_used t \<le> tb_used t'
    | Break t' \<Rightarrow> same_below base (tb_tab t') (tb_tab t) \<and> (type \<noteq> CODES \<longrightarrow> tb_used t' \<le> space_of type) \<and>
        tb_used t \<le> tb_used t'
    | Return c t' \<Rightarrow> c = 1 \<and> same_below base (tb_tab t') (tb_tab t)"
proof -
  obtain t1 where t1: "tb_enter type work t = Some t1"
    using assms(1) by (cases "tb_enter type work t") (auto simp: tb_step_def)
  note en = tb_enter_below [OF t1 assms(2)]
  let ?c = "(tb_count t1)[tb_len t1 := tb_count t1 ! tb_len t1 - 1]" and ?h = "back_incr (tb_huff t1) (tb_len t1)"
  let ?t1 = "t1\<lparr>tb_huff := ?h, tb_sym := tb_sym t1 + 1, tb_count := ?c\<rparr>"
  define t2 where "t2 = (if ?c ! tb_len t1 = 0 then ?t1\<lparr>tb_len := lens ! (work ! (tb_sym t1 + 1))\<rparr> else ?t1)"
  have f: "tb_tab t2 = tb_tab t1" "tb_next t2 = tb_next t1" "tb_used t2 = tb_used t1" by (simp_all add: t2_def)
  from assms(1) t1 consider "r = Break ?t1" | "r = More t2" | "tb_subtable type root mx base t2 = Some r"
    by (auto simp: tb_step_def Let_def t2_def split: if_splits)
  then show ?thesis
  proof cases
    case 3
    with tb_subtable_below [OF 3] en f assms(2) show ?thesis
      by (auto split: tb_result.splits intro: same_below_trans)
  qed (use en f assms(2,3) in auto)
qed

lemma tb_loop_below:
  assumes "tb_loop fuel type lens work root mx base t = Some r" and "base \<le> tb_next t"
    and "type \<noteq> CODES \<longrightarrow> tb_used t \<le> space_of type"
  shows "case r of More t' \<Rightarrow> False
    | Break t' \<Rightarrow> same_below base (tb_tab t') (tb_tab t) \<and> (type \<noteq> CODES \<longrightarrow> tb_used t' \<le> space_of type) \<and>
        tb_used t \<le> tb_used t'
    | Return c t' \<Rightarrow> c = 1 \<and> same_below base (tb_tab t') (tb_tab t)"
  using assms
proof (induction fuel arbitrary: t)
  case (Suc fuel)
  obtain q where q: "tb_step type lens work root mx base t = Some q"
    using Suc.prems(1) by (cases "tb_step type lens work root mx base t") auto
  note st = tb_step_below [OF q Suc.prems(2,3)]
  show ?case
  proof (cases q)
    case (More t')
    then show ?thesis
      using Suc.IH [of t'] Suc.prems(1) st q by (auto split: tb_result.splits intro: same_below_trans)
  qed (use Suc.prems(1) st q in auto)
qed simp

lemma sort_syms_length: "sort_syms ls sm offs work = Some work' \<Longrightarrow> length work' = length work"
  by (induction ls sm offs work rule: sort_syms.induct) (auto split: if_splits)


text \<open>The whole routine.\<close>

lemma tb_finish_below:
  assumes "tb_finish root base work t = Some out" and "base \<le> tb_next t"
  shows "same_below base (to_tab out) (tb_tab t)" "to_work out = work" "to_table out = base + tb_used t"
    "to_ret out = 0" "to_bits out = root"
  using assms by (auto simp: tb_finish_def Let_def same_below_update split: if_splits)

lemma tb_loop_next:
  assumes "tb_loop fuel type lens work root mx base t = Some (Break t')" and "base \<le> tb_next t"
  shows "base \<le> tb_next t'"
proof -
  have en: "tb_next t2 = tb_next t1" if "tb_enter type work t1 = Some t2" for t1 t2
    using that by (auto simp: tb_enter_def Let_def split: if_splits option.splits)
  have "base \<le> tb_next t2" if "tb_step type lens work root mx base t1 = Some (Break t2)" "base \<le> tb_next t1" for t1 t2
    using that by (auto simp: tb_step_def tb_subtable_def Let_def en split: if_splits option.splits)
  moreover have "base \<le> tb_next t2" if "tb_step type lens work root mx base t1 = Some (More t2)" "base \<le> tb_next t1" for t1 t2
    using that by (auto simp: tb_step_def tb_subtable_def Let_def en split: if_splits option.splits)
  ultimately show ?thesis
    using assms
    by (induction fuel arbitrary: t) (auto split: option.splits tb_result.splits)
qed

lemma table_fill_below:
  assumes "table_fill type lens work count mn mx root tab base bits tree = Some out"
  shows "same_below base (to_tab out) tab" "to_work out = work"
    "to_ret out = 0 \<Longrightarrow> type \<noteq> CODES \<Longrightarrow> to_table out \<le> base + space_of type"
    "to_ret out = 0 \<Longrightarrow> to_bits out = root \<and> base + 2 ^ root \<le> to_table out"
proof -
  let ?t0 = "\<lparr>tb_tab = tab, tb_tree = tree, tb_huff = 0, tb_sym = 0, tb_len = mn, tb_next = base, tb_curr = root,
     tb_drop = 0, tb_low = None, tb_used = 2 ^ root, tb_count = count\<rparr>"
  have "same_below base (to_tab out) tab \<and> to_work out = work \<and>
    (to_ret out = 0 \<longrightarrow> (type \<noteq> CODES \<longrightarrow> to_table out \<le> base + space_of type) \<and> to_bits out = root \<and> base + 2 ^ root \<le> to_table out)"
  proof (cases "space_exceeded type (2 ^ root)")
    case True
    then show ?thesis using assms by (auto simp: table_fill_def)
  next
    case False
    then have u: "type \<noteq> CODES \<longrightarrow> tb_used ?t0 \<le> space_of type" using space_ok by simp
    obtain r where r: "tb_loop (Suc (length lens)) type lens work root mx base ?t0 = Some r"
      using assms False by (auto simp: table_fill_def split: option.splits)
    note lb = tb_loop_below [OF r _ u]
    show ?thesis
    proof (cases r)
      case (Break t)
      then have f: "tb_finish root base work t = Some out" using assms False r by (simp add: table_fill_def)
      have "base \<le> tb_next t" using tb_loop_next [of "Suc (length lens)" type lens work root mx base ?t0 t] r Break by simp
      note fb = tb_finish_below [OF f this]
      show ?thesis using lb Break fb by (auto intro: same_below_trans)
    next
      case (Return c t)
      then have "to_ret out = c" "to_tab out = tb_tab t" "to_work out = work"
        using assms False r by (auto simp: table_fill_def)
      with lb Return show ?thesis by auto
    qed (use lb in simp)
  qed
  then show "same_below base (to_tab out) tab" "to_work out = work"
    "to_ret out = 0 \<Longrightarrow> type \<noteq> CODES \<Longrightarrow> to_table out \<le> base + space_of type"
    "to_ret out = 0 \<Longrightarrow> to_bits out = root \<and> base + 2 ^ root \<le> to_table out"
    by auto
qed


lemma table_core_below:
  assumes "table_core type lens codes tab base bits work tree = Some out"
  shows "same_below base (to_tab out) tab" and "length (to_work out) = length work"
    and "to_ret out = 0 \<Longrightarrow> type \<noteq> CODES \<Longrightarrow> to_table out \<le> base + space_of type"
    and "to_ret out = 0 \<Longrightarrow> base + 2 ^ to_bits out \<le> to_table out"
proof -
  have sp: "2 \<le> space_of type" by (cases type) (simp_all add: space_of_def)
  have "same_below base (to_tab out) tab \<and> length (to_work out) = length work \<and>
    (to_ret out = 0 \<longrightarrow> (type \<noteq> CODES \<longrightarrow> to_table out \<le> base + space_of type) \<and> base + 2 ^ to_bits out \<le> to_table out)"
    using assms sp
    by (auto simp: table_core_def Let_def same_below_update split: if_splits option.splits
        dest: sort_syms_length table_fill_below)
  then show "same_below base (to_tab out) tab" and "length (to_work out) = length work"
    and "to_ret out = 0 \<Longrightarrow> type \<noteq> CODES \<Longrightarrow> to_table out \<le> base + space_of type"
    and "to_ret out = 0 \<Longrightarrow> base + 2 ^ to_bits out \<le> to_table out"
    by auto
qed

end
