(* ===== verification/Bit_Reader.thy ===== *)
theory Bit_Reader
  imports Prelude
begin

text \<open>
  The input side of inflate.c and deflate.c: the local registers \<open>next\<close>, \<open>have\<close>, \<open>hold\<close> and \<open>bits\<close>
  of \<^verbatim>\<open>j_inflate\<close> and \<^verbatim>\<open>deflate_my\<close> and the macros that work on them.  \<open>next\<close> and \<open>have\<close> are one
  list, the bytes still available.  \<^verbatim>\<open>PULLBYTE\<close> and \<^verbatim>\<open>NEEDBITS\<close> leave the function when the input is
  used up; here they deliver \<open>Short\<close> with the registers as they are at that moment, since the bytes
  already pulled stay in \<open>hold\<close> for the next call.  The locale \<open>bit_source\<close> states what a reader
  promises in terms of the bits not yet consumed.
\<close>

section \<open>Model\<close>

record reader =
  r_next :: "byte list"
  r_hold :: ulong
  r_bits :: nat

datatype 's io = Got 's | Short 's

text \<open>\<^verbatim>\<open>while (bits < n) PULLBYTE();\<close>\<close>

fun pull_bits :: "nat \<Rightarrow> byte list \<Rightarrow> ulong \<Rightarrow> nat \<Rightarrow> byte list \<times> ulong \<times> nat" where
  "pull_bits n [] hold bits = ([], hold, bits)"
| "pull_bits n (b # bs) hold bits =
    (if bits < n then pull_bits n bs (hold + push_bit bits (ucast b)) (bits + 8) else (b # bs, hold, bits))"

definition set_regs :: "byte list \<times> ulong \<times> nat \<Rightarrow> 'z reader_scheme \<Rightarrow> 'z reader_scheme" where
  "set_regs r s = s\<lparr>r_next := fst r, r_hold := fst (snd r), r_bits := snd (snd r)\<rparr>"

definition NEEDBITS :: "nat \<Rightarrow> 'z reader_scheme \<Rightarrow> 'z reader_scheme io" where
  "NEEDBITS n s =
    (let s' = set_regs (pull_bits n (r_next s) (r_hold s) (r_bits s)) s
     in if r_bits s' < n then Short s' else Got s')"

text \<open>\<^verbatim>\<open>(unsigned)hold & ((1U << n) - 1)\<close>, used with \<open>n\<close> below 32.\<close>

definition low_bits :: "nat \<Rightarrow> ulong \<Rightarrow> nat" where
  "low_bits n hold = unat ((ucast hold :: uint32) AND (push_bit n 1 - 1))"

definition BITS :: "nat \<Rightarrow> 'z reader_scheme \<Rightarrow> nat" where
  "BITS n s = low_bits n (r_hold s)"

definition drop_bits :: "nat \<Rightarrow> 'z reader_scheme \<Rightarrow> 'z reader_scheme" where
  "drop_bits n s = s\<lparr>r_hold := drop_bit n (r_hold s), r_bits := r_bits s - n\<rparr>"

definition BYTEBITS :: "'z reader_scheme \<Rightarrow> 'z reader_scheme" where
  "BYTEBITS s = drop_bits (r_bits s mod 8) s"

definition INITBITS :: "'z reader_scheme \<Rightarrow> 'z reader_scheme" where
  "INITBITS s = s\<lparr>r_hold := 0, r_bits := 0\<rparr>"

section \<open>The unread bits\<close>

definition rem :: "'z reader_scheme \<Rightarrow> bool list" where
  "rem s = bits_of (r_bits s) (r_hold s) @ bytes_bits (r_next s)"

definition held :: "'z reader_scheme \<Rightarrow> bool list" where
  "held s = bits_of (r_bits s) (r_hold s)"

lemma rem_held: "rem s = held s @ bytes_bits (r_next s)" and length_held [simp]: "length (held s) = r_bits s"
  by (simp_all add: rem_def held_def)

text \<open>The bits of \<open>hold\<close> above the valid ones are zero and another byte can be shifted in.\<close>

definition hold_ok :: "ulong \<Rightarrow> nat \<Rightarrow> bool" where
  "hold_ok hold bits \<longleftrightarrow> bits \<le> 56 \<and> take_bit bits hold = hold"

definition rinv :: "'z reader_scheme \<Rightarrow> bool" where
  "rinv s \<longleftrightarrow> hold_ok (r_hold s) (r_bits s)"

lemma hold_ok_bit: "hold_ok hold bits \<Longrightarrow> bit hold i \<Longrightarrow> i < bits"
  by (metis hold_ok_def word_bit_ge not_le)

lemma hold_ok_0 [simp]: "hold_ok 0 0"
  by (simp add: hold_ok_def)

lemma hold_add_or:
  fixes b :: byte
  assumes "hold_ok hold bits"
  shows "hold + push_bit bits (ucast b) = hold OR push_bit bits (ucast b)"
proof (rule word_plus_or, rule bit_word_eqI)
  fix i show "bit (hold AND push_bit bits (ucast b :: ulong)) i = bit (0::ulong) i"
    using hold_ok_bit [OF assms, of i] by (auto simp: bit_simps)
qed

lemma hold_add_bits:
  fixes b :: byte
  assumes "hold_ok hold bits"
  shows "bits_of (bits + 8) (hold + push_bit bits (ucast b)) = bits_of bits hold @ bits_of 8 b"
proof (rule nth_equalityI)
  fix i assume "i < length (bits_of (bits + 8) (hold + push_bit bits (ucast b)))"
  then have i: "i < bits + 8" and "i < 64" using assms by (auto simp: hold_ok_def)
  then show "bits_of (bits + 8) (hold + push_bit bits (ucast b)) ! i = (bits_of bits hold @ bits_of 8 b) ! i"
    using hold_ok_bit [OF assms, of i]
    by (auto simp: hold_add_or [OF assms] nth_append bit_simps)
qed simp

lemma hold_add_ok:
  fixes b :: byte
  assumes "hold_ok hold bits" and "bits \<le> 48"
  shows "hold_ok (hold + push_bit bits (ucast b)) (bits + 8)"
proof -
  have "take_bit (bits + 8) (hold OR push_bit bits (ucast b :: ulong)) = hold OR push_bit bits (ucast b)"
    using hold_ok_bit [OF assms(1)] by (intro bit_word_eqI) (fastforce simp: bit_simps dest: bit_imp_le_length)
  with assms show ?thesis by (simp add: hold_ok_def hold_add_or [OF assms(1)])
qed

lemma pull_bits_spec:
  assumes "hold_ok hold bits" and "n \<le> 48" and "pull_bits n nx hold bits = (nx', hold', bits')"
  shows "hold_ok hold' bits' \<and> bits_of bits' hold' @ bytes_bits nx' = bits_of bits hold @ bytes_bits nx
    \<and> (bits' < n \<longrightarrow> nx' = []) \<and> bits \<le> bits' \<and> (bits' = bits \<or> bits' < n + 8) \<and> length nx' \<le> length nx"
  using assms
proof (induction n nx hold bits rule: pull_bits.induct)
  case (2 n b bs hold bits)
  show ?case
  proof (cases "bits < n")
    case True
    then have "hold_ok (hold + push_bit bits (ucast b)) (bits + 8)" using 2 hold_add_ok by auto
    from "2.IH" [OF True this] "2.prems" True hold_add_bits [OF "2.prems"(1), of b] show ?thesis by auto
  qed (use 2 in auto)
qed auto

lemma pull_drop: "\<exists>j. fst (pull_bits n nx h b) = drop j nx"
proof (induction n nx h b rule: pull_bits.induct)
  case (2 n b bs hold bits)
  show ?case
  proof (cases "bits < n")
    case True
    then obtain j where "fst (pull_bits n bs (hold + push_bit bits (ucast b)) (bits + 8)) = drop j bs" using "2.IH" by blast
    then show ?thesis using True by (auto intro!: exI [of _ "Suc j"])
  qed (auto intro: exI [of _ 0])
qed simp

lemma length_rem: "length (rem s) = r_bits s + 8 * length (r_next s)"
  by (simp add: rem_def)

lemma reader_regs [simp]:
  "r_next (set_regs r s) = fst r" "r_hold (set_regs r s) = fst (snd r)" "r_bits (set_regs r s) = snd (snd r)"
  "reader.more (set_regs r s) = reader.more s"
  by (simp_all add: set_regs_def)

text \<open>\<open>NEEDBITS\<close> delivers exactly when enough bits are left, and never changes the unread bits.\<close>

lemma NEEDBITS_cases:
  assumes "rinv s" and "n \<le> 48"
  obtains (got) s' where "NEEDBITS n s = Got s'" "n \<le> length (rem s)" "n \<le> r_bits s'" "rem s' = rem s" "rinv s'"
      "reader.more s' = reader.more s" "r_bits s' = r_bits s \<or> r_bits s' < n + 8"
      "length (r_next s') \<le> length (r_next s)"
    | (short) s' where "NEEDBITS n s = Short s'" "length (rem s) < n" "r_next s' = []" "rem s' = rem s" "rinv s'"
      "reader.more s' = reader.more s"
proof -
  obtain nx' hold' bits' where p: "pull_bits n (r_next s) (r_hold s) (r_bits s) = (nx', hold', bits')"
    by (metis prod_cases3)
  define s' where "s' = set_regs (nx', hold', bits') s"
  note sp = pull_bits_spec [OF assms(1) [unfolded rinv_def] assms(2) p]
  have r: "rem s' = rem s" "rinv s'" "reader.more s' = reader.more s"
    using sp by (auto simp: rem_def s'_def rinv_def)
  show ?thesis
  proof (cases "bits' < n")
    case True
    then have "length (rem s') < n" using sp by (simp add: length_rem s'_def)
    then show ?thesis using short [of s'] sp True r p by (auto simp: NEEDBITS_def s'_def)
  next
    case False
    then have "n \<le> length (rem s')" by (simp add: length_rem s'_def)
    then show ?thesis using got [of s'] sp False r p by (auto simp: NEEDBITS_def s'_def)
  qed
qed

lemma mask_take_bit: "n < LENGTH('a) \<Longrightarrow> w AND (push_bit n 1 - 1) = take_bit n w" for w :: "'a::len word"
  by (simp add: take_bit_eq_mask mask_eq_exp_minus_1 push_bit_eq_mult)

lemma low_bits_mod: "n < 32 \<Longrightarrow> low_bits n hold = unat hold mod 2 ^ n"
  unfolding low_bits_def
  by (subst mask_take_bit)
    (simp_all add: unsigned_take_bit_eq unsigned_ucast_eq min_absorb1 flip: take_bit_eq_mod)

lemma val_of_take: "n \<le> length bs \<Longrightarrow> val_of (take n bs) = val_of bs mod 2 ^ n"
proof -
  assume n: "n \<le> length bs"
  have "val_of bs = val_of (take n bs) + 2 ^ n * val_of (drop n bs)"
    using val_of_append [of "take n bs" "drop n bs"] n by simp
  moreover have "val_of (take n bs) < 2 ^ n" using val_of_less [of "take n bs"] n by simp
  ultimately show ?thesis by simp
qed

lemma hold_value: "unat (r_hold s) mod 2 ^ r_bits s = val_of (rem s) mod 2 ^ r_bits s"
proof -
  have "take (r_bits s) (rem s) = bits_of (r_bits s) (r_hold s)" by (simp add: rem_def)
  then have "val_of (take (r_bits s) (rem s)) = unat (r_hold s) mod 2 ^ r_bits s"
    by (simp add: val_of_bits_of_word take_bit_eq_mod)
  then show ?thesis by (simp add: val_of_take length_rem)
qed

lemma hold_value_mod: "n \<le> r_bits s \<Longrightarrow> unat (r_hold s) mod 2 ^ n = val_of (rem s) mod 2 ^ n"
  using arg_cong [OF hold_value [of s], of "\<lambda>x. x mod 2 ^ n"]
  by (simp add: mod_mod_cancel le_imp_power_dvd)

lemma BITS_rem:
  assumes "n \<le> r_bits s" and "n < 32"
  shows "BITS n s = val_of (take n (rem s))"
proof -
  have "BITS n s = unat (r_hold s) mod 2 ^ n" using assms(2) by (simp add: BITS_def low_bits_mod)
  also have "\<dots> = val_of (rem s) mod 2 ^ n" by (rule hold_value_mod [OF assms(1)])
  also have "\<dots> = val_of (take n (rem s))" by (rule val_of_take [symmetric]) (use assms(1) in \<open>simp add: length_rem\<close>)
  finally show ?thesis .
qed

lemma BITS_less: "n < 32 \<Longrightarrow> BITS n s < 2 ^ n"
  by (simp add: BITS_def low_bits_mod)

lemma drop_bits_rem [bitstream]:
  assumes "n \<le> r_bits s" shows "rem (drop_bits n s) = drop n (rem s)"
  using assms by (simp add: rem_def drop_bits_def drop_bits_of)

lemma drop_bits_inv:
  assumes "rinv s" and "n \<le> r_bits s" shows "rinv (drop_bits n s)"
proof -
  have "\<not> bit (r_hold s) (n + i)" if "r_bits s - n \<le> i" for i
    using hold_ok_bit [OF assms(1) [unfolded rinv_def], of "n + i"] that by auto
  then have "take_bit (r_bits s - n) (drop_bit n (r_hold s)) = drop_bit n (r_hold s)"
    by (intro bit_word_eqI) (auto simp: bit_simps intro: ccontr)
  then show ?thesis using assms by (auto simp: rinv_def hold_ok_def drop_bits_def)
qed

lemma drop_bits_fields [simp]:
  "r_bits (drop_bits n s) = r_bits s - n" "r_next (drop_bits n s) = r_next s"
  "reader.more (drop_bits n s) = reader.more s"
  by (simp_all add: drop_bits_def)

lemma INITBITS_rem [simp]: "rem (INITBITS s) = bytes_bits (r_next s)" "rinv (INITBITS s)"
  "reader.more (INITBITS s) = reader.more s" "r_bits (INITBITS s) = 0" "r_next (INITBITS s) = r_next s"
  by (simp_all add: INITBITS_def rem_def rinv_def)

text \<open>To the byte boundary: the bits dropped are those of the last byte pulled.\<close>

lemma BYTEBITS_rem:
  assumes "rinv s"
  shows "rem (BYTEBITS s) = drop (length (rem s) mod 8) (rem s)" "rinv (BYTEBITS s)"
    "reader.more (BYTEBITS s) = reader.more s" "r_next (BYTEBITS s) = r_next s"
    "r_bits (BYTEBITS s) = 8 * (r_bits s div 8)"
proof -
  have le: "r_bits s mod 8 \<le> r_bits s" by simp
  show "rem (BYTEBITS s) = drop (length (rem s) mod 8) (rem s)"
    using drop_bits_rem [OF le] by (simp add: BYTEBITS_def length_rem)
  show "rinv (BYTEBITS s)" using drop_bits_inv [OF assms le] by (simp add: BYTEBITS_def)
  show "reader.more (BYTEBITS s) = reader.more s" "r_next (BYTEBITS s) = r_next s"
    by (simp_all add: BYTEBITS_def)
  show "r_bits (BYTEBITS s) = 8 * (r_bits s div 8)" by (simp add: BYTEBITS_def minus_mod_eq_mult_div)
qed

section \<open>What a reader promises\<close>

text \<open>
  \<open>unread s\<close> is the string of bits not yet consumed, \<open>loaded s\<close> how many of them are in the
  register, \<open>need n s\<close> loads \<open>n\<close> bits or reports that the input has not as many, \<open>get n s\<close> is the
  value of the next \<open>n\<close> bits and \<open>skip n s\<close> consumes them.
\<close>

locale bit_source =
  fixes invar :: "'s \<Rightarrow> bool"
    and unread :: "'s \<Rightarrow> bool list"
    and loaded :: "'s \<Rightarrow> nat"
    and need :: "nat \<Rightarrow> 's \<Rightarrow> 's io"
    and get :: "nat \<Rightarrow> 's \<Rightarrow> nat"
    and skip :: "nat \<Rightarrow> 's \<Rightarrow> 's"
  assumes need_got: "invar s \<Longrightarrow> n \<le> 32 \<Longrightarrow> n \<le> length (unread s) \<Longrightarrow>
      \<exists>s'. need n s = Got s' \<and> invar s' \<and> unread s' = unread s \<and> n \<le> loaded s'"
    and need_short: "invar s \<Longrightarrow> n \<le> 32 \<Longrightarrow> length (unread s) < n \<Longrightarrow>
      \<exists>s'. need n s = Short s' \<and> invar s' \<and> unread s' = unread s"
    and get_value: "invar s \<Longrightarrow> n \<le> loaded s \<Longrightarrow> n \<le> 16 \<Longrightarrow> get n s = val_of (take n (unread s))"
    and unread_skip: "invar s \<Longrightarrow> n \<le> loaded s \<Longrightarrow> n \<le> 16 \<Longrightarrow> unread (skip n s) = drop n (unread s)"
    and invar_skip: "invar s \<Longrightarrow> n \<le> loaded s \<Longrightarrow> n \<le> 16 \<Longrightarrow> invar (skip n s)"
begin

text \<open>\<^verbatim>\<open>NEEDBITS(n); v = BITS(n); DROPBITS(n);\<close> and a sequence of these.\<close>

definition field :: "nat \<Rightarrow> 's \<Rightarrow> (nat \<times> 's) option" where
  "field n s = (case need n s of Got s' \<Rightarrow> Some (get n s', skip n s') | Short _ \<Rightarrow> None)"

fun fields :: "nat list \<Rightarrow> 's \<Rightarrow> (nat list \<times> 's) option" where
  "fields [] s = Some ([], s)"
| "fields (n # ns) s =
    (case field n s of None \<Rightarrow> None
     | Some (v, s') \<Rightarrow> (case fields ns s' of None \<Rightarrow> None | Some (vs, t) \<Rightarrow> Some (v # vs, t)))"

lemma field_got:
  assumes "invar s" and "n \<le> 16" and "unread s = bs @ xs" and "length bs = n"
  shows "\<exists>s'. field n s = Some (val_of bs, s') \<and> invar s' \<and> unread s' = xs"
proof -
  obtain s' where s': "need n s = Got s'" "invar s'" "unread s' = unread s" "n \<le> loaded s'"
    using need_got [of s n] assms by auto
  then show ?thesis
    using get_value [OF s'(2,4) assms(2)] unread_skip [OF s'(2,4) assms(2)] invar_skip [OF s'(2,4) assms(2)] assms(3,4)
    by (simp add: field_def)
qed

lemma field_short:
  assumes "invar s" and "n \<le> 16" and "length (unread s) < n" shows "field n s = None"
  using need_short [of s n] assms by (auto simp: field_def)

text \<open>Reading back a sequence of values of known widths.\<close>

lemma fields_got:
  assumes "invar s" and "list_all (\<lambda>bs. length bs \<le> 16) bss" and "unread s = concat bss @ xs"
  shows "\<exists>s'. fields (map length bss) s = Some (map val_of bss, s') \<and> invar s' \<and> unread s' = xs"
  using assms
proof (induction bss arbitrary: s)
  case (Cons bs bss)
  then have "unread s = bs @ (concat bss @ xs)" "length bs \<le> 16" by auto
  from field_got [OF Cons.prems(1) this(2,1) refl] obtain s1
    where "field (length bs) s = Some (val_of bs, s1)" "invar s1" "unread s1 = concat bss @ xs" by auto
  moreover from Cons.IH [OF this(2) _ this(3)] Cons.prems(2) obtain s'
    where "fields (map length bss) s1 = Some (map val_of bss, s')" "invar s'" "unread s' = xs" by auto
  ultimately show ?case by auto
qed auto

end

text \<open>The reader of \<^verbatim>\<open>deflate_my\<close>, whose \<^verbatim>\<open>DROPBITS\<close> is \<open>drop_bits\<close>.\<close>

interpretation plain: bit_source rinv rem r_bits NEEDBITS BITS drop_bits
proof
  fix s :: "'a reader_scheme" and n :: nat
  assume a: "rinv s"
  { assume "n \<le> 32" "n \<le> length (rem s)"
    with a show "\<exists>s'. NEEDBITS n s = Got s' \<and> rinv s' \<and> rem s' = rem s \<and> n \<le> r_bits s'"
      by - (rule NEEDBITS_cases [of s n]; auto) }
  { assume "n \<le> 32" "length (rem s) < n"
    with a show "\<exists>s'. NEEDBITS n s = Short s' \<and> rinv s' \<and> rem s' = rem s"
      by - (rule NEEDBITS_cases [of s n]; auto) }
  assume n: "n \<le> r_bits s" "n \<le> 16"
  then show "BITS n s = val_of (take n (rem s))" by (simp add: BITS_rem)
  from n show "rem (drop_bits n s) = drop n (rem s)" by (simp add: drop_bits_rem)
  from n a show "rinv (drop_bits n s)" by (simp add: drop_bits_inv)
qed

end
