(* ===== verification/Code_Reader.thy ===== *)
theory Code_Reader
  imports Bit_Reader Inftrees
begin

text \<open>
  The part of the decoding that inflate.c and deflate.c have in common, word for word apart from
  their \<^verbatim>\<open>DROPBITS\<close> macros: fetching an entry of a code table bit by bit, and the loops of cases
  LENLENS and CODELENS that read the code lengths of a dynamic block.  The record \<open>huff\<close> holds the
  fields of \<^verbatim>\<open>struct inflate_state\<close> and \<^verbatim>\<open>struct internal_state\<close> that these loops use, in front of
  them the registers of the running call.  The definitions take the \<^verbatim>\<open>DROPBITS\<close> of their caller as
  an argument.  A table pointer is one of the fixed tables or an index into \<open>codes\<close>.
\<close>

section \<open>Model\<close>

datatype code_ptr = Lenfix | Distfix | Codes nat

record huff = reader +
  h_nlen :: nat
  h_ndist :: nat
  h_have :: nat
  h_lens :: "nat list"
  h_work :: "nat list"
  h_codes :: "code list"
  h_next :: nat
  h_lencode :: code_ptr
  h_lenbits :: nat
  h_distcode :: code_ptr
  h_distbits :: nat

definition nth_opt :: "'a list \<Rightarrow> nat \<Rightarrow> 'a option" where
  "nth_opt xs i = (if i < length xs then Some (xs ! i) else None)"

definition code_at :: "'z huff_scheme \<Rightarrow> code_ptr \<Rightarrow> nat \<Rightarrow> code option" where
  "code_at s p i = (case p of Lenfix \<Rightarrow> nth_opt lenfix i | Distfix \<Rightarrow> nth_opt distfix i
     | Codes k \<Rightarrow> nth_opt (h_codes s) (k + i))"

text \<open>\<^verbatim>\<open>for (;;) { here = table[...]; if (k + here.bits <= bits) break; PULLBYTE(); }\<close> where the index
  depends on \<open>hold\<close>.  An index outside the table is \<open>Fetch_undef\<close>.\<close>

datatype 's fetched = Fetched "code option" code 's | Fetch_short 's | Fetch_undef

fun fetch :: "(ulong \<Rightarrow> code option) \<Rightarrow> nat \<Rightarrow> byte list \<Rightarrow> ulong \<Rightarrow> nat \<Rightarrow> (byte list \<times> ulong \<times> nat) fetched" where
  "fetch look k nx hold bits =
    (case look hold of
       None \<Rightarrow> Fetch_undef
     | Some here \<Rightarrow>
         if k + unat (c_bits here) \<le> bits then Fetched None here (nx, hold, bits)
         else (case nx of
             [] \<Rightarrow> Fetch_short (nx, hold, bits)
           | b # bs \<Rightarrow> fetch look k bs (hold + push_bit bits (ucast b)) (bits + 8)))"

declare fetch.simps [simp del]

text \<open>The first loop of cases CODELENS, LEN and DIST.\<close>

definition fetch_code :: "code_ptr \<Rightarrow> nat \<Rightarrow> 'z huff_scheme \<Rightarrow> 'z huff_scheme fetched" where
  "fetch_code p nb s =
    (case fetch (\<lambda>hold. code_at s p (low_bits nb hold)) 0 (r_next s) (r_hold s) (r_bits s) of
       Fetched l here r \<Rightarrow> Fetched l here (set_regs r s)
     | Fetch_short r \<Rightarrow> Fetch_short (set_regs r s)
     | Fetch_undef \<Rightarrow> Fetch_undef)"

text \<open>Both loops of cases LEN and DIST; \<open>link\<close> is the test for a second-level table.  The result has
  the first-level entry \<open>last\<close> when there was one.\<close>

definition fetch_linked :: "(code \<Rightarrow> bool) \<Rightarrow> code_ptr \<Rightarrow> nat \<Rightarrow> 'z huff_scheme \<Rightarrow> 'z huff_scheme fetched" where
  "fetch_linked lnk p nb s =
    (case fetch_code p nb s of
       Fetched _ lst s1 \<Rightarrow>
         if lnk lst then
           (case fetch (\<lambda>hold. code_at s1 p (unat (c_val lst) +
                      drop_bit (unat (c_bits lst)) (low_bits (unat (c_bits lst) + unat (c_op lst)) hold)))
                    (unat (c_bits lst)) (r_next s1) (r_hold s1) (r_bits s1) of
              Fetched _ here r \<Rightarrow> Fetched (Some lst) here (set_regs r s1)
            | Fetch_short r \<Rightarrow> Fetch_short (set_regs r s1)
            | Fetch_undef \<Rightarrow> Fetch_undef)
         else Fetched None lst s1
     | r \<Rightarrow> r)"

text \<open>Case LENLENS: \<open>k\<close> is the number of iterations left, \<^verbatim>\<open>ncode - have\<close>; \<open>order\<close> is the table
  \<open>bl_order\<close> under its name in inflate.c and deflate.c.\<close>

abbreviation (input) "order \<equiv> bl_order"

definition lens_set :: "nat \<Rightarrow> nat \<Rightarrow> 'z huff_scheme \<Rightarrow> 'z huff_scheme" where
  "lens_set i v s = s\<lparr>h_lens := (h_lens s)[i := v], h_have := h_have s + 1\<rparr>"

fun lenlens_loop :: "(nat \<Rightarrow> 'z huff_scheme \<Rightarrow> 'z huff_scheme) \<Rightarrow> nat \<Rightarrow> 'z huff_scheme \<Rightarrow> 'z huff_scheme io" where
  "lenlens_loop dropbits 0 s = Got s"
| "lenlens_loop dropbits (Suc k) s =
    (case NEEDBITS 3 s of
       Short s' \<Rightarrow> Short s'
     | Got s' \<Rightarrow> lenlens_loop dropbits k (dropbits 3 (lens_set (order ! h_have s') (BITS 3 s') s')))"

fun lenlens_pad :: "nat \<Rightarrow> 'z huff_scheme \<Rightarrow> 'z huff_scheme" where
  "lenlens_pad 0 s = s"
| "lenlens_pad (Suc k) s = lenlens_pad k (lens_set (order ! h_have s) 0 s)"

text \<open>Case CODELENS.  One iteration adds at least one length.  \<open>CL_bad\<close> is the exit with
  \<^verbatim>\<open>invalid bit length repeat\<close>.\<close>

datatype 's cl_result = CL_more 's | CL_short 's | CL_bad 's | CL_undef

fun lens_fill :: "nat \<Rightarrow> nat \<Rightarrow> 'z huff_scheme \<Rightarrow> 'z huff_scheme" where
  "lens_fill 0 v s = s"
| "lens_fill (Suc copy) v s = lens_fill copy v (lens_set (h_have s) v s)"

definition codelens_repeat :: "nat \<Rightarrow> nat \<Rightarrow> 'z huff_scheme \<Rightarrow> 'z huff_scheme cl_result" where
  "codelens_repeat len copy s =
    (if h_have s + copy > h_nlen s + h_ndist s then CL_bad s
     else if length (h_lens s) < h_have s + copy then CL_undef
     else CL_more (lens_fill copy len s))"

definition codelens_step :: "(nat \<Rightarrow> 'z huff_scheme \<Rightarrow> 'z huff_scheme) \<Rightarrow> 'z huff_scheme \<Rightarrow> 'z huff_scheme cl_result" where
  "codelens_step dropbits s =
    (case fetch_code (h_lencode s) (h_lenbits s) s of
       Fetch_undef \<Rightarrow> CL_undef
     | Fetch_short s1 \<Rightarrow> CL_short s1
     | Fetched _ here s1 \<Rightarrow>
         let b = unat (c_bits here) in
         if unat (c_val here) < 16 then
           (if h_have s1 < length (h_lens s1)
            then CL_more (lens_set (h_have s1) (unat (c_val here)) (dropbits b s1))
            else CL_undef)
         else if unat (c_val here) = 16 then
           (case NEEDBITS (b + 2) s1 of
              Short s2 \<Rightarrow> CL_short s2
            | Got s2 \<Rightarrow>
                let s3 = dropbits b s2 in
                if h_have s3 = 0 then CL_bad s3
                else let len = h_lens s3 ! (h_have s3 - 1); copy = 3 + BITS 2 s3
                     in codelens_repeat len copy (dropbits 2 s3))
         else if unat (c_val here) = 17 then
           (case NEEDBITS (b + 3) s1 of
              Short s2 \<Rightarrow> CL_short s2
            | Got s2 \<Rightarrow> let s3 = dropbits b s2 in codelens_repeat 0 (3 + BITS 3 s3) (dropbits 3 s3))
         else
           (case NEEDBITS (b + 7) s1 of
              Short s2 \<Rightarrow> CL_short s2
            | Got s2 \<Rightarrow> let s3 = dropbits b s2 in codelens_repeat 0 (11 + BITS 7 s3) (dropbits 7 s3)))"

text \<open>\<^verbatim>\<open>while (have < nlen + ndist)\<close>; called with fuel \<^verbatim>\<open>nlen + ndist - have\<close>.\<close>

fun codelens_loop :: "(nat \<Rightarrow> 'z huff_scheme \<Rightarrow> 'z huff_scheme) \<Rightarrow> nat \<Rightarrow> 'z huff_scheme \<Rightarrow> 'z huff_scheme cl_result" where
  "codelens_loop dropbits k s =
    (if h_have s < h_nlen s + h_ndist s then
       (case k of
          0 \<Rightarrow> CL_undef
        | Suc k' \<Rightarrow> (case codelens_step dropbits s of
                       CL_more s' \<Rightarrow> codelens_loop dropbits k' s'
                     | r \<Rightarrow> r))
     else CL_more s)"

declare codelens_loop.simps [simp del]

end
