(* ===== verification/Symbol_Table.thy ===== *)
theory Symbol_Table
  imports Code_Reader
begin

text \<open>
  What the decoder relies on in a code table, as a locale: every index the root table can be asked for
  has an entry, an entry that is not a link is the same for all indices that agree on its bits, and a
  link leads to a sub-table of the same kind.  From this follow, once for all tables, that the loops
  which fetch a symbol while pulling bytes never leave the table, and that they deliver the symbol at
  the front of the unread bits however these are spread over the register and the input.  The laws
  hold for the fixed tables and for every table that \<open>inflate_table\<close> builds.
\<close>

section \<open>The fetch loop\<close>

lemma unat_hold_add:
  fixes b :: byte
  assumes "hold_ok hold bits" and "bits \<le> 48"
  shows "unat (hold + push_bit bits (ucast b)) = unat hold + 2 ^ bits * unat b"
proof -
  have h: "unat hold < 2 ^ bits" using assms(1) by (simp add: hold_ok_def word_unat_lt_iff_bits)
  have "hold_ok (hold + push_bit bits (ucast b)) (bits + 8)" by (rule hold_add_ok [OF assms])
  then have "unat (hold + push_bit bits (ucast b)) = val_of (bits_of (bits + 8) (hold + push_bit bits (ucast b)))"
    by (simp add: val_of_bits_of_word hold_ok_def flip: unat_take_bit)
  also have "\<dots> = val_of (bits_of bits hold @ bits_of 8 b)" by (simp add: hold_add_bits [OF assms(1)])
  also have "\<dots> = take_bit bits (unat hold) + 2 ^ bits * take_bit 8 (unat b)"
    by (simp add: val_of_append val_of_bits_of_word)
  also have "\<dots> = unat hold + 2 ^ bits * unat b"
  proof -
    have "take_bit 8 b = b" by (rule bit_word_eqI) (auto simp: bit_simps dest: bit_imp_le_length)
    then have "take_bit 8 (unat b) = unat b" by (simp flip: unat_take_bit)
    with h show ?thesis by (simp add: take_bit_nat_eq_self)
  qed
  finally show ?thesis .
qed

lemma mod_power_mono:
  fixes a b :: nat
  assumes "a mod 2 ^ n = b mod 2 ^ n" and "m \<le> n" shows "a mod 2 ^ m = b mod 2 ^ m"
proof -
  have "a mod 2 ^ n mod 2 ^ m = b mod 2 ^ n mod 2 ^ m" using assms(1) by simp
  then show ?thesis by (simp only: mod_mod_cancel [OF le_imp_power_dvd [OF assms(2)]])
qed

text \<open>The value of the unread bits.\<close>

definition unread_val :: "byte list \<Rightarrow> ulong \<Rightarrow> nat \<Rightarrow> nat" where
  "unread_val nx hold bits = val_of (bits_of bits hold @ bytes_bits nx)"

lemma unread_val_rem: "unread_val (r_next s) (r_hold s) (r_bits s) = val_of (rem s)"
  by (simp add: unread_val_def rem_def)

lemma hold_unread: "hold_ok hold bits \<Longrightarrow> unread_val nx hold bits mod 2 ^ bits = unat hold"
proof -
  assume h: "hold_ok hold bits"
  then have "unat hold < 2 ^ bits" by (simp add: hold_ok_def word_unat_lt_iff_bits)
  then show ?thesis
    by (simp add: unread_val_def val_of_append val_of_bits_of_word take_bit_nat_eq_self)
qed

text \<open>\<open>f\<close> is the entry as a function of the value of the bits; it must not depend on bits behind those
  of the entry.\<close>

lemma fetch_spec:
  assumes look: "\<And>h. look h = f (unat h)"
    and some: "\<And>y. \<exists>e. f y = Some e \<and> k + unat (c_bits e) \<le> 48"
    and pre: "\<forall>y y' e. f y = Some e \<longrightarrow> y' mod 2 ^ (k + unat (c_bits e)) = y mod 2 ^ (k + unat (c_bits e)) \<longrightarrow> f y' = Some e"
    and ok: "hold_ok hold bits"
  shows "\<exists>e nx' hold' bits'. f (unread_val nx hold bits) = Some e \<and> hold_ok hold' bits' \<and>
    bits_of bits' hold' @ bytes_bits nx' = bits_of bits hold @ bytes_bits nx \<and> length nx' \<le> length nx \<and> bits \<le> bits' \<and>
    (if k + unat (c_bits e) \<le> bits + 8 * length nx
     then fetch look k nx hold bits = Fetched None e (nx', hold', bits') \<and> k + unat (c_bits e) \<le> bits' \<and>
       (bits' = bits \<or> bits' < k + unat (c_bits e) + 8)
     else fetch look k nx hold bits = Fetch_short (nx', hold', bits') \<and> nx' = [])"
  using ok
proof (induction nx arbitrary: hold bits)
  case Nil
  let ?x = "unread_val [] hold bits"
  have x: "?x = unat hold" using hold_unread [OF Nil, of "[]"] val_of_less [of "bits_of bits hold"]
    by (simp add: unread_val_def)
  obtain e where e: "f (unat hold) = Some e" using some by blast
  then show ?case
    using Nil by (auto simp: x look fetch.simps [of _ _ "[]"])
next
  case (Cons b nx)
  obtain e where e: "f (unat hold) = Some e" "k + unat (c_bits e) \<le> 48" using some by blast
  show ?case
  proof (cases "k + unat (c_bits e) \<le> bits")
    case True
    have "unread_val (b # nx) hold bits mod 2 ^ (k + unat (c_bits e)) = unat hold mod 2 ^ (k + unat (c_bits e))"
      using hold_unread [OF Cons.prems, of "b # nx"] True by (metis le_imp_power_dvd mod_mod_cancel)
    from pre [rule_format, OF e(1) this] have "f (unread_val (b # nx) hold bits) = Some e" .
    then show ?thesis
      using True e Cons.prems by (auto simp: look fetch.simps [of _ _ "b # nx"])
  next
    case False
    then have b48: "bits \<le> 48" using e(2) by simp
    let ?h = "hold + push_bit bits (ucast b)"
    have ok': "hold_ok ?h (bits + 8)" by (rule hold_add_ok [OF Cons.prems b48])
    have bits: "bits_of (bits + 8) ?h @ bytes_bits nx = bits_of bits hold @ bytes_bits (b # nx)"
      by (simp add: hold_add_bits [OF Cons.prems])
    then have val: "unread_val nx ?h (bits + 8) = unread_val (b # nx) hold bits" by (simp add: unread_val_def)
    have run: "fetch look k (b # nx) hold bits = fetch look k nx ?h (bits + 8)"
      using False e by (simp add: look fetch.simps [of _ _ "b # nx"])
    obtain e' nx' hold' bits' where i: "f (unread_val nx ?h (bits + 8)) = Some e'" "hold_ok hold' bits'"
      "bits_of bits' hold' @ bytes_bits nx' = bits_of (bits + 8) ?h @ bytes_bits nx" "length nx' \<le> length nx"
      "bits + 8 \<le> bits'"
      "if k + unat (c_bits e') \<le> bits + 8 + 8 * length nx
       then fetch look k nx ?h (bits + 8) = Fetched None e' (nx', hold', bits') \<and> k + unat (c_bits e') \<le> bits' \<and>
         (bits' = bits + 8 \<or> bits' < k + unat (c_bits e') + 8)
       else fetch look k nx ?h (bits + 8) = Fetch_short (nx', hold', bits') \<and> nx' = []"
      using Cons.IH [OF ok'] by blast
    have long: "bits < k + unat (c_bits e')"
    proof (rule ccontr)
      assume n: "\<not> bits < k + unat (c_bits e')"
      then have "unat hold mod 2 ^ (k + unat (c_bits e')) = unread_val nx ?h (bits + 8) mod 2 ^ (k + unat (c_bits e'))"
        unfolding val using hold_unread [OF Cons.prems, of "b # nx"] by (metis le_imp_power_dvd mod_mod_cancel not_le)
      from pre [rule_format, OF i(1) this] e(1) n False show False by simp
    qed
    then have fit: "bits' < k + unat (c_bits e') + 8" if "bits' = bits + 8" using that by simp
    show ?thesis
      unfolding run
      by (intro exI [of _ e'] exI [of _ nx'] exI [of _ hold'] exI [of _ bits'])
        (use i fit bits in \<open>auto simp: val split: if_splits\<close>)
  qed
qed


section \<open>Code tables\<close>

locale symbol_table =
  fixes lnk :: "code \<Rightarrow> bool"
    and tab :: "nat \<Rightarrow> code option"
    and nb :: nat
  assumes nb_range: "nb \<le> 15"
    and root_some: "i < 2 ^ nb \<Longrightarrow> tab i \<noteq> None"
    and root_bits_le: "i < 2 ^ nb \<Longrightarrow> tab i = Some e \<Longrightarrow> unat (c_bits e) \<le> nb"
    and root_prefix: "i < 2 ^ nb \<Longrightarrow> j < 2 ^ nb \<Longrightarrow> tab i = Some e \<Longrightarrow>
      j mod 2 ^ unat (c_bits e) = i mod 2 ^ unat (c_bits e) \<Longrightarrow> tab j = Some e"
    and link_bits: "i < 2 ^ nb \<Longrightarrow> tab i = Some e \<Longrightarrow> lnk e \<Longrightarrow> unat (c_bits e) = nb \<and> unat (c_op e) \<le> 15"
    and sub_some: "i < 2 ^ nb \<Longrightarrow> tab i = Some e \<Longrightarrow> lnk e \<Longrightarrow> z < 2 ^ unat (c_op e) \<Longrightarrow>
      tab (unat (c_val e) + z) \<noteq> None"
    and sub_bits_le: "i < 2 ^ nb \<Longrightarrow> tab i = Some e \<Longrightarrow> lnk e \<Longrightarrow> z < 2 ^ unat (c_op e) \<Longrightarrow>
      tab (unat (c_val e) + z) = Some e2 \<Longrightarrow> unat (c_bits e2) \<le> unat (c_op e) \<and> nb + unat (c_bits e2) \<le> 15"
    and sub_prefix: "i < 2 ^ nb \<Longrightarrow> tab i = Some e \<Longrightarrow> lnk e \<Longrightarrow> z < 2 ^ unat (c_op e) \<Longrightarrow> z' < 2 ^ unat (c_op e) \<Longrightarrow>
      tab (unat (c_val e) + z) = Some e2 \<Longrightarrow> z' mod 2 ^ unat (c_bits e2) = z mod 2 ^ unat (c_bits e2) \<Longrightarrow>
      tab (unat (c_val e) + z') = Some e2"
begin

text \<open>The entry for the bits with value \<open>x\<close>: the link if there is one, the entry of the symbol, and the
  number of bits of the code.\<close>

definition symbol :: "nat \<Rightarrow> code option \<times> code \<times> nat" where
  "symbol x =
    (let e = the (tab (x mod 2 ^ nb)) in
     if lnk e
     then let e2 = the (tab (unat (c_val e) + x div 2 ^ nb mod 2 ^ unat (c_op e)))
          in (Some e, e2, nb + unat (c_bits e2))
     else (None, e, unat (c_bits e)))"

definition symbol_len :: "nat \<Rightarrow> nat" where
  "symbol_len x = snd (snd (symbol x))"

lemma root_entry: obtains e where "tab (x mod 2 ^ nb) = Some e"
  using root_some [of "x mod 2 ^ nb"] by auto

lemma symbol_len_le: "symbol_len x \<le> 15"
proof -
  obtain e where e: "tab (x mod 2 ^ nb) = Some e" by (rule root_entry)
  show ?thesis
  proof (cases "lnk e")
    case False
    then show ?thesis using e root_bits_le [of "x mod 2 ^ nb" e] nb_range by (simp add: symbol_len_def symbol_def)
  next
    case True
    let ?z = "x div 2 ^ nb mod 2 ^ unat (c_op e)"
    obtain e2 where e2: "tab (unat (c_val e) + ?z) = Some e2" using sub_some [OF _ e True, of ?z] by auto
    then have "nb + unat (c_bits e2) \<le> 15" using sub_bits_le [OF _ e True _ e2] by simp
    then show ?thesis
      using e e2 True link_bits [OF _ e True] nb_range by (simp add: symbol_len_def symbol_def)
  qed
qed

lemma first_prefix:
  assumes "tab (y mod 2 ^ nb) = Some e" and "y' mod 2 ^ unat (c_bits e) = y mod 2 ^ unat (c_bits e)"
  shows "tab (y' mod 2 ^ nb) = Some e"
proof (rule root_prefix [OF _ _ assms(1)])
  have "unat (c_bits e) \<le> nb" using root_bits_le [OF _ assms(1)] by simp
  then show "y' mod 2 ^ nb mod 2 ^ unat (c_bits e) = y mod 2 ^ nb mod 2 ^ unat (c_bits e)"
    using assms(2) by (simp add: mod_mod_cancel le_imp_power_dvd)
qed simp_all

lemma sub_index: "(y :: nat) mod 2 ^ (nb + c) div 2 ^ nb = y div 2 ^ nb mod 2 ^ c"
proof -
  have "drop_bit nb (take_bit (nb + c) y) = take_bit c (drop_bit nb y)" by (simp add: drop_bit_take_bit)
  then show ?thesis by (simp add: take_bit_eq_mod drop_bit_eq_div)
qed

lemma second_prefix:
  assumes "tab (x mod 2 ^ nb) = Some e" and "lnk e"
    and e2: "tab (unat (c_val e) + y div 2 ^ nb mod 2 ^ unat (c_op e)) = Some e2"
    and m: "y' mod 2 ^ (nb + unat (c_bits e2)) = y mod 2 ^ (nb + unat (c_bits e2))"
  shows "tab (unat (c_val e) + y' div 2 ^ nb mod 2 ^ unat (c_op e)) = Some e2"
proof (rule sub_prefix [OF _ assms(1,2) _ _ e2])
  have "unat (c_bits e2) \<le> unat (c_op e)" using sub_bits_le [OF _ assms(1,2) _ e2] by simp
  then show "y' div 2 ^ nb mod 2 ^ unat (c_op e) mod 2 ^ unat (c_bits e2)
    = y div 2 ^ nb mod 2 ^ unat (c_op e) mod 2 ^ unat (c_bits e2)"
    using arg_cong [OF m, of "\<lambda>v. v div 2 ^ nb"] by (simp add: sub_index mod_mod_cancel le_imp_power_dvd)
qed simp_all

text \<open>The symbol is determined by its own bits.\<close>

lemma symbol_prefix:
  assumes "y mod 2 ^ symbol_len x = x mod 2 ^ symbol_len x"
  shows "symbol y = symbol x"
proof -
  obtain e where e: "tab (x mod 2 ^ nb) = Some e" by (rule root_entry)
  show ?thesis
  proof (cases "lnk e")
    case False
    then have "symbol x = (None, e, unat (c_bits e))" using e by (simp add: symbol_def)
    then show ?thesis using first_prefix [OF e] assms False by (simp add: symbol_def symbol_len_def)
  next
    case True
    obtain e2 where e2: "tab (unat (c_val e) + x div 2 ^ nb mod 2 ^ unat (c_op e)) = Some e2"
      using sub_some [OF _ e True, of "x div 2 ^ nb mod 2 ^ unat (c_op e)"] by auto
    have sx: "symbol x = (Some e, e2, nb + unat (c_bits e2))" using e e2 True by (simp add: symbol_def)
    then have m: "y mod 2 ^ (nb + unat (c_bits e2)) = x mod 2 ^ (nb + unat (c_bits e2))"
      using assms by (simp add: symbol_len_def)
    then have "y mod 2 ^ nb = x mod 2 ^ nb" by (rule mod_power_mono) simp
    moreover note second_prefix [OF e True e2 m]
    ultimately show ?thesis using e True sx by (simp add: symbol_def)
  qed
qed


text \<open>Fetching: the result depends only on the unread bits.\<close>

lemma look_first: "code_at s p = tab \<Longrightarrow> code_at s p (low_bits nb h) = tab (unat h mod 2 ^ nb)"
  using nb_range by (simp add: low_bits_mod)

lemma fetch_code_spec:
  fixes s :: "'z huff_scheme"
  assumes "rinv s" and "code_at s p = tab"
  shows "\<exists>e r. tab (val_of (rem s) mod 2 ^ nb) = Some e \<and> rinv (set_regs r s) \<and> rem (set_regs r s) = rem s \<and>
    length (fst r) \<le> length (r_next s) \<and> r_bits s \<le> snd (snd r) \<and>
    (if unat (c_bits e) \<le> length (rem s)
     then fetch_code p nb s = Fetched None e (set_regs r s) \<and> unat (c_bits e) \<le> snd (snd r) \<and>
       (snd (snd r) = r_bits s \<or> snd (snd r) < unat (c_bits e) + 8)
     else fetch_code p nb s = Fetch_short (set_regs r s) \<and> fst r = [])"
proof -
  let ?f = "\<lambda>y. tab (y mod 2 ^ nb)" and ?look = "\<lambda>h. code_at s p (low_bits nb h)"
  have look: "?look h = ?f (unat h)" for h using look_first [OF assms(2)] .
  have some: "\<exists>e. ?f y = Some e \<and> 0 + unat (c_bits e) \<le> 48" for y
  proof -
    obtain e where "tab (y mod 2 ^ nb) = Some e" by (rule root_entry)
    with root_bits_le [of "y mod 2 ^ nb" e] nb_range show ?thesis by auto
  qed
  have prefix: "\<forall>y y' e. ?f y = Some e \<longrightarrow> y' mod 2 ^ (0 + unat (c_bits e)) = y mod 2 ^ (0 + unat (c_bits e)) \<longrightarrow> ?f y' = Some e"
    unfolding add_0 using first_prefix by blast
  note sp = fetch_spec [of ?look ?f 0 "r_hold s" "r_bits s" "r_next s", OF look some prefix assms(1) [unfolded rinv_def]]
  from sp obtain e nx' hold' bits' where r: "?f (unread_val (r_next s) (r_hold s) (r_bits s)) = Some e" "hold_ok hold' bits'"
    "bits_of bits' hold' @ bytes_bits nx' = bits_of (r_bits s) (r_hold s) @ bytes_bits (r_next s)"
    "length nx' \<le> length (r_next s)" "r_bits s \<le> bits'"
    "if 0 + unat (c_bits e) \<le> r_bits s + 8 * length (r_next s)
     then fetch ?look 0 (r_next s) (r_hold s) (r_bits s) = Fetched None e (nx', hold', bits') \<and> 0 + unat (c_bits e) \<le> bits' \<and>
       (bits' = r_bits s \<or> bits' < 0 + unat (c_bits e) + 8)
     else fetch ?look 0 (r_next s) (r_hold s) (r_bits s) = Fetch_short (nx', hold', bits') \<and> nx' = []"
    by (elim exE conjE) (rule that)
  show ?thesis
    by (intro exI [of _ e] exI [of _ "(nx', hold', bits')"])
      (use r in \<open>auto simp: unread_val_rem fetch_code_def length_rem rinv_def rem_def split: if_splits\<close>)
qed


text \<open>Both loops.\<close>

lemma code_at_regs [simp]: "code_at (set_regs r s) p = code_at s p"
  by (cases p) (simp_all add: code_at_def set_regs_def fun_eq_iff)

lemma fetch_linked_spec:
  fixes s :: "'z huff_scheme"
  assumes "rinv s" and t: "code_at s p = tab"
  shows "\<exists>r. rinv (set_regs r s) \<and> rem (set_regs r s) = rem s \<and> length (fst r) \<le> length (r_next s) \<and>
    r_bits s \<le> snd (snd r) \<and>
    (case symbol (val_of (rem s)) of (l, e, n) \<Rightarrow>
      if n \<le> length (rem s)
      then fetch_linked lnk p nb s = Fetched l e (set_regs r s) \<and> n \<le> snd (snd r) \<and>
        (snd (snd r) = r_bits s \<or> snd (snd r) < n + 8)
      else fetch_linked lnk p nb s = Fetch_short (set_regs r s) \<and> fst r = [])"
proof -
  let ?x = "val_of (rem s)"
  obtain e r where e: "tab (?x mod 2 ^ nb) = Some e" and r: "rinv (set_regs r s)" "rem (set_regs r s) = rem s"
    "length (fst r) \<le> length (r_next s)" "r_bits s \<le> snd (snd r)"
    and f: "if unat (c_bits e) \<le> length (rem s)
     then fetch_code p nb s = Fetched None e (set_regs r s) \<and> unat (c_bits e) \<le> snd (snd r) \<and>
       (snd (snd r) = r_bits s \<or> snd (snd r) < unat (c_bits e) + 8)
     else fetch_code p nb s = Fetch_short (set_regs r s) \<and> fst r = []"
    using fetch_code_spec [OF assms] by blast
  show ?thesis
  proof (cases "lnk e")
    case False
    then have "symbol ?x = (None, e, unat (c_bits e))" using e by (simp add: symbol_def)
    then show ?thesis using False r f by (intro exI [of _ r]) (auto simp: fetch_linked_def split: if_splits)
  next
    case True
    have lb: "unat (c_bits e) = nb" "unat (c_op e) \<le> 15" using link_bits [OF _ e True] by simp_all
    let ?g = "\<lambda>y. tab (unat (c_val e) + y div 2 ^ nb mod 2 ^ unat (c_op e))"
    let ?s1 = "set_regs r s"
    let ?look = "\<lambda>h. code_at ?s1 p (unat (c_val e) + drop_bit (unat (c_bits e)) (low_bits (unat (c_bits e) + unat (c_op e)) h))"
    have look: "?look h = ?g (unat h)" for h
      using lb nb_range t by (simp add: low_bits_mod drop_bit_eq_div sub_index)
    have some: "\<exists>e2. ?g y = Some e2 \<and> nb + unat (c_bits e2) \<le> 48" for y
    proof -
      obtain e2 where e2: "?g y = Some e2" using sub_some [OF _ e True, of "y div 2 ^ nb mod 2 ^ unat (c_op e)"] by auto
      then show ?thesis using sub_bits_le [OF _ e True _ e2] lb nb_range by auto
    qed
    have prefix: "\<forall>y y' e2. ?g y = Some e2 \<longrightarrow> y' mod 2 ^ (nb + unat (c_bits e2)) = y mod 2 ^ (nb + unat (c_bits e2)) \<longrightarrow> ?g y' = Some e2"
      using second_prefix [OF e True] by blast
    note sp = fetch_spec [of ?look ?g nb "r_hold ?s1" "r_bits ?s1" "r_next ?s1", OF look some prefix r(1) [unfolded rinv_def]]
    have val: "unread_val (r_next ?s1) (r_hold ?s1) (r_bits ?s1) = ?x"
      using r(2) by (simp only: unread_val_rem)
    have len: "r_bits ?s1 + 8 * length (r_next ?s1) = length (rem s)" using r(2) length_rem [of ?s1] by simp
    from sp [unfolded val len] obtain e2 nx' hold' bits' where q: "?g ?x = Some e2" "hold_ok hold' bits'"
      "bits_of bits' hold' @ bytes_bits nx' = bits_of (r_bits ?s1) (r_hold ?s1) @ bytes_bits (r_next ?s1)"
      "length nx' \<le> length (r_next ?s1)" "r_bits ?s1 \<le> bits'"
      "if nb + unat (c_bits e2) \<le> length (rem s)
       then fetch ?look nb (r_next ?s1) (r_hold ?s1) (r_bits ?s1) = Fetched None e2 (nx', hold', bits') \<and>
         nb + unat (c_bits e2) \<le> bits' \<and> (bits' = r_bits ?s1 \<or> bits' < nb + unat (c_bits e2) + 8)
       else fetch ?look nb (r_next ?s1) (r_hold ?s1) (r_bits ?s1) = Fetch_short (nx', hold', bits') \<and> nx' = []"
      by (elim exE conjE) (rule that)
    have sx: "symbol ?x = (Some e, e2, nb + unat (c_bits e2))" using e q(1) True by (simp add: symbol_def)
    let ?r = "(nx', hold', bits')"
    have fin: "rinv (set_regs ?r s)" "rem (set_regs ?r s) = rem s" "length nx' \<le> length (r_next s)" "r_bits s \<le> bits'"
      using q r by (auto simp: rinv_def rem_def)
    have ss: "set_regs ?r ?s1 = set_regs ?r s" by (simp add: set_regs_def)
    show ?thesis
    proof (cases "nb \<le> length (rem s)")
      case False
      then show ?thesis using r f sx True lb by (intro exI [of _ r]) (auto simp: fetch_linked_def)
    next
      case nb: True
      then show ?thesis
        using fin f q(6) sx True lb ss
        by (intro exI [of _ ?r]) (auto simp: fetch_linked_def split: if_splits)
    qed
  qed
qed

end

end
