(* ===== verification/Inftrees_Lookup.thy ===== *)
theory Inftrees_Lookup
  imports Inftrees_Frame Symbol_Table
begin

text \<open>
  How the tables of \<open>inflate_table\<close> are read.  The reference is the canonical Huffman code of RFC 1951,
  section 3.2.2, in closed form: \<open>canon_pos\<close> sums the code space of the symbols that come before a symbol,
  \<open>canon_code\<close> is its reversed bit pattern.  The decoder's two level lookup (\<open>lookup_code\<close>, the loops in
  cases CODELENS, LEN and DIST of inflate.c) finds every symbol by its canonical code; and a complete
  code leaves no index without an entry, so that the tables keep the laws of \<open>symbol_table\<close>.
\<close>

section \<open>The canonical code\<close>

definition canon_pos :: "nat list \<Rightarrow> nat \<Rightarrow> nat" where
  "canon_pos ls s = (\<Sum>r\<leftarrow>filter (\<lambda>r. ls ! r \<noteq> 0 \<and> before ls r s) [0..<length ls]. units (ls ! r))"

definition canon_code :: "nat list \<Rightarrow> nat \<Rightarrow> nat" where
  "canon_code ls s = rev_bits 15 (canon_pos ls s)"

lemma canon_pos_sum: "canon_pos ls s = (\<Sum>r\<in>{r \<in> coded ls. before ls r s}. units (ls ! r))"
proof -
  let ?xs = "filter (\<lambda>r. ls ! r \<noteq> 0 \<and> before ls r s) [0..<length ls]"
  have "set ?xs = {r \<in> coded ls. before ls r s}" by (auto simp: coded_def)
  then show ?thesis
    unfolding canon_pos_def by (metis (no_types, lifting) distinct_filter distinct_upt sum_list_distinct_conv_sum_set)
qed

lemma canon_pos_rank:
  assumes "sorted_work ls work" and "s \<in> coded ls"
  shows "pos ls work (rank ls s) = canon_pos ls s"
proof -
  let ?k = "rank ls s"
  have k: "?k < ncoded ls" using rank_less [OF assms(2)] .
  have s: "work ! ?k = s" using assms by (simp add: sorted_work_def)
  have "bij_betw (\<lambda>i. work ! i) {..<?k} {r \<in> coded ls. before ls r s}"
  proof (rule bij_betw_byWitness [where f' = "rank ls"])
    show "\<forall>i\<in>{..<?k}. rank ls (work ! i) = i" using work_coded(2) [OF assms(1)] k by simp
    show "\<forall>r\<in>{r \<in> coded ls. before ls r s}. work ! rank ls r = r" using assms(1) by (simp add: sorted_work_def)
    show "(!) work ` {..<?k} \<subseteq> {r \<in> coded ls. before ls r s}"
      using work_coded(1) [OF assms(1)] work_before [OF assms(1) _ k] k s by auto
    show "rank ls ` {r \<in> coded ls. before ls r s} \<subseteq> {..<?k}" using rank_mono by auto
  qed
  then show ?thesis
    unfolding pos_def lenseq_def canon_pos_sum by (rule sum.reindex_bij_betw)
qed

lemma hcode_rank:
  "sorted_work ls work \<Longrightarrow> s \<in> coded ls \<Longrightarrow> hcode ls work (rank ls s) = canon_code ls s"
  by (simp add: hcode_def canon_code_def canon_pos_rank)

lemma lenseq_rank: "sorted_work ls work \<Longrightarrow> s \<in> coded ls \<Longrightarrow> lenseq ls work (rank ls s) = ls ! s"
  by (simp add: lenseq_def sorted_work_def)

lemma div_mod_low:
  fixes x :: nat
  assumes "root \<le> l" and "l \<le> root + c"
  shows "(x mod 2 ^ (root + c)) div 2 ^ root mod 2 ^ (l - root) = (x mod 2 ^ l) div 2 ^ root"
proof -
  have e: "drop_bit root (take_bit (root + m) x) = take_bit m (drop_bit root x)" for m
    by (simp add: drop_bit_take_bit)
  have "take_bit (l - root) (drop_bit root (take_bit (root + c) x)) = drop_bit root (take_bit l x)"
    using e [of c] e [of "l - root"] assms by (simp add: min_absorb1)
  then show ?thesis by (simp add: take_bit_eq_mod drop_bit_eq_div)
qed

section \<open>The decoder's lookup\<close>

text \<open>\<open>x\<close> is the value of the input bits, of which at least as many are available as the code has.\<close>

definition is_link :: "code \<Rightarrow> bool" where
  "is_link here \<longleftrightarrow> c_op here \<noteq> 0 \<and> c_op here AND 0xf0 = 0"

definition lookup_code :: "code list \<Rightarrow> nat \<Rightarrow> nat \<Rightarrow> nat \<Rightarrow> code \<times> nat" where
  "lookup_code tab base bits x =
    (let here = tab ! (base + x mod 2 ^ bits)
     in if is_link here
        then let b = unat (c_bits here);
                 here2 = tab ! (base + unat (c_val here) + x mod 2 ^ (b + unat (c_op here)) div 2 ^ b)
             in (here2, b + unat (c_bits here2))
        else (here, unat (c_bits here)))"

definition max_syms :: "codetype \<Rightarrow> nat" where
  "max_syms type = (case type of CODES \<Rightarrow> 19 | LENS \<Rightarrow> 288 | DISTS \<Rightarrow> 32)"

lemma ext_no_link:
  "list_all (\<lambda>e. e AND 0xf0 \<noteq> 0) (map (\<lambda>e. ucast (e::ush) :: byte) lext)"
  "list_all (\<lambda>e. e AND 0xf0 \<noteq> 0) (map (\<lambda>e. ucast (e::ush) :: byte) dext)"
  by (simp_all add: lext_def dext_def)

lemma entry_no_link: "w < max_syms type \<Longrightarrow> \<not> is_link (table_entry type work w b)"
  using ext_no_link
  by (cases type)
    (auto simp: is_link_def table_entry_def max_syms_def Let_def list_all_length)

lemma entry_bits: "b < 256 \<Longrightarrow> unat (c_bits (table_entry type work w b)) = b"
  by (auto simp: table_entry_def Let_def unsigned_of_nat take_bit_nat_eq_self)

lemma entry_same: "c_op (table_entry type work w b) = c_op (table_entry type work w b')"
  "c_val (table_entry type work w b) = c_val (table_entry type work w b')"
  by (auto simp: table_entry_def Let_def)

lemma is_link_link:
  assumes "1 \<le> c" and "c \<le> 15"
  shows "is_link (link c root off)"
proof -
  have "c = 1 \<or> c = 2 \<or> c = 3 \<or> c = 4 \<or> c = 5 \<or> c = 6 \<or> c = 7 \<or> c = 8 \<or> c = 9 \<or> c = 10
    \<or> c = 11 \<or> c = 12 \<or> c = 13 \<or> c = 14 \<or> c = 15"
    using assms by presburger
  then show ?thesis by (elim disjE) (simp_all add: is_link_def link_def)
qed

lemma link_fields:
  "c \<le> 15 \<Longrightarrow> unat (c_op (link c root off)) = c" "root \<le> 15 \<Longrightarrow> unat (c_bits (link c root off)) = root"
  "off < 65536 \<Longrightarrow> unat (c_val (link c root off)) = off"
  by (simp_all add: link_def unsigned_of_nat take_bit_nat_eq_self)

text \<open>The tables that the loop leaves: every symbol is found by its code.\<close>

lemma filled_lookup:
  assumes ok: "build_ok type ls work root mx base tree0 sz"
    and fl: "tb_filled type ls work root base tree0 sz (ncoded ls) t"
    and sz: "sz \<le> ENOUGH" and n: "length ls \<le> max_syms type"
    and s: "s \<in> coded ls" and x: "x mod 2 ^ (ls ! s) = canon_code ls s"
  shows "snd (lookup_code (tb_tab t) base root x) = ls ! s"
    and "c_op (fst (lookup_code (tb_tab t) base root x)) = c_op (table_entry type work s 0)"
    and "c_val (fst (lookup_code (tb_tab t) base root x)) = c_val (table_entry type work s 0)"
proof -
  let ?i = "rank ls s" and ?l = "ls ! s" and ?tab = "tb_tab t"
  have so: "sorted_work ls work" and lo: "lens_ok ls" and root: "1 \<le> root" "root \<le> 15"
    using ok by (auto simp: build_ok_def)
  have i: "?i < ncoded ls" using rank_less [OF s] .
  have w: "work ! ?i = s" using so s by (simp add: sorted_work_def)
  have h: "hcode ls work ?i = canon_code ls s" and l: "lenseq ls work ?i = ?l"
    using hcode_rank [OF so s] lenseq_rank [OF so s] by auto
  have l15: "?l \<le> 15" using lenseq_range(2) [OF so lo i] l by simp
  have sn: "s < max_syms type" using s n by (auto simp: coded_def)
  have "lookup_code ?tab base root x = (table_entry type work s ?l, ?l)
    \<or> (\<exists>b. lookup_code ?tab base root x = (table_entry type work s b, ?l))"
  proof (cases "?l \<le> root")
    case True
    have "x mod 2 ^ root mod 2 ^ ?l = canon_code ls s"
      using x True by (simp add: mod_mod_cancel le_imp_power_dvd)
    then have "?tab ! (base + x mod 2 ^ root) = table_entry type work s ?l"
      using fl i True h l w by (auto simp: tb_filled_def root_codes_def)
    then show ?thesis
      using entry_no_link [OF sn] entry_bits [of ?l] l15 by (simp add: lookup_code_def)
  next
    case False
    obtain c off where sc: "sub_code type ls work root base ?tab ?i c off"
      and place: "off + 2 ^ c \<le> tb_next t - base \<or> off = tb_next t - base \<and> c = tb_curr t"
      using fl i l False by (auto simp: tb_filled_def sub_codes_def)
    have lk: "?tab ! (base + canon_code ls s mod 2 ^ root) = link c root off" and c: "?l \<le> root + c" "c \<le> 15"
      and sub: "\<And>z. z < 2 ^ c \<Longrightarrow> z mod 2 ^ (?l - root) = canon_code ls s div 2 ^ root \<Longrightarrow>
        ?tab ! (base + off + z) = table_entry type work s (?l - root)"
      using sc h l w by (auto simp: sub_code_def)
    have "off \<le> tb_next t - base" using place by auto
    also have "\<dots> \<le> ENOUGH" using fl sz by (auto simp: tb_filled_def)
    finally have off: "off < 65536" by simp
    have xr: "x mod 2 ^ root = canon_code ls s mod 2 ^ root"
      using x False by (metis le_imp_power_dvd less_imp_le mod_mod_cancel not_le)
    have c1: "1 \<le> c" using c(1) False by simp
    let ?z = "x mod 2 ^ (root + c) div 2 ^ root"
    have "x mod 2 ^ (root + c) < 2 ^ c * 2 ^ root" by (simp add: power_add mult.commute)
    then have "?z < 2 ^ c" by (rule less_mult_imp_div_less)
    moreover have "?z mod 2 ^ (?l - root) = canon_code ls s div 2 ^ root"
      using x False c(1) by (simp add: div_mod_low)
    ultimately have "?tab ! (base + off + ?z) = table_entry type work s (?l - root)" by (rule sub)
    moreover have "unat (c_op (link c root off)) = c" "unat (c_bits (link c root off)) = root"
      "unat (c_val (link c root off)) = off"
      using link_fields c(2) root(2) off by auto
    moreover have "unat (c_bits (table_entry type work s (?l - root))) = ?l - root"
      using l15 by (intro entry_bits) simp
    ultimately have "lookup_code ?tab base root x = (table_entry type work s (?l - root), ?l)"
      using lk xr is_link_link [OF c1 c(2)] False by (simp add: lookup_code_def Let_def)
    then show ?thesis by blast
  qed
  then obtain b where "lookup_code ?tab base root x = (table_entry type work s b, ?l)" by blast
  then show "snd (lookup_code ?tab base root x) = ?l"
    and "c_op (fst (lookup_code ?tab base root x)) = c_op (table_entry type work s 0)"
    and "c_val (fst (lookup_code ?tab base root x)) = c_val (table_entry type work s 0)"
    using entry_same [of type work s b 0] by simp_all
qed


section \<open>Complete codes\<close>

text \<open>When the code space is used up, every bit pattern starts with a code.\<close>

lemma pos_cover:
  assumes "p < pos ls work n"
  shows "\<exists>k<n. pos ls work k \<le> p \<and> p < pos ls work (Suc k)"
  using assms
proof (induction n)
  case 0
  then show ?case by (simp add: pos_def)
next
  case (Suc n)
  show ?case
  proof (cases "p < pos ls work n")
    case True
    then show ?thesis using Suc.IH less_SucI by blast
  next
    case False
    then show ?thesis using Suc.prems by (intro exI [of _ n]) simp
  qed
qed

lemma code_cover:
  assumes so: "sorted_work ls work" and lo: "lens_ok ls" and full: "kraft ls = 2 ^ 15"
  obtains k where "k < ncoded ls" "x mod 2 ^ lenseq ls work k = hcode ls work k"
proof -
  let ?p = "rev_bits 15 x"
  have "?p < pos ls work (ncoded ls)" using rev_bits_less [of 15 x] pos_total [OF so] full by simp
  from pos_cover [OF this] obtain k where k: "k < ncoded ls" "pos ls work k \<le> ?p" "?p < pos ls work (Suc k)" by blast
  let ?l = "lenseq ls work k"
  have l: "?l \<le> 15" using lenseq_range(2) [OF so lo k(1)] .
  obtain q where q: "pos ls work k = q * 2 ^ (15 - ?l)" using pos_dvd [OF so lo k(1)] by (auto simp: dvd_def mult.commute)
  have "?p < (q + 1) * 2 ^ (15 - ?l)" using k(3) q by (simp add: pos_Suc units_lenseq [OF so lo k(1)])
  then have "?p div 2 ^ (15 - ?l) = q" using k(2) q by (intro div_nat_eqI) (simp_all add: mult.commute)
  then have "rev_bits 15 ?p mod 2 ^ ?l = rev_bits 15 (q * 2 ^ (15 - ?l))" by (simp add: rev15_mod [OF l] rev15_aligned [OF l])
  then have "x mod 2 ^ 15 mod 2 ^ ?l = hcode ls work k" by (simp add: rev_bits_rev_bits hcode_def q)
  then have "x mod 2 ^ ?l = hcode ls work k" using l by (simp only: mod_mod_cancel [OF le_imp_power_dvd])
  with k(1) show thesis by (rule that)
qed

section \<open>Tables without gaps\<close>

text \<open>The kinds of entries a table for a code type may hold.\<close>

definition entry_of :: "codetype \<Rightarrow> code \<Rightarrow> bool" where
  "entry_of type e \<longleftrightarrow> c_op e = 64 \<and> c_val e = 0 \<or> (\<exists>s<max_syms type. \<exists>b. e = table_entry type [] s b)"

locale code_table = symbol_table is_link tab nb
  for tab :: "nat \<Rightarrow> code option" and nb :: nat +
  fixes type :: codetype
  assumes root_kind: "i < 2 ^ nb \<Longrightarrow> tab i = Some e \<Longrightarrow> is_link e \<or> entry_of type e"
    and sub_kind: "i < 2 ^ nb \<Longrightarrow> tab i = Some e \<Longrightarrow> is_link e \<Longrightarrow> z < 2 ^ unat (c_op e) \<Longrightarrow>
      tab (unat (c_val e) + z) = Some e2 \<Longrightarrow> entry_of type e2"
    and code_flat: "type = CODES \<Longrightarrow> nb \<le> 7 \<and> (\<forall>i<2 ^ nb. \<forall>e. tab i = Some e \<longrightarrow> \<not> is_link e)"
begin

lemma symbol_kind: "entry_of type (fst (snd (symbol x)))"
proof -
  obtain e where e: "tab (x mod 2 ^ nb) = Some e" by (rule root_entry)
  show ?thesis
  proof (cases "is_link e")
    case False
    then show ?thesis using root_kind [OF _ e] e by (simp add: symbol_def)
  next
    case True
    then obtain e2 where e2: "tab (unat (c_val e) + x div 2 ^ nb mod 2 ^ unat (c_op e)) = Some e2"
      using sub_some [OF _ e True, of "x div 2 ^ nb mod 2 ^ unat (c_op e)"] by auto
    then show ?thesis using sub_kind [OF _ e True _ e2] e True by (simp add: symbol_def)
  qed
qed

end

text \<open>A table stays good when entries outside it appear.\<close>

lemma code_table_mono:
  assumes t: "code_table tab nb type" and ext: "\<forall>i e. tab i = Some e \<longrightarrow> tab' i = Some e"
  shows "code_table tab' nb type"
proof -
  note st = code_table.axioms(1) [OF t]
  have same: "tab' i = tab i" if "i < 2 ^ nb" for i
    using symbol_table.root_some [OF st that] ext by fastforce
  have same2: "tab' (unat (c_val e) + z) = tab (unat (c_val e) + z)"
    if "i < 2 ^ nb" "tab i = Some e" "is_link e" "z < 2 ^ unat (c_op e)" for i e z
    using symbol_table.sub_some [OF st that] ext by fastforce
  show ?thesis
  proof (intro code_table.intro symbol_table.intro code_table_axioms.intro)
    show "nb \<le> 15" by (rule symbol_table.nb_range [OF st])
    fix i j z z' :: nat and e e2 :: code assume i: "i < 2 ^ nb"
    show "tab' i \<noteq> None" using same [OF i] symbol_table.root_some [OF st i] by simp
    assume "tab' i = Some e" then have e: "tab i = Some e" using same [OF i] by simp
    show "unat (c_bits e) \<le> nb" by (rule symbol_table.root_bits_le [OF st i e])
    show "is_link e \<or> entry_of type e" by (rule code_table.root_kind [OF t i e])
    { assume j: "j < 2 ^ nb" "j mod 2 ^ unat (c_bits e) = i mod 2 ^ unat (c_bits e)"
      show "tab' j = Some e" using symbol_table.root_prefix [OF st i j(1) e j(2)] same [OF j(1)] by simp }
    assume l: "is_link e"
    show "unat (c_bits e) = nb \<and> unat (c_op e) \<le> 15" by (rule symbol_table.link_bits [OF st i e l])
    assume z: "z < 2 ^ unat (c_op e)"
    show "tab' (unat (c_val e) + z) \<noteq> None" using same2 [OF i e l z] symbol_table.sub_some [OF st i e l z] by simp
    assume "tab' (unat (c_val e) + z) = Some e2"
    then have e2: "tab (unat (c_val e) + z) = Some e2" using same2 [OF i e l z] by simp
    show "unat (c_bits e2) \<le> unat (c_op e) \<and> nb + unat (c_bits e2) \<le> 15" by (rule symbol_table.sub_bits_le [OF st i e l z e2])
    show "entry_of type e2" by (rule code_table.sub_kind [OF t i e l z e2])
    assume z': "z' < 2 ^ unat (c_op e)" "z' mod 2 ^ unat (c_bits e2) = z mod 2 ^ unat (c_bits e2)"
    show "tab' (unat (c_val e) + z') = Some e2"
      using symbol_table.sub_prefix [OF st i e l z z'(1) e2 z'(2)] same2 [OF i e l z'(1)] by simp
  next
    assume "type = CODES"
    then show "nb \<le> 7 \<and> (\<forall>i<2 ^ nb. \<forall>e. tab' i = Some e \<longrightarrow> \<not> is_link e)"
      using code_table.code_flat [OF t] same by simp
  qed
qed


text \<open>What the loop leaves for an index of the root table: an entry for a code that fits, or a link to a
  sub-table that is full.\<close>

definition part_of :: "nat \<Rightarrow> nat \<Rightarrow> code list \<Rightarrow> nat \<Rightarrow> code option" where
  "part_of base n tab i = nth_opt (take n tab) (base + i)"

lemma part_of_nth: "base + i < n \<Longrightarrow> n \<le> length tab \<Longrightarrow> part_of base n tab i = Some (tab ! (base + i))"
  by (simp add: part_of_def nth_opt_def)

lemma link_inject:
  assumes "link c root off = link c' root off'" and "c \<le> 15" "c' \<le> 15" "off < 65536" "off' < 65536"
  shows "c = c'" "off = off'"
  using assms link_fields(1,3) by metis+

lemma filled_root:
  assumes ok: "build_ok type ls work root mx base tree0 sz"
    and fl: "tb_filled type ls work root base tree0 sz (ncoded ls) t"
    and sz: "sz \<le> ENOUGH" and n: "length ls \<le> max_syms type" and full: "kraft ls = 2 ^ 15" and i: "i < 2 ^ root"
  obtains (short) k where "k < ncoded ls" "lenseq ls work k \<le> root" "i mod 2 ^ lenseq ls work k = hcode ls work k"
      "tb_tab t ! (base + i) = entry_at type ls work 0 k"
    | (long) c off where "tb_tab t ! (base + i) = link c root off" "1 \<le> c" "c \<le> 15" "off + 2 ^ c \<le> tb_used t"
      "\<not> mx \<le> root"
      "\<And>z. z < 2 ^ c \<Longrightarrow> \<exists>k<ncoded ls. root < lenseq ls work k \<and> lenseq ls work k \<le> root + c \<and>
        z mod 2 ^ (lenseq ls work k - root) = hcode ls work k div 2 ^ root \<and>
        (\<forall>z'<2 ^ c. z' mod 2 ^ (lenseq ls work k - root) = hcode ls work k div 2 ^ root \<longrightarrow>
          tb_tab t ! (base + off + z') = entry_at type ls work root k)"
proof -
  have so: "sorted_work ls work" and lo: "lens_ok ls" and ml: "max_len ls mx" using ok by (auto simp: build_ok_def)
  let ?tab = "tb_tab t"
  have sub: "\<exists>c off. sub_code type ls work root base ?tab k c off \<and> off + 2 ^ c \<le> tb_used t"
    if k: "k < ncoded ls" "root < lenseq ls work k" for k
  proof -
    obtain c off where "sub_code type ls work root base ?tab k c off"
      and "off + 2 ^ c \<le> tb_next t - base \<or> off = tb_next t - base \<and> c = tb_curr t"
      using fl k unfolding tb_filled_def sub_codes_def by blast
    moreover have "tb_next t - base + 2 ^ tb_curr t = tb_used t" using fl by (auto simp: tb_filled_def)
    ultimately show ?thesis by (intro exI [of _ c] exI [of _ off]) auto
  qed
  have used: "tb_used t < 65536" using fl sz by (auto simp: tb_filled_def)
  obtain k where k: "k < ncoded ls" "i mod 2 ^ lenseq ls work k = hcode ls work k" using code_cover [OF so lo full] .
  show thesis
  proof (cases "lenseq ls work k \<le> root")
    case True
    then show ?thesis using short k fl i by (auto simp: tb_filled_def root_codes_def)
  next
    case False
    then have lk: "root < lenseq ls work k" by simp
    then have "(2::nat) ^ root < 2 ^ lenseq ls work k" by simp
    with i have "i < 2 ^ lenseq ls work k" by (rule less_trans)
    then have hk: "hcode ls work k = i" using k(2) by simp
    obtain c off where sc: "sub_code type ls work root base ?tab k c off" and o: "off + 2 ^ c \<le> tb_used t"
      using sub [OF k(1) lk] by blast
    have lnk: "?tab ! (base + i) = link c root off" and c: "lenseq ls work k \<le> root + c" "c \<le> 15"
      using sc hk i by (auto simp: sub_code_def)
    have offb: "off < 65536" using o used by linarith
    have mx: "\<not> mx \<le> root" using ml work_coded(1) [OF so k(1)] lk by (auto simp: max_len_def lenseq_def)
    show thesis
    proof (rule long [OF lnk _ c(2) o mx])
      show "1 \<le> c" using c lk by simp
      fix z assume z: "z < (2::nat) ^ c"
      let ?x = "i + 2 ^ root * z"
      have xm: "?x mod 2 ^ root = i" and xd: "?x div 2 ^ root = z" using i by simp_all
      obtain j where j: "j < ncoded ls" "?x mod 2 ^ lenseq ls work j = hcode ls work j" using code_cover [OF so lo full] .
      have lj: "root < lenseq ls work j"
      proof (rule ccontr)
        assume "\<not> root < lenseq ls work j"
        then have r: "lenseq ls work j \<le> root" by simp
        have "i mod 2 ^ lenseq ls work j = ?x mod 2 ^ root mod 2 ^ lenseq ls work j" by (simp only: xm)
        also have "\<dots> = hcode ls work j" unfolding mod_mod_cancel [OF le_imp_power_dvd [OF r]] by (rule j(2))
        finally have "i mod 2 ^ lenseq ls work j = hcode ls work j" .
        then have "?tab ! (base + i) = entry_at type ls work 0 j" using fl i j(1) r by (auto simp: tb_filled_def root_codes_def)
        moreover have "is_link (link c root off)" using is_link_link c lk by simp
        moreover have "work ! j < max_syms type" using work_coded(1) [OF so j(1)] n by (simp add: coded_def)
        ultimately show False using lnk entry_no_link by metis
      qed
      have hj: "hcode ls work j mod 2 ^ root = i"
        unfolding j(2) [symmetric] mod_mod_cancel [OF le_imp_power_dvd [OF less_imp_le [OF lj]]] by (rule xm)
      obtain c' off' where sj: "sub_code type ls work root base ?tab j c' off'" and o': "off' + 2 ^ c' \<le> tb_used t"
        using sub [OF j(1) lj] by blast
      have "link c root off = link c' root off'" "c' \<le> 15" using sj hj lnk by (auto simp: sub_code_def)
      then have eq: "c' = c" "off' = off" using link_inject [of c root off c' off'] c(2) offb o' used by auto
      have "?x < 2 ^ root * (z + 1)" using i by simp
      also have "\<dots> \<le> 2 ^ root * 2 ^ c" using z by (intro mult_left_mono) auto
      finally have "?x mod 2 ^ (root + c) = ?x" by (simp add: power_add)
      moreover have "lenseq ls work j \<le> root + c" using sj eq by (simp add: sub_code_def)
      ultimately have dz: "z mod 2 ^ (lenseq ls work j - root) = hcode ls work j div 2 ^ root"
        using div_mod_low [of root "lenseq ls work j" c ?x] j(2) lj xd by simp
      show "\<exists>k<ncoded ls. root < lenseq ls work k \<and> lenseq ls work k \<le> root + c \<and>
        z mod 2 ^ (lenseq ls work k - root) = hcode ls work k div 2 ^ root \<and>
        (\<forall>z'<2 ^ c. z' mod 2 ^ (lenseq ls work k - root) = hcode ls work k div 2 ^ root \<longrightarrow>
          ?tab ! (base + off + z') = entry_at type ls work root k)"
        using j(1) lj sj dz unfolding sub_code_def eq by blast
    qed
  qed
qed


lemma entry_work: "w < max_syms type \<Longrightarrow> table_entry type work w b = table_entry type [] w b"
  by (cases type) (auto simp: table_entry_def max_syms_def)

lemma filled_code_table:
  assumes ok: "build_ok type ls work root mx base tree0 sz"
    and fl: "tb_filled type ls work root base tree0 sz (ncoded ls) t"
    and sz: "sz \<le> ENOUGH" and n: "length ls \<le> max_syms type" and full: "kraft ls = 2 ^ 15"
    and used: "2 ^ root \<le> tb_used t" and flat: "type = CODES \<longrightarrow> root \<le> 7"
  shows "code_table (part_of base (base + tb_used t) (tb_tab t)) root type"
proof -
  let ?T = "part_of base (base + tb_used t) (tb_tab t)"
  have so: "sorted_work ls work" and lo: "lens_ok ls" and root: "root \<le> 15" and cm: "type = CODES \<longrightarrow> mx \<le> root"
    using ok by (auto simp: build_ok_def)
  have T: "?T i = Some (tb_tab t ! (base + i))" if "i < tb_used t" for i
    using that fl by (intro part_of_nth) (auto simp: tb_filled_def)
  have Tr: "?T i = Some (tb_tab t ! (base + i))" if "i < 2 ^ root" for i using T that used by simp
  have w: "work ! k < max_syms type" if "k < ncoded ls" for k using work_coded(1) [OF so that] n by (simp add: coded_def)
  have ebits: "unat (c_bits (entry_at type ls work d k)) = lenseq ls work k - d" if "k < ncoded ls" for k d
    using lenseq_range(2) [OF so lo that] by (intro entry_bits) simp
  have kind: "entry_of type (entry_at type ls work d k)" "\<not> is_link (entry_at type ls work d k)" if "k < ncoded ls" for k d
    using w [OF that] entry_work [OF w [OF that], of work] entry_no_link [OF w [OF that]] unfolding entry_of_def by blast+
  note cases = filled_root [OF ok fl sz n full, consumes 1, case_names short long]
  have u64: "tb_used t < 65536" using fl sz by (auto simp: tb_filled_def)
  show ?thesis
  proof (intro code_table.intro symbol_table.intro code_table_axioms.intro)
    fix i j z z' :: nat and e e2 :: code assume i: "i < 2 ^ root"
    show "?T i \<noteq> None" using Tr [OF i] by simp
    assume "?T i = Some e" then have e: "e = tb_tab t ! (base + i)" using Tr [OF i] by simp
    from i show "unat (c_bits e) \<le> root"
      by (cases rule: cases) (use e ebits [of _ 0] link_fields(2) [OF root] in auto)
    from i show "is_link e \<or> entry_of type e"
      by (cases rule: cases) (use e kind [of _ 0] is_link_link in auto)
    { assume j: "j < 2 ^ root" "j mod 2 ^ unat (c_bits e) = i mod 2 ^ unat (c_bits e)"
      from i show "?T j = Some e"
      proof (cases rule: cases)
        case (short k)
        then have "j mod 2 ^ lenseq ls work k = hcode ls work k" using j(2) e ebits [of k 0] by simp
        then have "tb_tab t ! (base + j) = entry_at type ls work 0 k"
          using fl short(1,2) j(1) by (auto simp: tb_filled_def root_codes_def)
        then show ?thesis using Tr [OF j(1)] e short(4) by simp
      next
        case (long c off)
        then have "unat (c_bits e) = root" using e link_fields(2) [OF root] by simp
        then show ?thesis using i j e Tr [OF j(1)] by simp
      qed }
    assume l: "is_link e"
    obtain c off where lk: "e = link c root off" "1 \<le> c" "c \<le> 15" "off + 2 ^ c \<le> tb_used t"
      and subs: "\<And>z. z < 2 ^ c \<Longrightarrow> \<exists>k<ncoded ls. root < lenseq ls work k \<and> lenseq ls work k \<le> root + c \<and>
        z mod 2 ^ (lenseq ls work k - root) = hcode ls work k div 2 ^ root \<and>
        (\<forall>z'<2 ^ c. z' mod 2 ^ (lenseq ls work k - root) = hcode ls work k div 2 ^ root \<longrightarrow>
          tb_tab t ! (base + off + z') = entry_at type ls work root k)"
      using i by (cases rule: cases) (use e l kind(2) [of _ 0] in auto)
    have off: "off < 65536" using lk(4) u64 by linarith
    have f: "unat (c_op e) = c" "unat (c_bits e) = root" "unat (c_val e) = off"
      using lk link_fields(1) [OF lk(3)] link_fields(2) [OF root] link_fields(3) [OF off] by simp_all
    then show "unat (c_bits e) = root \<and> unat (c_op e) \<le> 15" using lk(3) by simp
    have S: "?T (unat (c_val e) + z) = Some (tb_tab t ! (base + off + z))" if "z < 2 ^ c" for z
      using T [of "off + z"] f(3) lk(4) that by (simp add: add.assoc)
    assume z: "z < 2 ^ unat (c_op e)"
    then have zc: "z < 2 ^ c" using f(1) by simp
    show "?T (unat (c_val e) + z) \<noteq> None" using S [OF zc] by simp
    assume "?T (unat (c_val e) + z) = Some e2"
    then have e2: "e2 = tb_tab t ! (base + off + z)" using S [OF zc] by simp
    obtain k where k: "k < ncoded ls" "root < lenseq ls work k" "lenseq ls work k \<le> root + c"
      "z mod 2 ^ (lenseq ls work k - root) = hcode ls work k div 2 ^ root"
      "\<forall>z'<2 ^ c. z' mod 2 ^ (lenseq ls work k - root) = hcode ls work k div 2 ^ root \<longrightarrow>
          tb_tab t ! (base + off + z') = entry_at type ls work root k"
      using subs [OF zc] by blast
    have ek: "e2 = entry_at type ls work root k" using e2 k(4,5) zc by blast
    show "unat (c_bits e2) \<le> unat (c_op e) \<and> root + unat (c_bits e2) \<le> 15"
      using ek ebits [OF k(1)] k(2,3) f(1) lenseq_range(2) [OF so lo k(1)] by simp
    show "entry_of type e2" using ek kind(1) [OF k(1)] by simp
    assume z': "z' < 2 ^ unat (c_op e)" "z' mod 2 ^ unat (c_bits e2) = z mod 2 ^ unat (c_bits e2)"
    then have "z' < 2 ^ c" "z' mod 2 ^ (lenseq ls work k - root) = hcode ls work k div 2 ^ root"
      using ek ebits [OF k(1)] k(4) f(1) by simp_all
    then show "?T (unat (c_val e) + z') = Some e2" using S k(5) ek by simp
  next
    assume "type = CODES"
    moreover have "\<not> is_link (tb_tab t ! (base + i))" if "i < 2 ^ root" "type = CODES" for i
      using that(1) by (cases rule: cases) (use kind(2) [of _ 0] cm that(2) in auto)
    ultimately show "root \<le> 7 \<and> (\<forall>i<2 ^ root. \<forall>e. ?T i = Some e \<longrightarrow> \<not> is_link e)" using flat Tr by auto
  qed (use root in simp)
qed

end
