(* ===== verification/Inftrees_Correct.thy ===== *)
theory Inftrees_Correct
  imports Inftrees_Lookup
begin

text \<open>
  What \<open>inflate_table\<close> and \<open>inflate_table_my\<close> deliver: for which arguments they succeed, that the table of
  the one decodes the codes in the tree of the other, and that the table is good for every input.
\<close>

section \<open>The whole routine\<close>

text \<open>How the callers use it: 19 code length codes of at most 7 bits with a root table of 7 bits, up to
  288 literal/length codes with 9 bits, up to 32 distance codes with 6 bits, in the array \<open>codes\<close>.\<close>

definition table_args :: "codetype \<Rightarrow> nat list \<Rightarrow> nat \<Rightarrow> code list \<Rightarrow> nat \<Rightarrow> nat \<Rightarrow> nat list \<Rightarrow> ct_data list \<Rightarrow> bool" where
  "table_args type lens codes tab base bits work tree \<longleftrightarrow>
    codes \<le> length lens \<and> codes \<le> max_syms type \<and> codes \<le> length work \<and> codes \<le> length tree \<and>
    list_all (\<lambda>l. l \<le> (if type = CODES then 7 else MAXBITS)) (take codes lens) \<and>
    1 \<le> bits \<and> bits \<le> 9 \<and> (type = CODES \<longrightarrow> bits = 7) \<and>
    length tab = ENOUGH \<and> base + space_of type \<le> ENOUGH"

text \<open>Lengths that the routine refuses: over-subscribed, or incomplete other than a single code of
  one bit in a literal or distance tree.\<close>

definition bad_lens :: "codetype \<Rightarrow> nat list \<Rightarrow> bool" where
  "bad_lens type ls \<longleftrightarrow> kraft ls > 2 ^ 15 \<or>
    kraft ls < 2 ^ 15 \<and> (type = CODES \<or> list_ex (\<lambda>l. l > 1) ls) \<and> list_ex (\<lambda>l. l \<noteq> 0) ls"

lemma find_max_len:
  assumes "lens_ok ls" and "find_max 15 (len_counts ls) \<noteq> 0"
  shows "max_len ls (find_max 15 (len_counts ls))"
proof -
  let ?mx = "find_max 15 (len_counts ls)"
  note spec = find_max_spec [of 15 "len_counts ls"]
  have mx: "?mx \<le> 15" using spec by simp
  then have "count_list ls ?mx \<noteq> 0" using spec assms(2) len_counts_nth [OF mx, of ls] by auto
  then have "?mx \<in> set ls" by (metis count_notin)
  then have "\<exists>s\<in>coded ls. ls ! s = ?mx" using assms(2) by (auto simp: coded_def in_set_conv_nth)
  moreover have "ls ! s \<le> ?mx" if "s \<in> coded ls" for s
  proof (rule ccontr)
    assume "\<not> ls ! s \<le> ?mx"
    moreover have s15: "ls ! s \<le> 15" using that assms(1) by (auto simp: coded_def lens_ok_def list_all_length)
    ultimately have "count_list ls (ls ! s) = 0" using spec by simp
    then have "ls ! s \<notin> set ls" by (simp add: count_list_0_iff)
    then show False using that by (auto simp: coded_def)
  qed
  ultimately show ?thesis by (auto simp: max_len_def)
qed

lemma find_max_zero:
  assumes "lens_ok ls"
  shows "find_max 15 (len_counts ls) = 0 \<longleftrightarrow> coded ls = {}"
proof
  assume z: "find_max 15 (len_counts ls) = 0"
  show "coded ls = {}"
  proof (rule ccontr)
    assume "coded ls \<noteq> {}"
    then obtain s where s: "s < length ls" "ls ! s \<noteq> 0" by (auto simp: coded_def)
    then have "ls ! s \<le> 15" using assms by (simp add: lens_ok_def list_all_length)
    with s z have "count_list ls (ls ! s) = 0" using find_max_spec [of 15 "len_counts ls"] by simp
    then show False using s by (simp add: count_list_0_iff)
  qed
next
  assume "coded ls = {}"
  then show "find_max 15 (len_counts ls) = 0"
    using find_max_len [OF assms] by (auto simp: max_len_def)
qed


lemma coded_max_one:
  assumes "max_len ls 1" and "sorted_work ls work" and "i < ncoded ls"
  shows "lenseq ls work i = 1"
  using work_coded(1) [OF assms(2,3)] assms(1) by (auto simp: max_len_def lenseq_def coded_def le_eq_less_or_eq)

lemma one_code:
  assumes "sorted_work ls work" and "max_len ls 1" and "kraft ls < 2 ^ 15"
  shows "ncoded ls = 1" and "kraft ls = 2 ^ 14"
proof -
  have "pos ls work (ncoded ls) = (\<Sum>i<ncoded ls. 2 ^ 14)"
    unfolding pos_def using coded_max_one [OF assms(2,1)] by (intro sum.cong) (auto simp: units_def)
  then have k: "kraft ls = ncoded ls * 2 ^ 14" using pos_total [OF assms(1)] by simp
  have "coded ls \<noteq> {}" using assms(2) by (auto simp: max_len_def)
  then have "0 < ncoded ls" by (simp add: card_gt_0_iff)
  then show "ncoded ls = 1" using k assms(3) by simp
  with k show "kraft ls = 2 ^ 14" by simp
qed

lemma rev15_ends: "rev_bits 15 (2 ^ 15) = 0" "rev_bits 15 (2 ^ 14) = 1"
  using rev_bits_mod [of 15 "2 ^ 15"] rev15_aligned [of 1 1] by simp_all

text \<open>After the loop: a complete code leaves \<open>huff = 0\<close>, a single code of one bit leaves one entry to mark
  as invalid.\<close>

lemma tb_finish_filled:
  assumes ok: "build_ok type ls work root mx base tree0 sz"
    and fl: "tb_filled type ls work root base tree0 sz (ncoded ls) t"
    and full: "kraft ls = 2 ^ 15 \<or> mx = 1 \<and> root = 1 \<and> tb_next t = base \<and> tb_len t - tb_drop t = 1"
  shows "\<exists>tab'. tb_finish root base work t = Some \<lparr>to_ret = 0, to_tab = tab', to_table = base + tb_used t,
      to_bits = root, to_work = work, to_tree = tb_tree t\<rparr> \<and>
    tb_filled type ls work root base tree0 sz (ncoded ls) (t\<lparr>tb_tab := tab'\<rparr>) \<and>
    (kraft ls = 2 ^ 15 \<or> root = 1 \<and> ncoded ls = 1 \<and> lenseq ls work 0 = 1 \<and> tab' ! (base + 1) = mk_code (64, 1, 0))"
proof -
  have so: "sorted_work ls work" and mx: "max_len ls mx" and kr: "kraft ls \<le> 2 ^ 15" using ok by (auto simp: build_ok_def)
  have huff: "tb_huff t = rev_bits 15 (kraft ls)"
    using fl pos_total [OF so] by (simp add: tb_filled_def hcode_def)
  show ?thesis
  proof (cases "kraft ls = 2 ^ 15")
    case True
    then have "tb_huff t = 0" using huff rev15_ends(1) by simp
    then show ?thesis using fl True by (simp add: tb_finish_def)
  next
    case False
    then have m1: "max_len ls 1" "root = 1" "tb_next t = base" "tb_len t - tb_drop t = 1" and lt: "kraft ls < 2 ^ 15"
      using full mx kr by auto
    note one = one_code [OF so m1(1) lt]
    have h1: "tb_huff t = 1" using huff one(2) rev15_ends(2) by simp
    have len: "base + 1 < length (tb_tab t)" using fl m1(2) by (simp add: tb_filled_def)
    let ?tab = "(tb_tab t)[base + 1 := \<lparr>c_op = 64, c_bits = of_nat (tb_len t - tb_drop t), c_val = 0\<rparr>]"
    have l0: "lenseq ls work 0 = 1" using coded_max_one [OF m1(1) so, of 0] one(1) by simp
    have c0: "hcode ls work 0 = 0" by (simp add: hcode_def pos_def)
    have "root_codes type ls work root base (ncoded ls) ?tab"
      using fl l0 c0 m1(2) by (auto simp: tb_filled_def root_codes_def one(1) nth_list_update)
    moreover have "sub_codes type ls work root base (ncoded ls) ?tab (tb_next t - base) (tb_curr t) (tb_low t)"
      using l0 m1(2) by (simp add: sub_codes_def one(1))
    ultimately have "tb_filled type ls work root base tree0 sz (ncoded ls) (t\<lparr>tb_tab := ?tab\<rparr>)"
      using fl by (simp add: tb_filled_def)
    then show ?thesis using h1 len m1(2,3,4) one(1) l0 by (auto simp: tb_finish_def mk_code_def)
  qed
qed

lemma tb_inv_start:
  assumes ok: "build_ok type ls work root mx base tree (length tab)" and "2 ^ root \<le> space_of type"
    and mn: "mn = find_min 1 mx (len_counts ls)" "mn \<le> root" and c: "coded ls \<noteq> {}"
  shows "tb_inv type ls work root base tree (length tab) 0
    \<lparr>tb_tab = tab, tb_tree = tree, tb_huff = 0, tb_sym = 0, tb_len = mn, tb_next = base, tb_curr = root,
     tb_drop = 0, tb_low = None, tb_used = 2 ^ root, tb_count = len_counts ls\<rparr>"
proof -
  have so: "sorted_work ls work" and mx: "max_len ls mx" and lo: "lens_ok ls"
    and room: "base + space_of type \<le> length tab"
    using ok by (auto simp: build_ok_def)
  have n0: "0 < ncoded ls" using c by (simp add: card_gt_0_iff)
  have mx1: "1 \<le> mx" "mx \<le> 15"
    using mx lo by (auto simp: max_len_def coded_def lens_ok_def list_all_length)
  note spec = find_min_spec [OF mx1(1), of "len_counts ls", folded mn(1)]
  obtain s where s: "s \<in> coded ls" "ls ! s = mn"
  proof (cases "mn < mx")
    case True
    then have "count_list ls mn \<noteq> 0" using spec mx1(2) by simp
    then have "mn \<in> set ls" by (metis count_notin)
    then show thesis using that spec by (auto simp: coded_def in_set_conv_nth)
  next
    case False
    then show thesis using that mx spec by (auto simp: max_len_def)
  qed
  have "lenseq ls work 0 \<le> mn"
    using lenseq_mono [OF so _ rank_less [OF s(1)], of 0] lenseq_rank [OF so s(1)] s(2) by simp
  moreover have "\<not> lenseq ls work 0 < mn"
  proof
    assume lt: "lenseq ls work 0 < mn"
    moreover have "1 \<le> lenseq ls work 0" "lenseq ls work 0 \<le> 15" using lenseq_range [OF so lo n0] by auto
    ultimately have "count_list ls (lenseq ls work 0) = 0" using spec by (metis len_counts_nth)
    moreover have "lenseq ls work 0 \<in> set ls"
      using work_coded(1) [OF so n0] by (auto simp: lenseq_def coded_def)
    ultimately show False by (simp add: count_list_0_iff)
  qed
  ultimately have len: "mn = lenseq ls work 0" by simp
  have "base + 2 ^ root \<le> length tab" using room assms(2) by linarith
  moreover have "hcode ls work 0 = 0" by (simp add: hcode_def pos_def)
  moreover have "tree_codes ls work 0 tree tree" by (simp add: tree_codes_def)
  ultimately show ?thesis
    using len mn(2) remain_0 [OF so]
    by (simp add: tb_inv_def tb_filled_def tb_where_def root_codes_def sub_codes_def)
qed


text \<open>What a successful call has built: the tree holds the canonical codes and nothing else changed in
  it, and every coded symbol is found in the table by its code.\<close>

definition table_good :: "codetype \<Rightarrow> nat list \<Rightarrow> nat \<Rightarrow> ct_data list \<Rightarrow> table_out \<Rightarrow> bool" where
  "table_good type ls base tree out \<longleftrightarrow>
    length (to_tree out) = length tree \<and>
    (\<forall>s\<in>coded ls. to_tree out ! s = ct (of_nat (canon_code ls s), of_nat (ls ! s))) \<and>
    (\<forall>s. s \<notin> coded ls \<longrightarrow> to_tree out ! s = tree ! s) \<and>
    (\<forall>s\<in>coded ls. \<forall>x. x mod 2 ^ (ls ! s) = canon_code ls s \<longrightarrow>
      snd (lookup_code (to_tab out) base (to_bits out) x) = ls ! s \<and>
      c_op (fst (lookup_code (to_tab out) base (to_bits out) x)) = c_op (table_entry type [] s 0) \<and>
      c_val (fst (lookup_code (to_tab out) base (to_bits out) x)) = c_val (table_entry type [] s 0))"

lemma table_good_filled:
  assumes ok: "build_ok type ls work root mx base tree sz"
    and fl: "tb_filled type ls work root base tree sz (ncoded ls) t"
    and sz: "sz \<le> ENOUGH" and n: "length ls \<le> max_syms type"
    and out: "to_tab out = tb_tab t" "to_bits out = root" "to_tree out = tb_tree t"
  shows "table_good type ls base tree out"
proof -
  have so: "sorted_work ls work" using ok by (simp add: build_ok_def)
  have tc: "tree_codes ls work (ncoded ls) tree (tb_tree t)" using fl by (simp add: tb_filled_def)
  have "tb_tree t ! s = ct (of_nat (canon_code ls s), of_nat (ls ! s))" if s: "s \<in> coded ls" for s
    using tc rank_less [OF s] hcode_rank [OF so s] lenseq_rank [OF so s] so s
    by (auto simp: tree_codes_def sorted_work_def)
  moreover have "tb_tree t ! s = tree ! s" if "s \<notin> coded ls" for s
  proof -
    have "\<forall>i<ncoded ls. s \<noteq> work ! i" using that work_coded(1) [OF so] by blast
    with tc show ?thesis by (simp add: tree_codes_def)
  qed
  moreover have "table_entry type work s 0 = table_entry type [] s 0" if "s \<in> coded ls" for s
    using that n by (cases type) (auto simp: table_entry_def coded_def max_syms_def)
  ultimately show ?thesis
    using filled_lookup [OF ok fl sz n] tc out
    by (auto simp: table_good_def tree_codes_def)
qed

text \<open>The table of a successful call is good for every input.\<close>

lemma two_entries:
  assumes T: "T 0 = Some e0" "T 1 = Some e1" and b: "c_bits e0 = 1" "c_bits e1 = 1"
    and l: "\<not> is_link e0" "\<not> is_link e1" and k: "entry_of type e0" "entry_of type e1"
  shows "code_table T 1 type"
proof -
  have two: "i = 0 \<or> i = 1" if "i < 2 ^ 1" for i :: nat using that by auto
  show ?thesis
  proof (intro code_table.intro symbol_table.intro code_table_axioms.intro)
    fix i j :: nat and e assume i: "i < 2 ^ 1"
    show "T i \<noteq> None" using two [OF i] T by auto
    assume e: "T i = Some e"
    show "unat (c_bits e) \<le> 1" "is_link e \<or> entry_of type e" using two [OF i] T b k e by auto
    show "T j = Some e" if "j < 2 ^ 1" "j mod 2 ^ unat (c_bits e) = i mod 2 ^ unat (c_bits e)"
      using two [OF i] two [OF that(1)] that(2) T b e by auto
    assume "is_link e"
    then have False using two [OF i] T l e by auto
    then show "unat (c_bits e) = 1 \<and> unat (c_op e) \<le> 15" "T (unat (c_val e) + z) \<noteq> None"
      "unat (c_bits e2) \<le> unat (c_op e) \<and> 1 + unat (c_bits e2) \<le> 15" "T (unat (c_val e) + z') = Some e2" "entry_of type e2" for z z' e2
      by blast+
  qed (use T l in \<open>auto simp: less_2_cases_iff\<close>)
qed

lemma invalid_entry: "entry_of type (mk_code (64, 1, 0))" "\<not> is_link (mk_code (64, 1, 0))" "c_bits (mk_code (64, 1, 0)) = 1"
  by (simp_all add: entry_of_def is_link_def mk_code_def)

lemma one_code_table:
  assumes ok: "build_ok type ls work root mx base tree sz"
    and fl: "tb_filled type ls work root base tree sz (ncoded ls) t" and n: "length ls \<le> max_syms type"
    and one: "root = 1" "ncoded ls = 1" "lenseq ls work 0 = 1" "tb_tab t ! (base + 1) = mk_code (64, 1, 0)"
    and used: "2 ^ root \<le> tb_used t"
  shows "code_table (part_of base (base + tb_used t) (tb_tab t)) root type"
proof -
  have so: "sorted_work ls work" using ok by (simp add: build_ok_def)
  have w: "work ! 0 < max_syms type" using work_coded(1) [OF so, of 0] one(2) n by (simp add: coded_def)
  have T: "part_of base (base + tb_used t) (tb_tab t) i = Some (tb_tab t ! (base + i))" if "i < 2" for i
    using that used one(1) fl by (intro part_of_nth) (auto simp: tb_filled_def)
  have "hcode ls work 0 = 0" by (simp add: hcode_def pos_def)
  then have e0: "tb_tab t ! (base + 0) = table_entry type work (work ! 0) 1"
    using fl one by (auto simp: tb_filled_def root_codes_def)
  have "entry_of type (table_entry type work (work ! 0) 1)"
    using w entry_work [OF w, of work] unfolding entry_of_def by blast
  moreover have "c_bits (table_entry type work (work ! 0) 1) = 1" by (simp add: table_entry_def Let_def)
  ultimately show ?thesis
    unfolding one(1) using two_entries [OF T T] e0 one(4) entry_no_link [OF w] invalid_entry by simp
qed

lemma max_len_one:
  assumes "max_len ls mx" and "mx \<noteq> 0"
  shows "mx = 1 \<longleftrightarrow> \<not> list_ex (\<lambda>l. l > 1) ls"
proof
  assume m: "mx = 1"
  have "l \<le> 1" if l: "l \<in> set ls" for l
  proof (cases "l = 0")
    case False
    obtain s where "s < length ls" "ls ! s = l" using l by (auto simp: in_set_conv_nth)
    then show ?thesis using False assms(1) m by (auto simp: max_len_def coded_def)
  qed simp
  then show "\<not> list_ex (\<lambda>l. l > 1) ls" by (fastforce simp: list_ex_iff)
next
  assume n: "\<not> list_ex (\<lambda>l. l > 1) ls"
  obtain s where "s < length ls" "ls ! s = mx" using assms(1) by (auto simp: max_len_def coded_def)
  then have "mx \<in> set ls" by auto
  with n assms(2) show "mx = 1" by (auto simp: list_ex_iff)
qed

definition root_bits :: "nat \<Rightarrow> nat \<Rightarrow> nat \<Rightarrow> nat" where
  "root_bits bits mn mx = (let r = (if bits > mx then mx else bits) in if r < mn then mn else r)"

lemma table_core_success:
  assumes args: "table_args type lens codes tab base bits work0 tree"
    and ls: "ls = take codes lens" and c: "coded ls \<noteq> {}" and good: "\<not> bad_lens type ls"
  shows "\<exists>out. table_core type lens codes tab base bits work0 tree = Some out \<and>
    (to_ret out = 1 \<and> type \<noteq> CODES \<and> list_ex (\<lambda>l. l > bits) ls \<or>
     to_ret out = 0 \<and> table_good type ls base tree out \<and>
       code_table (part_of base (to_table out) (to_tab out)) (to_bits out) type)"
proof -
  have lo: "lens_ok ls"
    using args unfolding lens_ok_def ls table_args_def by (auto simp: list_all_iff split: if_splits)
  have len: "length ls = codes" using args ls by (simp add: table_args_def)
  have m: "ncoded ls \<le> codes" using card_mono [of "{..<codes}" "coded ls"] len by (auto simp: coded_def)
  define mx where "mx = find_max 15 (len_counts ls)"
  define mn where "mn = find_min 1 mx (len_counts ls)"
  define root where "root = root_bits bits mn mx"
  have mx0: "mx \<noteq> 0" using find_max_zero [OF lo] c by (simp add: mx_def)
  have ml: "max_len ls mx" using find_max_len [OF lo] mx0 by (simp add: mx_def)
  have mx15: "mx \<le> 15" using find_max_spec [of 15] by (simp add: mx_def)
  have mnr: "1 \<le> mn" "mn \<le> mx" using find_min_spec [of 1 mx "len_counts ls"] mx0 by (auto simp: mn_def)
  have root: "1 \<le> root" "root \<le> 15" "mn \<le> root" "root \<le> mx"
    using mnr mx15 mx0 args by (auto simp: root_def root_bits_def Let_def table_args_def)
  have codes7: "mx \<le> root \<and> root \<le> 7" if "type = CODES"
  proof -
    obtain s where "s \<in> coded ls" "ls ! s = mx" using ml by (auto simp: max_len_def)
    then have "mx \<in> set ls" by (auto simp: coded_def)
    then have "mx \<le> 7" using args that ls by (simp add: table_args_def list_all_iff)
    then show ?thesis using args that mnr by (auto simp: root_def root_bits_def Let_def table_args_def)
  qed
  have long: "list_ex (\<lambda>l. l > bits) ls" if "bits < mx \<or> bits < root"
  proof -
    have "bits < mx" using that root(4) by auto
    moreover obtain r where "r < length ls" "ls ! r = mx" using ml by (auto simp: max_len_def coded_def)
    ultimately show ?thesis unfolding list_ex_iff using nth_mem by blast
  qed
  have mx1: "mx = 1 \<longleftrightarrow> \<not> list_ex (\<lambda>l. l > 1) ls" by (rule max_len_one [OF ml mx0])
  have kr: "kraft ls \<le> 2 ^ 15" and inc: "kraft ls < 2 ^ 15 \<Longrightarrow> type \<noteq> CODES \<and> mx = 1"
  proof -
    obtain r where "r < length ls" "ls ! r \<noteq> 0" using c by (auto simp: coded_def)
    then have "list_ex (\<lambda>l. l \<noteq> 0) ls" unfolding list_ex_iff using nth_mem by blast
    then show "kraft ls \<le> 2 ^ 15" and "kraft ls < 2 ^ 15 \<Longrightarrow> type \<noteq> CODES \<and> mx = 1"
      using good mx1 by (auto simp: bad_lens_def)
  qed
  obtain work where work: "sort_syms ls 0 (make_offs 14 1 (len_counts ls) (replicate 16 0)) work0 = Some work"
    and so: "sorted_work ls work"
    using sort_syms_sorted [OF lo, of work0] m args by (auto simp: table_args_def)
  let ?t0 = "\<lparr>tb_tab = tab, tb_tree = tree, tb_huff = 0, tb_sym = 0, tb_len = mn, tb_next = base, tb_curr = root,
     tb_drop = 0, tb_low = None, tb_used = 2 ^ root, tb_count = len_counts ls\<rparr>"
  have nr: "\<not> lens_refused type mx (len_counts ls)"
    using kr inc by (auto simp: lens_refused_def check_left_kraft [OF lo])
  have "table_core type lens codes tab base bits work0 tree
    = table_fill type ls work (len_counts ls) mn mx root tab base bits tree"
    using args mx0 nr work
    by (simp add: table_core_def table_args_def ls [symmetric] count_lens_counts [OF lo] mx_def [symmetric]
        mn_def [symmetric, unfolded One_nat_def] root_def root_bits_def Let_def)
  note core = this [unfolded table_fill_def len]
  show ?thesis
  proof (cases "space_exceeded type (2 ^ root)")
    case True
    have "bits < root"
    proof (rule ccontr)
      assume "\<not> bits < root"
      then have "root \<le> 9" using args by (simp add: table_args_def)
      then have "(2::nat) ^ root \<le> 2 ^ 9" by (intro power_increasing) auto
      with True show False by (auto simp: space_exceeded_def)
    qed
    then show ?thesis using core True long codes7 args by (auto simp: table_args_def)
  next
    case False
    have "2 ^ root \<le> space_of type"
    proof (cases "type = CODES")
      case True
      then have "(2::nat) ^ root \<le> 2 ^ 7" using codes7 by (intro power_increasing) auto
      then show ?thesis using True by (simp add: space_of_def)
    qed (use False space_ok in auto)
    moreover have ok: "build_ok type ls work root mx base tree (length tab)"
      using so lo kr ml root args codes7 len by (auto simp: build_ok_def table_args_def)
    ultimately have inv: "tb_inv type ls work root base tree (length tab) 0 ?t0"
      using tb_inv_start [OF ok _ mn_def root(3) c] by simp
    have n0: "0 < ncoded ls" using c by (simp add: card_gt_0_iff)
    from tb_loop_ends [OF ok inv n0, of "Suc codes"] m consider
      (Break) t where "tb_loop (Suc codes) type ls work root mx base ?t0 = Some (Break t)"
        "tb_filled type ls work root base tree (length tab) (ncoded ls) t"
        "tb_len t = lenseq ls work (ncoded ls - 1)"
        "lenseq ls work (ncoded ls - 1) \<le> root \<longrightarrow> tb_drop t = 0 \<and> tb_next t = base"
    | (Return) t j where "tb_loop (Suc codes) type ls work root mx base ?t0 = Some (Return 1 t)"
        "j < ncoded ls" "root < lenseq ls work j"
      by fastforce
    then show ?thesis
    proof cases
      case Break
      have full: "kraft ls = 2 ^ 15 \<or> mx = 1 \<and> root = 1 \<and> tb_next t = base \<and> tb_len t - tb_drop t = 1"
      proof (cases "kraft ls = 2 ^ 15")
        case False
        then have "mx = 1" using inc kr by simp
        then have "root = 1" using root by simp
        moreover have "lenseq ls work (ncoded ls - 1) = 1"
          using coded_max_one [OF _ so, of "ncoded ls - 1"] ml \<open>mx = 1\<close> n0 by simp
        ultimately show ?thesis using Break(3,4) \<open>mx = 1\<close> by simp
      qed simp
      obtain tab' where fin: "tb_finish root base work t = Some \<lparr>to_ret = 0, to_tab = tab', to_table = base + tb_used t,
          to_bits = root, to_work = work, to_tree = tb_tree t\<rparr>"
        and fl: "tb_filled type ls work root base tree (length tab) (ncoded ls) (t\<lparr>tb_tab := tab'\<rparr>)"
        and oneq: "kraft ls = 2 ^ 15 \<or> root = 1 \<and> ncoded ls = 1 \<and> lenseq ls work 0 = 1 \<and> tab' ! (base + 1) = mk_code (64, 1, 0)"
        using tb_finish_filled [OF ok Break(2) full] by blast
      have used: "2 ^ root \<le> tb_used (t\<lparr>tb_tab := tab'\<rparr>)"
        using tb_loop_below [OF Break(1)] False space_ok by auto
      have n: "length ls \<le> max_syms type" "length tab \<le> ENOUGH" using args len by (auto simp: table_args_def)
      have ct: "code_table (part_of base (base + tb_used t) tab') root type"
        using oneq filled_code_table [OF ok fl n(2,1) _ used] one_code_table [OF ok fl n(1) _ _ _ _ used] codes7 by auto
      have "table_good type ls base tree \<lparr>to_ret = 0, to_tab = tab', to_table = base + tb_used t,
          to_bits = root, to_work = work, to_tree = tb_tree t\<rparr>"
        using table_good_filled [OF ok fl] args len by (simp add: table_args_def)
      then show ?thesis using core False Break(1) fin ct by simp
    next
      case Return
      have jm: "lenseq ls work j \<le> mx"
        using ml work_coded(1) [OF so Return(2)] by (simp add: max_len_def lenseq_def)
      then have "type \<noteq> CODES" using Return(3) codes7 by auto
      moreover have "bits < mx" using Return(3) jm by (auto simp: root_def root_bits_def Let_def split: if_splits)
      ultimately show ?thesis using core False long Return(1) by auto
    qed
  qed
qed


lemma lens_ok_args: "table_args type lens codes tab base bits work tree \<Longrightarrow> lens_ok (take codes lens)"
  unfolding lens_ok_def table_args_def by (auto simp: list_all_iff split: if_splits)

lemma coded_empty_iff: "coded ls = {} \<longleftrightarrow> list_all (\<lambda>l. l = 0) ls"
  by (auto simp: coded_def list_all_length)

lemma table_core_empty:
  assumes args: "table_args type lens codes tab base bits work tree" and c: "coded (take codes lens) = {}"
  shows "table_core type lens codes tab base bits work tree =
    Some \<lparr>to_ret = 0, to_tab = tab[base := mk_code (64, 1, 0), base + 1 := mk_code (64, 1, 0)], to_table = base + 2,
      to_bits = 1, to_work = work, to_tree = tree\<rparr>"
proof -
  note lo = lens_ok_args [OF args]
  have "base + 1 < length tab"
    using args by (cases type) (auto simp: table_args_def space_of_def)
  then show ?thesis
    using args find_max_zero [OF lo] c
    by (simp add: table_core_def table_args_def count_lens_counts [OF lo] Let_def mk_code_def)
qed

lemma table_core_refused:
  assumes args: "table_args type lens codes tab base bits work tree" and bad: "bad_lens type (take codes lens)"
  shows "table_core type lens codes tab base bits work tree =
    Some \<lparr>to_ret = -1, to_tab = tab, to_table = base, to_bits = bits, to_work = work, to_tree = tree\<rparr>"
proof -
  let ?ls = "take codes lens"
  note lo = lens_ok_args [OF args]
  have c: "coded ?ls \<noteq> {}"
  proof
    assume c: "coded ?ls = {}"
    then have z: "\<And>l. l \<in> set ?ls \<Longrightarrow> l = 0" by (auto simp: coded_empty_iff list_all_iff)
    then have "map units ?ls = map (\<lambda>_. 0) ?ls" by (intro map_cong) (auto simp: units_def)
    then have "kraft ?ls = 0" by (simp add: kraft_def)
    with bad z show False by (auto simp: bad_lens_def list_ex_iff)
  qed
  define mx where "mx = find_max 15 (len_counts ?ls)"
  have mx0: "mx \<noteq> 0" using find_max_zero [OF lo] c by (simp add: mx_def)
  then have ml: "max_len ?ls mx" using find_max_len [OF lo] by (simp add: mx_def)
  have "lens_refused type mx (len_counts ?ls)"
    using bad max_len_one [OF ml mx0] by (auto simp: lens_refused_def check_left_kraft [OF lo] bad_lens_def)
  then show ?thesis
    using args mx0
    by (simp add: table_core_def table_args_def count_lens_counts [OF lo] mx_def [symmetric] Let_def)
qed

lemma canon_code_fits:
  assumes "lens_ok ls" and "s \<in> coded ls"
  shows "unat (of_nat (canon_code ls s) :: ush) = canon_code ls s" and "unat (of_nat (ls ! s) :: ush) = ls ! s"
proof -
  have "canon_code ls s < 2 ^ 15" unfolding canon_code_def by (rule rev_bits_less)
  then show "unat (of_nat (canon_code ls s) :: ush) = canon_code ls s"
    by (simp add: unsigned_of_nat take_bit_nat_eq_self)
  have "ls ! s \<le> 15" using assms by (auto simp: coded_def lens_ok_def list_all_length)
  then show "unat (of_nat (ls ! s) :: ush) = ls ! s"
    by (simp add: unsigned_of_nat take_bit_nat_eq_self)
qed

lemma canon_code_props:
  assumes lo: "lens_ok ls" and kr: "kraft ls \<le> 2 ^ 15" and s: "s \<in> coded ls"
  shows "canon_code ls s < 2 ^ (ls ! s)"
    and "r \<in> coded ls \<Longrightarrow> r \<noteq> s \<Longrightarrow> ls ! r \<le> ls ! s \<Longrightarrow> canon_code ls s mod 2 ^ (ls ! r) \<noteq> canon_code ls r"
proof -
  obtain work where so: "sorted_work ls work"
    using sort_syms_sorted [OF lo, of "replicate (ncoded ls) 0"] by auto
  have h: "hcode ls work (rank ls t) = canon_code ls t" "lenseq ls work (rank ls t) = ls ! t" "rank ls t < ncoded ls"
    if "t \<in> coded ls" for t
    using that hcode_rank [OF so] lenseq_rank [OF so] rank_less by auto
  show less: "canon_code ls s < 2 ^ (ls ! s)" using hcode_less [OF so lo, of "rank ls s"] h [OF s] by simp
  show "canon_code ls s mod 2 ^ (ls ! r) \<noteq> canon_code ls r"
    if r: "r \<in> coded ls" "r \<noteq> s" "ls ! r \<le> ls ! s"
  proof (cases "before ls r s")
    case True
    then have "rank ls r < rank ls s" using rank_mono r(1) by blast
    then show ?thesis using prefix_free [OF so lo kr] h [OF s] h [OF r(1)] by metis
  next
    case False
    then have b: "before ls s r" using before_total r(2) by blast
    then have l: "ls ! s = ls ! r" using r(3) by (auto simp: before_def)
    have "rank ls s < rank ls r" using rank_mono s b by blast
    then have "canon_code ls r mod 2 ^ (ls ! s) \<noteq> canon_code ls s"
      using prefix_free [OF so lo kr] h [OF s] h [OF r(1)] by metis
    moreover have "canon_code ls r < 2 ^ (ls ! s)"
      using hcode_less [OF so lo, of "rank ls r"] h [OF r(1)] l by simp
    ultimately show ?thesis using less l by simp
  qed
qed

text \<open>Whatever the lengths, a call that succeeds leaves a table that answers every lookup, behind the
  entries that were there.\<close>

lemma inflate_table_usable:
  assumes "table_args type lens codes tab base bits work tree"
    and "table_core type lens codes tab base bits work tree = Some out" and "to_ret out = 0"
  shows "code_table (part_of base (to_table out) (to_tab out)) (to_bits out) type"
proof -
  have len: "base + 1 < length tab" using assms(1) by (cases type) (auto simp: table_args_def space_of_def)
  consider (bad) "bad_lens type (take codes lens)"
    | (empty) "\<not> bad_lens type (take codes lens)" "coded (take codes lens) = {}"
    | (good) "\<not> bad_lens type (take codes lens)" "coded (take codes lens) \<noteq> {}" by blast
  then show ?thesis
  proof cases
    case bad
    then show ?thesis using table_core_refused [OF assms(1)] assms(2,3) by auto
  next
    case empty
    have "part_of base (base + 2) (tab[base := mk_code (64, 1, 0), base + 1 := mk_code (64, 1, 0)]) i = Some (mk_code (64, 1, 0))"
      if "i < 2" for i
      using part_of_nth [of base i "base + 2"] that len by (auto simp: less_2_cases_iff)
    then have "code_table (part_of base (base + 2) (tab[base := mk_code (64, 1, 0), base + 1 := mk_code (64, 1, 0)])) 1 type"
      by (intro two_entries [OF _ _ invalid_entry(3,3,2,2,1,1)]) simp_all
    then show ?thesis using table_core_empty [OF assms(1) empty(2)] assms(2) by auto
  next
    case good
    then show ?thesis using table_core_success [OF assms(1) refl] assms(2,3) by auto
  qed
qed

lemma inflate_table_some:
  assumes "table_args type lens codes tab base bits work tree"
  shows "\<exists>out. table_core type lens codes tab base bits work tree = Some out"
  using table_core_refused [OF assms] table_core_empty [OF assms] table_core_success [OF assms refl] by blast

text \<open>What a caller can rely on; the tree has the canonical codes of the lengths.\<close>

definition tree_of :: "nat list \<Rightarrow> ct_data list \<Rightarrow> ct_data list \<Rightarrow> bool" where
  "tree_of ls tree tree' \<longleftrightarrow> length tree' = length tree \<and>
    (\<forall>s. tree' ! s = (if s \<in> coded ls then ct (of_nat (canon_code ls s), of_nat (ls ! s)) else tree ! s))"

lemma core_built:
  assumes "table_args type lens codes tab base bits work tree"
  obtains t where "table_core type lens codes tab base bits work tree = Some t" "length (to_tab t) = length tab"
    "length (to_work t) = length work" "same_below base (to_tab t) tab"
    "to_ret t = 0 \<Longrightarrow> type \<noteq> CODES \<Longrightarrow> to_table t \<le> base + space_of type"
    "to_ret t = 0 \<Longrightarrow> code_table (part_of base (to_table t) (to_tab t)) (to_bits t) type"
    "to_ret t = 0 \<Longrightarrow> tree_of (take codes lens) tree (to_tree t)"
proof -
  from inflate_table_some [OF assms] obtain t where
    t: "table_core type lens codes tab base bits work tree = Some t" by blast
  have tree: "tree_of (take codes lens) tree (to_tree t)" if r: "to_ret t = 0"
  proof (cases "coded (take codes lens) = {}")
    case True
    then show ?thesis using table_core_empty [OF assms True] t by (auto simp: tree_of_def)
  next
    case False
    moreover have "\<not> bad_lens type (take codes lens)" using table_core_refused [OF assms] t r by auto
    ultimately have "table_good type (take codes lens) base tree t"
      using table_core_success [OF assms refl] t r by auto
    then show ?thesis by (simp add: tree_of_def table_good_def)
  qed
  show thesis
    using table_core_below [OF t] inflate_table_usable [OF assms t] t tree
    by (intro that [of t]) (simp_all add: same_below_def)
qed

section \<open>Properties\<close>

text \<open>A concrete call: two distance codes of one bit.\<close>

definition demo_tab :: "code list" where
  "demo_tab = replicate ENOUGH (mk_code (0, 0, 0))"

definition demo_work :: "nat list" where
  "demo_work = replicate 288 0"

definition demo_tree :: "ct_data list" where
  "demo_tree = replicate 61 (ct (0, 0))"

lemma demo_lengths [simp]: "length demo_tab = ENOUGH" "length demo_work = 288" "length demo_tree = 61"
  by (simp_all add: demo_tab_def demo_work_def demo_tree_def)

lemma demo_args:
  "table_args DISTS [1, 1] 2 demo_tab 0 6 demo_work (replicate 2 (ct (0, 0)))"
  "table_args DISTS [1, 1] 2 demo_tab 0 6 demo_work demo_tree"
  by (simp_all add: table_args_def max_syms_def space_of_def)

lemma demo_core:
  assumes "table_args DISTS [1, 1] 2 demo_tab 0 6 demo_work tree"
  shows "\<exists>out. table_core DISTS [1, 1] 2 demo_tab 0 6 demo_work tree = Some out \<and> to_ret out = 0"
proof -
  have "coded [1, 1] \<noteq> {}" "\<not> bad_lens DISTS [1, 1]"
    by (simp_all add: coded_empty_iff bad_lens_def kraft_def units_def)
  then show ?thesis using table_core_success [OF assms, of "[1, 1]"] by auto
qed

lemma demo_dec: "\<exists>dec. inflate_table DISTS [1, 1] 2 demo_tab 0 6 demo_work = Some dec \<and> to_ret dec = 0"
  using demo_core [OF demo_args(1)] by (simp add: inflate_table_def)

lemma demo_enc:
  "\<exists>enc. inflate_table_my DISTS [1, 1] 2 demo_tab 0 6 demo_work demo_tree = Some enc \<and> to_ret enc = 0 \<and>
    to_tree enc ! 1 = ct (1, 1)"
proof -
  obtain out where out: "table_core DISTS [1, 1] 2 demo_tab 0 6 demo_work demo_tree = Some out" "to_ret out = 0"
    using demo_core [OF demo_args(2)] by blast
  have c: "coded [1, 1] \<noteq> {}" "\<not> bad_lens DISTS [1, 1]"
    by (simp_all add: coded_empty_iff bad_lens_def kraft_def units_def)
  have "table_good DISTS [1, 1] 0 demo_tree out"
    using table_core_success [OF demo_args(2), of "[1, 1]"] out c by auto
  moreover have "1 \<in> coded [1, 1]" by (simp add: coded_def)
  moreover have "canon_code [1, 1] 1 = 1"
    using rev15_ends(2) by (simp add: canon_code_def canon_pos_def before_def units_def upt_rec)
  ultimately show ?thesis using out by (auto simp: table_good_def inflate_table_my_def)
qed

text \<open>C18: For every argument that inflate and \<open>deflate_my\<close> pass, \<open>inflate_table\<close> and \<open>inflate_table_my\<close>
  stay inside their arrays and return: -1 with nothing changed exactly when the lengths are
  over-subscribed or incomplete (other than one code of one bit), a table of two invalid entries when
  no symbol has a code, and otherwise 0; the code 1 (table space exceeded) is only possible for
  literal and distance codes longer than the requested index bits.\<close>

theorem inflate_table_outcome:
  assumes "table_args type lens codes tab base bits work tree"
  shows "\<exists>out. inflate_table_my type lens codes tab base bits work tree = Some out \<and>
    (if bad_lens type (take codes lens)
     then to_ret out = -1 \<and> to_tab out = tab \<and> to_tree out = tree \<and> to_table out = base
     else if list_all (\<lambda>l. l = 0) (take codes lens)
     then to_ret out = 0 \<and> to_bits out = 1 \<and> to_table out = base + 2 \<and>
       to_tab out ! base = mk_code (64, 1, 0) \<and> to_tab out ! (base + 1) = mk_code (64, 1, 0)
     else to_ret out = 0 \<or> to_ret out = 1 \<and> type \<noteq> CODES \<and> list_ex (\<lambda>l. l > bits) (take codes lens))"
proof -
  have len: "base + 1 < length tab" using assms by (cases type) (auto simp: table_args_def space_of_def)
  consider (bad) "bad_lens type (take codes lens)"
    | (empty) "\<not> bad_lens type (take codes lens)" "coded (take codes lens) = {}"
    | (good) "\<not> bad_lens type (take codes lens)" "coded (take codes lens) \<noteq> {}" by blast
  then show ?thesis
  proof cases
    case bad
    then show ?thesis using table_core_refused [OF assms] by (simp add: inflate_table_my_def)
  next
    case empty
    then show ?thesis
      using table_core_empty [OF assms] len by (simp add: inflate_table_my_def coded_empty_iff)
  next
    case good
    then show ?thesis
      using table_core_success [OF assms refl] by (auto simp: inflate_table_my_def coded_empty_iff)
  qed
qed

theorem inflate_table_outcome_witness:
  "\<exists>out. inflate_table_my CODES [2, 2, 2, 2] 4 (replicate ENOUGH (mk_code (0, 0, 0))) 0 7 (replicate 288 0)
      (replicate 39 (ct (0, 0))) = Some out \<and> to_ret out = 0"
  using inflate_table_outcome [of CODES "[2, 2, 2, 2]" 4 "replicate ENOUGH (mk_code (0, 0, 0))" 0 7
      "replicate 288 0" "replicate 39 (ct (0, 0))"]
  by (simp add: table_args_def max_syms_def space_of_def bad_lens_def kraft_def units_def)

text \<open>C17: The decoder's tables decode what the encoder's tree encodes.  When \<open>inflate_table\<close> and
  \<open>inflate_table_my\<close> accept the same code lengths, input bits that start with the code which the tree of
  the latter has for a symbol are looked up in the table of the former as that symbol, and exactly
  the length of the code is consumed.\<close>

theorem table_decodes_tree:
  assumes "table_args type lens codes tab base bits work (replicate codes (ct (0, 0)))"
    and "inflate_table type lens codes tab base bits work = Some dec" and "to_ret dec = 0"
    and "table_args type lens codes tab' base' bits' work' tree"
    and "inflate_table_my type lens codes tab' base' bits' work' tree = Some enc" and "to_ret enc = 0"
    and "s < codes" and "lens ! s \<noteq> 0"
    and "x mod 2 ^ unat (Len (to_tree enc ! s)) = unat (Code (to_tree enc ! s))"
  shows "snd (lookup_code (to_tab dec) base (to_bits dec) x) = unat (Len (to_tree enc ! s)) \<and>
    unat (Len (to_tree enc ! s)) = lens ! s \<and>
    c_op (fst (lookup_code (to_tab dec) base (to_bits dec) x)) = c_op (table_entry type [] s 0) \<and>
    c_val (fst (lookup_code (to_tab dec) base (to_bits dec) x)) = c_val (table_entry type [] s 0)"
proof -
  let ?ls = "take codes lens"
  have s: "s \<in> coded ?ls" using assms(1,7,8) by (auto simp: coded_def table_args_def)
  then have c: "coded ?ls \<noteq> {}" by auto
  have nb: "\<not> bad_lens type ?ls"
    using table_core_refused [OF assms(1)] assms(2,3) by (auto simp: inflate_table_def)
  have dec: "table_good type ?ls base (replicate codes (ct (0, 0))) dec"
    using table_core_success [OF assms(1) refl c nb] assms(2,3) by (auto simp: inflate_table_def)
  have enc: "table_good type ?ls base' tree enc"
    using table_core_success [OF assms(4) refl c nb] assms(5,6) by (auto simp: inflate_table_my_def)
  note fits = canon_code_fits [OF lens_ok_args [OF assms(1)] s]
  have t: "unat (Code (to_tree enc ! s)) = canon_code ?ls s" "unat (Len (to_tree enc ! s)) = ?ls ! s"
    using enc s fits by (simp_all add: table_good_def ct_def)
  with assms(9) have "x mod 2 ^ (?ls ! s) = canon_code ?ls s" by simp
  then show ?thesis using dec s t assms(7) by (auto simp: table_good_def)
qed

theorem table_decodes_tree_witness:
  "\<exists>dec enc. inflate_table DISTS [1, 1] 2 demo_tab 0 6 demo_work = Some dec \<and>
     inflate_table_my DISTS [1, 1] 2 demo_tab 0 6 demo_work demo_tree = Some enc \<and>
     snd (lookup_code (to_tab dec) 0 (to_bits dec) 0x2b) = unat (Len (to_tree enc ! 1)) \<and>
     c_val (fst (lookup_code (to_tab dec) 0 (to_bits dec) 0x2b)) = c_val (table_entry DISTS [] 1 0)"
proof -
  obtain dec enc where d: "inflate_table DISTS [1, 1] 2 demo_tab 0 6 demo_work = Some dec" "to_ret dec = 0"
    and e: "inflate_table_my DISTS [1, 1] 2 demo_tab 0 6 demo_work demo_tree = Some enc" "to_ret enc = 0"
    "to_tree enc ! 1 = ct (1, 1)"
    using demo_dec demo_enc by blast
  then show ?thesis
    using table_decodes_tree [OF demo_args(1) d demo_args(2) e(1,2), of 1 "0x2b"]
    by (simp add: ct_def)
qed

text \<open>C19: The tree that \<open>inflate_table_my\<close> fills for the encoder is a prefix code with the given lengths:
  each code fits its length, no code starts with the code of another symbol, and symbols without a
  code keep their entry.\<close>

theorem tree_prefix_code:
  assumes "table_args type lens codes tab base bits work tree"
    and "inflate_table_my type lens codes tab base bits work tree = Some enc" and "to_ret enc = 0"
    and "r < codes" and "s < codes" and "r \<noteq> s" and "lens ! s \<noteq> 0"
  shows "unat (Len (to_tree enc ! s)) = lens ! s \<and> unat (Code (to_tree enc ! s)) < 2 ^ (lens ! s) \<and>
    (if lens ! r = 0 then to_tree enc ! r = tree ! r
     else lens ! r \<le> lens ! s \<longrightarrow>
       unat (Code (to_tree enc ! s)) mod 2 ^ (lens ! r) \<noteq> unat (Code (to_tree enc ! r)))"
proof -
  let ?ls = "take codes lens"
  have n: "codes \<le> length lens" using assms(1) by (simp add: table_args_def)
  have s: "s \<in> coded ?ls" using assms(5,7) n by (auto simp: coded_def)
  then have c: "coded ?ls \<noteq> {}" by auto
  have nb: "\<not> bad_lens type ?ls"
    using table_core_refused [OF assms(1)] assms(2,3) by (auto simp: inflate_table_my_def)
  have enc: "table_good type ?ls base tree enc"
    using table_core_success [OF assms(1) refl c nb] assms(2,3) by (auto simp: inflate_table_my_def)
  note lo = lens_ok_args [OF assms(1)]
  have kr: "kraft ?ls \<le> 2 ^ 15" using nb by (simp add: bad_lens_def)
  have t: "unat (Code (to_tree enc ! q)) = canon_code ?ls q" "unat (Len (to_tree enc ! q)) = ?ls ! q"
    if "q \<in> coded ?ls" for q
    using enc that canon_code_fits [OF lo that] by (simp_all add: table_good_def ct_def)
  show ?thesis
  proof (cases "lens ! r = 0")
    case True
    then have "r \<notin> coded ?ls" using assms(4) by (simp add: coded_def)
    then show ?thesis using enc True t [OF s] canon_code_props(1) [OF lo kr s] assms(5) by (simp add: table_good_def)
  next
    case False
    then have r: "r \<in> coded ?ls" using assms(4) n by (auto simp: coded_def)
    then show ?thesis
      using False t [OF s] t [OF r] canon_code_props(1) [OF lo kr s] canon_code_props(2) [OF lo kr s r assms(6)]
        assms(4,5) by simp
  qed
qed


theorem tree_prefix_code_witness:
  "\<exists>enc. inflate_table_my DISTS [1, 1] 2 demo_tab 0 6 demo_work demo_tree = Some enc \<and>
     unat (Len (to_tree enc ! 1)) = 1 \<and> unat (Code (to_tree enc ! 1)) \<noteq> unat (Code (to_tree enc ! 0))"
proof -
  obtain enc where e: "inflate_table_my DISTS [1, 1] 2 demo_tab 0 6 demo_work demo_tree = Some enc" "to_ret enc = 0"
    using demo_enc by blast
  then show ?thesis using tree_prefix_code [OF demo_args(2) e, of 0 1] by auto
qed

end
