(* ===== verification/Fixed_Tables.thy ===== *)
theory Fixed_Tables
  imports Inftrees_Lookup
begin

text \<open>
  The fixed tables of inffixed.h as code tables: \<open>lenfix\<close> and \<open>distfix\<close> keep the laws of \<open>code_table\<close>, so
  that the decoder's loops read them like the tables that \<open>inflate_table\<close> builds.
\<close>

section \<open>Literals and lengths\<close>

lemma rev_bits_low: "m \<le> n \<Longrightarrow> rev_bits n y mod 2 ^ m = rev_bits m (y div 2 ^ (n - m))"
  using rev_bits_add [of "n - m" m y] rev_bits_less [of m "y div 2 ^ (n - m)"] by simp

lemma fixed_sym_range: "fixed_sym x < 288"
proof -
  have "rev_bits 9 x < 512" using rev_bits_less [of 9 x] by simp
  then show ?thesis by (auto simp: fixed_sym_def fixed_sym_rev_def)
qed

lemma fixed_sym_prefix:
  "x mod 2 ^ fixed_len (fixed_sym x) = rev_bits (fixed_len (fixed_sym x)) (fixed_code (fixed_sym x))"
proof -
  let ?r = "rev_bits 9 x"
  define c where "c = fixed_sym x"
  have r: "?r < 512" using rev_bits_less [of 9 x] by simp
  have n: "fixed_len c \<le> 9" by (simp add: fixed_len_def)
  have code: "?r div 2 ^ (9 - fixed_len c) = fixed_code c"
  proof -
    consider "?r < 96" | "96 \<le> ?r" "?r < 384" | "384 \<le> ?r" "?r < 400" | "400 \<le> ?r" by linarith
    then show ?thesis
      by cases (use r in \<open>auto simp: c_def fixed_sym_def fixed_sym_rev_def fixed_len_def fixed_code_def\<close>)
  qed
  have "x mod 2 ^ fixed_len c = x mod 2 ^ 9 mod 2 ^ fixed_len c"
    unfolding mod_mod_cancel [OF le_imp_power_dvd [OF n]] ..
  also have "\<dots> = rev_bits 9 ?r mod 2 ^ fixed_len c" by (simp only: rev_bits_rev_bits)
  also have "\<dots> = rev_bits (fixed_len c) (fixed_code c)" by (simp add: rev_bits_low [OF n] code)
  finally show ?thesis by (simp add: c_def)
qed

lemma lenfix_at: "i < 2 ^ 9 \<Longrightarrow> nth_opt lenfix i = Some (fixed_entry (fixed_sym i))"
  using lenfix_nth [of i] table_lengths(1) by (simp add: nth_opt_def)

lemma fixed_entry_kind:
  assumes "c < 288"
  shows "entry_of LENS (fixed_entry c)" "\<not> is_link (fixed_entry c)"
proof -
  have e: "c < 286 \<Longrightarrow> fixed_entry c = table_entry LENS [] c (fixed_len c)"
    by (auto simp: fixed_entry_def table_entry_def mk_code_def fixed_len_def)
  show "entry_of LENS (fixed_entry c)"
  proof (cases "c < 286")
    case True
    then have "c < max_syms LENS" by (simp add: max_syms_def)
    then show ?thesis using e [OF True] unfolding entry_of_def by blast
  qed (simp add: entry_of_def fixed_entry_def mk_code_def)
  show "\<not> is_link (fixed_entry c)"
  proof (cases "c < 286")
    case True
    then show ?thesis using e entry_no_link [of c LENS] by (simp add: max_syms_def)
  qed (simp add: is_link_def fixed_entry_def mk_code_def)
qed

interpretation fixed_lens: code_table "nth_opt lenfix" 9 LENS
proof
  fix i j :: nat and e assume i: "i < 2 ^ 9"
  let ?c = "fixed_sym i"
  show "nth_opt lenfix i \<noteq> None" by (simp add: lenfix_at [OF i])
  assume "nth_opt lenfix i = Some e"
  then have e: "e = fixed_entry ?c" by (simp add: lenfix_at [OF i])
  have b: "unat (c_bits e) = fixed_len ?c" using fixed_entry_bits [OF fixed_sym_range] e by simp
  then show "unat (c_bits e) \<le> 9" by (simp add: fixed_len_def)
  show "is_link e \<or> entry_of LENS e" using fixed_entry_kind [OF fixed_sym_range] e by simp
  show "nth_opt lenfix j = Some e" if j: "j < 2 ^ 9" "j mod 2 ^ unat (c_bits e) = i mod 2 ^ unat (c_bits e)"
    using fixed_sym_code [OF fixed_sym_range, of j] fixed_sym_prefix [of i] j(2) b e by (simp add: lenfix_at [OF j(1)])
  assume "is_link e"
  then have False using fixed_entry_kind [OF fixed_sym_range] e by simp
  then show "unat (c_bits e) = 9 \<and> unat (c_op e) \<le> 15" "nth_opt lenfix (unat (c_val e) + z) \<noteq> None"
    "unat (c_bits e2) \<le> unat (c_op e) \<and> 9 + unat (c_bits e2) \<le> 15" "nth_opt lenfix (unat (c_val e) + z') = Some e2" "entry_of LENS e2" for z z' e2
    by blast+
qed simp_all

section \<open>Distances\<close>

definition distfix_ok :: "nat \<times> code \<Rightarrow> bool" where
  "distfix_ok = (\<lambda>(i, e). e = mk_code (ucast (dext ! rev_bits 5 i), 5, dbase ! rev_bits 5 i) \<or> e = mk_code (64, 5, 0))"

lemma distfix_ok_all: "list_all distfix_ok (indexed 0 distfix)"
  by (simp add: distfix_def distfix_ok_def rev_bits_numerals dext_def dbase_def mk_code_def)

lemma distfix_at:
  assumes "i < 2 ^ 5"
  shows "nth_opt distfix i = Some (distfix ! i)" "c_bits (distfix ! i) = 5" "entry_of DISTS (distfix ! i)"
    "\<not> is_link (distfix ! i)"
proof -
  have l: "length distfix = 32" by (rule table_lengths(2))
  show "nth_opt distfix i = Some (distfix ! i)" using assms l by (simp add: nth_opt_def)
  have r: "rev_bits 5 i < 32" using rev_bits_less [of 5 i] by simp
  have "distfix_ok (i, distfix ! i)" using list_all_indexed_nth [OF distfix_ok_all, of i] assms l by simp
  then consider "distfix ! i = mk_code (ucast (dext ! rev_bits 5 i), 5, dbase ! rev_bits 5 i)" | "distfix ! i = mk_code (64, 5, 0)"
    by (auto simp: distfix_ok_def)
  then have "c_bits (distfix ! i) = 5 \<and> entry_of DISTS (distfix ! i) \<and> \<not> is_link (distfix ! i)"
  proof cases
    case 1
    then have "distfix ! i = table_entry DISTS [] (rev_bits 5 i) 5" by (simp add: table_entry_def mk_code_def)
    moreover have "rev_bits 5 i < max_syms DISTS" using r by (simp add: max_syms_def)
    moreover have "c_bits (distfix ! i) = 5" using 1 by (simp add: mk_code_def)
    ultimately show ?thesis using entry_no_link [of "rev_bits 5 i" DISTS] unfolding entry_of_def by auto
  qed (simp add: entry_of_def is_link_def mk_code_def)
  then show "c_bits (distfix ! i) = 5" "entry_of DISTS (distfix ! i)" "\<not> is_link (distfix ! i)" by simp_all
qed

interpretation fixed_dists: code_table "nth_opt distfix" 5 DISTS
proof
  fix i j :: nat and e assume i: "i < 2 ^ 5"
  note at = distfix_at [OF i]
  show "nth_opt distfix i \<noteq> None" by (simp add: at(1))
  assume "nth_opt distfix i = Some e"
  then have e: "e = distfix ! i" by (simp add: at(1))
  show "unat (c_bits e) \<le> 5" "is_link e \<or> entry_of DISTS e" using at e by simp_all
  show "nth_opt distfix j = Some e" if "j < 2 ^ 5" "j mod 2 ^ unat (c_bits e) = i mod 2 ^ unat (c_bits e)"
    using that i e at(1,2) by simp
  assume "is_link e"
  then have False using at(4) e by simp
  then show "unat (c_bits e) = 5 \<and> unat (c_op e) \<le> 15" "nth_opt distfix (unat (c_val e) + z) \<noteq> None"
    "unat (c_bits e2) \<le> unat (c_op e) \<and> 5 + unat (c_bits e2) \<le> 15" "nth_opt distfix (unat (c_val e) + z') = Some e2" "entry_of DISTS e2" for z z' e2
    by blast+
qed simp_all

end
