(* ===== verification/Z_Stream.thy ===== *)
theory Z_Stream
  imports Zlib_Base Bit_Reader
begin

text \<open>
  The public structures of zfunc.h.  \<^verbatim>\<open>z_stream\<close>: \<open>next_in\<close> and \<open>avail_in\<close> are one list, the bytes
  available; the output buffer is the list \<open>z_out\<close> of the bytes written since the caller last set
  \<open>next_out\<close>, with \<open>avail_out\<close> bytes of room behind it.  Null pointers that the code tests for are
  flags.  The state behind the stream is the type parameter.
\<close>

record gz_header =
  gz_text :: int
  gz_time :: ulong
  gz_xflags :: int
  gz_os :: int
  gz_extra :: "byte list option"
  gz_extra_len :: nat
  gz_extra_max :: nat
  gz_name :: "byte list option"
  gz_name_max :: nat
  gz_comment :: "byte list option"
  gz_comm_max :: nat
  gz_hcrc :: int
  gz_done :: int

record 'st z_stream =
  z_next_in :: "byte list"
  z_in_null :: bool
  z_total_in :: ulong
  z_out :: "byte list"
  z_out_null :: bool
  z_avail_out :: nat
  z_total_out :: ulong
  z_msg :: "string option"
  z_state :: "'st option"
  z_zalloc :: bool
  z_zfree :: bool
  z_data_type :: int
  z_adler :: ulong
  z_addr :: nat

text \<open>How one pass through the body of a state machine loop ends: \<open>Next\<close> goes round again, \<open>Leave\<close> is
  \<^verbatim>\<open>goto inf_leave\<close>, \<open>Ret\<close> a direct return, \<open>Undef\<close> an access outside an array.\<close>

datatype 's step = Next 's | Leave 's | Ret int 's | Undef

datatype 's run = Done int 's | Undefined | Out_of_fuel

text \<open>\<^verbatim>\<open>NEEDBITS(n)\<close> followed by the rest of the case.\<close>

definition with_bits :: "nat \<Rightarrow> 'z reader_scheme \<Rightarrow> ('z reader_scheme \<Rightarrow> 'z reader_scheme step) \<Rightarrow> 'z reader_scheme step" where
  "with_bits n s k = (case NEEDBITS n s of Short s' \<Rightarrow> Leave s' | Got s' \<Rightarrow> k s')"

section \<open>Waiting for bits\<close>

text \<open>The registers after \<^verbatim>\<open>NEEDBITS(n)\<close>.\<close>

definition pulled :: "nat \<Rightarrow> 'z reader_scheme \<Rightarrow> byte list \<times> ulong \<times> nat \<Rightarrow> bool" where
  "pulled n s r \<longleftrightarrow> rinv (set_regs r s) \<and> rem (set_regs r s) = rem s \<and> (\<exists>j. fst r = drop j (r_next s)) \<and>
    (snd (snd r) = r_bits s \<or> snd (snd r) < n + 8) \<and> r_bits s \<le> snd (snd r)"

lemma with_bits_cases:
  assumes "rinv s" and "n \<le> 48"
  obtains (got) r where "with_bits n s k = k (set_regs r s)" "pulled n s r" "n \<le> snd (snd r)"
    | (short) r where "with_bits n s k = Leave (set_regs r s)" "pulled n s r" "fst r = []" "snd (snd r) < n"
proof -
  define r where "r = pull_bits n (r_next s) (r_hold s) (r_bits s)"
  have n: "NEEDBITS n s = (if snd (snd r) < n then Short (set_regs r s) else Got (set_regs r s))"
    by (simp add: NEEDBITS_def r_def)
  have sp: "hold_ok (fst (snd r)) (snd (snd r))" "bits_of (snd (snd r)) (fst (snd r)) @ bytes_bits (fst r) = rem s"
    "snd (snd r) < n \<Longrightarrow> fst r = []" "snd (snd r) = r_bits s \<or> snd (snd r) < n + 8" "r_bits s \<le> snd (snd r)"
    using pull_bits_spec [OF assms(1) [unfolded rinv_def] assms(2), of "r_next s" "fst r" "fst (snd r)" "snd (snd r)"]
    by (auto simp: r_def rem_def)
  have p: "pulled n s r"
    using sp pull_drop [of n "r_next s" "r_hold s" "r_bits s", folded r_def]
    by (simp add: pulled_def rinv_def rem_def [of "set_regs r s"])
  show thesis
    by (cases "snd (snd r) < n") (use got short n p sp(3) in \<open>auto simp: with_bits_def\<close>)
qed

end
