(* ===== verification/Recorder.thy ===== *)
theory Recorder
  imports Code_Reader Bit_Writer
begin

text \<open>
  The block header recorder of inflate.c: while \<open>header_flag\<close> is set, \<^verbatim>\<open>DROPBITS\<close> copies every bit it
  drops to \<open>header_buf\<close> through a second 16-bit register (\<open>my_bi_buf\<close>, \<open>my_bi_valid\<close>), the macros
  \<^verbatim>\<open>my_put_byte\<close>, \<^verbatim>\<open>my_put_short\<close>, \<^verbatim>\<open>my_send_bits\<close> and the routine \<^verbatim>\<open>my_bi_windup\<close>.  They are copies of the
  writer of trees.c on other fields; \<open>as_writer\<close> reads the recorder as such a writer, under which each
  macro is the corresponding routine, so that the recorder keeps the same \<open>bit_sink\<close> contract.  With
  the recording \<^verbatim>\<open>DROPBITS\<close> the registers are still a \<open>bit_source\<close>.  A write beyond the 605 bytes of
  \<open>header_buf\<close> sets the ghost flag \<open>header_oob\<close>.
\<close>

section \<open>Model\<close>

record recorder = huff +
  header_buf :: "byte list"
  header_index :: nat
  header_have :: nat
  header_flag :: int
  my_bi_buf :: ush
  my_bi_valid :: nat
  HEADER_BITS_CNT :: ulong
  header_oob :: bool

definition my_put_byte :: "byte \<Rightarrow> 'z recorder_scheme \<Rightarrow> 'z recorder_scheme" where
  "my_put_byte c s = (if header_have s < length (header_buf s)
     then s\<lparr>header_buf := (header_buf s)[header_have s := c], header_have := header_have s + 1\<rparr>
     else s\<lparr>header_have := header_have s + 1, header_oob := True\<rparr>)"

definition my_put_short :: "ush \<Rightarrow> 'z recorder_scheme \<Rightarrow> 'z recorder_scheme" where
  "my_put_short w s = my_put_byte (ucast (drop_bit 8 w)) (my_put_byte (ucast (w AND 0xff)) s)"

definition my_send_bits :: "uint32 \<Rightarrow> nat \<Rightarrow> 'z recorder_scheme \<Rightarrow> 'z recorder_scheme" where
  "my_send_bits value len s =
    (if int (my_bi_valid s) > int Buf_size - int len
     then let s1 = s\<lparr>my_bi_buf := reg_fill (my_bi_buf s) (my_bi_valid s) value\<rparr>;
              s2 = my_put_short (my_bi_buf s1) s1
          in s2\<lparr>my_bi_buf := reg_rest (my_bi_valid s) value, my_bi_valid := my_bi_valid s + len - Buf_size\<rparr>
     else s\<lparr>my_bi_buf := reg_fill (my_bi_buf s) (my_bi_valid s) value, my_bi_valid := my_bi_valid s + len\<rparr>)"

definition my_bi_windup :: "'z recorder_scheme \<Rightarrow> 'z recorder_scheme" where
  "my_bi_windup s =
    (let s1 = (if my_bi_valid s > 8 then my_put_short (my_bi_buf s) s
               else if my_bi_valid s > 0 then my_put_byte (ucast (my_bi_buf s)) s
               else s)
     in s1\<lparr>my_bi_buf := 0, my_bi_valid := 0\<rparr>)"

definition DROP_HEADER_BITS :: "nat \<Rightarrow> 'z recorder_scheme \<Rightarrow> 'z recorder_scheme" where
  "DROP_HEADER_BITS n s =
    (if header_flag s \<noteq> 0
     then let s1 = my_send_bits (of_nat (BITS n s)) n s
          in s1\<lparr>HEADER_BITS_CNT := HEADER_BITS_CNT s1 + of_nat n\<rparr>
     else s)"

definition DROPBITS :: "nat \<Rightarrow> 'z recorder_scheme \<Rightarrow> 'z recorder_scheme" where
  "DROPBITS n s = drop_bits n (DROP_HEADER_BITS n s)"

section \<open>The recorder as a writer\<close>

definition as_writer :: "'z recorder_scheme \<Rightarrow> writer" where
  "as_writer s = \<lparr>pending_buf = header_buf s, pending = header_have s, bi_buf = my_bi_buf s,
     bi_valid = my_bi_valid s, oob = header_oob s\<rparr>"

lemma as_writer_put_byte: "as_writer (my_put_byte c s) = put_byte c (as_writer s)"
  by (simp add: my_put_byte_def put_byte_def as_writer_def)

lemma as_writer_put_short: "as_writer (my_put_short w s) = put_short w (as_writer s)"
  by (simp add: my_put_short_def put_short_def as_writer_put_byte)

lemma as_writer_regs:
  "as_writer (s\<lparr>my_bi_buf := b, my_bi_valid := v\<rparr>) = (as_writer s)\<lparr>bi_buf := b, bi_valid := v\<rparr>"
  "as_writer (s\<lparr>my_bi_buf := b\<rparr>) = (as_writer s)\<lparr>bi_buf := b\<rparr>"
  by (simp_all add: as_writer_def)

lemma as_writer_fields:
  "bi_buf (as_writer s) = my_bi_buf s" "bi_valid (as_writer s) = my_bi_valid s"
  "pending (as_writer s) = header_have s" "pending_buf (as_writer s) = header_buf s"
  "oob (as_writer s) = header_oob s"
  by (simp_all add: as_writer_def)

lemma as_writer_send_bits: "as_writer (my_send_bits v n s) = send_bits v n (as_writer s)"
  by (simp add: my_send_bits_def send_bits_def Let_def as_writer_regs as_writer_put_short as_writer_fields)

lemma as_writer_windup: "as_writer (my_bi_windup s) = bi_windup (as_writer s)"
  by (simp add: my_bi_windup_def bi_windup_def Let_def as_writer_regs as_writer_put_short as_writer_put_byte
      as_writer_fields)

lemmas as_writer_simps = as_writer_put_byte as_writer_put_short as_writer_send_bits as_writer_windup as_writer_fields

definition hout :: "'z recorder_scheme \<Rightarrow> bool list" where "hout s = wout (as_writer s)"
definition hroom :: "nat \<Rightarrow> 'z recorder_scheme \<Rightarrow> bool" where "hroom n s = wroom n (as_writer s)"
definition hinv :: "'z recorder_scheme \<Rightarrow> bool" where "hinv s = winv (as_writer s)"

interpretation hsink: bit_sink hinv hroom hout my_send_bits my_bi_windup
  by unfold_locales
    (auto simp: hinv_def hroom_def hout_def as_writer_simps wsink.out_send wsink.invar_send
      wsink.room_send wsink.out_windup wsink.invar_windup intro: wsink.room_mono)

section \<open>The registers under the recording DROPBITS\<close>

text \<open>What the recorder's operations leave alone: everything in front of it and behind it.\<close>

definition same_rest :: "'z recorder_scheme \<Rightarrow> 'z recorder_scheme \<Rightarrow> bool" where
  "same_rest s t \<longleftrightarrow> s\<lparr>header_buf := [], header_have := 0, my_bi_buf := 0, my_bi_valid := 0, HEADER_BITS_CNT := 0,
     header_oob := False\<rparr> = t\<lparr>header_buf := [], header_have := 0, my_bi_buf := 0, my_bi_valid := 0,
     HEADER_BITS_CNT := 0, header_oob := False\<rparr>"

lemma same_rest_refl [simp]: "same_rest s s"
  by (simp add: same_rest_def)

lemma same_rest_trans [trans]: "same_rest s t \<Longrightarrow> same_rest t u \<Longrightarrow> same_rest s u"
  by (simp add: same_rest_def)

lemma same_rest_fields:
  assumes "same_rest s t"
  shows "r_next s = r_next t" "r_hold s = r_hold t" "r_bits s = r_bits t" "header_flag s = header_flag t"
    "header_index s = header_index t" "h_nlen s = h_nlen t" "h_ndist s = h_ndist t" "h_have s = h_have t"
    "h_lens s = h_lens t" "h_work s = h_work t" "h_codes s = h_codes t" "h_next s = h_next t"
    "h_lencode s = h_lencode t" "h_lenbits s = h_lenbits t" "h_distcode s = h_distcode t"
    "h_distbits s = h_distbits t" "recorder.more s = recorder.more t"
  using assms by (cases s; cases t; simp add: same_rest_def)+

lemma same_rest_ops [simp]:
  "same_rest (my_put_byte c s) s" "same_rest (my_put_short w s) s"
  "same_rest (my_send_bits v n s) s" "same_rest (my_bi_windup s) s" "same_rest (DROP_HEADER_BITS n s) s"
proof -
  show b: "same_rest (my_put_byte c s) s" for c and s :: "'a recorder_scheme"
    by (cases s) (simp add: same_rest_def my_put_byte_def)
  show sh: "same_rest (my_put_short w s) s" for w and s :: "'a recorder_scheme"
    unfolding my_put_short_def by (rule same_rest_trans [OF b b])
  have regs: "same_rest (s\<lparr>my_bi_buf := x, my_bi_valid := y\<rparr>) t = same_rest s t"
    "same_rest t (s\<lparr>my_bi_buf := x\<rparr>) = same_rest t s"
    "same_rest (s\<lparr>HEADER_BITS_CNT := z\<rparr>) t = same_rest s t"
    for x y z and s t :: "'a recorder_scheme"
    by (cases s; simp add: same_rest_def)+
  have sh': "same_rest (my_put_short w (s\<lparr>my_bi_buf := x\<rparr>)) s" for w x and s :: "'a recorder_scheme"
    using sh [of w "s\<lparr>my_bi_buf := x\<rparr>"] by (simp add: regs)
  show sb: "same_rest (my_send_bits v n s) s" for v n and s :: "'a recorder_scheme"
    by (simp add: my_send_bits_def Let_def regs sh')
  show "same_rest (my_bi_windup s) s" by (simp add: my_bi_windup_def Let_def regs sh b)
  show "same_rest (DROP_HEADER_BITS n s) s" by (simp add: DROP_HEADER_BITS_def Let_def regs sb)
qed

lemmas recorder_frame [simp] =
  same_rest_fields [OF same_rest_ops(1)] same_rest_fields [OF same_rest_ops(2)]
  same_rest_fields [OF same_rest_ops(3)] same_rest_fields [OF same_rest_ops(4)]
  same_rest_fields [OF same_rest_ops(5)]

lemma same_rest_rem: "same_rest s t \<Longrightarrow> rem s = rem t" "same_rest s t \<Longrightarrow> rinv s = rinv t"
  by (simp_all add: rem_def rinv_def same_rest_fields)

lemma DROPBITS_rem:
  assumes "n \<le> r_bits s"
  shows "rem (DROPBITS n s) = drop n (rem s)" and "rinv s \<Longrightarrow> rinv (DROPBITS n s)"
    and "r_bits (DROPBITS n s) = r_bits s - n"
  using assms drop_bits_inv [of "DROP_HEADER_BITS n s" n]
  by (simp_all add: DROPBITS_def drop_bits_rem same_rest_rem [OF same_rest_ops(5)])

interpretation recording: bit_source rinv rem r_bits NEEDBITS BITS DROPBITS
proof
  fix s :: "'a recorder_scheme" and n :: nat
  assume a: "rinv s"
  show "n \<le> 32 \<Longrightarrow> n \<le> length (rem s) \<Longrightarrow> \<exists>s'. NEEDBITS n s = Got s' \<and> rinv s' \<and> rem s' = rem s \<and> n \<le> r_bits s'"
    using plain.need_got [OF a] by blast
  show "n \<le> 32 \<Longrightarrow> length (rem s) < n \<Longrightarrow> \<exists>s'. NEEDBITS n s = Short s' \<and> rinv s' \<and> rem s' = rem s"
    using plain.need_short [OF a] by blast
  assume n: "n \<le> r_bits s" "n \<le> 16"
  then show "BITS n s = val_of (take n (rem s))" by (simp add: BITS_rem)
  from n show "rem (DROPBITS n s) = drop n (rem s)" by (simp add: DROPBITS_rem)
  from n a show "rinv (DROPBITS n s)" by (simp add: DROPBITS_rem)
qed

text \<open>Recording: while the flag is set, the bits dropped from the input are appended to the header.\<close>

lemma as_writer_drop_bits: "as_writer (drop_bits n s) = as_writer s"
  by (simp add: as_writer_def drop_bits_def)

lemma as_writer_cnt: "as_writer (s\<lparr>HEADER_BITS_CNT := z\<rparr>) = as_writer s"
  by (simp add: as_writer_def)

lemma DROPBITS_hout:
  assumes "hinv s" and "hroom (n + k) s" and "n \<le> 16" and "n \<le> r_bits s" and "header_flag s \<noteq> 0"
  shows "hout (DROPBITS n s) = hout s @ take n (rem s) \<and> hinv (DROPBITS n s) \<and> hroom k (DROPBITS n s)"
proof -
  let ?v = "of_nat (BITS n s) :: uint32"
  have e: "as_writer (DROPBITS n s) = as_writer (my_send_bits ?v n s)"
    using assms(5) by (simp add: DROPBITS_def DROP_HEADER_BITS_def Let_def as_writer_drop_bits as_writer_cnt)
  have l: "BITS n s < 2 ^ n" using assms(3) by (simp add: BITS_less)
  have u: "unat ?v = BITS n s"
  proof -
    have "BITS n s < 2 ^ 32" using l power_increasing [of n 32 "2::nat"] assms(3) by simp
    then show ?thesis by (simp add: unsigned_of_nat take_bit_nat_eq_self)
  qed
  have t: "take_bit n ?v = ?v" using l u by (simp flip: word_unat_lt_iff_bits)
  have "bits_of n ?v = bits_of n (BITS n s)" using bits_of_unat [of n ?v] u by simp
  also have "\<dots> = take n (rem s)"
    using bits_of_val_of [of "take n (rem s)"] assms(3,4) BITS_rem [of n s] by (simp add: length_rem)
  finally have b: "bits_of n ?v = take n (rem s)" .
  have rn: "hroom n s" by (rule hsink.room_mono [OF assms(2)]) simp
  show ?thesis
    using hsink.out_send [OF assms(1) rn assms(3) t] hsink.invar_send [OF assms(1) rn assms(3) t]
      hsink.room_send [OF assms(1,2,3) t] b
    by (simp add: hout_def hinv_def hroom_def e)
qed

lemma DROPBITS_quiet: "header_flag s = 0 \<Longrightarrow> DROPBITS n s = drop_bits n s"
  by (simp add: DROPBITS_def DROP_HEADER_BITS_def)

end
