(* ===== verification/Adler32.thy ===== *)
theory Adler32
  imports Prelude
begin

text \<open>
  The Adler-32 checksum of adler32.c: \<open>adler32_z\<close> with its special cases for one byte and for short
  buffers and its blocks of \<open>NMAX\<close> bytes between reductions, and \<open>adler32_combine_\<close>.  Arithmetic is in
  \<^verbatim>\<open>unsigned long\<close> (64 bits) as in the source; \<^verbatim>\<open>NO_DIVIDE\<close> is not defined, so the \<^verbatim>\<open>MOD\<close> macros are
  remainders.  The reference \<open>adler_ref\<close> reduces after every byte.
\<close>

section \<open>Model\<close>

abbreviation (input) "BASE \<equiv> (65521::nat)"
abbreviation (input) "BASE_w \<equiv> (65521::ulong)"
abbreviation (input) "NMAX \<equiv> (5552::nat)"

definition DO1 :: "byte \<Rightarrow> ulong \<times> ulong \<Rightarrow> ulong \<times> ulong" where
  "DO1 b = (\<lambda>(adler, sum2). let adler' = adler + ucast b in (adler', sum2 + adler'))"

definition DO16 :: "byte list \<Rightarrow> ulong \<times> ulong \<Rightarrow> ulong \<times> ulong" where
  "DO16 buf st = fold DO1 (take 16 buf) st"

fun do16_loop :: "nat \<Rightarrow> byte list \<Rightarrow> ulong \<times> ulong \<Rightarrow> byte list \<times> ulong \<times> ulong" where
  "do16_loop 0 buf st = (buf, st)"
| "do16_loop (Suc n) buf st = do16_loop n (drop 16 buf) (DO16 buf st)"

definition MOD_pair :: "ulong \<times> ulong \<Rightarrow> ulong \<times> ulong" where
  "MOD_pair = (\<lambda>(adler, sum2). (adler mod BASE_w, sum2 mod BASE_w))"

text \<open>The loop \<^verbatim>\<open>while (len >= NMAX)\<close>, one reduction for each block.\<close>

function nmax_loop :: "byte list \<Rightarrow> ulong \<times> ulong \<Rightarrow> byte list \<times> ulong \<times> ulong" where
  "nmax_loop buf st =
    (if length buf \<ge> NMAX
     then let (buf', st') = do16_loop (NMAX div 16) buf st in nmax_loop (drop NMAX buf) (MOD_pair st')
     else (buf, st))"
  by auto
termination by (relation "measure (\<lambda>(buf, st). length buf)") auto

declare nmax_loop.simps [simp del]

definition recombine :: "ulong \<times> ulong \<Rightarrow> ulong" where
  "recombine = (\<lambda>(adler, sum2). adler OR push_bit 16 sum2)"

text \<open>\<^verbatim>\<open>if (a >= m) a -= m;\<close>\<close>

definition sub_if :: "ulong \<Rightarrow> ulong \<Rightarrow> ulong" where
  "sub_if m a = (if a \<ge> m then a - m else a)"

text \<open>\<open>None\<close> is the call with \<^verbatim>\<open>Z_NULL\<close> and length 0.\<close>

definition adler32_z :: "ulong \<Rightarrow> byte list option \<Rightarrow> ulong" where
  "adler32_z adler0 bufp =
    (let sum2 = drop_bit 16 adler0 AND 0xffff;
         adler = adler0 AND 0xffff
     in case bufp of
          None \<Rightarrow> 1
        | Some buf \<Rightarrow>
            if length buf = 1 then
              let a1 = adler + ucast (buf ! 0);
                  a2 = sub_if BASE_w a1;
                  s1 = sum2 + a2;
                  s2 = sub_if BASE_w s1
              in recombine (a2, s2)
            else if length buf < 16 then
              let (a1, s1) = fold DO1 buf (adler, sum2);
                  a2 = sub_if BASE_w a1
              in recombine (a2, s1 mod BASE_w)
            else
              let (rest, st) = nmax_loop buf (adler, sum2) in
              if length rest \<noteq> 0 then
                let (rest', st') = do16_loop (length rest div 16) rest st
                in recombine (MOD_pair (fold DO1 rest' st'))
              else recombine st)"

definition adler32 :: "ulong \<Rightarrow> byte list option \<Rightarrow> ulong" where
  "adler32 adler buf = adler32_z adler buf"

text \<open>\<^verbatim>\<open>rem * sum1\<close> is an \<^verbatim>\<open>unsigned long\<close> product; \<^verbatim>\<open>len2\<close> is a signed 64-bit number.\<close>

definition adler32_combine :: "ulong \<Rightarrow> ulong \<Rightarrow> int \<Rightarrow> ulong" where
  "adler32_combine adler1 adler2 len2 =
    (if len2 < 0 then 0xffffffff
     else
       let rm = of_int (len2 mod 65521) :: ulong;
           sum1 = adler1 AND 0xffff;
           sum2 = (rm * sum1) mod BASE_w;
           sum1 = sum1 + ((adler2 AND 0xffff) + BASE_w - 1);
           sum2 = sum2 + ((drop_bit 16 adler1 AND 0xffff) + (drop_bit 16 adler2 AND 0xffff) + BASE_w - rm);
           sum1 = sub_if BASE_w sum1;
           sum1 = sub_if BASE_w sum1;
           sum2 = sub_if (push_bit 1 BASE_w) sum2;
           sum2 = sub_if BASE_w sum2
       in recombine (sum1, sum2))"

section \<open>Reference\<close>

definition adler_step :: "byte \<Rightarrow> nat \<times> nat \<Rightarrow> nat \<times> nat" where
  "adler_step b = (\<lambda>(a, s). let a' = (a + unat b) mod BASE in (a', (s + a') mod BASE))"

definition adler_ref :: "byte list \<Rightarrow> nat \<times> nat \<Rightarrow> nat \<times> nat" where
  "adler_ref buf st = fold adler_step buf st"

text \<open>The two halves of a checksum value.\<close>

definition halves :: "ulong \<Rightarrow> nat \<times> nat" where
  "halves w = (unat w mod 65536, unat w div 65536 mod 65536)"

definition adler_valid :: "ulong \<Rightarrow> bool" where
  "adler_valid w \<longleftrightarrow> fst (halves w) < BASE \<and> snd (halves w) < BASE \<and> unat w < 2 ^ 32"

definition unats :: "ulong \<times> ulong \<Rightarrow> nat \<times> nat" where
  "unats = (\<lambda>(a, s). (unat a, unat s))"

definition mods :: "nat \<times> nat \<Rightarrow> nat \<times> nat" where
  "mods = (\<lambda>(a, s). (a mod BASE, s mod BASE))"

text \<open>The sums without reduction.\<close>

definition sum_step :: "byte \<Rightarrow> nat \<times> nat \<Rightarrow> nat \<times> nat" where
  "sum_step b = (\<lambda>(a, s). (a + unat b, s + (a + unat b)))"

lemma mods_sum_step: "mods (sum_step b p) = adler_step b (mods p)"
proof (cases p)
  case (Pair a s)
  have "(s mod BASE + (a mod BASE + unat b) mod BASE) mod BASE = (s + (a + unat b)) mod BASE"
    by (simp only: mod_add_left_eq [of a] mod_add_eq)
  then show ?thesis using Pair by (simp add: mods_def sum_step_def adler_step_def Let_def mod_add_left_eq)
qed

lemma mods_fold_sum: "mods (fold sum_step buf p) = adler_ref buf (mods p)"
  by (induction buf arbitrary: p) (simp_all add: adler_ref_def mods_sum_step)

lemma adler_ref_append: "adler_ref (xs @ ys) p = adler_ref ys (adler_ref xs p)"
  by (simp add: adler_ref_def)

lemma adler_ref_mods:
  assumes "fst p < BASE" "snd p < BASE"
  shows "fst (adler_ref buf p) < BASE \<and> snd (adler_ref buf p) < BASE"
  using assms
  by (induction buf arbitrary: p) (auto simp: adler_ref_def adler_step_def Let_def split: prod.splits)

lemma unat_add_small:
  "unat a + unat b < 2 ^ 64 \<Longrightarrow> unat (a + b) = unat a + unat b" for a b :: ulong
  by (simp add: unat_word_ariths)

lemma unat_byte_less: "unat (b::byte) < 256"
  using unsigned_less [of b] by simp

lemma unat_byte: "unat (ucast (b::byte) :: ulong) = unat b"
  using unat_byte_less [of b] by (simp add: unsigned_ucast_eq take_bit_nat_eq_self_iff)

lemma DO1_exact:
  assumes "unat (fst st) + 255 < 2 ^ 40" and "unat (snd st) + unat (fst st) + 255 < 2 ^ 60"
  shows "unats (DO1 b st) = sum_step b (unats st)"
  using assms unat_byte_less [of b]
  by (cases st) (simp add: unats_def DO1_def sum_step_def Let_def unat_add_small unat_byte)

text \<open>A run of at most \<open>NMAX\<close> bytes from reduced sums is exact.\<close>

lemma fold_DO1_exact:
  assumes "length buf \<le> k" and "k \<le> NMAX" and "unat (fst st) \<le> BASE + 255 * (NMAX - k)"
    and "unat (snd st) \<le> BASE + (NMAX - k) * 2000000"
  shows "unats (fold DO1 buf st) = fold sum_step buf (unats st)"
  using assms
proof (induction buf arbitrary: st k)
  case (Cons b buf)
  obtain j where k: "k = Suc j" using Cons.prems(1) by (cases k) auto
  obtain a s where st: "st = (a, s)" by fastforce
  have bnd: "unat a \<le> 65521 + 255 * (5552 - k)" "unat s \<le> 65521 + (5552 - k) * 2000000" "k \<le> 5552"
    using Cons.prems(2-4) st by auto
  then have one: "unats (DO1 b st) = sum_step b (unats st)"
    by (intro DO1_exact) (simp_all add: st)
  then have u: "unat (fst (DO1 b st)) = unat a + unat b" "unat (snd (DO1 b st)) = unat s + (unat a + unat b)"
    by (simp_all add: st unats_def sum_step_def prod_eq_iff split: prod.splits)
  have "unat (fst (DO1 b st)) \<le> 65521 + 255 * (5552 - j)" "unat (snd (DO1 b st)) \<le> 65521 + (5552 - j) * 2000000"
    using bnd k unat_byte_less [of b] by (auto simp: u)
  from Cons.IH [OF _ _ this] Cons.prems(1,2) k show ?case by (simp add: one)
qed simp

lemma do16_loop_fold:
  "16 * n \<le> length buf \<Longrightarrow>
   do16_loop n buf st = (drop (16 * n) buf, fold DO1 (take (16 * n) buf) st)"
proof (induction n arbitrary: buf st)
  case (Suc n)
  have "take (16 * Suc n) buf = take 16 buf @ take (16 * n) (drop 16 buf)"
    by (simp flip: take_add)
  with Suc show ?case by (simp add: DO16_def add.commute)
qed simp

lemma unat_mod_base: "unat (w mod BASE_w) = unat w mod BASE"
  by (simp add: unat_mod)

lemma unats_MOD_pair: "unats (MOD_pair st) = mods (unats st)"
  by (cases st) (simp add: MOD_pair_def unats_def mods_def unat_mod_base)

definition reduced :: "ulong \<times> ulong \<Rightarrow> bool" where
  "reduced st \<longleftrightarrow> unat (fst st) < BASE \<and> unat (snd st) < BASE"

lemma reduced_MOD_pair: "reduced (MOD_pair st)"
  by (cases st) (simp add: MOD_pair_def reduced_def unat_mod_base)

lemma mods_reduced: "reduced st \<Longrightarrow> mods (unats st) = unats st"
  by (cases st) (simp add: mods_def unats_def reduced_def)

lemma run_exact:
  assumes "reduced st" and "length buf \<le> NMAX"
  shows "mods (unats (fold DO1 buf st)) = adler_ref buf (unats st)"
  using fold_DO1_exact [of buf NMAX st] mods_fold_sum [of buf "unats st"] mods_reduced [OF assms(1)] assms
  by (simp add: reduced_def)

lemma nmax_loop_exact:
  "reduced st \<Longrightarrow> nmax_loop buf st = (rest, st') \<Longrightarrow>
   reduced st' \<and> length rest < NMAX \<and> adler_ref rest (unats st') = adler_ref buf (unats st)"
proof (induction buf st rule: nmax_loop.induct)
  case (1 buf st)
  show ?case
  proof (cases "length buf \<ge> NMAX")
    case True
    let ?st1 = "fold DO1 (take NMAX buf) st"
    have d: "do16_loop (NMAX div 16) buf st = (drop NMAX buf, ?st1)"
      using do16_loop_fold [of 347 buf st] True by simp
    have "nmax_loop (drop NMAX buf) (MOD_pair ?st1) = (rest, st')"
      using "1.prems"(2) True d by (simp add: nmax_loop.simps [of buf])
    from "1.IH" [OF True d [symmetric] refl reduced_MOD_pair this]
    have "reduced st' \<and> length rest < NMAX \<and>
        adler_ref rest (unats st') = adler_ref (drop NMAX buf) (mods (unats ?st1))"
      by (simp add: unats_MOD_pair)
    moreover have "adler_ref (drop NMAX buf) (mods (unats ?st1)) = adler_ref buf (unats st)"
      using run_exact [OF "1.prems"(1), of "take NMAX buf"] True
      by (simp flip: adler_ref_append)
    ultimately show ?thesis by simp
  next
    case False
    then show ?thesis using 1 by (simp add: nmax_loop.simps [of buf])
  qed
qed

text \<open>Splitting and recombining a checksum value.\<close>

lemma unat_low_half: "unat (w AND 0xffff) = unat w mod 65536" for w :: ulong
proof -
  have "w AND 0xffff = take_bit 16 w" by (simp add: take_bit_eq_mask mask_eq_exp_minus_1)
  then show ?thesis by (simp add: take_bit_eq_mod unat_mod)
qed

lemma unat_drop16: "unat (drop_bit 16 w) = unat w div 65536" for w :: ulong
  by (simp add: drop_bit_eq_div unat_div)

lemma unat_high_half: "unat (drop_bit 16 w AND 0xffff) = unat w div 65536 mod 65536" for w :: ulong
  by (simp only: unat_low_half unat_drop16)

lemma halves_start: "unats (w AND 0xffff, drop_bit 16 w AND 0xffff) = halves w"
  by (simp only: unats_def halves_def unat_low_half unat_drop16 prod.case)

lemma recombine_value:
  assumes "reduced (a, s)" shows "unat (recombine (a, s)) = unat a + 65536 * unat s"
proof -
  have a: "take_bit 16 a = a" using assms by (simp add: reduced_def flip: word_unat_lt_iff_bits)
  have "a AND push_bit 16 s = 0"
    by (rule bit_word_eqI) (use a in \<open>auto simp: bit_simps dest: word_bit_ge\<close>)
  then have e: "recombine (a, s) = a + push_bit 16 s" by (simp add: recombine_def word_plus_or)
  have "unat (push_bit 16 s) = take_bit 64 (65536 * unat s)"
    by (subst unsigned_push_bit_eq) (simp add: push_bit_eq_mult mult.commute)
  also have "\<dots> = 65536 * unat s"
    using assms by (intro take_bit_nat_eq_self) (simp add: reduced_def)
  finally have "unat (push_bit 16 s) = 65536 * unat s" .
  then show ?thesis using assms unfolding e by (subst unat_add_small) (simp_all add: reduced_def)
qed

lemma halves_recombine: "reduced st \<Longrightarrow> halves (recombine st) = unats st \<and> adler_valid (recombine st)"
  by (cases st) (simp add: halves_def adler_valid_def recombine_value unats_def reduced_def)

lemma sub_base: "unat a < 2 * BASE \<Longrightarrow> unat (sub_if BASE_w a) = unat a mod BASE"
  by (auto simp: sub_if_def word_le_nat_alt unat_sub le_mod_geq not_le)

section \<open>Properties\<close>

lemma fold_sum_fst: "fst (fold sum_step buf p) \<le> fst p + 255 * length buf"
proof (induction buf arbitrary: p)
  case (Cons b bs)
  from Cons.IH [of "sum_step b p"] show ?case using unat_byte_less [of b]
    by (cases p) (auto simp: sum_step_def)
qed simp

text \<open>The three ways through \<open>adler32_z\<close>.  Each ends with reduced sums that agree with the reference.\<close>

definition adler_result :: "ulong \<Rightarrow> byte list \<Rightarrow> bool" where
  "adler_result adler buf \<longleftrightarrow> (\<exists>st. adler32_z adler (Some buf) = recombine st \<and> reduced st \<and>
     unats st = adler_ref buf (halves adler))"

definition adler_split :: "ulong \<Rightarrow> ulong \<Rightarrow> ulong \<Rightarrow> bool" where
  "adler_split adler a s \<longleftrightarrow> a = adler AND 0xffff \<and> s = drop_bit 16 adler AND 0xffff \<and>
     reduced (a, s) \<and> unats (a, s) = halves adler"

lemma adler_splitD:
  assumes "adler_split adler a s"
  shows "reduced (a, s)" "unats (a, s) = halves adler" "unat a < 65521" "unat s < 65521"
    "adler AND 0xffff = a" "drop_bit 16 adler AND 0xffff = s"
  using assms by (auto simp: adler_split_def reduced_def)

lemma adler_result_one:
  assumes "adler_split adler a s" shows "adler_result adler [b]"
proof -
  note S = adler_splitD [OF assms]
  have u1: "unat (a + ucast b) = unat a + unat b"
    using S unat_byte_less [of b] by (subst unat_add_small) (auto simp: unat_byte)
  define a2 where "a2 = sub_if BASE_w (a + ucast b)"
  have u2: "unat a2 = (unat a + unat b) mod BASE"
    unfolding a2_def using S unat_byte_less [of b] by (subst sub_base) (auto simp: u1)
  then have u3: "unat (s + a2) = unat s + unat a2"
    using S by (subst unat_add_small) auto
  define s2 where "s2 = sub_if BASE_w (s + a2)"
  have u4: "unat s2 = (unat s + unat a2) mod BASE"
    unfolding s2_def using S u2 by (subst sub_base) (auto simp: u3)
  have "adler32_z adler (Some [b]) = recombine (a2, s2)"
    by (simp add: adler32_z_def Let_def a2_def s2_def S(5,6))
  moreover have "unats (a2, s2) = adler_ref [b] (unats (a, s))"
    using u2 u4 by (simp add: unats_def adler_ref_def adler_step_def Let_def)
  moreover have "reduced (a2, s2)" using u2 u4 by (simp add: reduced_def)
  ultimately show ?thesis using S(2) unfolding adler_result_def by metis
qed

lemma adler_result_short:
  assumes "adler_split adler a s" and "length buf \<noteq> 1" and "length buf < 16" shows "adler_result adler buf"
proof -
  note S = adler_splitD [OF assms(1)]
  obtain a1 s1 where f: "fold DO1 buf (a, s) = (a1, s1)" by fastforce
  have e: "unats (a1, s1) = fold sum_step buf (unats (a, s))"
    using fold_DO1_exact [of buf NMAX "(a, s)"] S assms(3) f by (simp add: reduced_def)
  have "unat a1 \<le> unat a + 255 * length buf"
    using fold_sum_fst [of buf "unats (a, s)"] arg_cong [OF e, of fst] by (simp add: unats_def)
  then have "unat a1 < 2 * BASE" using S assms(3) by simp
  then have u: "unat (sub_if BASE_w a1) = unat a1 mod BASE" by (rule sub_base)
  let ?st = "(sub_if BASE_w a1, s1 mod BASE_w)"
  have "adler32_z adler (Some buf) = recombine ?st"
    using assms(2,3) f by (simp add: adler32_z_def Let_def S(5,6))
  moreover have "reduced ?st" using u by (simp add: reduced_def unat_mod_base)
  moreover have "unats ?st = mods (unats (a1, s1))" using u by (simp add: unats_def mods_def unat_mod_base)
  then have "unats ?st = adler_ref buf (halves adler)"
    using e mods_fold_sum [of buf "unats (a, s)"] mods_reduced [OF S(1)] S(2) by simp
  ultimately show ?thesis unfolding adler_result_def by blast
qed

lemma adler_result_long:
  assumes "adler_split adler a s" and "16 \<le> length buf" shows "adler_result adler buf"
proof -
  note S = adler_splitD [OF assms(1)]
  obtain rest st where n: "nmax_loop buf (a, s) = (rest, st)" by (cases "nmax_loop buf (a, s)")
  note N = nmax_loop_exact [OF S(1) n]
  show ?thesis
  proof (cases "rest = []")
    case True
    then have "adler32_z adler (Some buf) = recombine st"
      using assms(2) n by (simp add: adler32_z_def Let_def S(5,6))
    moreover have "unats st = adler_ref buf (halves adler)" using N True S(2) by (simp add: adler_ref_def)
    ultimately show ?thesis using N unfolding adler_result_def by blast
  next
    case False
    let ?st = "MOD_pair (fold DO1 rest st)" and ?k = "16 * (length rest div 16)"
    have "do16_loop (length rest div 16) rest st = (drop ?k rest, fold DO1 (take ?k rest) st)"
      by (rule do16_loop_fold) simp
    moreover have "fold DO1 (drop ?k rest) (fold DO1 (take ?k rest) st) = fold DO1 rest st"
      by (metis append_take_drop_id comp_apply fold_append)
    ultimately have "adler32_z adler (Some buf) = recombine ?st"
      using assms(2) n False by (simp add: adler32_z_def Let_def S(5,6))
    moreover have "unats ?st = adler_ref buf (halves adler)"
      using run_exact [of st rest] N S(2) by (simp add: unats_MOD_pair)
    ultimately show ?thesis using reduced_MOD_pair unfolding adler_result_def by blast
  qed
qed

lemma adler_valid_split:
  assumes "adler_valid adler"
  shows "adler_split adler (adler AND 0xffff) (drop_bit 16 adler AND 0xffff)"
  using assms halves_start [of adler] unat_low_half [of adler] unat_high_half [of adler]
  by (simp only: adler_split_def reduced_def adler_valid_def halves_def fst_conv snd_conv simp_thms)

lemma adler32_z_ref:
  assumes "adler_valid adler"
  shows "adler_valid (adler32_z adler (Some buf)) \<and>
    halves (adler32_z adler (Some buf)) = adler_ref buf (halves adler)"
proof -
  note S = adler_valid_split [OF assms]
  consider (one) b where "buf = [b]" | (short) "length buf \<noteq> 1" "length buf < 16" | (long) "16 \<le> length buf"
    by (metis One_nat_def Suc_length_conv length_0_conv not_le)
  then have "adler_result adler buf"
    using adler_result_one [OF S] adler_result_short [OF S] adler_result_long [OF S] by cases auto
  then show ?thesis unfolding adler_result_def using halves_recombine by metis
qed

lemma halves_inject: "adler_valid v \<Longrightarrow> adler_valid w \<Longrightarrow> halves v = halves w \<Longrightarrow> v = w"
proof -
  assume v: "adler_valid v" and w: "adler_valid w" and h: "halves v = halves w"
  have "unat u = fst (halves u) + 65536 * snd (halves u)" if "unat u < 2 ^ 32" for u :: ulong
    using that by (simp add: halves_def)
  from this [of v] this [of w] show "v = w" using v w h by (simp add: adler_valid_def word_unat_eq_iff)
qed

lemma adler_valid_1: "adler_valid 1" "halves 1 = (1, 0)"
  by (simp_all add: adler_valid_def halves_def)

text \<open>The dependence of the sums on the starting values.\<close>

lemma adler_ref_linear:
  "\<exists>d e. \<forall>a s. adler_ref buf (a mod BASE, s mod BASE)
     = ((a + d) mod BASE, (s + length buf * a + e) mod BASE)"
proof (induction buf)
  case (Cons b buf)
  then obtain d e where IH: "\<And>a s. adler_ref buf (a mod BASE, s mod BASE)
     = ((a + d) mod BASE, (s + length buf * a + e) mod BASE)" by blast
  have "adler_ref (b # buf) (a mod BASE, s mod BASE)
     = ((a + (unat b + d)) mod BASE, (s + length (b # buf) * a + (unat b + length buf * unat b + e)) mod BASE)" for a s
  proof -
    have "adler_step b (a mod BASE, s mod BASE) = ((a + unat b) mod BASE, (s + (a + unat b)) mod BASE)"
      using mods_sum_step [of b "(a, s)"] by (simp add: mods_def sum_step_def)
    then have "adler_ref (b # buf) (a mod BASE, s mod BASE) = adler_ref buf ((a + unat b) mod BASE, (s + (a + unat b)) mod BASE)"
      by (simp add: adler_ref_def)
    also have "\<dots> = ((a + (unat b + d)) mod BASE,
        (s + length (b # buf) * a + (unat b + length buf * unat b + e)) mod BASE)"
      unfolding IH by (simp add: algebra_simps)
    finally show ?thesis .
  qed
  then show ?case by blast
qed (auto simp: adler_ref_def intro!: exI [of _ 0])

lemma sub_twice:
  assumes "unat a < 3 * BASE" shows "unat (sub_if BASE_w (sub_if BASE_w a)) = unat a mod BASE"
proof -
  have b: "unat (sub_if BASE_w a) = (if unat a \<ge> BASE then unat a - BASE else unat a)"
    by (auto simp: sub_if_def word_le_nat_alt unat_sub)
  then have "unat (sub_if BASE_w a) < 2 * BASE" using assms by auto
  from sub_base [OF this] show ?thesis using b by (simp add: le_mod_geq)
qed

lemma sub_double:
  assumes "unat a < 4 * BASE" shows "unat (sub_if BASE_w (sub_if (push_bit 1 BASE_w) a)) = unat a mod BASE"
proof -
  have b: "unat (sub_if (push_bit 1 BASE_w) a) = (if unat a \<ge> 2 * BASE then unat a - 2 * BASE else unat a)"
    by (auto simp: sub_if_def word_le_nat_alt unat_sub)
  then have "unat (sub_if (push_bit 1 BASE_w) a) < 2 * BASE" using assms by auto
  from sub_base [OF this] show ?thesis
    using b mod_add_self2 [of "unat a - 2 * BASE" BASE] mod_add_self2 [of "unat a - BASE" BASE]
    by (auto simp: le_mod_geq)
qed

text \<open>Combining two checksums: the sums that \<open>adler32_combine\<close> computes, before the last reductions.\<close>

lemma combine_sums:
  assumes v: "adler_valid x" "adler_valid y" and n: "0 \<le> len2"
  shows "halves (adler32_combine x y len2) =
      ((fst (halves x) + fst (halves y) + BASE - 1) mod BASE,
       (nat len2 mod BASE * fst (halves x) + snd (halves x) + snd (halves y) + BASE - nat len2 mod BASE) mod BASE)
    \<and> adler_valid (adler32_combine x y len2)"
proof -
  define ax sx ay sy where "ax = x AND 0xffff" and "sx = drop_bit 16 x AND 0xffff"
    and "ay = y AND 0xffff" and "sy = drop_bit 16 y AND 0xffff"
  note X = adler_splitD [OF adler_valid_split [OF v(1)], folded ax_def sx_def]
  note Y = adler_splitD [OF adler_valid_split [OF v(2)], folded ay_def sy_def]
  define rm :: ulong where "rm = of_int (len2 mod 65521)"
  have rm: "unat rm = nat len2 mod BASE"
  proof -
    have "unat rm = nat (take_bit 64 (len2 mod 65521))" by (simp add: rm_def unsigned_of_int)
    also have "take_bit 64 (len2 mod 65521) = len2 mod 65521"
      by (rule take_bit_int_eq_self) (auto intro: order.strict_trans [OF pos_mod_bound])
    finally show ?thesis using n by (simp add: nat_mod_distrib)
  qed
  have rmb: "unat rm < 65521" by (simp add: rm)
  have m: "unat (rm * ax) = unat rm * unat ax"
    using mult_strict_mono [OF rmb X(3)] by (simp add: unat_word_ariths)
  define s1 where "s1 = ax + (ay + BASE_w - 1)"
  have u1: "unat s1 = unat ax + unat ay + BASE - 1"
    using X Y by (simp add: s1_def unat_word_ariths unat_sub_if_size)
  define s2 where "s2 = (rm * ax) mod BASE_w + (sx + sy + BASE_w - rm)"
  have u2: "unat s2 = (unat rm * unat ax) mod BASE + (unat sx + unat sy + BASE - unat rm)"
  proof -
    have a: "unat (sx + sy + BASE_w) = unat sx + unat sy + BASE"
      using X Y by (simp add: unat_word_ariths)
    have b: "unat (sx + sy + BASE_w - rm) = unat sx + unat sy + BASE - unat rm"
      using rmb by (subst unat_sub) (simp_all add: word_le_nat_alt a)
    show ?thesis unfolding s2_def
      using X Y by (subst unat_add_small) (simp_all add: b unat_mod_base m)
  qed
  define t1 t2 where "t1 = sub_if BASE_w (sub_if BASE_w s1)" and "t2 = sub_if BASE_w (sub_if (push_bit 1 BASE_w) s2)"
  have t1: "unat t1 = unat s1 mod BASE" unfolding t1_def by (rule sub_twice) (use u1 X Y in simp)
  have "unat s2 < 4 * BASE" using u2 X Y rmb mod_less_divisor [of BASE "unat rm * unat ax"] by linarith
  then have t2: "unat t2 = unat s2 mod BASE" unfolding t2_def by (rule sub_double)
  have "adler32_combine x y len2 = recombine (t1, t2)"
    using n by (simp only: adler32_combine_def Let_def t1_def t2_def s1_def s2_def ax_def sx_def ay_def sy_def rm_def not_less [symmetric] simp_thms if_False)
  moreover have "reduced (t1, t2)" by (simp add: reduced_def t1 t2)
  ultimately have "halves (adler32_combine x y len2) = (unat t1, unat t2)" "adler_valid (adler32_combine x y len2)"
    using halves_recombine [of "(t1, t2)"] by (auto simp: unats_def)
  moreover have "unat t2 = (unat rm * unat ax + (unat sx + unat sy + BASE - unat rm)) mod BASE"
    using t2 u2 by (simp add: mod_add_left_eq)
  moreover have "halves x = (unat ax, unat sx)" "halves y = (unat ay, unat sy)"
    using X(2) Y(2) by (simp_all add: unats_def)
  ultimately show ?thesis using t1 u1 rm rmb by (simp add: add.assoc)
qed

lemma combine_mod:
  fixes a d n s e :: nat
  shows "(a + (1 + d) mod BASE + BASE - 1) mod BASE = (a + d) mod BASE"
    and "(n mod BASE * a + s + (n + e) mod BASE + BASE - n mod BASE) mod BASE = (s + n * a + e) mod BASE"
proof -
  have "a + (1 + d) mod BASE + BASE - 1 = (a + 65520) + (1 + d) mod BASE" by simp
  then have "(a + (1 + d) mod BASE + BASE - 1) mod BASE = ((a + 65520) + (1 + d)) mod BASE"
    by (simp only: mod_add_right_eq)
  also have "(a + 65520) + (1 + d) = (a + d) + BASE" by simp
  finally show "(a + (1 + d) mod BASE + BASE - 1) mod BASE = (a + d) mod BASE"
    by (simp only: mod_add_self2)
  let ?r = "n mod BASE"
  have le: "?r \<le> BASE" by (simp add: order.strict_implies_order)
  have "(?r * a + s + (n + e) mod BASE + BASE - ?r) mod BASE
      = (?r * a + (s + (BASE - ?r) + (n + e) mod BASE)) mod BASE" using le by (simp add: ac_simps)
  also have "\<dots> = (n * a + (s + (BASE - ?r) + (n + e))) mod BASE"
    by (intro mod_add_cong) (simp_all only: mod_mult_left_eq mod_mod_trivial)
  also have "\<dots> = (n * a + s + e + ((BASE - ?r) + n)) mod BASE" by (simp add: ac_simps)
  also have "((BASE - ?r) + n) mod BASE = 0"
    using le by (metis le_add_diff_inverse2 mod_add_right_eq mod_self)
  then have "(n * a + s + e + ((BASE - ?r) + n)) mod BASE = (n * a + s + e) mod BASE"
    by (metis add.right_neutral mod_add_right_eq)
  finally show "(?r * a + s + (n + e) mod BASE + BASE - ?r) mod BASE = (s + n * a + e) mod BASE"
    by (simp add: ac_simps)
qed

text \<open>C32: For every checksum value with both halves below 65521, \<open>adler32\<close> computes the sums of the
  definition of Adler-32, reduced after every byte, for buffers of every length, and checking a
  message in two pieces gives the same value as checking it at once.\<close>

theorem adler32_reference:
  assumes "adler_valid adler"
  shows "halves (adler32 adler (Some (xs @ ys))) = fold adler_step (xs @ ys) (halves adler)
    \<and> adler32 adler (Some (xs @ ys)) = adler32 (adler32 adler (Some xs)) (Some ys)"
proof -
  note R = adler32_z_ref [OF assms]
  have x: "adler_valid (adler32_z adler (Some xs))" "halves (adler32_z adler (Some xs)) = adler_ref xs (halves adler)"
    using R [of xs] by auto
  have "halves (adler32_z (adler32_z adler (Some xs)) (Some ys)) = halves (adler32_z adler (Some (xs @ ys)))"
    using adler32_z_ref [OF x(1), of ys] x(2) R [of "xs @ ys"] by (simp add: adler_ref_append)
  then show ?thesis
    using halves_inject adler32_z_ref [OF x(1), of ys] R [of "xs @ ys"] unfolding adler32_def adler_ref_def by metis
qed

theorem adler32_reference_witness:
  "halves (adler32 1 (Some ([1, 2] @ [3]))) = fold adler_step ([1, 2] @ [3]) (halves 1)
    \<and> adler32 1 (Some ([1, 2] @ [3])) = adler32 (adler32 1 (Some [1, 2])) (Some [3])"
  using adler32_reference [OF adler_valid_1(1), of "[1, 2]" "[3]"] .

text \<open>C33: \<open>adler32_combine\<close> of the checksums of two messages and the length of the second is the checksum of
  their concatenation.\<close>

theorem adler32_combine_concat:
  "adler32_combine (adler32 1 (Some xs)) (adler32 1 (Some ys)) (int (length ys)) = adler32 1 (Some (xs @ ys))"
proof -
  obtain d e where L: "\<And>a s. adler_ref ys (a mod BASE, s mod BASE)
     = ((a + d) mod BASE, (s + length ys * a + e) mod BASE)" using adler_ref_linear [of ys] by blast
  let ?x = "adler32_z 1 (Some xs)" and ?y = "adler32_z 1 (Some ys)" and ?n = "length ys" and ?r = "length ys mod BASE"
  have x: "adler_valid ?x" "halves ?x = adler_ref xs (1, 0)" and y: "adler_valid ?y" "halves ?y = adler_ref ys (1, 0)"
    using adler32_z_ref [OF adler_valid_1(1)] adler_valid_1(2) by auto
  obtain a s where as: "halves ?x = (a, s)" "a < BASE" "s < BASE" using x(1) by (cases "halves ?x") (auto simp: adler_valid_def)
  have hy: "halves ?y = ((1 + d) mod BASE, (?n + e) mod BASE)" using L [of 1 0] y(2) by simp
  have hxy: "halves (adler32_z 1 (Some (xs @ ys))) = ((a + d) mod BASE, (s + ?n * a + e) mod BASE)"
    using adler32_z_ref [OF adler_valid_1(1), of "xs @ ys"] adler_valid_1(2) L [of a s] as x(2)
    by (simp add: adler_ref_append)
  have "halves (adler32_combine ?x ?y (int ?n)) = halves (adler32_z 1 (Some (xs @ ys)))"
    using combine_sums [OF x(1) y(1), of "int ?n"] as hy hxy combine_mod(1) [of a d] combine_mod(2) [of ?n a s e] by simp
  then show ?thesis
    using halves_inject combine_sums [OF x(1) y(1), of "int ?n"] adler32_z_ref [OF adler_valid_1(1), of "xs @ ys"]
    unfolding adler32_def by simp
qed

end
