(* ===== verification/Crc32.thy ===== *)
theory Crc32
  imports Crc32_Tables
begin

text \<open>
  The CRC-32 of crc32.c for W = 8, N = 5 on a little-endian machine: the bytewise loops, the braided
  computation on five interleaved words, and the combination of two checksums by multiplication
  modulo the polynomial.  The reference \<open>crc_ref\<close> shifts the message through the register bit by bit.
\<close>

section \<open>Model\<close>

text \<open>\<^verbatim>\<open>crc = (crc >> 8) ^ crc_table[(crc ^ *buf++) & 0xff]\<close> on an \<^verbatim>\<open>unsigned long\<close>.\<close>

definition crc_byte :: "byte \<Rightarrow> ulong \<Rightarrow> ulong" where
  "crc_byte b crc = drop_bit 8 crc XOR ucast (crc_table ! unat ((crc XOR ucast b) AND 0xff))"

definition crc_word_step :: "ulong \<Rightarrow> ulong" where
  "crc_word_step data = drop_bit 8 data XOR ucast (crc_table ! unat (data AND 0xff))"

definition crc_word :: "ulong \<Rightarrow> uint32" where
  "crc_word data = ucast ((crc_word_step ^^ 8) data)"

text \<open>Up to a word boundary: \<open>addr\<close> is the address of \<open>buf\<close>.\<close>

fun align_loop :: "nat \<Rightarrow> ulong \<Rightarrow> byte list \<Rightarrow> ulong \<times> byte list" where
  "align_loop addr crc [] = (crc, [])"
| "align_loop addr crc (b # bs) =
    (if addr mod 8 \<noteq> 0 then align_loop (addr + 1) (crc_byte b crc) bs else (crc, b # bs))"

text \<open>Little-endian words.\<close>

fun le_word :: "byte list \<Rightarrow> ulong" where
  "le_word [] = 0"
| "le_word (b # bs) = ucast b XOR push_bit 8 (le_word bs)"

definition load_words :: "byte list \<Rightarrow> ulong list" where
  "load_words buf = map (\<lambda>i. le_word (take 8 (drop (8 * i) buf))) [0..<5]"

definition braid_word :: "ulong \<Rightarrow> uint32" where
  "braid_word w = fold (\<lambda>k crc. crc XOR crc_braid_table ! k ! unat (drop_bit (8 * k) w AND 0xff)) [1..<8]
     (crc_braid_table ! 0 ! unat (w AND 0xff))"

definition braid_block :: "uint32 list \<Rightarrow> ulong list \<Rightarrow> uint32 list" where
  "braid_block crcs ws = map2 (\<lambda>c w. braid_word (ucast c XOR w)) crcs ws"

text \<open>\<^verbatim>\<open>while (--blks)\<close> with \<open>k\<close> iterations left.\<close>

fun braid_loop :: "nat \<Rightarrow> uint32 list \<Rightarrow> byte list \<Rightarrow> uint32 list \<times> byte list" where
  "braid_loop 0 crcs buf = (crcs, buf)"
| "braid_loop (Suc k) crcs buf = braid_loop k (braid_block crcs (load_words buf)) (drop 40 buf)"

definition braid_last :: "uint32 list \<Rightarrow> ulong list \<Rightarrow> ulong" where
  "braid_last crcs ws = fold (\<lambda>(c, w) crc. ucast (crc_word (ucast c XOR w XOR crc))) (zip crcs ws) 0"

definition braid_crc :: "nat \<Rightarrow> ulong \<Rightarrow> byte list \<Rightarrow> ulong" where
  "braid_crc blks crc buf =
    (let (crcs, rest) = braid_loop (blks - 1) [ucast crc, 0, 0, 0, 0] buf
     in braid_last crcs (load_words rest))"

text \<open>The loop with eight bytes per iteration, then the last bytes.\<close>

function bytes8_loop :: "ulong \<Rightarrow> byte list \<Rightarrow> ulong \<times> byte list" where
  "bytes8_loop crc buf =
    (if length buf \<ge> 8 then bytes8_loop (fold crc_byte (take 8 buf) crc) (drop 8 buf) else (crc, buf))"
  by auto
termination by (relation "measure (\<lambda>(crc, buf). length buf)") auto

declare bytes8_loop.simps [simp del]

text \<open>The braided part, when there are enough bytes: the new crc and the bytes that are left.\<close>

definition braid_part :: "nat \<Rightarrow> ulong \<Rightarrow> byte list \<Rightarrow> ulong \<times> byte list" where
  "braid_part addr crc0 buf0 =
    (if length buf0 \<ge> 5 * 8 + 8 - 1
     then let (crc, buf) = align_loop addr crc0 buf0; blks = length buf div (5 * 8)
          in (braid_crc blks crc buf, drop (blks * 40) buf)
     else (crc0, buf0))"

definition crc32_z :: "nat \<Rightarrow> ulong \<Rightarrow> byte list option \<Rightarrow> ulong" where
  "crc32_z addr crc0 bufp =
    (case bufp of
       None \<Rightarrow> 0
     | Some buf \<Rightarrow>
         let crc = NOT crc0 AND 0xffffffff;
             (crc, buf) = braid_part addr crc buf;
             (crc, buf) = bytes8_loop crc buf
         in fold crc_byte buf crc XOR 0xffffffff)"

definition crc32 :: "nat \<Rightarrow> ulong \<Rightarrow> byte list option \<Rightarrow> ulong" where
  "crc32 addr crc buf = crc32_z addr crc buf"

text \<open>\<open>multmodp\<close>: \<open>i\<close> is the position of the one bit of \<open>m\<close>.  For \<open>a = 0\<close> the loop does not end; the
  value is then \<open>None\<close>.\<close>

fun multmodp_loop :: "nat \<Rightarrow> uint32 \<Rightarrow> uint32 \<Rightarrow> uint32 \<Rightarrow> uint32 option" where
  "multmodp_loop i a b p =
    (let p' = (if bit a i then p XOR b else p)
     in if bit a i \<and> take_bit i a = 0 then Some p'
        else if i = 0 then None
        else multmodp_loop (i - 1) a (crc_shift b) p')"

declare multmodp_loop.simps [simp del]

definition multmodp :: "uint32 \<Rightarrow> uint32 \<Rightarrow> uint32 option" where
  "multmodp a b = multmodp_loop 31 a b 0"

fun x2nmodp_loop :: "nat \<Rightarrow> nat \<Rightarrow> uint32 \<Rightarrow> uint32 option" where
  "x2nmodp_loop n k p =
    (if n = 0 then Some p
     else case (if odd n then multmodp (x2n_table ! (k mod 32)) p else Some p) of
            None \<Rightarrow> None
          | Some p' \<Rightarrow> x2nmodp_loop (n div 2) (k + 1) p')"

declare x2nmodp_loop.simps [simp del]

text \<open>The length is a nonnegative file offset.\<close>

definition x2nmodp :: "nat \<Rightarrow> nat \<Rightarrow> uint32 option" where
  "x2nmodp n k = x2nmodp_loop n k (push_bit 31 1)"

definition crc32_combine_op :: "ulong \<Rightarrow> ulong \<Rightarrow> ulong \<Rightarrow> ulong option" where
  "crc32_combine_op crc1 crc2 p =
    map_option (\<lambda>m. ucast m XOR (crc2 AND 0xffffffff)) (multmodp (ucast p) (ucast crc1))"

definition crc32_combine_gen64 :: "nat \<Rightarrow> ulong option" where
  "crc32_combine_gen64 len2 = map_option ucast (x2nmodp len2 3)"

definition crc32_combine64 :: "ulong \<Rightarrow> ulong \<Rightarrow> nat \<Rightarrow> ulong option" where
  "crc32_combine64 crc1 crc2 len2 =
    (case x2nmodp len2 3 of
       None \<Rightarrow> None
     | Some p \<Rightarrow> map_option (\<lambda>m. ucast m XOR (crc2 AND 0xffffffff)) (multmodp p (ucast crc1)))"

text \<open>The generator of crc32.h: \<open>make_crc_table\<close> and \<open>braid\<close> (the little-endian halves).\<close>

definition make_crc_entry :: "nat \<Rightarrow> uint32" where
  "make_crc_entry i = (crc_shift ^^ 8) (of_nat i)"

fun make_x2n :: "nat \<Rightarrow> uint32 \<Rightarrow> uint32 list option" where
  "make_x2n 0 p = Some []"
| "make_x2n (Suc n) p =
    (case multmodp p p of None \<Rightarrow> None | Some q \<Rightarrow> map_option (\<lambda>t. q # t) (make_x2n n q))"

definition make_crc_table :: "uint32 list \<times> uint32 list option" where
  "make_crc_table =
    (map make_crc_entry [0..<256], map_option (\<lambda>t. push_bit 30 1 # t) (make_x2n 31 (push_bit 30 1)))"

definition braid :: "nat \<Rightarrow> nat \<Rightarrow> nat \<Rightarrow> uint32 list option" where
  "braid n w k =
    (case x2nmodp ((n * w + 3 - k) * 8) 0 of
       None \<Rightarrow> None
     | Some p \<Rightarrow> map_option (\<lambda>t. 0 # t)
         (those (map (\<lambda>i. multmodp (push_bit 24 (of_nat i)) p) [1..<256])))"

section \<open>Reference\<close>

definition crc_step :: "byte \<Rightarrow> uint32 \<Rightarrow> uint32" where
  "crc_step b r = adv 8 (r XOR ucast b)"

definition crc_ref :: "byte list \<Rightarrow> uint32 \<Rightarrow> uint32" where
  "crc_ref buf r = fold crc_step buf r"

lemma take_bitI: "(\<And>i. n \<le> i \<Longrightarrow> \<not> bit w i) \<Longrightarrow> take_bit n w = w" for w :: "'a::len word"
  by (rule bit_word_eqI) (auto simp: bit_take_bit_iff intro: ccontr [of "_ < n"])

text \<open>The register in 64 bits.\<close>

lemma ucast_crc_shift: "crc_shift (ucast (r::uint32) :: ulong) = ucast (crc_shift r)"
  by (simp add: crc_shift_def ucast_drop_bit_eq bit_ucast_iff unsigned_xor_eq del: bit_0)

lemma ucast_adv: "adv n (ucast (r::uint32) :: ulong) = ucast (adv n r)"
  by (induction n) (simp_all add: adv_Suc ucast_crc_shift)

definition crc_step64 :: "byte \<Rightarrow> ulong \<Rightarrow> ulong" where
  "crc_step64 b r = adv 8 (r XOR ucast b)"

lemma ucast_byte: "(ucast (ucast (b::byte) :: uint32) :: ulong) = ucast b"
  by (rule bit_word_eqI) (auto simp: bit_ucast_iff dest: bit_imp_le_length)

lemma ucast_crc_step: "crc_step64 b (ucast r) = ucast (crc_step b r)"
  by (simp add: crc_step64_def crc_step_def unsigned_xor_eq ucast_byte flip: ucast_adv)

lemma ucast_crc_ref: "fold crc_step64 buf (ucast r) = ucast (crc_ref buf r)"
  by (induction buf arbitrary: r) (simp_all add: crc_ref_def ucast_crc_step)

lemma ucast_down_up [simp]: "(ucast (ucast (c::uint32) :: ulong) :: uint32) = c"
  by (rule bit_word_eqI) (auto simp: bit_simps)

lemma low_byte: "(w::ulong) AND 0xff = take_bit 8 w"
  by (simp add: take_bit_eq_mask mask_eq_exp_minus_1)

lemma unat_low_byte: "unat (take_bit 8 (w::ulong)) < 256"
  using take_bit_nat_less_exp [of 8 "unat w"] by (simp add: unsigned_take_bit_eq)

lemma row_lookup64:
  assumes "linear_row n t" shows "ucast (t ! unat (take_bit 8 w)) = adv n (take_bit 8 (w::ulong))"
proof -
  have "t ! unat (take_bit 8 w) = adv n (of_nat (unat (take_bit 8 w)))"
    using linear_row_nth [OF assms unat_low_byte] .
  moreover have "(ucast (of_nat (unat (take_bit 8 w)) :: uint32) :: ulong) = take_bit 8 w"
    by (rule bit_word_eqI) (auto simp: bit_simps)
  ultimately show ?thesis by (simp flip: ucast_adv)
qed

lemma split_low: "(w::ulong) = take_bit 8 w XOR push_bit 8 (drop_bit 8 w)"
  by (rule bit_word_eqI) (auto simp: bit_simps)

text \<open>One table lookup advances the register by eight bits.\<close>

lemma crc_word_step_adv: "crc_word_step data = adv 8 data"
proof -
  have "adv 8 (push_bit 8 (drop_bit 8 data)) = drop_bit 8 data"
    by (rule adv_push, rule take_bitI) (auto simp: bit_simps dest: bit_imp_le_length)
  then have "adv 8 data = adv 8 (take_bit 8 data) XOR drop_bit 8 data"
    by (subst split_low) (simp only: adv_xor)
  then show ?thesis
    by (simp add: crc_word_step_def low_byte row_lookup64 [OF crc_table_linear] xor.commute)
qed

lemma crc_byte_step: "crc_byte b crc = crc_step64 b crc"
proof -
  have "drop_bit 8 (crc XOR ucast b) = drop_bit 8 crc"
    by (rule bit_word_eqI) (auto simp: bit_simps dest: bit_imp_le_length)
  then have "crc_byte b crc = crc_word_step (crc XOR ucast b)" by (simp add: crc_byte_def crc_word_step_def)
  then show ?thesis by (simp add: crc_word_step_adv crc_step64_def)
qed

section \<open>Words\<close>

text \<open>After enough shifts nothing is left above the 32 bits of the polynomial.\<close>

lemma crc_shift_bound:
  assumes "take_bit m r = r" and "32 \<le> k" and "m \<le> Suc k"
  shows "take_bit k (crc_shift r) = crc_shift (r :: ulong)"
proof (rule take_bitI)
  fix i
  have p: "take_bit 32 (0xedb88320 :: ulong) = 0xedb88320" by simp
  have "\<not> bit (0xedb88320 :: ulong) i" if "k \<le> i" using word_bit_ge [OF p, of i] that assms(2) by simp
  moreover have "\<not> bit r (Suc i)" if "k \<le> i" using word_bit_ge [OF assms(1), of "Suc i"] that assms(3) by simp
  ultimately have "\<not> bit (crc_shift r) i" if "k \<le> i"
    using that by (simp add: crc_shift_def bit_xor_iff bit_drop_bit_eq del: bit_0)
  then show "k \<le> i \<Longrightarrow> \<not> bit (crc_shift r) i" by blast
qed

lemma adv_bound: "take_bit (max 32 (64 - n)) (adv n r) = adv n (r :: ulong)"
proof (induction n)
  case 0
  show ?case by (rule take_bitI) (auto dest: bit_imp_le_length)
next
  case (Suc n)
  then show ?case unfolding adv_Suc by (rule crc_shift_bound) auto
qed

lemma adv_ucast: "32 \<le> n \<Longrightarrow> (ucast (ucast (adv n r) :: uint32) :: ulong) = adv n (r :: ulong)"
proof -
  assume n: "32 \<le> n"
  then have t: "take_bit 32 (adv n r) = adv n r" using adv_bound [of n r] by (simp add: max_absorb1)
  show ?thesis
    by (rule bit_word_eqI) (use word_bit_ge [OF t] in \<open>auto simp: bit_simps not_less intro: ccontr [of "_ < 32"]\<close>)
qed

lemma crc_word_adv: "ucast (crc_word data) = adv 64 data"
proof -
  have "(crc_word_step ^^ n) data = adv (8 * n) data" for n
    by (induction n) (simp_all add: crc_word_step_adv adv_add)
  from this [of 8] have "crc_word data = ucast (adv 64 data)" by (simp add: crc_word_def)
  then show ?thesis by (simp add: adv_ucast)
qed

lemma le_word_bound: "take_bit (8 * length bs) (le_word bs) = le_word bs"
proof (induction bs)
  case (Cons b bs)
  have "\<not> bit (le_word (b # bs)) i" if "8 * length (b # bs) \<le> i" for i
    using that word_bit_ge [OF Cons, of "i - 8"] by (auto simp: bit_simps dest: bit_imp_le_length)
  then show ?case by (rule take_bitI)
qed simp

text \<open>A word xored into the register is its bytes shifted through it one after the other.\<close>

lemma bytes_adv: "length bs \<le> 8 \<Longrightarrow> fold crc_step64 bs r = adv (8 * length bs) (r XOR le_word bs)"
proof (induction bs arbitrary: r)
  case (Cons b bs)
  let ?n = "8 * length bs"
  have "adv 8 (push_bit 8 (le_word bs)) = le_word bs"
    using Cons.prems word_bit_ge [OF le_word_bound [of bs]] by (intro adv_push take_bitI) simp
  then have "adv 8 (r XOR le_word (b # bs)) = crc_step64 b r XOR le_word bs"
    by (simp add: crc_step64_def adv_xor ac_simps)
  then have "adv (?n + 8) (r XOR le_word (b # bs)) = adv ?n (crc_step64 b r XOR le_word bs)"
    by (simp only: adv_add)
  then show ?case using Cons by (simp add: add.commute)
qed simp

section \<open>Braids\<close>

lemma fold_xor_bytes:
  "fold (\<lambda>k c. c XOR push_bit (8 * k) (take_bit 8 (drop_bit (8 * k) w))) [1..<Suc n] (take_bit 8 w)
    = take_bit (8 * Suc n) (w :: ulong)"
proof (induction n)
  case (Suc n)
  have "take_bit (8 * Suc n) w XOR push_bit (8 * Suc n) (take_bit 8 (drop_bit (8 * Suc n) w)) = take_bit (8 * Suc (Suc n)) w"
    by (rule bit_word_eqI) (auto simp: bit_simps)
  with Suc show ?case by simp
qed simp

lemma adv_push_byte:
  assumes "8 * k \<le> 56" and "8 * k \<le> n"
  shows "adv n (push_bit (8 * k) (take_bit 8 w)) = adv (n - 8 * k) (take_bit 8 (w :: ulong))"
proof -
  have "adv (8 * k) (push_bit (8 * k) (take_bit 8 w)) = take_bit 8 w"
    using assms(1) by (intro adv_push take_bitI) (auto simp: bit_take_bit_iff)
  then have "adv (n - 8 * k + 8 * k) (push_bit (8 * k) (take_bit 8 w)) = adv (n - 8 * k) (take_bit 8 w)"
    by (simp only: adv_add)
  then show ?thesis using assms(2) by simp
qed

text \<open>The eight lookups for a word advance it by the 320 bits of a block.\<close>

lemma braid_fold:
  "n < 8 \<Longrightarrow> ucast (fold (\<lambda>k crc. crc XOR crc_braid_table ! k ! unat (drop_bit (8 * k) w AND 0xff)) [1..<Suc n]
     (crc_braid_table ! 0 ! unat (w AND 0xff)))
   = adv 320 (fold (\<lambda>k c. c XOR push_bit (8 * k) (take_bit 8 (drop_bit (8 * k) w))) [1..<Suc n] (take_bit 8 w))"
  for w :: ulong
proof (induction n)
  case 0
  show ?case using row_lookup64 [OF braid_table_nth [of 0]] by (simp add: low_byte)
next
  case (Suc n)
  then show ?case
    using row_lookup64 [OF braid_table_nth [of "Suc n"], of "drop_bit (8 * Suc n) w"] adv_push_byte [of "Suc n" 320 "drop_bit (8 * Suc n) w"]
    by (simp add: low_byte unsigned_xor_eq adv_xor diff_mult_distrib2)
qed

lemma braid_word_adv: "ucast (braid_word w) = adv 320 w"
proof -
  have "take_bit 64 w = w" by (rule take_bitI) (auto dest: bit_imp_le_length)
  then show ?thesis using braid_fold [of 7 w] fold_xor_bytes [of w 7] by (simp add: braid_word_def)
qed

definition word_step :: "ulong \<Rightarrow> ulong \<Rightarrow> ulong" where
  "word_step w r = adv 64 (r XOR w)"

lemma word_step_lin:
  "length us = length vs \<Longrightarrow>
   fold word_step (map2 (XOR) us vs) (a XOR b) = fold word_step us a XOR fold word_step vs b"
proof (induction us vs arbitrary: a b rule: list_induct2)
  case (Cons u us v vs)
  have "word_step (u XOR v) (a XOR b) = word_step u a XOR word_step v b"
    by (simp add: word_step_def adv_xor ac_simps)
  with Cons show ?case by simp
qed simp

lemma word_step_adv: "fold word_step (map (adv m) us) (adv m a) = adv m (fold word_step us a)"
proof (induction us arbitrary: a)
  case (Cons u us)
  have "word_step (adv m u) (adv m a) = adv m (word_step u a)"
    by (simp add: word_step_def add.commute flip: adv_xor adv_add)
  with Cons show ?case by simp
qed simp

lemma word_step_zeros: "fold word_step (replicate n 0) a = adv (64 * n) a"
  by (induction n arbitrary: a) (simp_all add: word_step_def add.commute flip: adv_add)

lemma word_step_map2_zero: "fold word_step vs a = adv (64 * length vs) a XOR fold word_step vs 0"
  using word_step_lin [of "replicate (length vs) 0" vs a 0] word_step_zeros [of "length vs" a]
  by (simp add:  zip_replicate1 comp_def split_def)

text \<open>The crcs still to be xored into the next block stand for the register: computing them braid by braid
  for a block and then going on is the same as going through the words of the block in order.\<close>

definition braid_value :: "uint32 list \<Rightarrow> ulong list \<Rightarrow> ulong" where
  "braid_value crcs ws = fold word_step (map2 (XOR) (map ucast crcs) ws) 0"

lemma braid_last_value: "length crcs = length ws \<Longrightarrow> braid_last crcs ws = braid_value crcs ws"
proof -
  have "fold (\<lambda>(c, w) crc. ucast (crc_word (ucast c XOR w XOR crc))) (zip crcs ws) r
      = fold word_step (map2 (XOR) (map ucast crcs) ws) r" if "length crcs = length ws" for r
    using that by (induction crcs ws arbitrary: r rule: list_induct2) (simp_all add: crc_word_adv word_step_def ac_simps)
  then show "length crcs = length ws \<Longrightarrow> ?thesis" by (simp add: braid_last_def braid_value_def)
qed

lemma braid_block_value:
  assumes "length crcs = 5" and "length ws = 5" and "length vs = 5"
  shows "braid_value (braid_block crcs ws) vs = fold word_step vs (braid_value crcs ws)"
proof -
  let ?xs = "map2 (XOR) (map ucast crcs) ws"
  have "map ucast (braid_block crcs ws) = map (adv 320) ?xs"
    using assms(1,2) by (intro nth_equalityI) (simp_all add: braid_block_def braid_word_adv)
  moreover have "fold word_step (map2 (XOR) (map (adv 320) ?xs) vs) (0 XOR 0)
      = fold word_step (map (adv 320) ?xs) 0 XOR fold word_step vs 0"
    by (rule word_step_lin) (use assms in simp)
  moreover have "fold word_step (map (adv 320) ?xs) 0 = adv 320 (fold word_step ?xs 0)"
    using word_step_adv [of 320 ?xs 0] by simp
  ultimately show ?thesis
    using word_step_map2_zero [of vs "fold word_step ?xs 0"] assms(3) by (simp add: braid_value_def)
qed

lemma braid_block_length [simp]: "length (braid_block crcs ws) = min (length crcs) (length ws)"
  by (simp add: braid_block_def)

lemma load_words_length [simp]: "length (load_words buf) = 5"
  by (simp add: load_words_def)

lemma word_step_bytes:
  assumes "length bs = 8" shows "word_step (le_word bs) r = fold crc_step64 bs r"
  using bytes_adv [of bs r] assms by (simp add: word_step_def)

lemma load_words_bytes:
  assumes "40 \<le> length buf" shows "fold word_step (load_words buf) r = fold crc_step64 (take 40 buf) r"
proof -
  have "fold word_step (map (\<lambda>i. le_word (take 8 (drop (8 * i) buf))) [0..<n]) r
      = fold crc_step64 (take (8 * n) buf) r" if "8 * n \<le> length buf" for n
    using that
  proof (induction n)
    case (Suc n)
    have "take (8 * Suc n) buf = take (8 * n) buf @ take 8 (drop (8 * n) buf)"
      using take_add [of "8 * n" 8 buf] by (simp add: add.commute)
    moreover have "length (take 8 (drop (8 * n) buf)) = 8" using Suc.prems by simp
    ultimately show ?case using Suc word_step_bytes by simp
  qed simp
  from this [of 5] assms show ?thesis by (simp add: load_words_def)
qed

lemma braid_loop_value:
  assumes "length crcs = 5" and "40 * Suc k \<le> length buf" and "braid_loop k crcs buf = (crcs', rest)"
  shows "length crcs' = 5 \<and> rest = drop (40 * k) buf \<and>
    braid_value crcs' (load_words rest)
      = fold crc_step64 (take (40 * k) (drop 40 buf)) (braid_value crcs (load_words buf))"
  using assms
proof (induction k arbitrary: crcs buf)
  case (Suc k)
  let ?b = "drop 40 buf" and ?c = "braid_block crcs (load_words buf)"
  have l: "40 * Suc k \<le> length ?b" "40 \<le> length ?b" "length ?c = 5" using Suc.prems by auto
  have "braid_value ?c (load_words ?b) = fold crc_step64 (take 40 ?b) (braid_value crcs (load_words buf))"
    using braid_block_value [of crcs "load_words buf" "load_words ?b"] Suc.prems(1) load_words_bytes [OF l(2)] by simp
  moreover have "take (40 * Suc k) ?b = take 40 ?b @ take (40 * k) (drop 40 ?b)"
    using take_add [of 40 "40 * k" ?b] by simp
  ultimately show ?case
    using Suc.IH [OF l(3,1)] Suc.prems(3) by (auto simp: add.commute)
qed simp

lemma braid_crc_bytes:
  assumes "1 \<le> blks" and "40 * blks \<le> length buf" and "(ucast (ucast crc :: uint32) :: ulong) = crc"
  shows "braid_crc blks crc buf = fold crc_step64 (take (40 * blks) buf) crc"
proof -
  obtain crcs rest where l: "braid_loop (blks - 1) [ucast crc, 0, 0, 0, 0] buf = (crcs, rest)" by fastforce
  note V = braid_loop_value [OF _ _ l] 
  have b: "40 * Suc (blks - 1) \<le> length buf" using assms(1,2) by simp
  obtain w ws where w: "load_words buf = w # ws" "length ws = 4"
    using load_words_length [of buf] by (cases "load_words buf") auto
  have "map2 (XOR) [crc, 0, 0, 0, 0] (w # ws) = (crc XOR w) # ws"
    using w(2) by (auto simp: length_Suc_conv numeral_eq_Suc)
  then have "braid_value [ucast crc, 0, 0, 0, 0] (load_words buf) = fold word_step (load_words buf) crc"
    using w(1) assms(3) by (simp add: braid_value_def word_step_def)
  also have "\<dots> = fold crc_step64 (take 40 buf) crc" using load_words_bytes assms(1,2) by simp
  finally have v: "braid_value [ucast crc, 0, 0, 0, 0] (load_words buf) = fold crc_step64 (take 40 buf) crc" .
  have t: "take (40 * blks) buf = take 40 buf @ take (40 * (blks - 1)) (drop 40 buf)"
    using take_add [of 40 "40 * (blks - 1)" buf] assms(1) by (cases blks) auto
  have "braid_crc blks crc buf = braid_value crcs (load_words rest)"
    using V b by (simp add: braid_crc_def l [simplified] braid_last_value)
  then show ?thesis using V b v t by auto
qed

section \<open>crc32\_z\<close>

lemma align_loop_bytes:
  "align_loop addr crc buf = (crc', rest) \<Longrightarrow>
   \<exists>n<8. rest = drop n buf \<and> crc' = fold crc_step64 (take n buf) crc"
proof -
  have "align_loop addr crc buf = (crc', rest) \<Longrightarrow>
    \<exists>n. n \<le> (8 - addr mod 8) mod 8 \<and> rest = drop n buf \<and> crc' = fold crc_step64 (take n buf) crc"
  proof (induction addr crc buf rule: align_loop.induct)
    case (2 addr crc b bs)
    show ?case
    proof (cases "addr mod 8 = 0")
      case False
      then obtain n where n: "n \<le> (8 - (addr + 1) mod 8) mod 8" "rest = drop n bs"
          "crc' = fold crc_step64 (take n bs) (crc_byte b crc)"
        using 2 by auto
      have "Suc n \<le> (8 - addr mod 8) mod 8" using n(1) False by (simp add: mod_Suc split: if_splits)
      then show ?thesis using n by (intro exI [of _ "Suc n"]) (simp add: crc_byte_step)
    qed (use 2 in auto)
  qed auto
  moreover have "(8 - addr mod 8) mod 8 < 8" by simp
  ultimately show "align_loop addr crc buf = (crc', rest) \<Longrightarrow> ?thesis" by (meson le_less_trans)
qed

lemma bytes8_loop_bytes:
  "bytes8_loop crc buf = (crc', rest) \<Longrightarrow> fold crc_step64 rest crc' = fold crc_step64 buf crc"
proof (induction crc buf rule: bytes8_loop.induct)
  case (1 crc buf)
  have c: "crc_byte = crc_step64" by (intro ext) (rule crc_byte_step)
  have a: "fold crc_step64 (drop 8 buf) (fold crc_step64 (take 8 buf) crc) = fold crc_step64 buf crc"
    by (metis append_take_drop_id comp_apply fold_append)
  show ?case using 1 a by (cases "length buf \<ge> 8") (simp_all add: bytes8_loop.simps [of crc buf] c)
qed

lemma crc32_z_step:
  assumes "(ucast (ucast crc :: uint32) :: ulong) = crc"
  shows "braid_part addr crc buf = (crc', rest) \<Longrightarrow> fold crc_step64 rest crc' = fold crc_step64 buf crc"
proof (cases "length buf \<ge> 47")
  case True
  obtain crc1 buf1 where a: "align_loop addr crc buf = (crc1, buf1)" by fastforce
  obtain n where n: "n < 8" "buf1 = drop n buf" "crc1 = fold crc_step64 (take n buf) crc"
    using align_loop_bytes [OF a] by blast
  let ?k = "length buf1 div 40"
  have k: "1 \<le> ?k" "40 * ?k \<le> length buf1" using True n(1,2) by (simp_all add: less_eq_div_iff_mult_less_eq)
  have u: "(ucast (ucast crc1 :: uint32) :: ulong) = crc1"
    using ucast_crc_ref [of "take n buf" "ucast crc"] assms n(3) by simp
  assume "braid_part addr crc buf = (crc', rest)"
  then have "crc' = fold crc_step64 (take (40 * ?k) buf1) crc1" "rest = drop (40 * ?k) buf1"
    using True a braid_crc_bytes [OF k u] by (auto simp: braid_part_def Let_def mult.commute)
  then have "fold crc_step64 rest crc' = fold crc_step64 buf1 crc1"
    by (metis append_take_drop_id comp_apply fold_append)
  then show ?thesis unfolding n(2,3) by (metis append_take_drop_id comp_apply fold_append)
qed (simp add: braid_part_def)

lemma crc32_z_ref: "crc32_z addr (ucast c) (Some buf) = ucast (NOT (crc_ref buf (NOT c)))" for c :: uint32
proof -
  let ?r = "NOT (ucast c) AND 0xffffffff :: ulong"
  have m: "(0xffffffff :: ulong) = mask 32" "(0xffffffff :: uint32) = NOT 0" by (simp_all add: mask_eq_exp_minus_1)
  have r: "?r = ucast (NOT c)"
    unfolding m(1) by (rule bit_word_eqI) (auto simp: bit_simps)
  obtain crc1 buf1 where s1: "braid_part addr ?r buf = (crc1, buf1)" by fastforce
  obtain crc2 buf2 where s2: "bytes8_loop crc1 buf1 = (crc2, buf2)" by (cases "bytes8_loop crc1 buf1")
  have c: "crc_byte = crc_step64" by (intro ext) (rule crc_byte_step)
  have u: "(ucast (ucast ?r :: uint32) :: ulong) = ?r" unfolding r by simp
  have "fold crc_byte buf2 crc2 = fold crc_step64 buf ?r"
    using crc32_z_step [OF u s1] bytes8_loop_bytes [OF s2] c by simp
  then have f: "fold crc_byte buf2 crc2 = ucast (crc_ref buf (NOT c))" unfolding r by (simp add: ucast_crc_ref)
  have "crc32_z addr (ucast c) (Some buf) = fold crc_byte buf2 crc2 XOR 0xffffffff"
    by (simp only: crc32_z_def option.case Let_def s1 s2 prod.case)
  also have "\<dots> = ucast (NOT (crc_ref buf (NOT c)))"
    unfolding f m(1) by (rule bit_word_eqI) (auto simp: bit_simps dest: bit_imp_le_length)
  finally show ?thesis .
qed

section \<open>Multiplication modulo the polynomial\<close>

text \<open>The power of x with exponent \<open>e\<close> is the register after \<open>e\<close> shifts of the polynomial 1, whose bit is the
  highest one.\<close>

definition p_one :: uint32 where
  "p_one = push_bit 31 1"

lemma bit_p_one: "bit p_one i \<longleftrightarrow> i = 31"
  unfolding p_one_def by (simp only: bit_push_bit_iff bit_1_iff) auto

definition xpow :: "nat \<Rightarrow> uint32" where
  "xpow e = adv e p_one"

text \<open>Multiplication as a sum: bit \<open>31 - i\<close> of \<open>a\<close> is the coefficient of the \<open>i\<close>-th power.\<close>

fun msum :: "nat \<Rightarrow> uint32 \<Rightarrow> uint32 \<Rightarrow> uint32" where
  "msum 0 a b = 0"
| "msum (Suc n) a b = msum n a b XOR (if bit a (31 - n) then adv n b else 0)"

definition mulp :: "uint32 \<Rightarrow> uint32 \<Rightarrow> uint32" where
  "mulp a b = msum 32 a b"

lemma msum_xor_left: "msum n (a XOR c) b = msum n a b XOR msum n c b"
  by (induction n) (auto simp: bit_xor_iff ac_simps)

lemma msum_xor_right: "msum n a (b XOR c) = msum n a b XOR msum n a c"
  by (induction n) (auto simp: adv_xor ac_simps)

lemma msum_zero: "msum n a 0 = 0"
  by (induction n) auto

lemma msum_shift_right: "msum n a (adv m b) = adv m (msum n a b)"
  by (induction n) (auto simp: adv_xor add.commute simp flip: adv_add)

lemma msum_one: "n \<le> 32 \<Longrightarrow> msum n a p_one = push_bit (32 - n) (drop_bit (32 - n) a)"
proof (induction n)
  case 0
  show ?case by (rule bit_word_eqI) (simp add: bit_simps)
next
  case (Suc n)
  have "adv n p_one = push_bit (31 - n) 1"
  proof -
    have "adv n (push_bit n (push_bit (31 - n) 1 :: uint32)) = push_bit (31 - n) 1"
      by (rule adv_push, rule take_bitI) (use Suc.prems in \<open>auto simp: bit_simps\<close>)
    moreover have "n + (31 - n) = 31" using Suc.prems by simp
    ultimately show ?thesis by (simp only: push_bit_push_bit p_one_def)
  qed
  moreover have "push_bit (32 - n) (drop_bit (32 - n) a) XOR (if bit a (31 - n) then push_bit (31 - n) 1 else 0)
      = push_bit (31 - n) (drop_bit (31 - n) a)"
  proof (rule bit_word_eqI)
    fix k assume k: "k < LENGTH(32)"
    have e: "32 - n \<le> k \<longleftrightarrow> 31 - n \<le> k \<and> k \<noteq> 31 - n" using Suc.prems by auto
    show "bit (push_bit (32 - n) (drop_bit (32 - n) a) XOR (if bit a (31 - n) then push_bit (31 - n) 1 else 0)) k
        = bit (push_bit (31 - n) (drop_bit (31 - n) a)) k"
      using e k by (cases "k = 31 - n") (auto simp: bit_simps)
  qed
  ultimately show ?case using Suc by (auto simp add: push_bit_of_1 split: if_splits)
qed

lemma mulp_one: "mulp a p_one = a"
  using msum_one [of 32 a] by (simp add: mulp_def)

lemma mulp_xpow_right: "mulp a (xpow e) = adv e a"
  using mulp_one by (simp add: mulp_def xpow_def msum_shift_right)

lemma mulp_one_left: "mulp p_one b = b"
proof -
  have "n < 32 \<Longrightarrow> msum (Suc n) p_one b = b" for n
    by (induction n) (auto simp: bit_p_one)
  from this [of 31] show ?thesis by (simp add: mulp_def)
qed

lemma msum_drop: "n \<le> 31 \<Longrightarrow> msum (Suc n) (drop_bit 1 a) b = crc_shift (msum n a b)"
proof (induction n)
  case 0
  show ?case by (auto simp: bit_drop_bit_eq dest: bit_imp_le_length)
next
  case (Suc n)
  have "Suc (31 - Suc n) = 31 - n" using Suc.prems by simp
  then have b: "bit (drop_bit 1 a) (31 - Suc n) = bit a (31 - n)" by (simp add: bit_drop_bit_eq)
  have "msum (Suc (Suc n)) (drop_bit 1 a) b
      = msum (Suc n) (drop_bit 1 a) b XOR (if bit (drop_bit 1 a) (31 - Suc n) then adv (Suc n) b else 0)"
    by (rule msum.simps(2))
  also have "\<dots> = crc_shift (msum n a b) XOR crc_shift (if bit a (31 - n) then adv n b else 0)"
    using Suc unfolding b by (simp add: adv_Suc del: msum.simps)
  finally show ?case by (simp only: msum.simps(2) crc_shift_xor)
qed

lemma adv_32: "mulp POLY b = adv 32 b"
proof -
  have one: "adv 32 p_one = (POLY :: uint32)"
  proof -
    have "adv 31 p_one = 1" unfolding p_one_def by (rule adv_push) simp
    then have "adv (Suc 31) p_one = crc_shift 1" by (simp only: adv_Suc)
    then show ?thesis by (simp add: crc_shift_def)
  qed
  have "mulp POLY (msum n b p_one) = adv 32 (msum n b p_one)" for n
  proof (induction n)
    case 0
    show ?case by (simp add: mulp_def msum_zero)
  next
    case (Suc n)
    have "mulp POLY (adv n p_one) = adv n POLY"
      using mulp_one [of POLY] by (simp only: mulp_def msum_shift_right)
    also have "\<dots> = adv 32 (adv n p_one)"
      using one by (simp only: add.commute flip: adv_add one)
    finally show ?case using Suc by (auto simp: mulp_def msum_xor_right adv_xor msum_zero)
  qed
  from this [of 32] show ?thesis using mulp_one [of b] by (simp only: mulp_def)
qed

lemma mulp_shift_left: "mulp (crc_shift a) b = crc_shift (mulp a b)"
proof -
  have m: "mulp a b = msum 31 a b XOR (if bit a 0 then adv 31 b else 0)"
    using msum.simps(2) [of 31 a b] by (simp add: mulp_def del: bit_0)
  have "mulp (drop_bit 1 a) b = crc_shift (msum 31 a b)"
    using msum_drop [of 31 a b] by (simp add: mulp_def)
  moreover have "adv 32 b = crc_shift (adv 31 b)" using adv_Suc [of 31 b] by simp
  ultimately show ?thesis
    using adv_32 [of b] by (simp add: crc_shift_def [of a] mulp_def [of "_ XOR _"] msum_xor_left m crc_shift_xor del: bit_0 flip: mulp_def)
qed

lemma mulp_adv_left: "mulp (adv e a) b = adv e (mulp a b)"
  by (induction e) (simp_all add: adv_Suc mulp_shift_left)

lemma mulp_xpow_left: "mulp (xpow e) b = adv e b"
  by (simp only: xpow_def mulp_adv_left mulp_one_left)

text \<open>The loop of \<open>multmodp\<close> adds the terms one by one and stops after the last one.\<close>

lemma msum_tail: "take_bit k a = 0 \<Longrightarrow> k \<le> 32 \<Longrightarrow> mulp a b = msum (32 - k) a b"
proof -
  assume t: "take_bit k a = 0" and k: "k \<le> 32"
  have "d \<le> k \<Longrightarrow> msum (32 - k + d) a b = msum (32 - k) a b" for d
  proof (induction d)
    case (Suc d)
    have "\<not> bit (take_bit k a) (31 - (32 - k + d))" using t by simp
    then have "\<not> bit a (31 - (32 - k + d))" using Suc.prems k by (auto simp: bit_take_bit_iff)
    with Suc show ?case by simp
  qed simp
  from this [of k] k show ?thesis by (simp add: mulp_def)
qed

lemma multmodp_loop_msum:
  assumes "i \<le> 31" and "take_bit (Suc i) a \<noteq> 0"
  shows "multmodp_loop i a (adv (31 - i) b) (msum (31 - i) a b) = Some (mulp a b)"
  using assms
proof (induction i)
  case 0
  have b: "bit a 0"
    using "0.prems"(2) by (auto simp: take_bit_Suc mod2_eq_if bit_0 split: if_splits)
  moreover have "mulp a b = msum (Suc 31) a b" by (simp add: mulp_def)
  ultimately show ?case by (simp only: multmodp_loop.simps [of 0] Let_def take_bit_0 simp_thms if_True msum.simps diff_self_eq_0 minus_nat.diff_0)
next
  case (Suc i)
  let ?i = "Suc i"
  have n: "Suc (31 - ?i) = 31 - i" using Suc.prems(1) by simp
  have m: "msum (31 - i) a b = msum (31 - ?i) a b XOR (if bit a ?i then adv (31 - ?i) b else 0)"
    using msum.simps(2) [of "31 - ?i" a b] Suc.prems(1) unfolding n by simp
  have d: "adv (31 - i) b = crc_shift (adv (31 - ?i) b)" using adv_Suc [of "31 - ?i" b] unfolding n .
  have p: "(if bit a ?i then msum (31 - ?i) a b XOR adv (31 - ?i) b else msum (31 - ?i) a b) = msum (31 - i) a b"
    using m by simp
  show ?case
  proof (cases "take_bit ?i a = 0")
    case True
    have "bit a ?i"
    proof (rule ccontr)
      assume "\<not> bit a ?i"
      then have "take_bit (Suc ?i) a = take_bit ?i a" by (intro bit_word_eqI) (auto simp: bit_take_bit_iff less_Suc_eq)
      with True Suc.prems(2) show False by simp
    qed
    then show ?thesis
      using p True msum_tail [OF True] Suc.prems(1) by (simp add: multmodp_loop.simps [of ?i] Let_def)
  next
    case False
    then show ?thesis
      using Suc.IH p d Suc.prems(1) by (auto simp add: multmodp_loop.simps [of ?i] Let_def split: if_splits)
  qed
qed

lemma multmodp_mulp: "a \<noteq> 0 \<Longrightarrow> multmodp a b = Some (mulp a b)"
proof -
  assume "a \<noteq> 0"
  moreover have "take_bit (Suc 31) a = a" by (rule take_bitI) (auto dest: bit_imp_le_length)
  ultimately have "take_bit (Suc 31) a \<noteq> 0" by simp
  from multmodp_loop_msum [OF _ this, of b] show ?thesis by (simp add: multmodp_def)
qed

lemma crc_shift_nonzero: "r \<noteq> 0 \<Longrightarrow> crc_shift r \<noteq> (0 :: uint32)"
proof
  assume r: "r \<noteq> 0" and z: "crc_shift r = 0"
  have "bit (POLY :: uint32) 31" by simp
  moreover have "\<not> bit (drop_bit 1 r) 31" by (auto simp: bit_drop_bit_eq dest: bit_imp_le_length)
  ultimately have "bit (drop_bit 1 r XOR POLY) 31" by (simp only: bit_xor_iff simp_thms)
  then have "\<not> bit r 0" using z by (auto simp: crc_shift_def simp del: bit_0)
  with z have "drop_bit 1 r = 0" "\<not> bit r 0" by (simp_all add: crc_shift_def del: bit_0)
  then have "\<not> bit r k" for k by (cases k) (auto simp: bit_drop_bit_eq simp del: bit_0 dest: arg_cong [of _ _ "\<lambda>w. bit w (k - 1)"])
  then show False using r by (metis bit_word_eqI bit_0_eq bot_apply bot_bool_def)
qed

lemma xpow_nonzero: "xpow e \<noteq> 0"
proof (induction e)
  case 0
  show ?case by (simp add: xpow_def p_one_def)
next
  case (Suc e)
  then show ?case using crc_shift_nonzero by (simp add: xpow_def adv_Suc)
qed

lemma mulp_xpow: "mulp (xpow d) (xpow e) = xpow (d + e)"
  by (simp add: mulp_xpow_left) (simp add: xpow_def flip: adv_add)

section \<open>Powers of x and combination\<close>

text \<open>Each entry of \<open>x2n_table\<close> is the square of the one before it, and the first is the square of the last.\<close>

lemma x2n_squares: "list_all (\<lambda>(p, q). multmodp p p = Some q) (zip x2n_table (tl x2n_table @ [hd x2n_table]))"
  by (simp add: x2n_table_def multmodp_def multmodp_loop.simps crc_shift_def)

lemma x2n_length: "length x2n_table = 32"
  by (simp add: x2n_table_def)

lemma x2n_next: "k < 32 \<Longrightarrow> multmodp (x2n_table ! k) (x2n_table ! k) = Some (x2n_table ! (Suc k mod 32))"
proof -
  assume k: "k < 32"
  let ?z = "zip x2n_table (tl x2n_table @ [hd x2n_table])"
  have l: "length ?z = 32" by (simp add: x2n_length)
  have "(tl x2n_table @ [hd x2n_table]) ! k = x2n_table ! (Suc k mod 32)"
  proof (cases "k = 31")
    case True
    have "x2n_table \<noteq> []" using x2n_length by auto
    with True show ?thesis by (simp add: nth_append x2n_length hd_conv_nth)
  next
    case False
    with k show ?thesis by (simp add: nth_append x2n_length nth_tl)
  qed
  then have "?z ! k = (x2n_table ! k, x2n_table ! (Suc k mod 32))" using k l by (simp add: x2n_length)
  then show ?thesis using x2n_squares k l by (auto simp: list_all_length)
qed

lemma x2n_pow: "x2n_table ! (k mod 32) = xpow (2 ^ k)"
proof (induction k)
  case 0
  show ?case by (simp add: x2n_table_def xpow_def p_one_def crc_shift_def)
next
  case (Suc k)
  have "multmodp (x2n_table ! (k mod 32)) (x2n_table ! (k mod 32)) = Some (x2n_table ! (Suc k mod 32))"
    using x2n_next [of "k mod 32"] by (simp add: mod_Suc_eq)
  then show ?case using Suc multmodp_mulp [OF xpow_nonzero] by (simp add: mulp_xpow mult_2)
qed

lemma x2nmodp_loop_pow: "x2nmodp_loop n k (xpow e) = Some (xpow (n * 2 ^ k + e))"
proof (induction n k "xpow e" arbitrary: e rule: x2nmodp_loop.induct)
  case (1 n k)
  show ?case
  proof (cases "n = 0")
    case False
    let ?e = "(if odd n then 2 ^ k else 0) + e"
    have p: "(if odd n then multmodp (x2n_table ! (k mod 32)) (xpow e) else Some (xpow e)) = Some (xpow ?e)"
      using multmodp_mulp [OF xpow_nonzero] by (simp add: x2n_pow mulp_xpow)
    have "x2nmodp_loop (n div 2) (k + 1) (xpow ?e) = Some (xpow (n div 2 * 2 ^ (k + 1) + ?e))"
      using "1.hyps" [OF False p] .
    moreover have "n div 2 * 2 ^ (k + 1) + (if odd n then 2 ^ k else 0) = n * 2 ^ k"
    proof -
      have "n = 2 * (n div 2) + (if odd n then 1 else 0)" by (simp add: odd_two_times_div_two_succ)
      then have "n * 2 ^ k = (2 * (n div 2) + (if odd n then 1 else 0)) * 2 ^ k" by simp
      then show ?thesis by (simp add: add_mult_distrib)
    qed
    ultimately show ?thesis using False p by (simp add: x2nmodp_loop.simps [of n] add.assoc [symmetric])
  qed (simp add: x2nmodp_loop.simps [of 0])
qed

lemma x2nmodp_pow: "x2nmodp n k = Some (xpow (n * 2 ^ k))"
  using x2nmodp_loop_pow [of n k 0] by (simp add: x2nmodp_def xpow_def p_one_def)

lemma crc_ref_xor: "crc_ref buf (a XOR b) = crc_ref buf a XOR adv (8 * length buf) b"
proof (induction buf arbitrary: a b)
  case (Cons c buf)
  have "crc_step c (a XOR b) = crc_step c a XOR adv 8 b" by (simp add: crc_step_def adv_xor ac_simps)
  with Cons [of "crc_step c a" "adv 8 b"] show ?case by (simp add: crc_ref_def add.commute flip: adv_add)
qed (simp add: crc_ref_def)

text \<open>C29: \<open>crc32\<close> with its five interleaved braids, whatever the alignment and the length of the buffer, computes
  the CRC of the polynomial 0xedb88320 bit by bit over the message, complemented before and after.\<close>

theorem crc32_reference:
  "crc32 addr (ucast (c :: uint32)) (Some buf) = ucast (NOT (fold crc_step buf (NOT c)))"
  by (simp add: crc32_def crc32_z_ref crc_ref_def)

text \<open>C31: \<open>crc32_combine64\<close> returns for every length, and what it returns for the checksums of two messages is
  the checksum of their concatenation.\<close>

theorem crc32_combine_concat:
  "crc32_combine64 (crc32 p 0 (Some xs)) (crc32 q 0 (Some ys)) (length ys) = Some (crc32 r 0 (Some (xs @ ys)))"
proof -
  let ?x = "crc_ref xs (NOT 0)" and ?y = "crc_ref ys (NOT 0)"
  have c: "crc32 a 0 (Some buf) = ucast (NOT (crc_ref buf (NOT 0)))" for a buf
    using crc32_z_ref [of a 0 buf] by (simp add: crc32_def)
  have l: "x2nmodp (length ys) 3 = Some (xpow (8 * length ys))" by (simp add: x2nmodp_pow mult.commute)
  have "NOT 0 XOR NOT ?x = ?x" by (rule bit_word_eqI) (auto simp: bit_simps)
  then have "crc_ref (xs @ ys) (NOT 0) = ?y XOR adv (8 * length ys) (NOT ?x)"
    using crc_ref_xor [of ys "NOT 0" "NOT ?x"] by (simp add: crc_ref_def)
  moreover have "ucast (NOT ?y) AND 0xffffffff = (ucast (NOT ?y) :: ulong)"
  proof -
    have "(0xffffffff :: ulong) = mask 32" by (simp add: mask_eq_exp_minus_1)
    then show ?thesis by (simp only: flip: take_bit_eq_mask) (rule take_bitI, auto simp: bit_simps dest: bit_imp_le_length)
  qed
  moreover have "(ucast m XOR ucast (NOT y) :: ulong) = ucast (NOT (y XOR m))" for m y :: uint32
    by (rule bit_word_eqI) (auto simp: bit_simps dest: bit_imp_le_length)
  ultimately show ?thesis
    using multmodp_mulp [OF xpow_nonzero, of "8 * length ys" "NOT ?x"]
    by (simp add: crc32_combine64_def l c mulp_xpow_left)
qed

lemma those_Some: "those (map (\<lambda>i. Some (f i)) xs) = Some (map f xs)"
  by (induction xs) auto

lemma make_x2n_rows: "n + k \<le> 31 \<Longrightarrow> make_x2n n (x2n_table ! k) = Some (map (\<lambda>i. x2n_table ! (Suc k + i)) [0..<n])"
proof (induction n arbitrary: k)
  case (Suc n)
  have "multmodp (x2n_table ! k) (x2n_table ! k) = Some (x2n_table ! Suc k)" using x2n_next [of k] Suc.prems by simp
  moreover have "x2n_table ! Suc k # map (\<lambda>i. x2n_table ! (Suc (Suc k) + i)) [0..<n] = map (\<lambda>i. x2n_table ! (Suc k + i)) [0..<Suc n]"
    by (rule nth_equalityI) (auto simp: nth_Cons' simp del: upt_Suc)
  ultimately show ?case using Suc.IH [of "Suc k"] Suc.prems by simp
qed simp

lemma braid_entry:
  assumes "i \<in> {1..<256}" and "k < 8"
  shows "multmodp (push_bit 24 (of_nat i)) (xpow ((43 - k) * 8)) = Some (crc_braid_table ! k ! i)"
proof -
  have u: "unat (of_nat i :: uint32) = i" using assms(1) by (simp add: unsigned_of_nat take_bit_nat_eq_self)
  then have t: "take_bit 8 (of_nat i :: uint32) = of_nat i" using assms(1) by (simp flip: word_unat_lt_iff_bits)
  have a: "adv 24 (push_bit 24 (of_nat i)) = (of_nat i :: uint32)" by (rule adv_push) (use t in simp)
  have "push_bit 24 (of_nat i) \<noteq> (0 :: uint32)"
  proof
    assume "push_bit 24 (of_nat i) = (0 :: uint32)"
    then have "(of_nat i :: uint32) = 0" using a by simp
    then show False using u assms(1) by simp
  qed
  moreover have "(43 - k) * 8 = 8 * (40 - k) + 24" using assms(2) by simp
  then have "adv ((43 - k) * 8) (push_bit 24 (of_nat i)) = adv (8 * (40 - k)) (of_nat i :: uint32)"
    by (simp only: adv_add a)
  ultimately show ?thesis
    using multmodp_mulp [of "push_bit 24 (of_nat i)"] mulp_xpow_right linear_row_nth [OF braid_table_nth [OF assms(2)]] assms(1)
    by simp
qed

text \<open>C30: The tables of crc32.h are the ones that crc32.c generates: \<open>crc_table\<close> and \<open>x2n_table\<close> by
  \<open>make_crc_table\<close>, and the eight rows of \<open>crc_braid_table\<close> by \<open>braid\<close> for five braids of eight-byte words.\<close>

theorem crc_tables_generated:
  "make_crc_table = (crc_table, Some x2n_table) \<and> map (braid 5 8) [0..<8] = map Some crc_braid_table"
proof
  have "map make_crc_entry [0..<256] = crc_table"
    using crc_table_linear unfolding linear_row_def make_crc_entry_def adv_def by (rule sym)
  moreover have "push_bit 30 1 = x2n_table ! 0" by (simp add: x2n_table_def)
  moreover have "x2n_table = x2n_table ! 0 # map (\<lambda>i. x2n_table ! Suc i) [0..<31]"
    by (rule nth_equalityI) (auto simp: x2n_length nth_Cons' simp del: upt_Suc)
  ultimately show "make_crc_table = (crc_table, Some x2n_table)"
    using make_x2n_rows [of 31 0] unfolding make_crc_table_def by simp
  have "braid 5 8 k = Some (crc_braid_table ! k)" if k: "k < 8" for k
  proof -
    have l: "length (crc_braid_table ! k) = 256" "crc_braid_table ! k ! 0 = 0"
      using braid_table_nth [OF k] unfolding linear_row_def by auto
    have "those (map (\<lambda>i. multmodp (push_bit 24 (of_nat i)) (xpow ((43 - k) * 8))) [1..<256])
        = Some (map (\<lambda>i. crc_braid_table ! k ! i) [1..<256])"
      using braid_entry [OF _ k] by (subst those_Some [symmetric], intro arg_cong [of _ _ those] map_cong) auto
    moreover have "0 # map (\<lambda>i. crc_braid_table ! k ! i) [1..<256] = crc_braid_table ! k"
      using l by (intro nth_equalityI) (auto simp: nth_Cons' simp del: upt_Suc)
    ultimately show ?thesis by (simp add: braid_def x2nmodp_pow)
  qed
  moreover have "length crc_braid_table = 8" by (simp add: crc_braid_table_def)
  ultimately show "map (braid 5 8) [0..<8] = map Some crc_braid_table" by (intro nth_equalityI) simp_all
qed

end
