(* ===== verification/Inflate_State.thy ===== *)
theory Inflate_State
  imports Z_Stream Recorder Adler32 Crc32
begin

text \<open>
  The state of inflate.c: \<^verbatim>\<open>struct inflate_state\<close> (inflate.h), the modes, the three globals that hold
  the instruction being sent, and the local variables of \<^verbatim>\<open>j_inflate\<close>; the routines that set a stream
  up and take it down.  \<open>inflate_state\<close> extends the shared part \<open>huff\<close> and the header recorder; the
  registers in front of these belong to a running call and mean nothing between calls.
\<close>

section \<open>Data\<close>

datatype inflate_mode = HEAD | FLAGS | TIME | OS | EXLEN | EXTRA | NAME | COMMENT | HCRC | DICTID | DICT
  | TYPE_0 | TYPEDO | STORED | COPY_0 | COPY | TABLE | LENLENS | CODELENS | LEN_0 | LEN | LENEXT | DIST | DISTEXT
  | MATCH | LIT | CHECK | LENGTH_0 | DONE | BAD | MEM | SENDINS | SETENDOFBLOCK | SEND_HEADER | SYNC

text \<open>\<open>TYPE_0\<close>, \<open>COPY_0\<close>, \<open>LEN_0\<close> and \<open>LENGTH_0\<close> are \<^verbatim>\<open>TYPE\<close>, \<^verbatim>\<open>COPY_\<close>, \<^verbatim>\<open>LEN_\<close> and \<^verbatim>\<open>LENGTH\<close>.\<close>

record inflate_state = recorder +
  i_strm :: nat
  i_mode :: inflate_mode
  i_last :: nat
  i_wrap :: int
  i_havedict :: int
  i_flags :: int
  i_dmax :: nat
  i_check :: ulong
  i_total :: ulong
  i_head :: "gz_header option"
  i_wbits :: nat
  i_wsize :: nat
  i_whave :: nat
  i_wnext :: nat
  i_window :: "byte list option"
  i_hold :: ulong
  i_bits :: nat
  i_length :: nat
  i_offset :: nat
  i_extra :: nat
  i_ncode :: nat
  i_sane :: int
  i_back :: int
  i_was :: nat
  i_tree_type :: nat

type_synonym inflate_strm = "inflate_state z_stream"

text \<open>\<open>ins_buffer\<close> is declared as an array of six pointers; a value stored there is cut to a byte when it is
  sent.\<close>

record ins_globals =
  ins_buffer :: "ulong list"
  ins_buffer_index :: nat
  ins_buffer_have :: nat
  ins_type :: nat

record inflate_run = inflate_state +
  m_strm :: inflate_strm
  m_put :: "byte list"
  m_left :: nat
  m_in :: nat
  m_out :: nat
  m_ret :: int
  m_ins :: ins_globals

section \<open>Setting up and taking down\<close>

text \<open>The enumeration has no value outside HEAD..SYNC.\<close>

definition inflateStateCheck :: "inflate_strm option \<Rightarrow> bool" where
  "inflateStateCheck strmp =
    (case strmp of
       None \<Rightarrow> True
     | Some strm \<Rightarrow>
         if \<not> z_zalloc strm \<or> \<not> z_zfree strm then True
         else case z_state strm of
                None \<Rightarrow> True
              | Some state \<Rightarrow> i_strm state \<noteq> z_addr strm)"

text \<open>The routines take a stream that may be null and return the code and the stream.\<close>

definition j_inflateResetKeep :: "inflate_strm option \<Rightarrow> int \<times> inflate_strm option" where
  "j_inflateResetKeep strmp =
    (if inflateStateCheck strmp then (Z_STREAM_ERROR, strmp)
     else case strmp of
       None \<Rightarrow> (Z_STREAM_ERROR, strmp)
     | Some strm \<Rightarrow>
       (case z_state strm of
          None \<Rightarrow> (Z_STREAM_ERROR, strmp)
        | Some state \<Rightarrow>
            let strm1 = strm\<lparr>z_total_in := 0, z_total_out := 0, z_msg := None\<rparr>;
                strm2 = (if i_wrap state \<noteq> 0 then strm1\<lparr>z_adler := of_int (i_wrap state AND 1)\<rparr> else strm1);
                state1 = state\<lparr>i_total := 0, i_mode := HEAD, i_last := 0, i_havedict := 0, i_flags := -1,
                  i_dmax := 32768, i_head := None, i_hold := 0, i_bits := 0,
                  h_lencode := Codes 0, h_distcode := Codes 0, h_next := 0, i_sane := 1, i_back := -1\<rparr>
            in (Z_OK, Some (strm2\<lparr>z_state := Some state1\<rparr>))))"

definition j_inflateReset :: "inflate_strm option \<Rightarrow> int \<times> inflate_strm option" where
  "j_inflateReset strmp =
    (if inflateStateCheck strmp then (Z_STREAM_ERROR, strmp)
     else j_inflateResetKeep (map_option (\<lambda>strm. strm\<lparr>z_state := map_option
            (\<lambda>state. state\<lparr>i_wsize := 0, i_whave := 0, i_wnext := 0\<rparr>) (z_state strm)\<rparr>) strmp))"

text \<open>The request in \<open>windowBits\<close>: the wrap value and the window bits, or an error.\<close>

definition wrap_request :: "int \<Rightarrow> (int \<times> int) option" where
  "wrap_request windowBits =
    (if windowBits < 0 then
       (if windowBits < -15 then None else Some (0, - windowBits))
     else Some (drop_bit 4 windowBits + 5, if windowBits < 48 then windowBits AND 15 else windowBits))"

definition j_inflateReset2 :: "int \<Rightarrow> inflate_strm option \<Rightarrow> int \<times> inflate_strm option" where
  "j_inflateReset2 windowBits strmp =
    (if inflateStateCheck strmp then (Z_STREAM_ERROR, strmp)
     else case wrap_request windowBits of
       None \<Rightarrow> (Z_STREAM_ERROR, strmp)
     | Some (wrap, wb) \<Rightarrow>
         if wb \<noteq> 0 \<and> (wb < 8 \<or> wb > 15) then (Z_STREAM_ERROR, strmp)
         else j_inflateReset (map_option (\<lambda>strm. strm\<lparr>z_state := map_option
                (\<lambda>state. state\<lparr>i_window := (if i_window state \<noteq> None \<and> int (i_wbits state) \<noteq> wb then None else i_window state),
                               i_wrap := wrap, i_wbits := nat wb\<rparr>) (z_state strm)\<rparr>) strmp))"

text \<open>\<open>fresh\<close> is what \<^verbatim>\<open>ZALLOC\<close> returns: \<open>None\<close> when there is no memory, otherwise a block with arbitrary
  contents.  After an error the state is freed and the stream has none.\<close>

definition j_inflateInit2 :: "inflate_state option \<Rightarrow> int \<Rightarrow> inflate_strm option \<Rightarrow> int \<times> inflate_strm option" where
  "j_inflateInit2 fresh windowBits strmp =
    (case strmp of
       None \<Rightarrow> (Z_STREAM_ERROR, None)
     | Some strm0 \<Rightarrow>
         let strm = strm0\<lparr>z_msg := None, z_zalloc := True, z_zfree := True\<rparr> in
         (case fresh of
            None \<Rightarrow> (Z_MEM_ERROR, Some strm)
          | Some state \<Rightarrow>
              let state1 = state\<lparr>i_strm := z_addr strm, i_window := None, i_mode := HEAD\<rparr>;
                  (ret, strmp1) = j_inflateReset2 windowBits (Some (strm\<lparr>z_state := Some state1\<rparr>));
                  strmp2 = map_option (\<lambda>strm. strm\<lparr>z_state := map_option (\<lambda>state. state\<lparr>header_flag := 1\<rparr>) (z_state strm)\<rparr>) strmp1
              in if ret \<noteq> Z_OK then (ret, map_option (\<lambda>strm. strm\<lparr>z_state := None\<rparr>) strmp2)
                 else (ret, strmp2)))"

text \<open>\<open>MAX_WBITS\<close> comes from the configuration header, which is not part of the repository.\<close>

definition j_inflateInit :: "int \<Rightarrow> inflate_state option \<Rightarrow> inflate_strm option \<Rightarrow> int \<times> inflate_strm option" where
  "j_inflateInit max_wbits fresh strmp = j_inflateInit2 fresh max_wbits strmp"

definition j_inflateEnd :: "inflate_strm option \<Rightarrow> int \<times> inflate_strm option" where
  "j_inflateEnd strmp =
    (if inflateStateCheck strmp then (Z_STREAM_ERROR, strmp)
     else (Z_OK, map_option (\<lambda>strm. strm\<lparr>z_state := None\<rparr>) strmp))"

section \<open>Registers\<close>

definition LOAD :: "inflate_run \<Rightarrow> inflate_run" where
  "LOAD s = s\<lparr>m_put := z_out (m_strm s), m_left := z_avail_out (m_strm s), r_next := z_next_in (m_strm s),
     r_hold := i_hold s, r_bits := i_bits s\<rparr>"

definition RESTORE :: "inflate_run \<Rightarrow> inflate_run" where
  "RESTORE s = s\<lparr>m_strm := (m_strm s)\<lparr>z_out := m_put s, z_avail_out := m_left s, z_next_in := r_next s\<rparr>,
     i_hold := r_hold s, i_bits := r_bits s\<rparr>"

definition fixedtables :: "inflate_run \<Rightarrow> inflate_run" where
  "fixedtables s = s\<lparr>h_lencode := Lenfix, h_lenbits := 9, h_distcode := Distfix, h_distbits := 5\<rparr>"

text \<open>The address of the buffer does not matter for a CRC.\<close>

definition UPDATE_CHECK :: "inflate_run \<Rightarrow> ulong \<Rightarrow> byte list \<Rightarrow> ulong" where
  "UPDATE_CHECK s check buf = (if i_flags s \<noteq> 0 then crc32 0 check (Some buf) else adler32 check (Some buf))"

definition CRC2 :: "ulong \<Rightarrow> ulong \<Rightarrow> ulong" where
  "CRC2 check word = crc32 0 check (Some [ucast word, ucast (drop_bit 8 word)])"

definition CRC4 :: "ulong \<Rightarrow> ulong \<Rightarrow> ulong" where
  "CRC4 check word = crc32 0 check
     (Some [ucast word, ucast (drop_bit 8 word), ucast (drop_bit 16 word), ucast (drop_bit 24 word)])"

end
