(* ===== verification/Inffast.thy ===== *)
theory Inffast
  imports Inflate_State
begin

text \<open>
  \<open>inflate_fast\<close> of inffast.c, the decoder for the middle of a block, as it is compiled with
  \<^verbatim>\<open>MY_ZLIB\<close>: instead of copying matches it writes the instruction for every symbol.  Its local
  variables are the record \<open>fast\<close>; \<open>in\<close> is an index into the input of the stream, \<open>out\<close> the list of
  bytes written.  Reading behind the input, writing behind the output space and an index outside a
  code table are undefined (\<open>F_undef\<close>).
\<close>

section \<open>Model\<close>

record fast =
  f_in :: nat
  f_hold :: ulong
  f_bits :: nat
  f_out :: "byte list"
  f_mode :: inflate_mode
  f_msg :: "string option"

text \<open>\<open>F_more\<close>: to the test at the end of the loop; \<open>F_stop\<close>: \<^verbatim>\<open>break\<close>.\<close>

datatype fast_result = F_more fast | F_stop fast | F_undef

text \<open>What does not change during the call: the input, the output space, the tables.\<close>

record fast_env =
  e_in :: "byte list"
  e_avail_out :: nat
  e_lcode :: "nat \<Rightarrow> code option"
  e_dcode :: "nat \<Rightarrow> code option"
  e_lenbits :: nat
  e_distbits :: nat

text \<open>\<^verbatim>\<open>hold += (unsigned long)( *in++) << bits; bits += 8;\<close>\<close>

definition f_byte :: "fast_env \<Rightarrow> fast \<Rightarrow> fast option" where
  "f_byte e f =
    (if f_in f < length (e_in e)
     then Some (f\<lparr>f_hold := f_hold f + push_bit (f_bits f) (ucast (e_in e ! f_in f)),
                  f_bits := f_bits f + 8, f_in := f_in f + 1\<rparr>)
     else None)"

definition f_need15 :: "fast_env \<Rightarrow> fast \<Rightarrow> fast option" where
  "f_need15 e f =
    (if f_bits f < 15 then (case f_byte e f of None \<Rightarrow> None | Some f1 \<Rightarrow> f_byte e f1) else Some f)"

definition f_drop :: "nat \<Rightarrow> fast \<Rightarrow> fast" where
  "f_drop n f = f\<lparr>f_hold := drop_bit n (f_hold f), f_bits := f_bits f - n\<rparr>"

definition f_write :: "fast_env \<Rightarrow> byte list \<Rightarrow> fast \<Rightarrow> fast option" where
  "f_write e bs f =
    (if length (f_out f) + length bs \<le> e_avail_out e then Some (f\<lparr>f_out := f_out f @ bs\<rparr>) else None)"

definition f_stop_bad :: "string \<Rightarrow> fast \<Rightarrow> fast_result" where
  "f_stop_bad msg f = F_stop (f\<lparr>f_msg := Some msg, f_mode := BAD\<rparr>)"

text \<open>The extra bits of a distance: one or two more bytes.\<close>

definition f_dist_bits :: "fast_env \<Rightarrow> nat \<Rightarrow> fast \<Rightarrow> fast option" where
  "f_dist_bits e n f =
    (if f_bits f < n then
       (case f_byte e f of
          None \<Rightarrow> None
        | Some f1 \<Rightarrow> if f_bits f1 < n then f_byte e f1 else Some f1)
     else Some f)"

text \<open>A distance base: the extra bits and the instruction for the match.\<close>

definition dist_base :: "fast_env \<Rightarrow> nat \<Rightarrow> code \<Rightarrow> fast \<Rightarrow> fast_result" where
  "dist_base e len here f =
    (let n = unat (c_op here AND 15) in
     case f_dist_bits e n f of
       None \<Rightarrow> F_undef
     | Some f1 \<Rightarrow>
         let dist = unat (c_val here) + low_bits n (f_hold f1); f2 = f_drop n f1 in
         (case f_write e [0xaa, of_nat (drop_bit 8 dist), of_nat dist, of_int (int len - 3)] f2 of
            None \<Rightarrow> F_undef
          | Some f3 \<Rightarrow> F_more f3))"

text \<open>From the label \<open>dodist\<close>: \<open>len\<close> is the match length.  A second-level table is entered by jumping back;
  \<open>k\<close> bounds the number of jumps.\<close>

fun dodist :: "nat \<Rightarrow> fast_env \<Rightarrow> nat \<Rightarrow> code \<Rightarrow> fast \<Rightarrow> fast_result" where
  "dodist k e len here f0 =
    (let f = f_drop (unat (c_bits here)) f0; p = c_op here in
     if p AND 16 \<noteq> 0 then dist_base e len here f
     else if p AND 64 = 0 then
       (case k of
          0 \<Rightarrow> F_undef
        | Suc k' \<Rightarrow>
            (case e_dcode e (unat (c_val here) + low_bits (unat p) (f_hold f)) of
               None \<Rightarrow> F_undef
             | Some here' \<Rightarrow> dodist k' e len here' f))
     else f_stop_bad ''invalid distance code'' f)"

declare dodist.simps [simp del]

text \<open>The extra bits of a length: at most one more byte.\<close>

definition f_len_bits :: "fast_env \<Rightarrow> nat \<Rightarrow> fast \<Rightarrow> fast option" where
  "f_len_bits e n f = (if n \<noteq> 0 \<and> f_bits f < n then f_byte e f else Some f)"

definition fast_length :: "fast_env \<Rightarrow> code \<Rightarrow> fast \<Rightarrow> fast_result" where
  "fast_length e here f =
    (let n = unat (c_op here AND 15) in
     case f_len_bits e n f of
       None \<Rightarrow> F_undef
     | Some f1 \<Rightarrow>
         let len = unat (c_val here) + (if n \<noteq> 0 then low_bits n (f_hold f1) else 0) in
         (case f_need15 e (f_drop n f1) of
            None \<Rightarrow> F_undef
          | Some f2 \<Rightarrow>
              (case e_dcode e (low_bits (e_distbits e) (f_hold f2)) of
                 None \<Rightarrow> F_undef
               | Some here' \<Rightarrow> dodist 1 e len here' f2)))"

text \<open>From the label \<open>dolen\<close>.\<close>

fun dolen :: "nat \<Rightarrow> fast_env \<Rightarrow> code \<Rightarrow> fast \<Rightarrow> fast_result" where
  "dolen k e here f0 =
    (let f = f_drop (unat (c_bits here)) f0; p = c_op here in
     if p = 0 then
       (case f_write e ((if c_val here = 0xaa then [ucast (c_val here)] else []) @ [ucast (c_val here)]) f of
          None \<Rightarrow> F_undef
        | Some f1 \<Rightarrow> F_more f1)
     else if p AND 16 \<noteq> 0 then fast_length e here f
     else if p AND 64 = 0 then
       (case k of
          0 \<Rightarrow> F_undef
        | Suc k' \<Rightarrow>
            (case e_lcode e (unat (c_val here) + low_bits (unat p) (f_hold f)) of
               None \<Rightarrow> F_undef
             | Some here' \<Rightarrow> dolen k' e here' f))
     else if p AND 32 \<noteq> 0 then
       (case f_write e [0xaa, 255] (f\<lparr>f_mode := TYPE_0\<rparr>) of
          None \<Rightarrow> F_undef
        | Some f1 \<Rightarrow> F_stop f1)
     else f_stop_bad ''invalid literal/length code'' f)"

declare dolen.simps [simp del]

definition fast_body :: "fast_env \<Rightarrow> fast \<Rightarrow> fast_result" where
  "fast_body e f =
    (case f_need15 e f of
       None \<Rightarrow> F_undef
     | Some f1 \<Rightarrow>
         (case e_lcode e (low_bits (e_lenbits e) (f_hold f1)) of
            None \<Rightarrow> F_undef
          | Some here \<Rightarrow> dolen 1 e here f1))"

text \<open>\<^verbatim>\<open>while (in < last && out < end)\<close> with \<open>last\<close> five bytes and \<open>end\<close> 257 bytes before the end.\<close>

definition fast_again :: "fast_env \<Rightarrow> fast \<Rightarrow> bool" where
  "fast_again e f \<longleftrightarrow> f_in f + 5 < length (e_in e) \<and> length (f_out f) + 257 < e_avail_out e"

text \<open>Every iteration that goes round again has written.\<close>

lemma f_write_out: "f_write e bs f = Some f1 \<Longrightarrow> f_out f1 = f_out f @ bs"
  by (auto simp: f_write_def split: if_splits)

lemma f_byte_out: "f_byte e f = Some f1 \<Longrightarrow> f_out f1 = f_out f"
  by (auto simp: f_byte_def split: if_splits)

lemma f_need15_out: "f_need15 e f = Some f1 \<Longrightarrow> f_out f1 = f_out f"
  by (auto simp: f_need15_def f_byte_out split: if_splits option.splits)

lemma f_dist_bits_out: "f_dist_bits e n f = Some f1 \<Longrightarrow> f_out f1 = f_out f"
  by (auto simp: f_dist_bits_def f_byte_out split: if_splits option.splits)

lemma f_len_bits_out: "f_len_bits e n f = Some f1 \<Longrightarrow> f_out f1 = f_out f"
  by (auto simp: f_len_bits_def f_byte_out split: if_splits option.splits)

lemma f_drop_out [simp]: "f_out (f_drop n f) = f_out f"
  by (simp add: f_drop_def)

lemma dist_base_out: "dist_base e len here f = F_more f1 \<Longrightarrow> length (f_out f) < length (f_out f1)"
  by (auto simp: dist_base_def Let_def split: option.splits dest!: f_write_out f_dist_bits_out)

lemma dodist_out: "dodist k e len here f = F_more f1 \<Longrightarrow> length (f_out f) < length (f_out f1)"
proof (induction k e len here f rule: dodist.induct)
  case (1 k e len here f0)
  show ?case
    using "1.prems" "1.IH"
    by (simp add: dodist.simps [of k] Let_def f_stop_bad_def split: if_splits option.splits nat.splits)
      (auto dest!: dist_base_out)
qed

lemma fast_length_out: "fast_length e here f = F_more f1 \<Longrightarrow> length (f_out f) < length (f_out f1)"
  by (auto simp: fast_length_def Let_def split: option.splits dest!: f_len_bits_out f_need15_out dodist_out)

lemma dolen_out: "dolen k e here f = F_more f1 \<Longrightarrow> length (f_out f) < length (f_out f1)"
proof (induction k e here f rule: dolen.induct)
  case (1 k e here f0)
  show ?case
    using "1.prems" "1.IH"
    by (simp add: dolen.simps [of k] Let_def f_stop_bad_def split: if_splits option.splits nat.splits)
      (auto dest!: f_write_out fast_length_out)
qed

lemma fast_body_out: "fast_body e f = F_more f1 \<Longrightarrow> length (f_out f) < length (f_out f1)"
  by (auto simp: fast_body_def split: option.splits dest!: f_need15_out dolen_out)

function fast_loop :: "fast_env \<Rightarrow> fast \<Rightarrow> fast option" where
  "fast_loop e f =
    (case fast_body e f of
       F_undef \<Rightarrow> None
     | F_stop f1 \<Rightarrow> Some f1
     | F_more f1 \<Rightarrow> if fast_again e f1 then fast_loop e f1 else Some f1)"
  by auto
termination
proof (relation "measure (\<lambda>(e, f). e_avail_out e - length (f_out f))")
  fix e f f1
  assume "fast_body e f = F_more f1" and "fast_again e f1"
  then show "((e, f1), e, f) \<in> measure (\<lambda>(e, f). e_avail_out e - length (f_out f))"
    using fast_body_out [of e f f1] by (auto simp: fast_again_def)
qed simp

declare fast_loop.simps [simp del]

definition fast_env_of :: "inflate_run \<Rightarrow> fast_env" where
  "fast_env_of s = \<lparr>e_in = z_next_in (m_strm s), e_avail_out = z_avail_out (m_strm s),
     e_lcode = code_at s (h_lencode s), e_dcode = code_at s (h_distcode s),
     e_lenbits = h_lenbits s, e_distbits = h_distbits s\<rparr>"

text \<open>The call: on return, whole bytes in \<open>hold\<close> go back to the input; going back before its start is
  undefined.  \<open>start\<close> is not used in this configuration.\<close>

definition inflate_fast :: "inflate_run \<Rightarrow> inflate_run option" where
  "inflate_fast s =
    (let e = fast_env_of s in
     case fast_loop e \<lparr>f_in = 0, f_hold = i_hold s, f_bits = i_bits s, f_out = [], f_mode = i_mode s,
                       f_msg = z_msg (m_strm s)\<rparr> of
       None \<Rightarrow> None
     | Some f \<Rightarrow>
         let len = f_bits f div 8; pos = f_in f - len; bits = f_bits f - 8 * len in
         if f_in f < len then None
         else Some (s\<lparr>i_hold := f_hold f AND (push_bit bits 1 - 1), i_bits := bits, i_mode := f_mode f,
                 m_strm := (m_strm s)\<lparr>z_next_in := drop pos (e_in e), z_out := z_out (m_strm s) @ f_out f,
                   z_avail_out := e_avail_out e - length (f_out f), z_msg := f_msg f\<rparr>\<rparr>))"

end
