(* ===== verification/Inflate.thy ===== *)
theory Inflate
  imports Inffast
begin

text \<open>
  The state machine of \<^verbatim>\<open>j_inflate\<close> (inflate.c) as it is compiled with \<^verbatim>\<open>MY_ZLIB\<close> and \<^verbatim>\<open>GUNZIP\<close>: one
  function for each case of the switch, a case that falls through calls the next one.  \<open>with_bits\<close> is
  \<^verbatim>\<open>NEEDBITS\<close> followed by the rest of the case.  The machine decodes a DEFLATE stream and writes an
  instruction stream: the header of every block, then literals, matches and end-of-block marks.
\<close>

section \<open>Helpers\<close>

definition set_msg :: "string \<Rightarrow> inflate_run \<Rightarrow> inflate_run" where
  "set_msg m s = s\<lparr>m_strm := (m_strm s)\<lparr>z_msg := Some m\<rparr>\<rparr>"

definition bad :: "string \<Rightarrow> inflate_run \<Rightarrow> inflate_run step" where
  "bad m s = Next ((set_msg m s)\<lparr>i_mode := BAD\<rparr>)"

definition set_ins :: "ulong list \<Rightarrow> nat \<Rightarrow> inflate_run \<Rightarrow> inflate_run" where
  "set_ins vs ty s = s\<lparr>m_ins := \<lparr>ins_buffer = vs @ drop (length vs) (ins_buffer (m_ins s)),
     ins_buffer_index = 0, ins_buffer_have = length vs, ins_type = ty\<rparr>\<rparr>"

definition set_adler_check :: "ulong \<Rightarrow> inflate_run \<Rightarrow> inflate_run" where
  "set_adler_check v s = s\<lparr>i_check := v, m_strm := (m_strm s)\<lparr>z_adler := v\<rparr>\<rparr>"

definition upd_head :: "(gz_header \<Rightarrow> gz_header) \<Rightarrow> inflate_run \<Rightarrow> inflate_run" where
  "upd_head f s = s\<lparr>i_head := map_option f (i_head s)\<rparr>"

section \<open>Sending\<close>

definition inflate_SENDINS :: "inflate_run \<Rightarrow> inflate_run step" where
  "inflate_SENDINS s =
    (if m_left s = 0 then Leave s
     else
       let g = m_ins s; n = ins_buffer_have g - ins_buffer_index g;
           copy = (if n > m_left s then m_left s else n)
       in if length (ins_buffer g) < ins_buffer_index g + copy then Undef
          else
            let idx = ins_buffer_index g + copy;
                s1 = s\<lparr>m_left := m_left s - copy,
                       m_put := m_put s @ map ucast (take copy (drop (ins_buffer_index g) (ins_buffer g))),
                       m_ins := g\<lparr>ins_buffer_index := idx\<rparr>\<rparr>
            in Next (if idx = ins_buffer_have g
                     then s1\<lparr>i_mode := (if ins_type g = 4 then TYPE_0 else if ins_type g = 3 then LENGTH_0
                                          else if ins_type g \<noteq> 2 then LEN else TYPE_0)\<rparr>
                     else s1))"

definition inflate_SETENDOFBLOCK :: "inflate_run \<Rightarrow> inflate_run step" where
  "inflate_SETENDOFBLOCK s = inflate_SENDINS ((set_ins [0xaa, 0xff] 2 s)\<lparr>i_mode := SENDINS\<rparr>)"

definition inflate_SEND_HEADER :: "inflate_run \<Rightarrow> inflate_run step" where
  "inflate_SEND_HEADER s0 =
    (let s = (if header_flag s0 = 1
              then (my_put_byte 0xff (my_put_byte 0xaa (my_bi_windup s0)))\<lparr>header_flag := 0\<rparr> else s0)
     in if m_left s = 0 then Leave s
        else
          let n = header_have s - header_index s; copy = (if n > m_left s then m_left s else n)
          in if length (header_buf s) < header_index s + copy then Undef
             else
               let s1 = s\<lparr>m_left := m_left s - copy,
                          m_put := m_put s @ take copy (drop (header_index s) (header_buf s)),
                          header_index := header_index s + copy\<rparr>
               in Next (if header_have s1 = header_index s1
                        then s1\<lparr>i_mode := (if i_tree_type s1 = 0 then COPY_0 else LEN_0)\<rparr> else s1))"

section \<open>Trailer\<close>

definition inflate_DONE :: "inflate_run \<Rightarrow> inflate_run step" where
  "inflate_DONE s = Leave (s\<lparr>m_ret := Z_STREAM_END\<rparr>)"

definition inflate_LENGTH :: "inflate_run \<Rightarrow> inflate_run step" where
  "inflate_LENGTH s =
    (if i_wrap s \<noteq> 0 \<and> i_flags s \<noteq> 0
     then with_bits 32 s (\<lambda>s.
       if i_wrap s AND 4 \<noteq> 0 \<and> r_hold s \<noteq> i_total s AND 0xffffffff then bad ''incorrect length check'' s
       else inflate_DONE ((INITBITS s)\<lparr>i_mode := DONE\<rparr>))
     else inflate_DONE (s\<lparr>i_mode := DONE\<rparr>))"

text \<open>The four bytes of the check value are sent on; \<^verbatim>\<open>out\<close> is reset to the space left.\<close>

definition check_bytes :: "inflate_run \<Rightarrow> inflate_run" where
  "check_bytes s0 =
    (let d = m_out s0 - m_left s0;
         s = s0\<lparr>m_strm := (m_strm s0)\<lparr>z_total_out := z_total_out (m_strm s0) + of_nat d\<rparr>,
                i_total := i_total s0 + of_nat d, m_out := m_left s0\<rparr>;
         b0 = BITS 8 s; s1 = DROPBITS 8 s;
         b1 = BITS 8 s1; s2 = DROPBITS 8 s1;
         b2 = BITS 8 s2; s3 = DROPBITS 8 s2;
         b3 = BITS 8 s3; s4 = DROPBITS 8 s3
     in INITBITS (set_ins (map of_nat [b0, b1, b2, b3]) 3 s4))"

definition inflate_CHECK :: "inflate_run \<Rightarrow> inflate_run step" where
  "inflate_CHECK s =
    (if i_wrap s \<noteq> 0
     then with_bits 32 s (\<lambda>s. Next ((check_bytes s)\<lparr>i_mode := SENDINS\<rparr>))
     else inflate_LENGTH (s\<lparr>i_mode := LENGTH_0\<rparr>))"

section \<open>Symbols\<close>

definition inflate_MATCH :: "inflate_run \<Rightarrow> inflate_run step" where
  "inflate_MATCH s = Next (s\<lparr>i_mode := SENDINS\<rparr>)"

definition inflate_LIT :: "inflate_run \<Rightarrow> inflate_run step" where
  "inflate_LIT s = Next (s\<lparr>i_mode := SENDINS\<rparr>)"

definition extra_bits_read :: "inflate_run \<Rightarrow> inflate_run" where
  "extra_bits_read s = (let s1 = DROPBITS (i_extra s) s in s1\<lparr>i_back := i_back s1 + int (i_extra s1)\<rparr>)"

definition dist_done :: "inflate_run \<Rightarrow> inflate_run step" where
  "dist_done s =
    inflate_MATCH (set_ins [0xaa, ucast (of_nat (drop_bit 8 (i_offset s)) :: byte), ucast (of_nat (i_offset s) :: byte),
      ucast (of_int (int (i_length s) - 3) :: byte)] 1 (s\<lparr>i_mode := MATCH\<rparr>))"

definition inflate_DISTEXT :: "inflate_run \<Rightarrow> inflate_run step" where
  "inflate_DISTEXT s =
    (if i_extra s \<noteq> 0
     then with_bits (i_extra s) s (\<lambda>s.
       dist_done (extra_bits_read (s\<lparr>i_offset := i_offset s + BITS (i_extra s) s\<rparr>)))
     else dist_done s)"

definition len_link :: "code \<Rightarrow> bool" where
  "len_link here \<longleftrightarrow> c_op here \<noteq> 0 \<and> c_op here AND 0xf0 = 0"

definition dist_link :: "code \<Rightarrow> bool" where
  "dist_link here \<longleftrightarrow> c_op here AND 0xf0 = 0"

definition drop_code :: "code \<Rightarrow> inflate_run \<Rightarrow> inflate_run" where
  "drop_code here s =
    (let s1 = DROPBITS (unat (c_bits here)) s in s1\<lparr>i_back := i_back s1 + int (unat (c_bits here))\<rparr>)"

definition drop_codes :: "code option \<Rightarrow> code \<Rightarrow> inflate_run \<Rightarrow> inflate_run" where
  "drop_codes lst here s = drop_code here (case lst of None \<Rightarrow> s | Some l \<Rightarrow> drop_code l s)"

definition inflate_DIST :: "inflate_run \<Rightarrow> inflate_run step" where
  "inflate_DIST s =
    (case fetch_linked dist_link (h_distcode s) (h_distbits s) s of
       Fetch_undef \<Rightarrow> Undef
     | Fetch_short s1 \<Rightarrow> Leave s1
     | Fetched lst here s1 \<Rightarrow>
         let s2 = drop_codes lst here s1 in
         if c_op here AND 64 \<noteq> 0 then bad ''invalid distance code'' s2
         else inflate_DISTEXT (s2\<lparr>i_offset := unat (c_val here), i_extra := unat (c_op here AND 15), i_mode := DISTEXT\<rparr>))"

definition len_done :: "inflate_run \<Rightarrow> inflate_run step" where
  "len_done s = inflate_DIST (s\<lparr>i_was := i_length s, i_mode := DIST\<rparr>)"

definition inflate_LENEXT :: "inflate_run \<Rightarrow> inflate_run step" where
  "inflate_LENEXT s =
    (if i_extra s \<noteq> 0
     then with_bits (i_extra s) s (\<lambda>s.
       len_done (extra_bits_read (s\<lparr>i_length := i_length s + BITS (i_extra s) s\<rparr>)))
     else len_done s)"

definition inflate_LEN_slow :: "inflate_run \<Rightarrow> inflate_run step" where
  "inflate_LEN_slow s0 =
    (let s = s0\<lparr>i_back := 0\<rparr> in
     case fetch_linked len_link (h_lencode s) (h_lenbits s) s of
       Fetch_undef \<Rightarrow> Undef
     | Fetch_short s1 \<Rightarrow> Leave s1
     | Fetched lst here s1 \<Rightarrow>
         let s2 = (drop_codes lst here s1)\<lparr>i_length := unat (c_val here)\<rparr>; v = ucast (c_val here) in
         if c_op here = 0
         then Next ((set_ins (if c_val here = 0xaa then [v, v] else [v]) 0 s2)\<lparr>i_mode := LIT\<rparr>)
         else if c_op here AND 32 \<noteq> 0 then Next (s2\<lparr>i_back := -1, i_mode := SETENDOFBLOCK\<rparr>)
         else if c_op here AND 64 \<noteq> 0 then bad ''invalid literal/length code'' s2
         else inflate_LENEXT (s2\<lparr>i_extra := unat (c_op here AND 15), i_mode := LENEXT\<rparr>))"

definition inflate_LEN :: "inflate_run \<Rightarrow> inflate_run step" where
  "inflate_LEN s =
    (if length (r_next s) \<ge> 6 \<and> m_left s \<ge> 258
     then (case inflate_fast (RESTORE s) of
             None \<Rightarrow> Undef
           | Some s1 \<Rightarrow> let s2 = LOAD s1 in Next (if i_mode s2 = TYPE_0 then s2\<lparr>i_back := -1\<rparr> else s2))
     else inflate_LEN_slow s)"

definition inflate_LEN_0 :: "inflate_run \<Rightarrow> inflate_run step" where
  "inflate_LEN_0 s = inflate_LEN (s\<lparr>i_mode := LEN\<rparr>)"

section \<open>Dynamic block headers\<close>

definition table_result :: "table_out \<Rightarrow> inflate_run \<Rightarrow> inflate_run" where
  "table_result t s = s\<lparr>m_ret := to_ret t, h_codes := to_tab t, h_next := to_table t, h_work := to_work t\<rparr>"

definition inflate_codes :: "int \<Rightarrow> inflate_run \<Rightarrow> inflate_run step" where
  "inflate_codes flush s0 =
    (let s = s0\<lparr>h_next := 0, h_lencode := Codes 0, h_lenbits := 9\<rparr> in
     case inflate_table LENS (h_lens s) (h_nlen s) (h_codes s) (h_next s) (h_lenbits s) (h_work s) of
       None \<Rightarrow> Undef
     | Some t \<Rightarrow>
         let s1 = (table_result t s)\<lparr>h_lenbits := to_bits t\<rparr> in
         if to_ret t \<noteq> 0 then bad ''invalid literal/lengths set'' s1
         else
           let s2 = s1\<lparr>h_distcode := Codes (h_next s1), h_distbits := 6\<rparr> in
           (case inflate_table DISTS (drop (h_nlen s2) (h_lens s2)) (h_ndist s2) (h_codes s2) (h_next s2)
                   (h_distbits s2) (h_work s2) of
              None \<Rightarrow> Undef
            | Some u \<Rightarrow>
                let s3 = (table_result u s2)\<lparr>h_distbits := to_bits u\<rparr> in
                if to_ret u \<noteq> 0 then bad ''invalid distances set'' s3
                else let s4 = s3\<lparr>i_mode := SEND_HEADER\<rparr> in if flush = Z_TREES then Leave s4 else Next s4))"

definition inflate_CODELENS :: "int \<Rightarrow> inflate_run \<Rightarrow> inflate_run step" where
  "inflate_CODELENS flush s =
    (case codelens_loop DROPBITS (h_nlen s + h_ndist s - h_have s) s of
       CL_undef \<Rightarrow> Undef
     | CL_short s1 \<Rightarrow> Leave s1
     | CL_bad s1 \<Rightarrow> bad ''invalid bit length repeat'' s1
     | CL_more s1 \<Rightarrow>
         if h_lens s1 ! 256 = 0 then bad ''invalid code -- missing end-of-block'' s1
         else inflate_codes flush s1)"

definition inflate_LENLENS :: "int \<Rightarrow> inflate_run \<Rightarrow> inflate_run step" where
  "inflate_LENLENS flush s =
    (case lenlens_loop DROPBITS (i_ncode s - h_have s) s of
       Short s1 \<Rightarrow> Leave s1
     | Got s1 \<Rightarrow>
         let s2 = (lenlens_pad (19 - h_have s1) s1)\<lparr>h_next := 0, h_lencode := Codes 0, h_lenbits := 7\<rparr> in
         (case inflate_table CODES (h_lens s2) 19 (h_codes s2) (h_next s2) (h_lenbits s2) (h_work s2) of
            None \<Rightarrow> Undef
          | Some t \<Rightarrow>
              let s3 = (table_result t s2)\<lparr>h_lenbits := to_bits t\<rparr> in
              if to_ret t \<noteq> 0 then bad ''invalid code lengths set'' s3
              else inflate_CODELENS flush (s3\<lparr>h_have := 0, i_mode := CODELENS\<rparr>)))"

definition table_counts :: "inflate_run \<Rightarrow> inflate_run" where
  "table_counts s =
    (let s1 = DROPBITS 5 (s\<lparr>h_nlen := BITS 5 s + 257\<rparr>);
         s2 = DROPBITS 5 (s1\<lparr>h_ndist := BITS 5 s1 + 1\<rparr>)
     in DROPBITS 4 (s2\<lparr>i_ncode := BITS 4 s2 + 4\<rparr>))"

definition inflate_TABLE :: "int \<Rightarrow> inflate_run \<Rightarrow> inflate_run step" where
  "inflate_TABLE flush s =
    with_bits 14 s (\<lambda>s.
      let s1 = table_counts s in
      if h_nlen s1 > 286 \<or> h_ndist s1 > 30 then bad ''too many length or distance symbols'' s1
      else inflate_LENLENS flush (s1\<lparr>h_have := 0, i_mode := LENLENS\<rparr>))"

section \<open>Stored blocks\<close>

definition inflate_COPY :: "inflate_run \<Rightarrow> inflate_run step" where
  "inflate_COPY s =
    (let n = i_length s in
     if n \<noteq> 0 then
       let c1 = (if n > length (r_next s) then length (r_next s) else n);
           copy = (if c1 > m_left s then m_left s else c1)
       in if copy = 0 then Leave s
          else Next (s\<lparr>m_put := m_put s @ take copy (r_next s), r_next := drop copy (r_next s),
                       m_left := m_left s - copy, i_length := n - copy\<rparr>)
     else Next (s\<lparr>i_mode := SETENDOFBLOCK\<rparr>))"

definition inflate_COPY_0 :: "inflate_run \<Rightarrow> inflate_run step" where
  "inflate_COPY_0 s = inflate_COPY (s\<lparr>i_mode := COPY\<rparr>)"

definition inflate_STORED :: "inflate_run \<Rightarrow> inflate_run step" where
  "inflate_STORED s =
    with_bits 32 (my_bi_windup (BYTEBITS s)) (\<lambda>s.
      if r_hold s AND 0xffff \<noteq> drop_bit 16 (r_hold s) XOR 0xffff then bad ''invalid stored block lengths'' s
      else Next ((DROPBITS 16 (DROPBITS 16 (s\<lparr>i_length := unat ((ucast (r_hold s) :: uint32) AND 0xffff)\<rparr>)))
             \<lparr>i_mode := SEND_HEADER\<rparr>))"

section \<open>Block types\<close>

definition inflate_TYPEDO :: "int \<Rightarrow> inflate_run \<Rightarrow> inflate_run step" where
  "inflate_TYPEDO flush s0 =
    (let s = s0\<lparr>header_flag := 1, header_index := 0, header_have := 0, my_bi_buf := 0, my_bi_valid := 0\<rparr> in
     if i_last s \<noteq> 0 then Next ((BYTEBITS s)\<lparr>i_mode := CHECK\<rparr>)
     else with_bits 3 s (\<lambda>s.
       let s1 = DROPBITS 1 (s\<lparr>i_last := BITS 1 s\<rparr>); t = BITS 2 s1 in
       if t = 0 then Next (DROPBITS 2 (s1\<lparr>i_mode := STORED, i_tree_type := 0\<rparr>))
       else if t = 1 then
         let s2 = (fixedtables s1)\<lparr>i_tree_type := 1, i_mode := SEND_HEADER\<rparr> in
         if flush = Z_TREES then Leave (DROPBITS 2 s2) else Next (DROPBITS 2 s2)
       else if t = 2 then Next (DROPBITS 2 (s1\<lparr>i_mode := TABLE, i_tree_type := 2\<rparr>))
       else Next (DROPBITS 2 ((set_msg ''invalid block type'' s1)\<lparr>i_mode := BAD\<rparr>))))"

definition inflate_TYPE :: "int \<Rightarrow> inflate_run \<Rightarrow> inflate_run step" where
  "inflate_TYPE flush s =
    (if flush = Z_BLOCK \<or> flush = Z_TREES then Leave s else inflate_TYPEDO flush s)"

section \<open>Preset dictionary and headers\<close>

definition inflate_DICT :: "int \<Rightarrow> inflate_run \<Rightarrow> inflate_run step" where
  "inflate_DICT flush s =
    (if i_havedict s = 0 then Ret Z_NEED_DICT (RESTORE s)
     else inflate_TYPE flush ((set_adler_check (adler32 0 None) s)\<lparr>i_mode := TYPE_0\<rparr>))"

definition inflate_DICTID :: "int \<Rightarrow> inflate_run \<Rightarrow> inflate_run step" where
  "inflate_DICTID flush s =
    with_bits 32 s (\<lambda>s.
      inflate_DICT flush ((INITBITS (set_adler_check (ZSWAP32 (r_hold s)) s))\<lparr>i_mode := DICT\<rparr>))"

definition hcrc_on :: "inflate_run \<Rightarrow> bool" where
  "hcrc_on s \<longleftrightarrow> i_flags s AND 0x0200 \<noteq> 0 \<and> i_wrap s AND 4 \<noteq> 0"

definition inflate_HCRC_done :: "inflate_run \<Rightarrow> inflate_run step" where
  "inflate_HCRC_done s =
    Next ((set_adler_check (crc32 0 0 None)
      (upd_head (\<lambda>h. h\<lparr>gz_hcrc := drop_bit 9 (i_flags s) AND 1, gz_done := 1\<rparr>) s))\<lparr>i_mode := TYPE_0\<rparr>)"

definition inflate_HCRC :: "inflate_run \<Rightarrow> inflate_run step" where
  "inflate_HCRC s =
    (if i_flags s AND 0x0200 \<noteq> 0
     then with_bits 16 s (\<lambda>s.
       if i_wrap s AND 4 \<noteq> 0 \<and> r_hold s \<noteq> i_check s AND 0xffff then bad ''header crc mismatch'' s
       else inflate_HCRC_done (INITBITS s))
     else inflate_HCRC_done s)"

text \<open>The loops of NAME and COMMENT over a string that ends with a zero byte or at the end of the input:
  \<open>lim\<close> is the space at \<open>buf\<close>, the result the number of bytes taken, the last byte, the new length and the
  new contents.\<close>

fun zstr_loop :: "nat \<Rightarrow> byte list \<Rightarrow> nat \<Rightarrow> nat \<Rightarrow> byte list option \<Rightarrow> (nat \<times> byte \<times> nat \<times> byte list option) option" where
  "zstr_loop lim [] copy len buf = None"
| "zstr_loop lim (b # bs) copy len buf =
    (let store = buf \<noteq> None \<and> len < lim;
         ok = (case buf of Some bf \<Rightarrow> \<not> store \<or> len < length bf | None \<Rightarrow> True);
         buf' = (if store then map_option (\<lambda>bf. bf[len := b]) buf else buf);
         len' = (if store then len + 1 else len)
     in if \<not> ok then None
        else if b \<noteq> 0 \<and> bs \<noteq> [] then zstr_loop lim bs (copy + 1) len' buf'
        else Some (copy + 1, b, len', buf'))"

definition inflate_COMMENT :: "inflate_run \<Rightarrow> inflate_run step" where
  "inflate_COMMENT s =
    (if i_flags s AND 0x1000 \<noteq> 0 then
       if r_next s = [] then Leave s
       else
         (case zstr_loop (case i_head s of Some h \<Rightarrow> gz_comm_max h | None \<Rightarrow> 0) (r_next s) 0 (i_length s)
                 (case i_head s of Some h \<Rightarrow> gz_comment h | None \<Rightarrow> None) of
            None \<Rightarrow> Undef
          | Some (copy, len, n, buf) \<Rightarrow>
              let s1 = (upd_head (\<lambda>h. h\<lparr>gz_comment := buf\<rparr>) s)\<lparr>i_length := n\<rparr>;
                  s2 = (if hcrc_on s1 then s1\<lparr>i_check := crc32 0 (i_check s1) (Some (take copy (r_next s1)))\<rparr> else s1);
                  s3 = s2\<lparr>r_next := drop copy (r_next s2)\<rparr>
              in if len \<noteq> 0 then Leave s3 else inflate_HCRC (s3\<lparr>i_mode := HCRC\<rparr>))
     else inflate_HCRC ((upd_head (\<lambda>h. h\<lparr>gz_comment := None\<rparr>) s)\<lparr>i_mode := HCRC\<rparr>))"

definition inflate_NAME :: "inflate_run \<Rightarrow> inflate_run step" where
  "inflate_NAME s =
    (if i_flags s AND 0x0800 \<noteq> 0 then
       if r_next s = [] then Leave s
       else
         (case zstr_loop (case i_head s of Some h \<Rightarrow> gz_name_max h | None \<Rightarrow> 0) (r_next s) 0 (i_length s)
                 (case i_head s of Some h \<Rightarrow> gz_name h | None \<Rightarrow> None) of
            None \<Rightarrow> Undef
          | Some (copy, len, n, buf) \<Rightarrow>
              let s1 = (upd_head (\<lambda>h. h\<lparr>gz_name := buf\<rparr>) s)\<lparr>i_length := n\<rparr>;
                  s2 = (if hcrc_on s1 then s1\<lparr>i_check := crc32 0 (i_check s1) (Some (take copy (r_next s1)))\<rparr> else s1);
                  s3 = s2\<lparr>r_next := drop copy (r_next s2)\<rparr>
              in if len \<noteq> 0 then Leave s3 else inflate_COMMENT (s3\<lparr>i_length := 0, i_mode := COMMENT\<rparr>))
     else inflate_COMMENT ((upd_head (\<lambda>h. h\<lparr>gz_name := None\<rparr>) s)\<lparr>i_length := 0, i_mode := COMMENT\<rparr>))"

text \<open>EXTRA copies what fits to the header's buffer; \<open>None\<close> when the buffer is smaller than announced.\<close>

definition extra_store :: "byte list \<Rightarrow> nat \<Rightarrow> gz_header \<Rightarrow> gz_header option" where
  "extra_store bs remaining h =
    (case gz_extra h of
       None \<Rightarrow> Some h
     | Some buf \<Rightarrow>
         let len = gz_extra_len h - remaining in
         if len < gz_extra_max h then
           let n = (if len + length bs > gz_extra_max h then gz_extra_max h - len else length bs)
           in if length buf < len + n then None
              else Some (h\<lparr>gz_extra := Some (take len buf @ take n bs @ drop (len + n) buf)\<rparr>)
         else Some h)"

definition inflate_EXTRA_copy :: "nat \<Rightarrow> inflate_run \<Rightarrow> inflate_run option" where
  "inflate_EXTRA_copy copy s =
    (case (case i_head s of None \<Rightarrow> Some None | Some h \<Rightarrow> map_option Some (extra_store (take copy (r_next s)) (i_length s) h)) of
       None \<Rightarrow> None
     | Some hd' \<Rightarrow>
         let s1 = s\<lparr>i_head := hd'\<rparr>;
             s2 = (if hcrc_on s1 then s1\<lparr>i_check := crc32 0 (i_check s1) (Some (take copy (r_next s1)))\<rparr> else s1)
         in Some (s2\<lparr>r_next := drop copy (r_next s2), i_length := i_length s2 - copy\<rparr>))"

definition inflate_EXTRA :: "inflate_run \<Rightarrow> inflate_run step" where
  "inflate_EXTRA s =
    (if i_flags s AND 0x0400 \<noteq> 0 then
       let copy = (if i_length s > length (r_next s) then length (r_next s) else i_length s) in
       (case (if copy \<noteq> 0 then inflate_EXTRA_copy copy s else Some s) of
          None \<Rightarrow> Undef
        | Some s1 \<Rightarrow> if i_length s1 \<noteq> 0 then Leave s1 else inflate_NAME (s1\<lparr>i_length := 0, i_mode := NAME\<rparr>))
     else inflate_NAME (s\<lparr>i_length := 0, i_mode := NAME\<rparr>))"

definition inflate_EXLEN :: "inflate_run \<Rightarrow> inflate_run step" where
  "inflate_EXLEN s =
    (if i_flags s AND 0x0400 \<noteq> 0
     then with_bits 16 s (\<lambda>s.
       let n = unat (ucast (r_hold s) :: uint32);
           s1 = upd_head (\<lambda>h. h\<lparr>gz_extra_len := n\<rparr>) (s\<lparr>i_length := n\<rparr>);
           s2 = (if hcrc_on s1 then s1\<lparr>i_check := CRC2 (i_check s1) (r_hold s1)\<rparr> else s1)
       in inflate_EXTRA ((INITBITS s2)\<lparr>i_mode := EXTRA\<rparr>))
     else inflate_EXTRA ((upd_head (\<lambda>h. h\<lparr>gz_extra := None\<rparr>) s)\<lparr>i_mode := EXTRA\<rparr>))"

definition inflate_OS :: "inflate_run \<Rightarrow> inflate_run step" where
  "inflate_OS s =
    with_bits 16 s (\<lambda>s.
      let s1 = upd_head (\<lambda>h. h\<lparr>gz_xflags := uint (r_hold s AND 0xff), gz_os := uint (drop_bit 8 (r_hold s))\<rparr>) s;
          s2 = (if hcrc_on s1 then s1\<lparr>i_check := CRC2 (i_check s1) (r_hold s1)\<rparr> else s1)
      in inflate_EXLEN ((INITBITS s2)\<lparr>i_mode := EXLEN\<rparr>))"

definition inflate_TIME :: "inflate_run \<Rightarrow> inflate_run step" where
  "inflate_TIME s =
    with_bits 32 s (\<lambda>s.
      let s1 = upd_head (\<lambda>h. h\<lparr>gz_time := r_hold s\<rparr>) s;
          s2 = (if hcrc_on s1 then s1\<lparr>i_check := CRC4 (i_check s1) (r_hold s1)\<rparr> else s1)
      in inflate_OS ((INITBITS s2)\<lparr>i_mode := OS\<rparr>))"

definition inflate_FLAGS :: "inflate_run \<Rightarrow> inflate_run step" where
  "inflate_FLAGS s =
    with_bits 16 s (\<lambda>s0.
      let s = s0\<lparr>i_flags := uint (r_hold s0)\<rparr> in
      if i_flags s AND 0xff \<noteq> Z_DEFLATED then bad ''unknown compression method'' s
      else if i_flags s AND 0xe000 \<noteq> 0 then bad ''unknown header flags set'' s
      else
        let s1 = upd_head (\<lambda>h. h\<lparr>gz_text := uint (drop_bit 8 (r_hold s) AND 1)\<rparr>) s;
            s2 = (if hcrc_on s1 then s1\<lparr>i_check := CRC2 (i_check s1) (r_hold s1)\<rparr> else s1)
        in inflate_TIME ((INITBITS s2)\<lparr>i_mode := TIME\<rparr>))"

text \<open>The zlib header, after the two bytes have been read.\<close>

definition zlib_header :: "inflate_run \<Rightarrow> inflate_run step" where
  "zlib_header s0 =
    (let s = upd_head (\<lambda>h. h\<lparr>gz_done := -1\<rparr>) s0 in
     if i_wrap s AND 1 = 0 \<or> (BITS 8 s * 256 + unat (drop_bit 8 (r_hold s))) mod 31 \<noteq> 0
     then bad ''incorrect header check'' s
     else if BITS 4 s \<noteq> 8 then bad ''unknown compression method'' s
     else
       let s1 = DROPBITS 4 s; len = BITS 4 s1 + 8;
           s2 = (if i_wbits s1 = 0 then s1\<lparr>i_wbits := len\<rparr> else s1)
       in if len > 15 \<or> len > i_wbits s2 then bad ''invalid window size'' s2
          else Next (INITBITS ((set_adler_check (adler32 0 None) (s2\<lparr>i_dmax := 2 ^ len, i_flags := 0\<rparr>))
                 \<lparr>i_mode := SENDINS\<rparr>)))"

definition inflate_HEAD :: "inflate_run \<Rightarrow> inflate_run step" where
  "inflate_HEAD s =
    (if i_wrap s = 0 then Next (s\<lparr>i_mode := TYPEDO\<rparr>)
     else with_bits 16 s (\<lambda>s0.
       let s = set_ins [r_hold s0 AND 0xff, drop_bit 8 (r_hold s0) AND 0xff] 4 s0 in
       if i_wrap s AND 2 \<noteq> 0 \<and> r_hold s = 0x8b1f
       then let s1 = (if i_wbits s = 0 then s\<lparr>i_wbits := 15\<rparr> else s)
            in Next ((INITBITS (s1\<lparr>i_check := CRC2 (crc32 0 0 None) (r_hold s1)\<rparr>))\<lparr>i_mode := FLAGS\<rparr>)
       else zlib_header s))"

section \<open>The loop\<close>

definition inflate_step :: "int \<Rightarrow> inflate_run \<Rightarrow> inflate_run step" where
  "inflate_step flush s =
    (case i_mode s of
       HEAD \<Rightarrow> inflate_HEAD s | FLAGS \<Rightarrow> inflate_FLAGS s | TIME \<Rightarrow> inflate_TIME s | OS \<Rightarrow> inflate_OS s
     | EXLEN \<Rightarrow> inflate_EXLEN s | EXTRA \<Rightarrow> inflate_EXTRA s | NAME \<Rightarrow> inflate_NAME s
     | COMMENT \<Rightarrow> inflate_COMMENT s | HCRC \<Rightarrow> inflate_HCRC s | DICTID \<Rightarrow> inflate_DICTID flush s
     | DICT \<Rightarrow> inflate_DICT flush s | TYPE_0 \<Rightarrow> inflate_TYPE flush s | TYPEDO \<Rightarrow> inflate_TYPEDO flush s
     | STORED \<Rightarrow> inflate_STORED s | COPY_0 \<Rightarrow> inflate_COPY_0 s | COPY \<Rightarrow> inflate_COPY s
     | TABLE \<Rightarrow> inflate_TABLE flush s | LENLENS \<Rightarrow> inflate_LENLENS flush s | CODELENS \<Rightarrow> inflate_CODELENS flush s
     | SEND_HEADER \<Rightarrow> inflate_SEND_HEADER s | LEN_0 \<Rightarrow> inflate_LEN_0 s | LEN \<Rightarrow> inflate_LEN s
     | LENEXT \<Rightarrow> inflate_LENEXT s | DIST \<Rightarrow> inflate_DIST s | DISTEXT \<Rightarrow> inflate_DISTEXT s
     | MATCH \<Rightarrow> inflate_MATCH s | LIT \<Rightarrow> inflate_LIT s | CHECK \<Rightarrow> inflate_CHECK s
     | LENGTH_0 \<Rightarrow> inflate_LENGTH s | DONE \<Rightarrow> inflate_DONE s | BAD \<Rightarrow> Leave (s\<lparr>m_ret := Z_DATA_ERROR\<rparr>)
     | MEM \<Rightarrow> Ret Z_MEM_ERROR s | SETENDOFBLOCK \<Rightarrow> inflate_SETENDOFBLOCK s | SENDINS \<Rightarrow> inflate_SENDINS s
     | SYNC \<Rightarrow> Ret Z_STREAM_ERROR s)"

text \<open>The label \<open>inf_leave\<close>.\<close>

definition inf_leave :: "int \<Rightarrow> inflate_run \<Rightarrow> int \<times> inflate_run" where
  "inf_leave flush s0 =
    (let s = RESTORE s0;
         din = m_in s - length (z_next_in (m_strm s));
         dout = m_out s - z_avail_out (m_strm s);
         s1 = s\<lparr>m_strm := (m_strm s)\<lparr>z_total_in := z_total_in (m_strm s) + of_nat din,
                                     z_total_out := z_total_out (m_strm s) + of_nat dout\<rparr>,
                i_total := i_total s + of_nat dout\<rparr>;
         w = z_out (m_strm s1);
         s2 = (if i_wrap s1 AND 4 \<noteq> 0 \<and> dout \<noteq> 0
               then set_adler_check (UPDATE_CHECK s1 (i_check s1) (drop (length w - dout) w)) s1 else s1);
         ret = (if (din = 0 \<and> dout = 0 \<or> flush = Z_FINISH) \<and> m_ret s2 = Z_OK then Z_BUF_ERROR else m_ret s2)
     in (ret, s2))"

fun inflate_loop :: "nat \<Rightarrow> int \<Rightarrow> inflate_run \<Rightarrow> inflate_run run" where
  "inflate_loop 0 flush s = Out_of_fuel"
| "inflate_loop (Suc n) flush s =
    (case inflate_step flush s of
       Next s1 \<Rightarrow> inflate_loop n flush s1
     | Leave s1 \<Rightarrow> (case inf_leave flush s1 of (ret, s2) \<Rightarrow> Done ret s2)
     | Ret ret s1 \<Rightarrow> Done ret s1
     | Undef \<Rightarrow> Undefined)"

text \<open>Every round writes a byte or goes down in the order of the modes, of which there are sixteen levels;
  see \<open>Inflate_Loop\<close>.\<close>

definition inflate_fuel :: "inflate_run \<Rightarrow> nat" where
  "inflate_fuel s = 16 * m_left s + 16"

definition inflate_enter :: "ins_globals \<Rightarrow> inflate_strm \<Rightarrow> inflate_state \<Rightarrow> inflate_run" where
  "inflate_enter g strm state =
    (let st = (if i_mode state = TYPE_0 then state\<lparr>i_mode := TYPEDO\<rparr> else state)
     in LOAD (inflate_state.extend st (inflate_run.fields strm [] 0 (length (z_next_in strm)) (z_avail_out strm) Z_OK g)))"

text \<open>The stream and the globals after the call.\<close>

definition inflate_exit :: "inflate_run \<Rightarrow> ins_globals \<times> inflate_strm" where
  "inflate_exit s = (m_ins s, (m_strm s)\<lparr>z_state := Some (inflate_state.truncate s)\<rparr>)"

definition j_inflate :: "int \<Rightarrow> ins_globals \<Rightarrow> inflate_strm option \<Rightarrow> (ins_globals \<times> inflate_strm option) run" where
  "j_inflate flush g strmp =
    (case strmp of
       None \<Rightarrow> Done Z_STREAM_ERROR (g, strmp)
     | Some strm \<Rightarrow>
         if inflateStateCheck strmp \<or> z_out_null strm \<or> z_in_null strm \<and> z_next_in strm \<noteq> []
         then Done Z_STREAM_ERROR (g, strmp)
         else case z_state strm of
           None \<Rightarrow> Done Z_STREAM_ERROR (g, strmp)
         | Some state \<Rightarrow>
             let s = inflate_enter g strm state in
             (case inflate_loop (inflate_fuel s) flush s of
                Done ret s1 \<Rightarrow> (case inflate_exit s1 of (g1, strm1) \<Rightarrow> Done ret (g1, Some strm1))
              | Undefined \<Rightarrow> Undefined
              | Out_of_fuel \<Rightarrow> Out_of_fuel))"

end
