(* ===== verification/Instructions.thy ===== *)
theory Instructions
  imports Prelude
begin

text \<open>
  The instruction stream that connects the two halves of the library: what \<^verbatim>\<open>j_inflate\<close> writes for the
  symbols of a block and \<^verbatim>\<open>deflate_my\<close> reads.
\<close>

section \<open>Instructions\<close>

datatype instr = Lit ush | Match nat nat | End_block

text \<open>The bytes of an instruction; a match is \<open>Match len dist\<close>.\<close>

fun instr_bytes :: "instr \<Rightarrow> byte list" where
  "instr_bytes (Lit v) = (if v = 0xaa then [0xaa, 0xaa] else [ucast v])"
| "instr_bytes (Match len dist) = [0xaa, of_nat (drop_bit 8 dist), of_nat dist, of_int (int len - 3)]"
| "instr_bytes End_block = [0xaa, 0xff]"

lemma instr_bytes_len: "1 \<le> length (instr_bytes i) \<and> length (instr_bytes i) \<le> 4"
  by (cases i) auto

section \<open>Symbols\<close>

text \<open>The instructions that a valid stream has inside a block.\<close>

fun instr_ok :: "instr \<Rightarrow> bool" where
  "instr_ok (Lit v) = (v < 256)"
| "instr_ok (Match len dist) = (3 \<le> len \<and> len \<le> 258 \<and> 1 \<le> dist \<and> dist \<le> 32768)"
| "instr_ok End_block = False"

text \<open>A symbol as \<open>compress_block\<close> reads it: the distance, 0 for a literal, and the literal or the length less three.\<close>

fun instr_sym :: "instr \<Rightarrow> nat \<times> nat" where
  "instr_sym (Lit v) = (0, unat v)"
| "instr_sym (Match len dist) = (dist, len - 3)"
| "instr_sym End_block = (0, 0)"

end
