(* ===== verification/Inflate_Symbols.thy ===== *)
theory Inflate_Symbols
  imports Fixed_Tables Inflate Instructions
begin

text \<open>
  One symbol of a compressed block.  \<open>next_instr\<close> is the reference: what the bits at the front of the
  stream mean under a literal/length table and a distance table, as an instruction or an error, and
  how many bits that takes.  Both decoders of the library are compared with it: the loop of
  \<open>inflate_fast\<close>, which loads up to 48 bits ahead and gives bytes back at the end, and the cases LEN to
  MATCH of \<open>j_inflate\<close>, which pull one byte at a time.
\<close>

section \<open>The reference\<close>

abbreviation (input) "symbol_of tab nb bs \<equiv> symbol_table.symbol is_link tab nb (val_of bs)"

text \<open>The distance part, after the length has been read.\<close>

definition next_dist :: "(nat \<Rightarrow> code option) \<Rightarrow> nat \<Rightarrow> nat \<Rightarrow> bool list \<Rightarrow> (string + instr) \<times> nat" where
  "next_dist dt dnb len bs =
    (case symbol_of dt dnb bs of (_, h, n) \<Rightarrow>
      if c_op h AND 64 \<noteq> 0 then (Inl ''invalid distance code'', n)
      else let x = unat (c_op h AND 15) in
           (Inr (Match len (unat (c_val h) + val_of (take x (drop n bs)))), n + x))"

definition next_instr :: "(nat \<Rightarrow> code option) \<Rightarrow> nat \<Rightarrow> (nat \<Rightarrow> code option) \<Rightarrow> nat \<Rightarrow> bool list \<Rightarrow> (string + instr) \<times> nat" where
  "next_instr lt lnb dt dnb bs =
    (case symbol_of lt lnb bs of (_, h, n) \<Rightarrow>
      if c_op h = 0 then (Inr (Lit (c_val h)), n)
      else if c_op h AND 32 \<noteq> 0 then (Inr End_block, n)
      else if c_op h AND 64 \<noteq> 0 then (Inl ''invalid literal/length code'', n)
      else let x = unat (c_op h AND 15) in
           (case next_dist dt dnb (unat (c_val h) + val_of (take x (drop n bs))) (drop (n + x) bs) of
              (r, m) \<Rightarrow> (r, n + x + m)))"

section \<open>Kinds of entries\<close>

lemma op_and_mask: "(p :: byte) AND 0xf0 = 0 \<Longrightarrow> p AND 16 = 0 \<and> p AND 64 = 0 \<and> p AND 32 = 0"
proof -
  assume p: "p AND 0xf0 = 0"
  have "p AND 16 = (p AND 0xf0) AND 16" "p AND 64 = (p AND 0xf0) AND 64" "p AND 32 = (p AND 0xf0) AND 32"
    by (simp_all add: and.assoc)
  with p show ?thesis by simp
qed

definition lens_op :: "byte \<Rightarrow> bool" where
  "lens_op p \<longleftrightarrow> p = 0 \<or> p = 96 \<or> p AND 16 \<noteq> 0 \<and> p AND 32 = 0 \<and> p AND 64 = 0 \<and> unat (p AND 15) \<le> 5 \<or>
    p \<noteq> 0 \<and> p AND 16 = 0 \<and> p AND 64 \<noteq> 0 \<and> p AND 32 = 0"

definition dists_op :: "byte \<Rightarrow> bool" where
  "dists_op p \<longleftrightarrow> p AND 16 \<noteq> 0 \<and> p AND 64 = 0 \<and> unat (p AND 15) \<le> 13 \<or> p AND 16 = 0 \<and> p AND 64 \<noteq> 0"

lemma ext_ops: "list_all (\<lambda>x. lens_op (ucast x)) lext" "list_all (\<lambda>x. dists_op (ucast x)) dext"
  by (simp_all add: lext_def dext_def lens_op_def dists_op_def)

lemma const_ops: "lens_op 0" "lens_op 96" "lens_op 64" "dists_op 64"
  by (simp_all add: lens_op_def dists_op_def)

lemma lens_entry:
  assumes "entry_of LENS e" shows "lens_op (c_op e)"
proof (cases "c_op e = 64")
  case False
  then obtain s b where s: "s < 288" "e = table_entry LENS [] s b" using assms by (auto simp: entry_of_def max_syms_def)
  then have "c_op e = 0 \<or> c_op e = 96 \<or> s - 257 < length lext \<and> c_op e = ucast (lext ! (s - 257))"
    by (auto simp: table_entry_def Let_def table_lengths)
  then show ?thesis using const_ops ext_ops(1) by (auto simp: list_all_length)
qed (simp add: const_ops)

lemma dists_entry:
  assumes "entry_of DISTS e" shows "dists_op (c_op e)"
proof (cases "c_op e = 64")
  case False
  then obtain s b where s: "s < 32" "e = table_entry DISTS [] s b" using assms by (auto simp: entry_of_def max_syms_def)
  then have "s < length dext \<and> c_op e = ucast (dext ! s)"
    by (auto simp: table_entry_def Let_def table_lengths)
  then show ?thesis using ext_ops(2) by (auto simp: list_all_length)
qed (simp add: const_ops)

lemma link_ops: "is_link e \<Longrightarrow> c_op e \<noteq> 0 \<and> c_op e AND 16 = 0 \<and> c_op e AND 64 = 0"
  using op_and_mask by (auto simp: is_link_def)

section \<open>The registers of inflate\_fast\<close>

definition f_rem :: "fast_env \<Rightarrow> fast \<Rightarrow> bool list" where
  "f_rem e f = bits_of (f_bits f) (f_hold f) @ bytes_bits (drop (f_in f) (e_in e))"

lemma length_f_rem: "length (f_rem e f) = f_bits f + 8 * (length (e_in e) - f_in f)"
  by (simp add: f_rem_def)

text \<open>\<open>f'\<close> is \<open>f\<close> after consuming \<open>n\<close> bits and loading any number of bytes.\<close>

definition f_adv :: "fast_env \<Rightarrow> nat \<Rightarrow> fast \<Rightarrow> fast \<Rightarrow> bool" where
  "f_adv e n f f' \<longleftrightarrow> hold_ok (f_hold f') (f_bits f') \<and> f_rem e f' = drop n (f_rem e f) \<and> n \<le> length (f_rem e f) \<and>
    8 * f_in f' + f_bits f = 8 * f_in f + f_bits f' + n \<and> f_in f' \<le> length (e_in e) \<and>
    f_out f' = f_out f \<and> f_mode f' = f_mode f \<and> f_msg f' = f_msg f"

abbreviation (input) "f_load e \<equiv> f_adv e 0"

lemma f_load_refl: "hold_ok (f_hold f) (f_bits f) \<Longrightarrow> f_in f \<le> length (e_in e) \<Longrightarrow> f_load e f f"
  by (simp add: f_adv_def)

lemma f_adv_trans: "f_adv e n f g \<Longrightarrow> f_adv e m g h \<Longrightarrow> f_adv e (n + m) f h"
  by (auto simp: f_adv_def add.commute)

lemmas f_load_trans = f_adv_trans [where n = 0, simplified]

lemma f_byte_load:
  assumes "hold_ok (f_hold f) (f_bits f)" and "f_bits f \<le> 48" and "f_in f < length (e_in e)"
  obtains f' where "f_byte e f = Some f'" "f_load e f f'" "f_bits f' = f_bits f + 8"
proof
  let ?f = "f\<lparr>f_hold := f_hold f + push_bit (f_bits f) (ucast (e_in e ! f_in f)), f_bits := f_bits f + 8, f_in := f_in f + 1\<rparr>"
  show "f_byte e f = Some ?f" using assms(3) by (simp add: f_byte_def)
  have d: "drop (f_in f) (e_in e) = e_in e ! f_in f # drop (f_in f + 1) (e_in e)"
    using assms(3) by (simp add: Cons_nth_drop_Suc)
  have "f_rem e ?f = f_rem e f"
    using hold_add_bits [OF assms(1), of "e_in e ! f_in f"] unfolding f_rem_def d by simp
  then show "f_load e f ?f"
    using hold_add_ok [OF assms(1,2)] assms(3) by (simp add: f_adv_def)
qed simp

lemma f_need15_load:
  assumes "hold_ok (f_hold f) (f_bits f)" and "f_in f \<le> length (e_in e)" and "23 \<le> length (f_rem e f)"
  obtains f' where "f_need15 e f = Some f'" "f_load e f f'" "15 \<le> f_bits f'"
proof (cases "f_bits f < 15")
  case False
  then show ?thesis using that [of f] assms f_load_refl by (simp add: f_need15_def)
next
  case True
  then have b: "f_bits f \<le> 48" "f_in f + 2 \<le> length (e_in e)" using assms(3) by (auto simp: length_f_rem)
  then obtain f1 where f1: "f_byte e f = Some f1" "f_load e f f1" "f_bits f1 = f_bits f + 8"
    using f_byte_load [OF assms(1) b(1)] by (metis add_2_eq_Suc' le_simps(3) less_imp_le_nat less_le_trans lessI)
  then have "hold_ok (f_hold f1) (f_bits f1)" "f_bits f1 \<le> 48" "f_in f1 < length (e_in e)"
    using True b by (auto simp: f_adv_def)
  then obtain f2 where f2: "f_byte e f1 = Some f2" "f_load e f1 f2" "f_bits f2 = f_bits f1 + 8"
    using f_byte_load by blast
  show ?thesis
    using that [of f2] f1 f2 True f_load_trans [OF f1(2) f2(2)] by (simp add: f_need15_def)
qed

lemma f_drop_bits [simp]: "f_bits (f_drop n f) = f_bits f - n" "f_in (f_drop n f) = f_in f"
  "f_mode (f_drop n f) = f_mode f" "f_msg (f_drop n f) = f_msg f"
  by (simp_all add: f_drop_def)

text \<open>The registers as those of a reader, whose lemmas apply.\<close>

definition as_reader :: "fast_env \<Rightarrow> fast \<Rightarrow> reader" where
  "as_reader e f = \<lparr>r_next = drop (f_in f) (e_in e), r_hold = f_hold f, r_bits = f_bits f\<rparr>"

lemma as_reader_simps: "f_rem e f = rem (as_reader e f)" "r_bits (as_reader e f) = f_bits f"
  "r_hold (as_reader e f) = f_hold f" "rinv (as_reader e f) \<longleftrightarrow> hold_ok (f_hold f) (f_bits f)"
  "as_reader e (f_drop n f) = drop_bits n (as_reader e f)"
  by (simp_all add: as_reader_def f_rem_def rem_def rinv_def f_drop_def drop_bits_def)

lemma f_drop_rem: "n \<le> f_bits f \<Longrightarrow> f_rem e (f_drop n f) = drop n (f_rem e f)"
  by (simp add: as_reader_simps drop_bits_rem)

lemma f_drop_ok: "hold_ok (f_hold f) (f_bits f) \<Longrightarrow> n \<le> f_bits f \<Longrightarrow> hold_ok (f_hold (f_drop n f)) (f_bits (f_drop n f))"
  using drop_bits_inv [of "as_reader e f" n] as_reader_simps(4) [of e "f_drop n f"] as_reader_simps(2,4,5) by metis

lemma f_low: "n \<le> f_bits f \<Longrightarrow> n < 32 \<Longrightarrow> low_bits n (f_hold f) = val_of (take n (f_rem e f))"
  using BITS_rem [of n "as_reader e f"] by (simp add: BITS_def as_reader_simps)

lemma f_drop_drop: "f_drop m (f_drop n f) = f_drop (n + m) f"
  by (simp add: f_drop_def drop_bit_drop_bit add.commute)

lemma f_hold_value: "n \<le> f_bits f \<Longrightarrow> unat (f_hold f) mod 2 ^ n = val_of (f_rem e f) mod 2 ^ n"
  using hold_value_mod [of n "as_reader e f"] by (simp add: as_reader_simps)


section \<open>A symbol in inflate\_fast\<close>

text \<open>The branches behind a finished lookup.\<close>

definition len_case :: "fast_env \<Rightarrow> code \<Rightarrow> fast \<Rightarrow> fast_result" where
  "len_case e here f =
    (if c_op here = 0 then
       (case f_write e (instr_bytes (Lit (c_val here))) f of None \<Rightarrow> F_undef | Some f1 \<Rightarrow> F_more f1)
     else if c_op here AND 16 \<noteq> 0 then fast_length e here f
     else if c_op here AND 32 \<noteq> 0 then
       (case f_write e (instr_bytes End_block) (f\<lparr>f_mode := TYPE_0\<rparr>) of None \<Rightarrow> F_undef | Some f1 \<Rightarrow> F_stop f1)
     else f_stop_bad ''invalid literal/length code'' f)"

definition dist_case :: "fast_env \<Rightarrow> nat \<Rightarrow> code \<Rightarrow> fast \<Rightarrow> fast_result" where
  "dist_case e len here f =
    (if c_op here AND 16 \<noteq> 0 then dist_base e len here f else f_stop_bad ''invalid distance code'' f)"

lemma dolen_final: "lens_op (c_op here) \<Longrightarrow> dolen k e here f = len_case e here (f_drop (unat (c_bits here)) f)"
  by (subst dolen.simps) (auto simp: Let_def len_case_def lens_op_def)

lemma dolen_link:
  "is_link here \<Longrightarrow> e_lcode e (unat (c_val here) + low_bits (unat (c_op here)) (f_hold (f_drop (unat (c_bits here)) f))) = Some h2 \<Longrightarrow>
    dolen (Suc k) e here f = dolen k e h2 (f_drop (unat (c_bits here)) f)"
  using link_ops [of here] by (subst dolen.simps) (simp add: Let_def)

lemma dodist_final: "dists_op (c_op here) \<Longrightarrow> dodist k e len here f = dist_case e len here (f_drop (unat (c_bits here)) f)"
  by (subst dodist.simps) (auto simp: Let_def dist_case_def dists_op_def)

lemma dodist_link:
  "is_link here \<Longrightarrow> e_dcode e (unat (c_val here) + low_bits (unat (c_op here)) (f_hold (f_drop (unat (c_bits here)) f))) = Some h2 \<Longrightarrow>
    dodist (Suc k) e len here f = dodist k e len h2 (f_drop (unat (c_bits here)) f)"
  using link_ops [of here] by (subst dodist.simps) (simp add: Let_def)

lemma f_adv_drop: "hold_ok (f_hold f) (f_bits f) \<Longrightarrow> n \<le> f_bits f \<Longrightarrow> f_in f \<le> length (e_in e) \<Longrightarrow> f_adv e n f (f_drop n f)"
  using f_drop_ok [of f n] by (simp add: f_adv_def f_drop_rem) (simp add: f_rem_def)

context code_table
begin

lemma symbol_hold:
  assumes "15 \<le> f_bits f" shows "symbol (unat (f_hold f)) = symbol (val_of (f_rem e f))"
  using symbol_len_le [of "val_of (f_rem e f)"] assms by (intro symbol_prefix f_hold_value) simp

lemma fast_lookup:
  assumes "15 \<le> f_bits f" and s: "symbol (val_of (f_rem e f)) = (l, h, n)"
  shows "n \<le> 15" and "entry_of type h"
    and "\<exists>here. tab (low_bits nb (f_hold f)) = Some here \<and>
      (if l = None then \<not> is_link here \<and> h = here \<and> n = unat (c_bits here)
       else l = Some here \<and> is_link here \<and> n = unat (c_bits here) + unat (c_bits h) \<and>
         tab (unat (c_val here) + low_bits (unat (c_op here)) (f_hold (f_drop (unat (c_bits here)) f))) = Some h)"
proof -
  let ?x = "unat (f_hold f)"
  show "n \<le> 15" using symbol_len_le [of "val_of (f_rem e f)"] s by (simp add: symbol_len_def)
  show "entry_of type h" using symbol_kind [of "val_of (f_rem e f)"] s by simp
  have sx: "symbol ?x = (l, h, n)" using symbol_hold [OF assms(1)] s by simp
  obtain here where here: "tab (?x mod 2 ^ nb) = Some here" by (rule root_entry)
  have lo: "low_bits nb (f_hold f) = ?x mod 2 ^ nb" using nb_range by (simp add: low_bits_mod)
  show "\<exists>here. tab (low_bits nb (f_hold f)) = Some here \<and>
      (if l = None then \<not> is_link here \<and> h = here \<and> n = unat (c_bits here)
       else l = Some here \<and> is_link here \<and> n = unat (c_bits here) + unat (c_bits h) \<and>
         tab (unat (c_val here) + low_bits (unat (c_op here)) (f_hold (f_drop (unat (c_bits here)) f))) = Some h)"
  proof (cases "is_link here")
    case False
    then show ?thesis using here lo sx by (auto simp: symbol_def)
  next
    case True
    note lb = link_bits [OF _ here True]
    let ?z = "?x div 2 ^ nb mod 2 ^ unat (c_op here)"
    obtain h2 where h2: "tab (unat (c_val here) + ?z) = Some h2" using sub_some [OF _ here True, of ?z] by auto
    have "low_bits (unat (c_op here)) (f_hold (f_drop (unat (c_bits here)) f)) = ?z"
      using lb by (simp add: low_bits_mod f_drop_def unat_drop_bit_eq) (simp add: drop_bit_eq_div)
    moreover have "l = Some here" "h = h2" "n = nb + unat (c_bits h2)" using sx here h2 True by (auto simp: symbol_def)
    ultimately show ?thesis using here lo h2 True lb by (intro exI [of _ here]) simp
  qed
qed

end

lemma dolen_symbol:
  assumes "code_table (e_lcode e) (e_lenbits e) LENS" and "15 \<le> f_bits f" and "symbol_of (e_lcode e) (e_lenbits e) (f_rem e f) = (l, h, n)"
  obtains here where "e_lcode e (low_bits (e_lenbits e) (f_hold f)) = Some here" "dolen 1 e here f = len_case e h (f_drop n f)"
    "lens_op (c_op h)" "n \<le> 15"
proof -
  note fl = code_table.fast_lookup [OF assms]
  have op: "lens_op (c_op h)" by (rule lens_entry [OF fl(2)])
  from fl(3) obtain here where here: "e_lcode e (low_bits (e_lenbits e) (f_hold f)) = Some here"
    and c: "if l = None then \<not> is_link here \<and> h = here \<and> n = unat (c_bits here)
       else l = Some here \<and> is_link here \<and> n = unat (c_bits here) + unat (c_bits h) \<and>
         e_lcode e (unat (c_val here) + low_bits (unat (c_op here)) (f_hold (f_drop (unat (c_bits here)) f))) = Some h" by blast
  have "dolen 1 e here f = len_case e h (f_drop n f)"
  proof (cases l)
    case None
    then show ?thesis using c dolen_final [OF op] by simp
  next
    case (Some x)
    then show ?thesis using c dolen_link [of here e f h 0] dolen_final [OF op] by (simp add: f_drop_drop)
  qed
  then show thesis using that here op fl(1) by blast
qed

lemma dodist_symbol:
  assumes "code_table (e_dcode e) (e_distbits e) DISTS" and "15 \<le> f_bits f" and "symbol_of (e_dcode e) (e_distbits e) (f_rem e f) = (l, h, n)"
  obtains here where "e_dcode e (low_bits (e_distbits e) (f_hold f)) = Some here" "dodist 1 e len here f = dist_case e len h (f_drop n f)"
    "dists_op (c_op h)" "n \<le> 15"
proof -
  note fl = code_table.fast_lookup [OF assms]
  have op: "dists_op (c_op h)" by (rule dists_entry [OF fl(2)])
  from fl(3) obtain here where here: "e_dcode e (low_bits (e_distbits e) (f_hold f)) = Some here"
    and c: "if l = None then \<not> is_link here \<and> h = here \<and> n = unat (c_bits here)
       else l = Some here \<and> is_link here \<and> n = unat (c_bits here) + unat (c_bits h) \<and>
         e_dcode e (unat (c_val here) + low_bits (unat (c_op here)) (f_hold (f_drop (unat (c_bits here)) f))) = Some h" by blast
  have "dodist 1 e len here f = dist_case e len h (f_drop n f)"
  proof (cases l)
    case None
    then show ?thesis using c dodist_final [OF op] by simp
  next
    case (Some x)
    then show ?thesis using c dodist_link [of here e f h 0] dodist_final [OF op] by (simp add: f_drop_drop)
  qed
  then show thesis using that here op fl(1) by blast
qed


lemma f_write_some:
  "length (f_out f) + length bs \<le> e_avail_out e \<Longrightarrow> f_write e bs f = Some (f\<lparr>f_out := f_out f @ bs\<rparr>)"
  by (simp add: f_write_def)

text \<open>How an iteration ends: \<open>m\<close> bits were consumed from \<open>f\<close> and the outcome is \<open>r\<close>.\<close>

definition fast_end :: "fast_env \<Rightarrow> fast \<Rightarrow> (string + instr) \<times> nat \<Rightarrow> fast_result \<Rightarrow> bool" where
  "fast_end e f rm res \<longleftrightarrow> (\<exists>f'. f_adv e (snd rm) f f' \<and>
    (case fst rm of
       Inr End_block \<Rightarrow> res = F_stop (f'\<lparr>f_mode := TYPE_0, f_out := f_out f @ instr_bytes End_block\<rparr>)
     | Inr i \<Rightarrow> res = F_more (f'\<lparr>f_out := f_out f @ instr_bytes i\<rparr>)
     | Inl m \<Rightarrow> res = F_stop (f'\<lparr>f_msg := Some m, f_mode := BAD\<rparr>)))"

lemma fast_end_adv:
  assumes "f_adv e n f g" and "fast_end e g (r, m) res" shows "fast_end e f (r, n + m) res"
proof -
  have o: "f_out g = f_out f" using assms(1) by (simp add: f_adv_def)
  obtain f' where f': "f_adv e m g f'" and r: "case r of
       Inr End_block \<Rightarrow> res = F_stop (f'\<lparr>f_mode := TYPE_0, f_out := f_out g @ instr_bytes End_block\<rparr>)
     | Inr i \<Rightarrow> res = F_more (f'\<lparr>f_out := f_out g @ instr_bytes i\<rparr>)
     | Inl m \<Rightarrow> res = F_stop (f'\<lparr>f_msg := Some m, f_mode := BAD\<rparr>)"
    using assms(2) unfolding fast_end_def fst_conv snd_conv by blast
  show ?thesis
    unfolding fast_end_def fst_conv snd_conv
    using f_adv_trans [OF assms(1) f'] r [unfolded o] by blast
qed

lemma f_dist_bits_load:
  assumes "hold_ok (f_hold f) (f_bits f)" and "n \<le> 13" and "f_in f \<le> length (e_in e)" and "n \<le> length (f_rem e f)"
  obtains f' where "f_dist_bits e n f = Some f'" "f_load e f f'" "n \<le> f_bits f'"
proof (cases "f_bits f < n")
  case False
  then show ?thesis using that [of f] assms f_load_refl by (simp add: f_dist_bits_def)
next
  case True
  then have b: "f_bits f \<le> 48" "f_in f < length (e_in e)" using assms(2,4) by (auto simp: length_f_rem)
  obtain f1 where f1: "f_byte e f = Some f1" "f_load e f f1" "f_bits f1 = f_bits f + 8"
    using f_byte_load [OF assms(1) b] by blast
  show ?thesis
  proof (cases "f_bits f1 < n")
    case False
    then show ?thesis using that [of f1] f1 True by (simp add: f_dist_bits_def)
  next
    case t2: True
    have ok: "hold_ok (f_hold f1) (f_bits f1)" "f_rem e f1 = f_rem e f" using f1(2) by (auto simp: f_adv_def)
    then have "f_bits f1 \<le> 48" "f_in f1 < length (e_in e)" using t2 assms(2,4) length_f_rem [of e f1] by auto
    then obtain f2 where f2: "f_byte e f1 = Some f2" "f_load e f1 f2" "f_bits f2 = f_bits f1 + 8"
      using f_byte_load [OF ok(1)] by blast
    show ?thesis
      using that [of f2] f1 f2 True t2 assms(2) f_load_trans [OF f1(2) f2(2)] by (simp add: f_dist_bits_def)
  qed
qed

text \<open>The distance, once its code has been looked up; \<open>k\<close> bits of the table's code are to be dropped.\<close>

lemma dist_case_end:
  assumes "hold_ok (f_hold f) (f_bits f)" and "dists_op (c_op h)" and "n \<le> f_bits f" and "f_in f \<le> length (e_in e)"
    and room: "n + 13 \<le> length (f_rem e f)" "length (f_out f) + 4 \<le> e_avail_out e"
    and sym: "symbol_of (e_dcode e) (e_distbits e) (f_rem e f) = (l, h, n)"
  shows "fast_end e f (next_dist (e_dcode e) (e_distbits e) len (f_rem e f)) (dist_case e len h (f_drop n f))"
proof (cases "c_op h AND 16 = 0")
  case True
  then have "c_op h AND 64 \<noteq> 0" using assms(2) by (auto simp: dists_op_def)
  then show ?thesis
    using True f_adv_drop [OF assms(1,3,4)]
    by (auto simp: fast_end_def next_dist_def sym dist_case_def f_stop_bad_def)
next
  case False
  then have op: "c_op h AND 64 = 0" "unat (c_op h AND 15) \<le> 13" using assms(2) by (auto simp: dists_op_def)
  let ?x = "unat (c_op h AND 15)" and ?g = "f_drop n f"
  have a: "f_adv e n f ?g" by (rule f_adv_drop [OF assms(1,3,4)])
  then have g: "hold_ok (f_hold ?g) (f_bits ?g)" "f_in ?g \<le> length (e_in e)" "f_rem e ?g = drop n (f_rem e f)"
    "f_out ?g = f_out f" by (auto simp: f_adv_def)
  have "?x \<le> length (f_rem e ?g)" using room(1) op(2) g(3) by simp
  then obtain f1 where f1: "f_dist_bits e ?x ?g = Some f1" "f_load e ?g f1" "?x \<le> f_bits f1"
    using f_dist_bits_load [OF g(1) op(2) g(2)] by blast
  have r1: "f_rem e f1 = drop n (f_rem e f)" "hold_ok (f_hold f1) (f_bits f1)" "f_in f1 \<le> length (e_in e)" "f_out f1 = f_out f"
    using f1(2) g by (auto simp: f_adv_def)
  have d: "low_bits ?x (f_hold f1) = val_of (take ?x (drop n (f_rem e f)))"
    using f_low [OF f1(3), of e] op(2) r1(1) by simp
  have adv: "f_adv e (n + ?x) f (f_drop ?x f1)"
    using f_adv_trans [OF a f_load_trans [OF f1(2) f_adv_drop [OF r1(2) f1(3) r1(3)]]] .
  have w: "f_write e bs (f_drop ?x f1) = Some ((f_drop ?x f1)\<lparr>f_out := f_out f @ bs\<rparr>)" if "length bs = 4" for bs
    using that room(2) r1(4) by (simp add: f_write_some)
  show ?thesis
    using False op(1) adv f1(1) d w
    by (auto simp: fast_end_def next_dist_def sym dist_case_def dist_base_def Let_def)
qed


lemma f_len_bits_load:
  assumes "hold_ok (f_hold f) (f_bits f)" and "n \<le> 5" and "f_in f \<le> length (e_in e)" and "n \<le> length (f_rem e f)"
  obtains f' where "f_len_bits e n f = Some f'" "f_load e f f'" "n \<le> f_bits f'"
proof (cases "f_bits f < n")
  case False
  then show ?thesis using that [of f] assms f_load_refl by (simp add: f_len_bits_def)
next
  case True
  then have b: "f_bits f \<le> 48" "f_in f < length (e_in e)" using assms(2,4) by (auto simp: length_f_rem)
  obtain f1 where "f_byte e f = Some f1" "f_load e f f1" "f_bits f1 = f_bits f + 8"
    using f_byte_load [OF assms(1) b] by blast
  then show ?thesis using that [of f1] True assms(2) by (simp add: f_len_bits_def)
qed

text \<open>The length and what follows.\<close>

lemma fast_length_end:
  assumes dt: "code_table (e_dcode e) (e_distbits e) DISTS"
    and f: "hold_ok (f_hold f) (f_bits f)" "f_in f \<le> length (e_in e)" and x: "unat (c_op h AND 15) \<le> 5"
    and room: "33 \<le> length (f_rem e f)" "length (f_out f) + 4 \<le> e_avail_out e"
  shows "\<exists>r m. next_dist (e_dcode e) (e_distbits e)
      (unat (c_val h) + val_of (take (unat (c_op h AND 15)) (f_rem e f))) (drop (unat (c_op h AND 15)) (f_rem e f)) = (r, m) \<and>
    fast_end e f (r, unat (c_op h AND 15) + m) (fast_length e h f)"
proof -
  let ?x = "unat (c_op h AND 15)"
  have "?x \<le> length (f_rem e f)" using x room(1) by simp
  then obtain f1 where f1: "f_len_bits e ?x f = Some f1" "f_load e f f1" "?x \<le> f_bits f1"
    using f_len_bits_load [OF f(1) x f(2)] by blast
  then have k1: "hold_ok (f_hold f1) (f_bits f1)" "f_rem e f1 = f_rem e f" "f_in f1 \<le> length (e_in e)"
    by (auto simp: f_adv_def)
  let ?len = "unat (c_val h) + val_of (take ?x (f_rem e f))" and ?g = "f_drop ?x f1"
  have len: "unat (c_val h) + (if ?x \<noteq> 0 then low_bits ?x (f_hold f1) else 0) = ?len"
    using f_low [OF f1(3), of e] x k1(2) by simp
  have a: "f_adv e ?x f ?g" using f_load_trans [OF f1(2) f_adv_drop [OF k1(1) f1(3) k1(3)]] .
  then have g: "hold_ok (f_hold ?g) (f_bits ?g)" "f_in ?g \<le> length (e_in e)" "f_rem e ?g = drop ?x (f_rem e f)"
    by (auto simp: f_adv_def)
  have "23 \<le> length (f_rem e ?g)" using g(3) x room(1) by simp
  then obtain f2 where f2: "f_need15 e ?g = Some f2" "f_load e ?g f2" "15 \<le> f_bits f2"
    using f_need15_load [OF g(1,2)] by blast
  then have k2: "hold_ok (f_hold f2) (f_bits f2)" "f_rem e f2 = drop ?x (f_rem e f)" "f_in f2 \<le> length (e_in e)"
    "f_out f2 = f_out f"
    using g(3) a by (auto simp: f_adv_def)
  obtain l h2 n where sym: "symbol_of (e_dcode e) (e_distbits e) (f_rem e f2) = (l, h2, n)" by (metis prod_cases3)
  obtain here where here: "e_dcode e (low_bits (e_distbits e) (f_hold f2)) = Some here"
    "dodist 1 e ?len here f2 = dist_case e ?len h2 (f_drop n f2)" "dists_op (c_op h2)" "n \<le> 15"
    using dodist_symbol [OF dt f2(3) sym] by blast
  have "fast_end e f2 (next_dist (e_dcode e) (e_distbits e) ?len (f_rem e f2)) (dist_case e ?len h2 (f_drop n f2))"
    by (rule dist_case_end [OF k2(1) here(3) _ k2(3) _ _ sym]) (use here(4) f2(3) k2 room x in auto)
  moreover have "fast_length e h f = dodist 1 e ?len here f2"
    using f1(1) f2(1) here(1) len by (simp add: fast_length_def Let_def)
  moreover obtain r m where nd: "next_dist (e_dcode e) (e_distbits e) ?len (drop ?x (f_rem e f)) = (r, m)" by fastforce
  moreover have "f_adv e (?x + 0) f f2" by (rule f_adv_trans [OF a f2(2)])
  ultimately show ?thesis using fast_end_adv [of e ?x f f2 r m] here(2) k2(2) by simp
qed

text \<open>One iteration of the loop.\<close>

theorem fast_body_end:
  assumes lt: "code_table (e_lcode e) (e_lenbits e) LENS" and dt: "code_table (e_dcode e) (e_distbits e) DISTS"
    and f: "hold_ok (f_hold f) (f_bits f)" "f_in f + 6 \<le> length (e_in e)" and out: "length (f_out f) + 4 \<le> e_avail_out e"
  shows "fast_end e f (next_instr (e_lcode e) (e_lenbits e) (e_dcode e) (e_distbits e) (f_rem e f)) (fast_body e f)"
proof -
  have len: "48 \<le> length (f_rem e f)" and inl: "f_in f \<le> length (e_in e)" using f(2) by (simp_all add: length_f_rem)
  then obtain f1 where f1: "f_need15 e f = Some f1" "f_load e f f1" "15 \<le> f_bits f1"
    using f_need15_load [OF f(1) inl] by auto
  then have k1: "hold_ok (f_hold f1) (f_bits f1)" "f_rem e f1 = f_rem e f" "f_in f1 \<le> length (e_in e)" "f_out f1 = f_out f"
    by (auto simp: f_adv_def)
  obtain l h n where sym: "symbol_of (e_lcode e) (e_lenbits e) (f_rem e f) = (l, h, n)" by (metis prod_cases3)
  obtain here where here: "e_lcode e (low_bits (e_lenbits e) (f_hold f1)) = Some here"
    "dolen 1 e here f1 = len_case e h (f_drop n f1)" "lens_op (c_op h)" "n \<le> 15"
    using dolen_symbol [OF lt f1(3), of l h n] sym k1(2) by metis
  have body: "fast_body e f = len_case e h (f_drop n f1)"
    using f1(1) here(1,2) by (simp add: fast_body_def)
  let ?g = "f_drop n f1"
  have nb: "n \<le> f_bits f1" using here(4) f1(3) by simp
  have a: "f_adv e n f ?g" using f_load_trans [OF f1(2) f_adv_drop [OF k1(1) nb k1(3)]] .
  then have g: "hold_ok (f_hold ?g) (f_bits ?g)" "f_in ?g \<le> length (e_in e)" "f_rem e ?g = drop n (f_rem e f)"
    "f_out ?g = f_out f" by (auto simp: f_adv_def)
  have w: "f_write e bs (?g\<lparr>f_mode := m\<rparr>) = Some (?g\<lparr>f_mode := m, f_out := f_out f @ bs\<rparr>)"
    "f_write e bs ?g = Some (?g\<lparr>f_out := f_out f @ bs\<rparr>)" if "length bs \<le> 4" for bs m
    using that out g(4) by (simp_all add: f_write_some)
  consider (lit) "c_op h = 0" | (eob) "c_op h = 96" | (len) "c_op h AND 16 \<noteq> 0" "c_op h AND 32 = 0" "c_op h AND 64 = 0" "unat (c_op h AND 15) \<le> 5"
    | (bad) "c_op h \<noteq> 0" "c_op h AND 16 = 0" "c_op h AND 64 \<noteq> 0" "c_op h AND 32 = 0"
    using here(3) by (auto simp: lens_op_def)
  then show ?thesis
  proof cases
    case lit
    then show ?thesis using a by (auto simp: body len_case_def next_instr_def sym fast_end_def w instr_bytes_len simp del: instr_bytes.simps)
  next
    case eob
    then show ?thesis using a by (auto simp: body len_case_def next_instr_def sym fast_end_def w)
  next
    case bad
    then show ?thesis using a by (auto simp: body len_case_def next_instr_def sym fast_end_def f_stop_bad_def)
  next
    case len
    then have "c_op h \<noteq> 0" by auto
    let ?x = "unat (c_op h AND 15)"
    have "33 \<le> length (f_rem e ?g)" "length (f_out ?g) + 4 \<le> e_avail_out e" using g(3,4) here(4) \<open>48 \<le> length (f_rem e f)\<close> out by simp_all
    from fast_length_end [OF dt g(1,2) len(4) this] obtain r m where
      r: "next_dist (e_dcode e) (e_distbits e) (unat (c_val h) + val_of (take ?x (drop n (f_rem e f)))) (drop (n + ?x) (f_rem e f)) = (r, m)"
      "fast_end e ?g (r, ?x + m) (fast_length e h ?g)" by (auto simp: g(3) add.commute)
    have "fast_end e f (r, n + (?x + m)) (fast_length e h ?g)" by (rule fast_end_adv [OF a r(2)])
    then show ?thesis using len \<open>c_op h \<noteq> 0\<close> r(1) by (simp add: body len_case_def next_instr_def sym Let_def add.assoc)
  qed
qed


section \<open>The loop of inflate\_fast\<close>

text \<open>\<open>decodes nx bs is rest\<close>: the bits \<open>bs\<close> start with the codes of the instructions \<open>is\<close>, none of which ends
  the block, and \<open>rest\<close> follows.  \<open>nx\<close> is \<open>next_instr\<close> for some tables.\<close>

inductive decodes :: "(bool list \<Rightarrow> (string + instr) \<times> nat) \<Rightarrow> bool list \<Rightarrow> instr list \<Rightarrow> bool list \<Rightarrow> bool"
  for nx :: "bool list \<Rightarrow> (string + instr) \<times> nat" where
  decodes_Nil: "decodes nx bs [] bs"
| decodes_Cons: "nx bs = (Inr i, n) \<Longrightarrow> n \<le> length bs \<Longrightarrow> i \<noteq> End_block \<Longrightarrow> decodes nx (drop n bs) is rest \<Longrightarrow>
    decodes nx bs (i # is) rest"

inductive_cases decodes_NilE: "decodes nx bs [] rest"
inductive_cases decodes_ConsE: "decodes nx bs (i # is) rest"

abbreviation (input) "instrs_bytes is \<equiv> concat (map instr_bytes is)"

text \<open>The bits between two states of the loop.\<close>

definition f_pos :: "fast_env \<Rightarrow> nat \<Rightarrow> fast \<Rightarrow> fast \<Rightarrow> bool" where
  "f_pos e n f f' \<longleftrightarrow> hold_ok (f_hold f') (f_bits f') \<and> f_rem e f' = drop n (f_rem e f) \<and> n \<le> length (f_rem e f) \<and>
    8 * f_in f' + f_bits f = 8 * f_in f + f_bits f' + n \<and> f_in f' \<le> length (e_in e)"

lemma f_adv_pos: "f_adv e n f f' \<Longrightarrow> f_pos e n f f'"
  by (simp add: f_adv_def f_pos_def)

lemma f_pos_trans: "f_pos e n f g \<Longrightarrow> f_pos e m g h \<Longrightarrow> f_pos e (n + m) f h"
  by (auto simp: f_pos_def add.commute)

lemma f_pos_fields: "f_pos e n f (f'\<lparr>f_out := x\<rparr>) = f_pos e n f f'" "f_pos e n f (f'\<lparr>f_mode := y\<rparr>) = f_pos e n f f'"
  "f_pos e n f (f'\<lparr>f_msg := z\<rparr>) = f_pos e n f f'"
  by (simp_all add: f_pos_def f_rem_def)

text \<open>How the loop ends: out of input or space after some instructions, at the end of the block, or at an
  error.\<close>

definition fast_stop :: "(bool list \<Rightarrow> (string + instr) \<times> nat) \<Rightarrow> fast_env \<Rightarrow> fast \<Rightarrow> instr list \<Rightarrow> nat \<Rightarrow> fast \<Rightarrow> bool" where
  "fast_stop nx e f is n f' \<longleftrightarrow>
    (\<exists>k. decodes nx (f_rem e f) is (drop k (f_rem e f)) \<and> k \<le> n \<and> f_pos e n f f' \<and>
      (k = n \<and> is \<noteq> [] \<and> f_mode f' = f_mode f \<and> f_msg f' = f_msg f \<and> f_out f' = f_out f @ instrs_bytes is \<or>
       nx (drop k (f_rem e f)) = (Inr End_block, n - k) \<and> f_mode f' = TYPE_0 \<and> f_msg f' = f_msg f \<and>
         f_out f' = f_out f @ instrs_bytes is @ [0xaa, 0xff] \<or>
       (\<exists>m. nx (drop k (f_rem e f)) = (Inl m, n - k) \<and> f_mode f' = BAD \<and> f_msg f' = Some m \<and>
         f_out f' = f_out f @ instrs_bytes is)))"

definition fast_room :: "fast_env \<Rightarrow> fast \<Rightarrow> bool" where
  "fast_room e f \<longleftrightarrow> hold_ok (f_hold f) (f_bits f) \<and> f_in f + 6 \<le> length (e_in e) \<and> length (f_out f) + 258 \<le> e_avail_out e"

lemma fast_loop_stop:
  assumes lt: "code_table (e_lcode e) (e_lenbits e) LENS" and dt: "code_table (e_dcode e) (e_distbits e) DISTS"
    and room: "fast_room e f" and nx: "nx = next_instr (e_lcode e) (e_lenbits e) (e_dcode e) (e_distbits e)"
  shows "\<exists>f' is n. fast_loop e f = Some f' \<and> fast_stop nx e f is n f' \<and> length (f_out f') \<le> e_avail_out e \<and> snd (nx (f_rem e f)) \<le> n"
  using lt dt room nx
proof (induction e f rule: fast_loop.induct)
  case (1 e f)
  have pre: "hold_ok (f_hold f) (f_bits f)" "f_in f + 6 \<le> length (e_in e)" "length (f_out f) + 4 \<le> e_avail_out e"
    "length (f_out f) + 258 \<le> e_avail_out e"
    using "1.prems"(3) by (auto simp: fast_room_def)
  obtain r m where nxf: "nx (f_rem e f) = (r, m)" by fastforce
  have "fast_end e f (nx (f_rem e f)) (fast_body e f)"
    unfolding "1.prems"(4) by (rule fast_body_end [OF "1.prems"(1,2) pre(1,2,3)])
  then obtain g where g: "f_adv e m f g"
    and res: "case r of
       Inr End_block \<Rightarrow> fast_body e f = F_stop (g\<lparr>f_mode := TYPE_0, f_out := f_out f @ instr_bytes End_block\<rparr>)
     | Inr i \<Rightarrow> fast_body e f = F_more (g\<lparr>f_out := f_out f @ instr_bytes i\<rparr>)
     | Inl m \<Rightarrow> fast_body e f = F_stop (g\<lparr>f_msg := Some m, f_mode := BAD\<rparr>)"
    unfolding nxf fast_end_def fst_conv snd_conv by blast
  note gp = f_adv_pos [OF g]
  have gf: "f_out g = f_out f" "f_mode g = f_mode f" "f_msg g = f_msg f" "m \<le> length (f_rem e f)"
    using g by (auto simp: f_adv_def)
  show ?case
  proof (cases r)
    case (Inl msg)
    then have "fast_loop e f = Some (g\<lparr>f_msg := Some msg, f_mode := BAD\<rparr>)" using res by (subst fast_loop.simps) simp
    moreover have "fast_stop nx e f [] m (g\<lparr>f_msg := Some msg, f_mode := BAD\<rparr>)"
      unfolding fast_stop_def using gp gf nxf Inl decodes_Nil [of nx "f_rem e f"]
      by (intro exI [of _ 0]) (simp add: f_pos_fields)
    ultimately show ?thesis using gf pre nxf by auto
  next
    case (Inr i)
    show ?thesis
    proof (cases "i = End_block")
      case True
      let ?g = "g\<lparr>f_mode := TYPE_0, f_out := f_out f @ instr_bytes End_block\<rparr>"
      have "fast_loop e f = Some ?g" using res Inr True by (subst fast_loop.simps) simp
      moreover have "fast_stop nx e f [] m ?g"
        unfolding fast_stop_def using gp gf nxf Inr True decodes_Nil [of nx "f_rem e f"]
        by (intro exI [of _ 0]) (simp add: f_pos_fields)
      ultimately show ?thesis using pre nxf by auto
    next
      case False
      let ?g = "g\<lparr>f_out := f_out f @ instr_bytes i\<rparr>"
      have b: "fast_body e f = F_more ?g" using res Inr False by (cases i) auto
      have rg: "f_rem e ?g = drop m (f_rem e f)" "f_pos e m f ?g" using gp by (auto simp: f_pos_def f_rem_def)
      show ?thesis
      proof (cases "fast_again e ?g")
        case again: False
        then have "fast_loop e f = Some ?g" using b by (subst fast_loop.simps) simp
        moreover have "fast_stop nx e f [i] m ?g"
          unfolding fast_stop_def using rg gf nxf Inr False decodes_Nil [of nx "drop m (f_rem e f)"]
          by (intro exI [of _ m]) (simp add: decodes_Cons)
        moreover have "length (f_out ?g) \<le> e_avail_out e" using pre(3) instr_bytes_len [of i] by simp
        ultimately show ?thesis using nxf by auto
      next
        case again: True
        then have run: "fast_loop e f = fast_loop e ?g" using b by (subst fast_loop.simps) simp
        have "fast_room e ?g" using again gp by (auto simp: fast_room_def fast_again_def f_pos_def)
        from "1.IH" [OF b again "1.prems"(1,2) this "1.prems"(4)] obtain f' "is" n where
          ih: "fast_loop e ?g = Some f'" "fast_stop nx e ?g is n f'" "length (f_out f') \<le> e_avail_out e" by blast
        from ih(2) obtain k where k: "decodes nx (drop m (f_rem e f)) is (drop k (drop m (f_rem e f)))" "k \<le> n" "f_pos e n ?g f'"
          and c: "k = n \<and> is \<noteq> [] \<and> f_mode f' = f_mode ?g \<and> f_msg f' = f_msg ?g \<and> f_out f' = f_out ?g @ instrs_bytes is \<or>
            nx (drop k (drop m (f_rem e f))) = (Inr End_block, n - k) \<and> f_mode f' = TYPE_0 \<and> f_msg f' = f_msg ?g \<and>
              f_out f' = f_out ?g @ instrs_bytes is @ [0xaa, 0xff] \<or>
            (\<exists>m'. nx (drop k (drop m (f_rem e f))) = (Inl m', n - k) \<and> f_mode f' = BAD \<and> f_msg f' = Some m' \<and>
              f_out f' = f_out ?g @ instrs_bytes is)"
          unfolding fast_stop_def rg(1) by blast
        have d: "decodes nx (f_rem e f) (i # is) (drop (m + k) (f_rem e f))"
          using k(1) nxf Inr False gf(4) by (intro decodes_Cons [where n = m]) (simp_all add: add.commute)
        have "fast_stop nx e f (i # is) (m + n) f'"
          unfolding fast_stop_def using d k(2) f_pos_trans [OF rg(2) k(3)] c gf
          by (intro exI [of _ "m + k"]) (auto simp: add.commute)
        then show ?thesis using run ih nxf by (intro exI [of _ f'] exI [of _ "i # is"] exI [of _ "m + n"]) simp
      qed
    qed
  qed
qed

end
