(* ===== verification/Inflate_Decode.thy ===== *)
theory Inflate_Decode
  imports Inflate_Symbols
begin

text \<open>
  Decoding symbols in \<^verbatim>\<open>j_inflate\<close>.  A call of \<open>inflate_fast\<close> from case LEN consumes exactly the codes of
  the instructions it writes and hands back what it loaded ahead; the cases LEN to MATCH without
  \<open>inflate_fast\<close> put the instruction for the next symbol into \<open>ins_buffer\<close>.  Both agree with \<open>next_instr\<close>.
\<close>

section \<open>Tables of a state\<close>

abbreviation (input) "len_tab s \<equiv> code_at s (h_lencode s)"
abbreviation (input) "dist_tab s \<equiv> code_at s (h_distcode s)"

definition tables_ok :: "'z huff_scheme \<Rightarrow> bool" where
  "tables_ok s \<longleftrightarrow> code_table (len_tab s) (h_lenbits s) LENS \<and> code_table (dist_tab s) (h_distbits s) DISTS"

definition nexti :: "'z huff_scheme \<Rightarrow> bool list \<Rightarrow> (string + instr) \<times> nat" where
  "nexti s = next_instr (len_tab s) (h_lenbits s) (dist_tab s) (h_distbits s)"

lemma code_at_cong: "h_codes s' = h_codes s \<Longrightarrow> code_at s' p = code_at s p"
  by (cases p) (simp_all add: code_at_def fun_eq_iff)

section \<open>Giving back bytes\<close>

lemma give_back:
  fixes hold :: ulong
  assumes pos: "8 * i + b0 = bits + n" and rest: "bits_of bits hold @ bytes_bits (drop i bs) = drop n (bs0 @ bytes_bits bs)"
    and b0: "length bs0 = b0" and k: "bits div 8 \<le> i" and i: "i \<le> length bs"
  shows "bits_of (bits - 8 * (bits div 8)) (hold AND (push_bit (bits - 8 * (bits div 8)) 1 - 1)) @ bytes_bits (drop (i - bits div 8) bs)
    = bits_of bits hold @ bytes_bits (drop i bs)"
proof -
  let ?m = "bits - 8 * (bits div 8)" and ?k = "bits div 8"
  have m: "?m < 8" "?m = bits mod 8" by (simp_all add: minus_mult_div_eq_mod)
  have dr: "drop (8 * j) (bytes_bits bs) = bytes_bits (drop j bs)" if "j \<le> length bs" for j
    using that
  proof (induction j arbitrary: bs)
    case (Suc j)
    then show ?case by (cases bs) simp_all
  qed simp
  have "hold AND (push_bit ?m 1 - 1) = take_bit ?m hold" by (rule mask_take_bit) (use m(1) in simp)
  then have a: "bits_of ?m (hold AND (push_bit ?m 1 - 1)) = bits_of ?m hold" by simp
  have t: "take ?m (bits_of bits hold @ bytes_bits (drop i bs)) = bits_of ?m hold" by simp
  have nm: "n + ?m = b0 + 8 * (i - ?k)" 
  proof -
    obtain q r where "bits div 8 = q" "bits mod 8 = r" "bits = 8 * q + r" by (metis mult_div_mod_eq)
    then show ?thesis using pos k m(2) by (simp add: diff_mult_distrib2)
  qed
  have "drop ?m (bits_of bits hold @ bytes_bits (drop i bs)) = drop (n + ?m) (bs0 @ bytes_bits bs)"
    unfolding rest drop_drop by (simp only: add.commute)
  also have "\<dots> = bytes_bits (drop (i - ?k) bs)" unfolding nm using b0 dr [of "i - ?k"] i by simp
  finally show ?thesis unfolding a by (metis append_take_drop_id t)
qed


section \<open>Calling inflate\_fast\<close>

text \<open>What decoding symbols may change.\<close>

definition quiet :: "inflate_run \<Rightarrow> inflate_run" where
  "quiet s = s\<lparr>r_next := [], r_hold := 0, r_bits := 0, i_mode := HEAD, i_hold := 0, i_bits := 0, i_length := 0, i_offset := 0,
      i_extra := 0, i_back := 0, i_was := 0,
      m_strm := (m_strm s)\<lparr>z_next_in := [], z_out := [], z_avail_out := 0, z_msg := None\<rparr>,
      m_put := [], m_left := 0, m_ins := \<lparr>ins_buffer = [], ins_buffer_index = 0, ins_buffer_have = 0, ins_type = 0\<rparr>\<rparr>"

lemma quiet_strm:
  "quiet s = quiet t \<Longrightarrow> (m_strm s)\<lparr>z_next_in := [], z_out := [], z_avail_out := 0, z_msg := None\<rparr>
    = (m_strm t)\<lparr>z_next_in := [], z_out := [], z_avail_out := 0, z_msg := None\<rparr>"
  by (drule arg_cong [where f = m_strm]) (simp add: quiet_def)

lemma quiet_fields:
  assumes "quiet s = quiet t"
  shows "h_nlen s = h_nlen t" "h_ndist s = h_ndist t" "h_have s = h_have t" "h_lens s = h_lens t" "h_work s = h_work t"
    "h_codes s = h_codes t" "h_next s = h_next t" "h_lencode s = h_lencode t" "h_lenbits s = h_lenbits t"
    "h_distcode s = h_distcode t" "h_distbits s = h_distbits t"
    "header_buf s = header_buf t" "header_index s = header_index t" "header_have s = header_have t"
    "header_flag s = header_flag t" "my_bi_buf s = my_bi_buf t" "my_bi_valid s = my_bi_valid t"
    "HEADER_BITS_CNT s = HEADER_BITS_CNT t" "header_oob s = header_oob t"
    "i_strm s = i_strm t" "i_last s = i_last t" "i_wrap s = i_wrap t" "i_havedict s = i_havedict t" "i_flags s = i_flags t"
    "i_check s = i_check t" "i_total s = i_total t" "i_head s = i_head t" "i_wbits s = i_wbits t" "i_ncode s = i_ncode t"
    "i_tree_type s = i_tree_type t" "m_in s = m_in t" "m_out s = m_out t" "m_ret s = m_ret t"
  using arg_cong [OF assms, of h_nlen] arg_cong [OF assms, of h_ndist] arg_cong [OF assms, of h_have]
    arg_cong [OF assms, of h_lens] arg_cong [OF assms, of h_work] arg_cong [OF assms, of h_codes]
    arg_cong [OF assms, of h_next] arg_cong [OF assms, of h_lencode] arg_cong [OF assms, of h_lenbits]
    arg_cong [OF assms, of h_distcode] arg_cong [OF assms, of h_distbits]
    arg_cong [OF assms, of header_buf] arg_cong [OF assms, of header_index] arg_cong [OF assms, of header_have]
    arg_cong [OF assms, of header_flag] arg_cong [OF assms, of my_bi_buf] arg_cong [OF assms, of my_bi_valid]
    arg_cong [OF assms, of HEADER_BITS_CNT] arg_cong [OF assms, of header_oob]
    arg_cong [OF assms, of i_strm] arg_cong [OF assms, of i_last] arg_cong [OF assms, of i_wrap]
    arg_cong [OF assms, of i_havedict] arg_cong [OF assms, of i_flags] arg_cong [OF assms, of i_check]
    arg_cong [OF assms, of i_total] arg_cong [OF assms, of i_head] arg_cong [OF assms, of i_wbits]
    arg_cong [OF assms, of i_ncode] arg_cong [OF assms, of i_tree_type] arg_cong [OF assms, of m_in]
    arg_cong [OF assms, of m_out] arg_cong [OF assms, of m_ret]
  by (simp_all add: quiet_def)

lemma quiet_tables:
  assumes "quiet s = quiet t" shows "tables_ok s = tables_ok t" "nexti s = nexti t"
proof -
  have c: "code_at s p = code_at t p" for p by (rule code_at_cong [OF quiet_fields(6) [OF assms]])
  show "tables_ok s = tables_ok t" "nexti s = nexti t"
    by (simp_all add: tables_ok_def nexti_def c quiet_fields(8-11) [OF assms])
qed

lemma RESTORE_simps:
  "i_hold (RESTORE s) = r_hold s" "i_bits (RESTORE s) = r_bits s" "z_next_in (m_strm (RESTORE s)) = r_next s"
  "z_out (m_strm (RESTORE s)) = m_put s" "z_avail_out (m_strm (RESTORE s)) = m_left s" "i_mode (RESTORE s) = i_mode s"
  "z_msg (m_strm (RESTORE s)) = z_msg (m_strm s)" "h_lencode (RESTORE s) = h_lencode s" "h_distcode (RESTORE s) = h_distcode s"
  "h_lenbits (RESTORE s) = h_lenbits s" "h_distbits (RESTORE s) = h_distbits s"
  by (simp_all add: RESTORE_def)

lemma RESTORE_code_at [simp]: "code_at (RESTORE s) p = code_at s p"
  by (rule code_at_cong) (simp add: RESTORE_def)

text \<open>Case LEN when there is input and space for \<open>inflate_fast\<close>.\<close>

lemma inflate_LEN_fast:
  assumes ok: "tables_ok s" "rinv s" and room: "6 \<le> length (r_next s)" "258 \<le> m_left s"
    and bk: "r_bits s < 8 \<or> r_bits s < 8 + snd (nexti s (rem s))" and mode: "i_mode s = LEN"
  obtains s' js k n where "inflate_LEN s = Next s'" "quiet s' = quiet s"
    "decodes (nexti s) (rem s) js (drop k (rem s))" "k \<le> n" "n \<le> length (rem s)" "rem s' = drop n (rem s)" "rinv s'" "r_bits s' < 8"
    "m_left s' + length (m_put s') = m_left s + length (m_put s)" "\<exists>j. r_next s' = drop j (r_next s)" "m_ins s' = m_ins s"
    "k = n \<and> js \<noteq> [] \<and> i_mode s' = LEN \<and> z_msg (m_strm s') = z_msg (m_strm s) \<and> m_put s' = m_put s @ instrs_bytes js \<or>
     nexti s (drop k (rem s)) = (Inr End_block, n - k) \<and> i_mode s' = TYPE_0 \<and> z_msg (m_strm s') = z_msg (m_strm s) \<and>
       m_put s' = m_put s @ instrs_bytes js @ [0xaa, 0xff] \<or>
     (\<exists>m. nexti s (drop k (rem s)) = (Inl m, n - k) \<and> i_mode s' = BAD \<and> z_msg (m_strm s') = Some m \<and>
       m_put s' = m_put s @ instrs_bytes js)"
proof -
  let ?s = "RESTORE s"
  let ?e = "fast_env_of ?s"
  let ?f = "\<lparr>f_in = 0, f_hold = i_hold ?s, f_bits = i_bits ?s, f_out = [], f_mode = i_mode ?s, f_msg = z_msg (m_strm ?s)\<rparr>"
  have env: "e_in ?e = r_next s" "e_avail_out ?e = m_left s" "e_lcode ?e = len_tab s" "e_dcode ?e = dist_tab s"
    "e_lenbits ?e = h_lenbits s" "e_distbits ?e = h_distbits s"
    by (simp_all add: fast_env_of_def RESTORE_simps)
  have fr: "f_rem ?e ?f = rem s" by (simp add: f_rem_def rem_def env RESTORE_simps)
  have "fast_room ?e ?f" using ok(2) room by (simp add: fast_room_def env RESTORE_simps rinv_def)
  moreover have "code_table (e_lcode ?e) (e_lenbits ?e) LENS" "code_table (e_dcode ?e) (e_distbits ?e) DISTS"
    using ok(1) by (simp_all add: env tables_ok_def)
  moreover have "nexti s = next_instr (e_lcode ?e) (e_lenbits ?e) (e_dcode ?e) (e_distbits ?e)" by (simp add: nexti_def env)
  ultimately obtain f' js n where f': "fast_loop ?e ?f = Some f'" "fast_stop (nexti s) ?e ?f js n f'"
    "length (f_out f') \<le> m_left s" "snd (nexti s (rem s)) \<le> n"
    using fast_loop_stop [of ?e ?f "nexti s"] env(2) fr by auto
  from f'(2) [unfolded fast_stop_def fr] obtain k where k: "decodes (nexti s) (rem s) js (drop k (rem s))" "k \<le> n" "f_pos ?e n ?f f'"
    and c: "k = n \<and> js \<noteq> [] \<and> f_mode f' = f_mode ?f \<and> f_msg f' = f_msg ?f \<and> f_out f' = f_out ?f @ instrs_bytes js \<or>
      nexti s (drop k (rem s)) = (Inr End_block, n - k) \<and> f_mode f' = TYPE_0 \<and> f_msg f' = f_msg ?f \<and>
        f_out f' = f_out ?f @ instrs_bytes js @ [0xaa, 0xff] \<or>
      (\<exists>m. nexti s (drop k (rem s)) = (Inl m, n - k) \<and> f_mode f' = BAD \<and> f_msg f' = Some m \<and> f_out f' = f_out ?f @ instrs_bytes js)"
    by blast
  have p: "hold_ok (f_hold f') (f_bits f')" "bits_of (f_bits f') (f_hold f') @ bytes_bits (drop (f_in f') (r_next s)) = drop n (rem s)"
    "n \<le> length (rem s)" "8 * f_in f' + r_bits s = f_bits f' + n" "f_in f' \<le> length (r_next s)"
    using k(3) unfolding f_pos_def fr by (simp_all add: f_rem_def env RESTORE_simps)
  let ?k = "f_bits f' div 8" and ?m = "f_bits f' - 8 * (f_bits f' div 8)"
  have kin: "?k \<le> f_in f'" using p(4) bk f'(4) by linarith
  have gb: "bits_of ?m (f_hold f' AND (push_bit ?m 1 - 1)) @ bytes_bits (drop (f_in f' - ?k) (r_next s)) = drop n (rem s)"
    using give_back [OF p(4) p(2) [unfolded rem_def] _ kin p(5)] p(2) by simp
  define s' where "s' = (case inflate_fast ?s of None \<Rightarrow> s | Some s1 \<Rightarrow> let s2 = LOAD s1 in if i_mode s2 = TYPE_0 then s2\<lparr>i_back := -1\<rparr> else s2)"
  have run: "inflate_fast ?s = Some (?s\<lparr>i_hold := f_hold f' AND (push_bit ?m 1 - 1), i_bits := ?m, i_mode := f_mode f',
      m_strm := (m_strm ?s)\<lparr>z_next_in := drop (f_in f' - ?k) (r_next s), z_out := z_out (m_strm ?s) @ f_out f',
        z_avail_out := m_left s - length (f_out f'), z_msg := f_msg f'\<rparr>\<rparr>)"
    using f'(1) kin by (simp add: inflate_fast_def Let_def env not_less)
  have st: "inflate_LEN s = Next s'" using room run by (simp add: inflate_LEN_def s'_def Let_def)
  have fields: "r_next s' = drop (f_in f' - ?k) (r_next s)" "r_hold s' = f_hold f' AND (push_bit ?m 1 - 1)" "r_bits s' = ?m"
    "i_mode s' = f_mode f'" "m_put s' = m_put s @ f_out f'" "m_left s' = m_left s - length (f_out f')"
    "z_msg (m_strm s') = f_msg f'" "quiet s' = quiet s" "m_ins s' = m_ins s"
    unfolding s'_def run option.case Let_def by (simp_all add: LOAD_def RESTORE_def quiet_def)
  have "rem s' = drop n (rem s)" using gb by (simp add: rem_def [of s'] fields)
  moreover have "rinv s'"
  proof -
    have "f_hold f' AND (push_bit ?m 1 - 1) = take_bit ?m (f_hold f')" by (rule mask_take_bit) simp
    moreover have "?m \<le> 56" by simp
    ultimately show ?thesis unfolding rinv_def fields hold_ok_def by simp
  qed
  moreover have "r_bits s' < 8" by (simp add: fields)
  moreover have "\<exists>j. r_next s' = drop j (r_next s)" using fields(1) by blast
  ultimately show thesis
    using that [of s' js k n] st k(1,2) p(3) c f'(3) by (simp add: fields RESTORE_simps mode)
qed


section \<open>One symbol at a time\<close>

text \<open>What a state in one of the cases LEN, LENEXT, DIST and DISTEXT is waiting for: the instruction that the
  coming bits complete.\<close>

definition shift :: "nat \<Rightarrow> 'r \<times> nat \<Rightarrow> 'r \<times> nat" where
  "shift c p = (fst p, c + snd p)"

definition pend :: "inflate_run \<Rightarrow> bool list \<Rightarrow> (string + instr) \<times> nat" where
  "pend s bs =
    (case i_mode s of
       DISTEXT \<Rightarrow> (Inr (Match (i_length s) (i_offset s + val_of (take (i_extra s) bs))), i_extra s)
     | DIST \<Rightarrow> next_dist (dist_tab s) (h_distbits s) (i_length s) bs
     | LENEXT \<Rightarrow> shift (i_extra s) (next_dist (dist_tab s) (h_distbits s)
         (i_length s + val_of (take (i_extra s) bs)) (drop (i_extra s) bs))
     | _ \<Rightarrow> nexti s bs)"

text \<open>\<open>t\<close> is \<open>s\<close> after consuming \<open>c\<close> bits, with the same output and instruction buffer.\<close>

definition adv :: "nat \<Rightarrow> inflate_run \<Rightarrow> inflate_run \<Rightarrow> bool" where
  "adv c s t \<longleftrightarrow> quiet t = quiet s \<and> rem t = drop c (rem s) \<and> c \<le> length (rem s) \<and> rinv t \<and>
    m_put t = m_put s \<and> m_left t = m_left s \<and> m_ins t = m_ins s \<and> z_msg (m_strm t) = z_msg (m_strm s)"

lemma adv_trans: "adv c s t \<Longrightarrow> adv d t u \<Longrightarrow> adv (c + d) s u"
  by (auto simp: adv_def add.commute)

definition ins_loaded :: "inflate_run \<Rightarrow> inflate_run \<Rightarrow> byte list \<Rightarrow> nat \<Rightarrow> bool" where
  "ins_loaded s t bs ty \<longleftrightarrow> (\<exists>vs. map ucast vs = bs \<and> m_ins t = \<lparr>ins_buffer = vs @ drop (length vs) (ins_buffer (m_ins s)),
     ins_buffer_index = 0, ins_buffer_have = length vs, ins_type = ty\<rparr>)"

text \<open>The symbol is complete: its instruction waits in the buffer, or the error is reported.\<close>

definition sym_done :: "inflate_run \<Rightarrow> (string + instr) \<times> nat \<Rightarrow> inflate_run step \<Rightarrow> bool" where
  "sym_done s rn res \<longleftrightarrow> (\<exists>t. res = Next t \<and> quiet t = quiet s \<and> rem t = drop (snd rn) (rem s) \<and> rinv t \<and> r_bits t < 8 \<and>
    m_put t = m_put s \<and> m_left t = m_left s \<and>
    (case fst rn of
       Inl m \<Rightarrow> i_mode t = BAD \<and> z_msg (m_strm t) = Some m \<and> m_ins t = m_ins s
     | Inr i \<Rightarrow> z_msg (m_strm t) = z_msg (m_strm s) \<and>
         (case i of
            Lit _ \<Rightarrow> i_mode t = LIT \<and> ins_loaded s t (instr_bytes i) 0
          | Match _ _ \<Rightarrow> i_mode t = SENDINS \<and> ins_loaded s t (instr_bytes i) 1
          | End_block \<Rightarrow> i_mode t = SETENDOFBLOCK \<and> m_ins t = m_ins s)))"

text \<open>The input ends inside the symbol: the state waits for exactly the rest of it.\<close>

definition sym_wait :: "inflate_run \<Rightarrow> inflate_run step \<Rightarrow> bool" where
  "sym_wait s res \<longleftrightarrow> (\<exists>t c. res = Leave t \<and> adv c s t \<and> r_next t = [] \<and> i_mode t \<in> {LEN, LENEXT, DIST, DISTEXT} \<and>
    (i_mode t = LENEXT \<or> i_mode t = DISTEXT \<longrightarrow> i_extra t \<le> 15) \<and> length (rem t) < snd (pend t (rem t)) \<and>
    (\<forall>ext. pend s (rem s @ ext) = shift c (pend t (rem t @ ext))))"

definition sym_result :: "inflate_run \<Rightarrow> inflate_run step \<Rightarrow> bool" where
  "sym_result s res \<longleftrightarrow>
    (if snd (pend s (rem s)) \<le> length (rem s) then sym_done s (pend s (rem s)) res else sym_wait s res)"

lemma shift_simps [simp]: "fst (shift c p) = fst p" "snd (shift c p) = c + snd p" "shift c (shift d p) = shift (c + d) p" "shift 0 p = p"
  by (simp_all add: shift_def)

lemma sym_result_adv:
  assumes a: "adv c s t" and p: "\<forall>ext. pend s (rem s @ ext) = shift c (pend t (rem t @ ext))" and r: "sym_result t res"
  shows "sym_result s res"
proof -
  have ad: "quiet t = quiet s" "rem t = drop c (rem s)" "c \<le> length (rem s)" "m_put t = m_put s" "m_left t = m_left s"
    "m_ins t = m_ins s" "z_msg (m_strm t) = z_msg (m_strm s)" using a by (auto simp: adv_def)
  have ps: "pend s (rem s) = shift c (pend t (rem t))" using p [rule_format, of "[]"] by simp
  show ?thesis
  proof (cases "snd (pend t (rem t)) \<le> length (rem t)")
    case True
    then have "sym_done t (pend t (rem t)) res" using r by (simp add: sym_result_def)
    moreover have "sym_done s (pend s (rem s)) res = sym_done t (pend t (rem t)) res"
      unfolding sym_done_def ins_loaded_def ps shift_simps ad drop_drop by (simp only: add.commute)
    moreover have "snd (pend s (rem s)) \<le> length (rem s)" using True ps ad(2,3) by simp
    ultimately show ?thesis by (simp add: sym_result_def)
  next
    case False
    then have "sym_wait t res" using r by (simp add: sym_result_def)
    then obtain u d where u: "res = Leave u" "adv d t u" "r_next u = []" "i_mode u \<in> {LEN, LENEXT, DIST, DISTEXT}"
      "i_mode u = LENEXT \<or> i_mode u = DISTEXT \<longrightarrow> i_extra u \<le> 15" "length (rem u) < snd (pend u (rem u))" "\<forall>ext. pend t (rem t @ ext) = shift d (pend u (rem u @ ext))"
      unfolding sym_wait_def by blast
    have "sym_wait s res"
      unfolding sym_wait_def
      by (intro exI [of _ u] exI [of _ "c + d"]) (use u adv_trans [OF a u(2)] p in auto)
    moreover have "\<not> snd (pend s (rem s)) \<le> length (rem s)" using False ps ad(2,3) by simp
    ultimately show ?thesis by (simp add: sym_result_def)
  qed
qed


lemma regs_of_more: "reader.more s' = reader.more s \<Longrightarrow> s' = set_regs (r_next s', r_hold s', r_bits s') s"
  by (cases s; cases s') (simp add: set_regs_def)

lemma NEEDBITS_regs:
  assumes "rinv s" and "n \<le> 48"
  obtains (got) r where "NEEDBITS n s = Got (set_regs r s)" "n \<le> length (rem s)" "n \<le> r_bits (set_regs r s)"
      "rem (set_regs r s) = rem s" "rinv (set_regs r s)" "r_bits (set_regs r s) = r_bits s \<or> r_bits (set_regs r s) < n + 8"
    | (short) r where "NEEDBITS n s = Short (set_regs r s)" "length (rem s) < n" "r_next (set_regs r s) = []"
      "rem (set_regs r s) = rem s" "rinv (set_regs r s)"
  using assms
proof (cases rule: NEEDBITS_cases [OF assms])
  case (1 s')
  note e = regs_of_more [OF 1(6), symmetric]
  show ?thesis by (rule got [of "(r_next s', r_hold s', r_bits s')", unfolded e]) (use 1 in auto)
next
  case (2 s')
  note e = regs_of_more [OF 2(6), symmetric]
  show ?thesis by (rule short [of "(r_next s', r_hold s', r_bits s')", unfolded e]) (use 2 in auto)
qed

lemma quiet_upd [simp]:
  "quiet (set_regs r s) = quiet s" "quiet (drop_bits n s) = quiet s" "quiet (s\<lparr>i_mode := m\<rparr>) = quiet s"
  "quiet (s\<lparr>i_length := a\<rparr>) = quiet s" "quiet (s\<lparr>i_offset := a\<rparr>) = quiet s" "quiet (s\<lparr>i_extra := a\<rparr>) = quiet s"
  "quiet (s\<lparr>i_back := b\<rparr>) = quiet s" "quiet (s\<lparr>i_was := a\<rparr>) = quiet s" "quiet (s\<lparr>m_ins := c\<rparr>) = quiet s"
  by (simp_all add: quiet_def set_regs_def drop_bits_def)

lemma rem_upd [simp]:
  "rem (s\<lparr>i_mode := m\<rparr>) = rem s" "rem (s\<lparr>i_length := a\<rparr>) = rem s" "rem (s\<lparr>i_offset := a\<rparr>) = rem s"
  "rem (s\<lparr>i_extra := a\<rparr>) = rem s" "rem (s\<lparr>i_back := b\<rparr>) = rem s" "rem (s\<lparr>i_was := a\<rparr>) = rem s"
  "rem (s\<lparr>m_ins := c\<rparr>) = rem s"
  "rinv (s\<lparr>i_mode := m\<rparr>) = rinv s" "rinv (s\<lparr>i_length := a\<rparr>) = rinv s" "rinv (s\<lparr>i_offset := a\<rparr>) = rinv s"
  "rinv (s\<lparr>i_extra := a\<rparr>) = rinv s" "rinv (s\<lparr>i_back := b\<rparr>) = rinv s" "rinv (s\<lparr>i_was := a\<rparr>) = rinv s"
  "rinv (s\<lparr>m_ins := c\<rparr>) = rinv s"
  by (simp_all add: rem_def rinv_def)

lemma run_regs [simp]:
  fixes s :: inflate_run
  shows "i_mode (set_regs r s) = i_mode s" "i_length (set_regs r s) = i_length s" "i_offset (set_regs r s) = i_offset s"
    "i_extra (set_regs r s) = i_extra s" "i_back (set_regs r s) = i_back s" "m_put (set_regs r s) = m_put s"
    "m_left (set_regs r s) = m_left s" "m_ins (set_regs r s) = m_ins s" "m_strm (set_regs r s) = m_strm s"
    "header_flag (set_regs r s) = header_flag s"
    "i_mode (drop_bits n s) = i_mode s" "i_length (drop_bits n s) = i_length s" "i_offset (drop_bits n s) = i_offset s"
    "i_extra (drop_bits n s) = i_extra s" "i_back (drop_bits n s) = i_back s" "m_put (drop_bits n s) = m_put s"
    "m_left (drop_bits n s) = m_left s" "m_ins (drop_bits n s) = m_ins s" "m_strm (drop_bits n s) = m_strm s"
    "header_flag (drop_bits n s) = header_flag s"
  by (simp_all add: set_regs_def drop_bits_def)

lemma BITS_upd [simp]: "BITS n (s\<lparr>i_offset := a\<rparr>) = BITS n s" "BITS n (s\<lparr>i_length := a\<rparr>) = BITS n s"
  for s :: inflate_run
  by (simp_all add: BITS_def)

lemma byte_ulong_byte [simp]: "ucast (ucast (b :: byte) :: ulong) = b"
  by (rule bit_word_eqI) (auto simp: bit_simps dest: bit_imp_le_length)

lemma set_ins_simps [simp]:
  "quiet (set_ins vs ty s) = quiet s" "rem (set_ins vs ty s) = rem s" "rinv (set_ins vs ty s) = rinv s"
  "r_bits (set_ins vs ty s) = r_bits s" "m_put (set_ins vs ty s) = m_put s" "m_left (set_ins vs ty s) = m_left s"
  "m_strm (set_ins vs ty s) = m_strm s"
  by (simp_all add: set_ins_def)

lemma set_ins_loaded:
  "m_ins t = m_ins s \<Longrightarrow> map ucast vs = bs \<Longrightarrow> ins_loaded s ((set_ins vs ty t)\<lparr>i_mode := m\<rparr>) bs ty"
  by (auto simp: ins_loaded_def set_ins_def)

lemma extra_read: "header_flag s = 0 \<Longrightarrow> extra_bits_read s = (drop_bits (i_extra s) s)\<lparr>i_back := i_back s + int (i_extra s)\<rparr>"
  by (simp add: extra_bits_read_def Let_def DROPBITS_quiet)

lemma drop_code_quiet: "header_flag s = 0 \<Longrightarrow>
    drop_code h s = (drop_bits (unat (c_bits h)) s)\<lparr>i_back := i_back s + int (unat (c_bits h))\<rparr>"
  by (simp add: drop_code_def Let_def DROPBITS_quiet)

lemma DISTEXT_result:
  assumes "header_flag s = 0" and "rinv s" and m: "i_mode s = DISTEXT" and x: "i_extra s \<le> 15" and b: "r_bits s < 8 + i_extra s"
  shows "sym_result s (inflate_DISTEXT s)"
proof -
  have pd: "pend s bs = (Inr (Match (i_length s) (i_offset s + val_of (take (i_extra s) bs))), i_extra s)" for bs
    by (simp add: pend_def m)
  have fin: "sym_done s (Inr (Match (i_length s) d), i_extra s) (dist_done t)"
    if "quiet t = quiet s" "rem t = drop (i_extra s) (rem s)" "rinv t" "r_bits t < 8" "i_offset t = d" "i_length t = i_length s"
      "m_put t = m_put s" "m_left t = m_left s" "m_ins t = m_ins s" "m_strm t = m_strm s" for t d
    using that unfolding sym_done_def dist_done_def inflate_MATCH_def
    by (simp add: set_ins_loaded)
  show ?thesis
  proof (cases "i_extra s = 0")
    case True
    then show ?thesis using fin [of s "i_offset s"] assms(2) b by (simp add: sym_result_def pd inflate_DISTEXT_def)
  next
    case False
    have x48: "i_extra s \<le> 48" using x by simp
    show ?thesis
      using assms(2) x48
    proof (cases rule: NEEDBITS_regs)
      case (got r)
      let ?s = "set_regs r s"
      have v: "BITS (i_extra s) ?s = val_of (take (i_extra s) (rem s))" using BITS_rem [OF got(3)] x got(4) by simp
      define t where "t = extra_bits_read (?s\<lparr>i_offset := i_offset s + BITS (i_extra s) ?s\<rparr>)"
      have t: "quiet t = quiet s" "rem t = drop (i_extra s) (rem s)" "rinv t" "r_bits t < 8"
        "i_offset t = i_offset s + val_of (take (i_extra s) (rem s))" "i_length t = i_length s"
        "m_put t = m_put s" "m_left t = m_left s" "m_ins t = m_ins s" "m_strm t = m_strm s"
        using got b assms(1) v drop_bits_rem [of "i_extra s" "?s\<lparr>i_offset := i_offset s + val_of (take (i_extra s) (rem s))\<rparr>"]
          drop_bits_inv [of "?s\<lparr>i_offset := i_offset s + val_of (take (i_extra s) (rem s))\<rparr>" "i_extra s"]
        by (auto simp: t_def extra_read)
      have "inflate_DISTEXT s = dist_done t"
        using False got(1) by (simp add: inflate_DISTEXT_def with_bits_def t_def)
      then show ?thesis using fin [OF t] got(2) by (simp add: sym_result_def pd)
    next
      case (short r)
      have "inflate_DISTEXT s = Leave (set_regs r s)" using False short(1) by (simp add: inflate_DISTEXT_def with_bits_def)
      moreover have "adv 0 s (set_regs r s)" using short by (simp add: adv_def)
      moreover have "pend (set_regs r s) bs = pend s bs" for bs by (simp add: pend_def m)
      ultimately have "sym_wait s (inflate_DISTEXT s)"
        unfolding sym_wait_def using short x m by (intro exI [of _ "set_regs r s"] exI [of _ 0]) (simp add: pd)
      then show ?thesis using short(2) by (simp add: sym_result_def pd)
    qed
  qed
qed


text \<open>Both cases look a code up in the same way.\<close>

context code_table
begin

lemma symbol_append:
  assumes "snd (snd (symbol (val_of bs))) \<le> length bs" shows "symbol (val_of (bs @ ext)) = symbol (val_of bs)"
proof (rule symbol_prefix)
  have "(2::nat) ^ symbol_len (val_of bs) dvd 2 ^ length bs" using assms by (intro le_imp_power_dvd) (simp add: symbol_len_def)
  then show "val_of (bs @ ext) mod 2 ^ symbol_len (val_of bs) = val_of bs mod 2 ^ symbol_len (val_of bs)"
    by (simp add: val_of_append mod_add_eq [symmetric] dvd_imp_mod_0)
qed

lemma fetch_linked_any:
  fixes s :: "'z huff_scheme"
  assumes s: "rinv s" "code_at s p = tab" and lnk: "\<And>e. entry_of type e \<Longrightarrow> \<not> lnk e" "\<And>e. is_link e \<Longrightarrow> lnk e"
  shows "fetch_linked lnk p nb s = fetch_linked is_link p nb s"
proof -
  obtain e r where e: "tab (val_of (rem s) mod 2 ^ nb) = Some e"
    and f: "if unat (c_bits e) \<le> length (rem s)
     then fetch_code p nb s = Fetched None e (set_regs r s) \<and> unat (c_bits e) \<le> snd (snd r) \<and>
       (snd (snd r) = r_bits s \<or> snd (snd r) < unat (c_bits e) + 8)
     else fetch_code p nb s = Fetch_short (set_regs r s) \<and> fst r = []"
    using fetch_code_spec [OF s] by blast
  have "lnk e = is_link e" using root_kind [OF _ e] lnk by auto
  then show ?thesis using f by (simp add: fetch_linked_def split: if_splits)
qed

lemma link_len: "symbol x = (Some l, h, n) \<Longrightarrow> n = unat (c_bits l) + unat (c_bits h)"
proof -
  assume s: "symbol x = (Some l, h, n)"
  obtain e where e: "tab (x mod 2 ^ nb) = Some e" by (rule root_entry)
  have "is_link e" using s e by (auto simp: symbol_def Let_def split: if_splits)
  then show ?thesis using s e link_bits [OF _ e] by (auto simp: symbol_def Let_def)
qed

lemma single_len: "symbol x = (None, h, n) \<Longrightarrow> n = unat (c_bits h)"
  by (auto simp: symbol_def Let_def split: if_splits)

end

lemma links_of:
  "entry_of DISTS e \<Longrightarrow> \<not> dist_link e" "is_link e \<Longrightarrow> dist_link e" "entry_of LENS e \<Longrightarrow> \<not> len_link e" "is_link e \<Longrightarrow> len_link e"
  using dists_entry [of e] lens_entry [of e] op_and_mask [of "c_op e"]
  by (auto simp: dist_link_def len_link_def is_link_def dists_op_def lens_op_def)


lemma links_all:
  "\<forall>e. (entry_of DISTS e \<longrightarrow> \<not> dist_link e) \<and> (is_link e \<longrightarrow> dist_link e)"
  "\<forall>e. (entry_of LENS e \<longrightarrow> \<not> len_link e) \<and> (is_link e \<longrightarrow> len_link e)"
  using links_of by blast+

lemma drop_codes_bits:
  assumes ct: "code_table T nb ty" and s: "symbol_table.symbol is_link T nb x = (l, h, n)" and "header_flag s = 0"
  obtains b where "drop_codes l h s = (drop_bits n s)\<lparr>i_back := b\<rparr>"
proof (cases l)
  case None
  then have "n = unat (c_bits h)" using code_table.single_len [OF ct] s by simp
  then show ?thesis using that None assms(3) by (simp add: drop_codes_def drop_code_quiet)
next
  case (Some e)
  then have n: "n = unat (c_bits e) + unat (c_bits h)" using code_table.link_len [OF ct] s by simp
  have "drop_bits b2 ((drop_bits b1 s)\<lparr>i_back := v\<rparr>) = (drop_bits (b1 + b2) s)\<lparr>i_back := v\<rparr>" for b1 b2 v
    by (simp add: drop_bits_def drop_bit_drop_bit add.commute)
  then show ?thesis using that Some assms(3) n by (simp add: drop_codes_def drop_code_quiet)
qed

lemma lookup_cases:
  fixes s :: inflate_run
  assumes ct: "code_table (code_at s p) nb ty" and s: "rinv s" "header_flag s = 0"
    and lnk: "\<forall>e. (entry_of ty e \<longrightarrow> \<not> lnk e) \<and> (is_link e \<longrightarrow> lnk e)"
  obtains (found) l h n r b where "symbol_of (code_at s p) nb (rem s) = (l, h, n)" "n \<le> length (rem s)"
      "fetch_linked lnk p nb s = Fetched l h (set_regs r s)" "drop_codes l h (set_regs r s) = (drop_bits n (set_regs r s))\<lparr>i_back := b\<rparr>"
      "adv n s ((drop_bits n (set_regs r s))\<lparr>i_back := b\<rparr>)" "r_bits (drop_bits n (set_regs r s)) = r_bits s - n \<or> r_bits (drop_bits n (set_regs r s)) < 8"
      "entry_of ty h"
    | (short) l h n r where "symbol_of (code_at s p) nb (rem s) = (l, h, n)" "length (rem s) < n"
      "fetch_linked lnk p nb s = Fetch_short (set_regs r s)" "adv 0 s (set_regs r s)" "r_next (set_regs r s) = []"
proof -
  obtain l h n where sym: "symbol_of (code_at s p) nb (rem s) = (l, h, n)" by (metis prod_cases3)
  obtain r where r: "rinv (set_regs r s)" "rem (set_regs r s) = rem s"
    and f: "if n \<le> length (rem s)
      then fetch_linked is_link p nb s = Fetched l h (set_regs r s) \<and> n \<le> snd (snd r) \<and>
        (snd (snd r) = r_bits s \<or> snd (snd r) < n + 8)
      else fetch_linked is_link p nb s = Fetch_short (set_regs r s) \<and> fst r = []"
    using symbol_table.fetch_linked_spec [OF code_table.axioms(1) [OF ct] s(1) refl] unfolding sym prod.case by blast
  have fl: "fetch_linked lnk p nb s = fetch_linked is_link p nb s"
    by (rule code_table.fetch_linked_any [OF ct s(1) refl]) (use lnk in auto)
  show thesis
  proof (cases "n \<le> length (rem s)")
    case True
    obtain b where b: "drop_codes l h (set_regs r s) = (drop_bits n (set_regs r s))\<lparr>i_back := b\<rparr>"
      using drop_codes_bits [OF ct sym, of "set_regs r s"] s(2) by auto
    have nr: "n \<le> r_bits (set_regs r s)" using f True by simp
    have "adv n s ((drop_bits n (set_regs r s))\<lparr>i_back := b\<rparr>)"
      using drop_bits_rem [OF nr] drop_bits_inv [OF r(1) nr] r True by (simp add: adv_def)
    moreover have "entry_of ty h" using code_table.symbol_kind [OF ct, of "val_of (rem s)"] sym by simp
    moreover have "r_bits (drop_bits n (set_regs r s)) = r_bits s - n \<or> r_bits (drop_bits n (set_regs r s)) < 8"
      using f True by auto
    ultimately show thesis using found [OF sym True _ b] f fl True by auto
  next
    case False
    then show thesis using short [OF sym] f fl r by (simp add: adv_def)
  qed
qed

lemma code_at_simps [simp]:
  fixes s :: inflate_run
  shows "code_at (drop_bits n s) p = code_at s p" "code_at (s\<lparr>i_back := b\<rparr>) p = code_at s p" "code_at (s\<lparr>i_mode := m\<rparr>) p = code_at s p"
    "code_at (s\<lparr>i_length := a\<rparr>) p = code_at s p" "code_at (s\<lparr>i_offset := a\<rparr>) p = code_at s p" "code_at (s\<lparr>i_extra := a\<rparr>) p = code_at s p"
    "code_at (s\<lparr>i_was := a\<rparr>) p = code_at s p" "code_at (set_regs r s) p = code_at s p"
  by (rule code_at_cong, simp add: drop_bits_def set_regs_def)+

lemma adv_upd [simp]:
  "adv c s (t\<lparr>i_mode := m\<rparr>) = adv c s t" "adv c s (t\<lparr>i_length := a\<rparr>) = adv c s t" "adv c s (t\<lparr>i_offset := a\<rparr>) = adv c s t"
  "adv c s (t\<lparr>i_extra := a\<rparr>) = adv c s t" "adv c s (t\<lparr>i_back := b\<rparr>) = adv c s t" "adv c s (t\<lparr>i_was := a\<rparr>) = adv c s t"
  by (simp_all add: adv_def)

lemma set_msg_simps [simp]:
  "quiet (set_msg x s) = quiet s" "rem (set_msg x s) = rem s" "rinv (set_msg x s) = rinv s" "r_bits (set_msg x s) = r_bits s"
  "m_put (set_msg x s) = m_put s" "m_left (set_msg x s) = m_left s" "m_ins (set_msg x s) = m_ins s"
  "z_msg (m_strm (set_msg x s)) = Some x"
  by (simp_all add: set_msg_def quiet_def rem_def rinv_def)

lemma bad_done: "adv n s t \<Longrightarrow> r_bits t < 8 \<Longrightarrow> sym_done s (Inl x, n) (bad x t)"
  by (simp add: sym_done_def bad_def adv_def)

lemma op_low: "unat ((p :: byte) AND 15) \<le> 15"
  using word_and_le1 [of p 15] by (simp add: word_le_nat_alt)

lemma tab_regs [simp]:
  fixes s :: inflate_run
  shows "h_distcode (set_regs r s) = h_distcode s" "h_distbits (set_regs r s) = h_distbits s"
    "h_lencode (set_regs r s) = h_lencode s" "h_lenbits (set_regs r s) = h_lenbits s"
    "h_distcode (drop_bits n s) = h_distcode s" "h_distbits (drop_bits n s) = h_distbits s"
    "h_lencode (drop_bits n s) = h_lencode s" "h_lenbits (drop_bits n s) = h_lenbits s"
  by (simp_all add: set_regs_def drop_bits_def)

lemma DIST_result:
  assumes hf: "header_flag s = 0" and "rinv s" and ct: "code_table (dist_tab s) (h_distbits s) DISTS" and m: "i_mode s = DIST"
    and b: "r_bits s < 8 + snd (pend s (rem s))"
  shows "sym_result s (inflate_DIST s)"
proof -
  have pd: "pend s bs = next_dist (dist_tab s) (h_distbits s) (i_length s) bs" for bs by (simp add: pend_def m)
  show ?thesis
  proof (cases rule: lookup_cases [OF ct assms(2) hf links_all(1), case_names found short])
    case (found l h n r bk)
    let ?t = "(drop_bits n (set_regs r s))\<lparr>i_back := bk\<rparr>"
    show ?thesis
    proof (cases "c_op h AND 64 = 0")
      case False
      have "pend s (rem s) = (Inl ''invalid distance code'', n)" using found(1) False by (simp add: pd next_dist_def)
      moreover have "inflate_DIST s = bad ''invalid distance code'' ?t" using found False by (simp add: inflate_DIST_def)
      moreover have "r_bits ?t < 8" using found(6) b calculation(1) by auto
      ultimately show ?thesis using found(2) bad_done [OF found(5)] by (simp add: sym_result_def)
    next
      case True
      let ?u = "?t\<lparr>i_offset := unat (c_val h), i_extra := unat (c_op h AND 15), i_mode := DISTEXT\<rparr>"
      have run: "inflate_DIST s = inflate_DISTEXT ?u" using found True by (simp add: inflate_DIST_def)
      have sx: "symbol_of (dist_tab s) (h_distbits s) (rem s @ ext) = (l, h, n)" for ext
        using code_table.symbol_append [OF ct, of "rem s" ext] found(1,2) by simp
      have pu: "pend ?u bs = (Inr (Match (i_length s) (unat (c_val h) + val_of (take (unat (c_op h AND 15)) bs))), unat (c_op h AND 15))" for bs
        by (simp add: pend_def)
      have ru: "rem ?u = drop n (rem s)" using found(5) by (simp add: adv_def)
      have ps: "pend s (rem s @ ext) = shift n (pend ?u (rem ?u @ ext))" for ext
        unfolding pd pu ru using sx [of ext] True found(2) by (simp add: next_dist_def shift_def Let_def)
      have "snd (pend s (rem s)) = n + unat (c_op h AND 15)" using ps [of "[]"] by (simp add: pu)
      then have "r_bits ?u < 8 + i_extra ?u" using found(6) b by auto
      moreover have "header_flag ?u = 0" "rinv ?u" using hf found(5) by (simp_all add: adv_def)
      ultimately have "sym_result ?u (inflate_DISTEXT ?u)" using op_low by (intro DISTEXT_result) simp_all
      then show ?thesis unfolding run using found(5) ps by (intro sym_result_adv [of n s ?u]) simp_all
    qed
  next
    case (short l h n r)
    have sn: "length (rem s) < snd (pend s (rem s))" using short(1,2) by (simp add: pd next_dist_def Let_def)
    have "inflate_DIST s = Leave (set_regs r s)" using short by (simp add: inflate_DIST_def)
    moreover have "pend (set_regs r s) bs = pend s bs" for bs by (simp add: pend_def m)
    moreover have "rem (set_regs r s) = rem s" using short(4) by (simp add: adv_def)
    ultimately have "sym_wait s (inflate_DIST s)"
      unfolding sym_wait_def using short m sn by (intro exI [of _ "set_regs r s"] exI [of _ 0]) simp
    then show ?thesis using sn by (simp add: sym_result_def)
  qed
qed


lemma next_dist_regs:
  "next_dist (dist_tab (set_regs r s)) (h_distbits (set_regs r s)) = next_dist (dist_tab s) (h_distbits s)" for s :: inflate_run
  by simp

lemma LENEXT_result:
  assumes hf: "header_flag s = 0" and "rinv s" and ct: "code_table (dist_tab s) (h_distbits s) DISTS" and m: "i_mode s = LENEXT"
    and x: "i_extra s \<le> 15" and b: "r_bits s < 8 + snd (pend s (rem s))"
  shows "sym_result s (inflate_LENEXT s)"
proof -
  let ?x = "i_extra s"
  have pd: "pend s bs = shift ?x (next_dist (dist_tab s) (h_distbits s) (i_length s + val_of (take ?x bs)) (drop ?x bs))" for bs
    by (simp add: pend_def m)
  have fin: "sym_result s (len_done t)"
    if t: "adv ?x s t" "r_bits t = r_bits s - ?x \<or> r_bits t < 8" "i_length t = i_length s + val_of (take ?x (rem s))"
      "h_distcode t = h_distcode s" "h_distbits t = h_distbits s" "code_at t = code_at s" "header_flag t = 0" for t
  proof -
    let ?u = "t\<lparr>i_was := i_length t, i_mode := DIST\<rparr>"
    have ru: "rem ?u = drop ?x (rem s)" "?x \<le> length (rem s)" "rinv ?u" using t(1) by (simp_all add: adv_def)
    have pu: "pend ?u bs = next_dist (dist_tab s) (h_distbits s) (i_length s + val_of (take ?x (rem s))) bs" for bs
      using t(3-6) by (simp add: pend_def)
    have ps: "pend s (rem s @ ext) = shift ?x (pend ?u (rem ?u @ ext))" for ext
      unfolding pd pu ru(1) using ru(2) by simp
    have "r_bits ?u < 8 + snd (pend ?u (rem ?u))" using t(2) b ps [of "[]"] by auto
    then have "sym_result ?u (inflate_DIST ?u)" using ru(3) ct t(4-7) by (intro DIST_result) simp_all
    then show ?thesis unfolding len_done_def using t(1) ps by (intro sym_result_adv [of ?x s ?u]) simp_all
  qed
  show ?thesis
  proof (cases "?x = 0")
    case True
    have "adv 0 s s" using assms(2) by (simp add: adv_def)
    then show ?thesis using fin [of s] True hf by (simp add: inflate_LENEXT_def)
  next
    case False
    have x48: "?x \<le> 48" using x by simp
    show ?thesis
      using assms(2) x48
    proof (cases rule: NEEDBITS_regs)
      case (got r)
      let ?s = "set_regs r s"
      have v: "BITS ?x ?s = val_of (take ?x (rem s))" using BITS_rem [OF got(3)] x got(4) by simp
      let ?v = "?s\<lparr>i_length := i_length s + val_of (take ?x (rem s))\<rparr>"
      have "inflate_LENEXT s = len_done (extra_bits_read ?v)"
        using False got(1) v by (simp add: inflate_LENEXT_def with_bits_def)
      moreover have "sym_result s (len_done (extra_bits_read ?v))"
        by (rule fin) (use got hf drop_bits_rem [of ?x ?v] drop_bits_inv [of ?v ?x] in \<open>auto simp: extra_read adv_def fun_eq_iff\<close>)
      ultimately show ?thesis by simp
    next
      case (short r)
      have sn: "length (rem s) < snd (pend s (rem s))" using short(2) by (simp add: pd)
      have "inflate_LENEXT s = Leave (set_regs r s)" using False short(1) by (simp add: inflate_LENEXT_def with_bits_def)
      moreover have "adv 0 s (set_regs r s)" using short by (simp add: adv_def)
      moreover have "pend (set_regs r s) bs = pend s bs" for bs by (simp add: pend_def m)
      ultimately have "sym_wait s (inflate_LENEXT s)"
        unfolding sym_wait_def using short x m sn by (intro exI [of _ "set_regs r s"] exI [of _ 0]) simp
      then show ?thesis using sn by (simp add: sym_result_def)
    qed
  qed
qed

lemma lit_bytes: "map ucast (if v = 0xaa then [ucast v, ucast v] else [ucast v :: ulong]) = instr_bytes (Lit v)" for v :: ush
proof -
  have "ucast (ucast v :: ulong) = (ucast v :: byte)" by (rule bit_word_eqI) (auto simp: bit_simps)
  then show ?thesis by simp
qed

lemma nexti_upd: "nexti (s\<lparr>i_back := a\<rparr>) = nexti s" "nexti (set_regs r s) = nexti s" for s :: inflate_run
  by (simp_all add: nexti_def)

lemma LEN_slow_result:
  assumes hf: "header_flag s = 0" and "rinv s" and tok: "tables_ok s" and m: "i_mode s = LEN"
    and b: "r_bits s < 8 + snd (nexti s (rem s))"
  shows "sym_result s (inflate_LEN_slow s)"
proof -
  let ?s = "s\<lparr>i_back := 0\<rparr>"
  have pd: "pend s bs = nexti s bs" for bs by (simp add: pend_def m)
  have lt: "code_table (len_tab s) (h_lenbits s) LENS" and dt: "code_table (dist_tab s) (h_distbits s) DISTS"
    using tok by (auto simp: tables_ok_def)
  have hf': "header_flag ?s = 0" and ri': "rinv ?s" and lt': "code_table (code_at ?s (h_lencode s)) (h_lenbits s) LENS"
    using hf assms(2) lt by simp_all
  have a0: "adv n ?s t = adv n s t" for n t by (simp add: adv_def)
  show ?thesis
  proof (cases rule: lookup_cases [OF lt' ri' hf' links_all(2), case_names found short])
    case (found l h n r bk)
    let ?t = "(drop_bits n (set_regs r ?s))\<lparr>i_back := bk\<rparr>"
    let ?v = "?t\<lparr>i_length := unat (c_val h)\<rparr>"
    have adv: "adv n s ?t" using found(5) a0 by simp
    have sym: "symbol_of (len_tab s) (h_lenbits s) (rem s) = (l, h, n)" "n \<le> length (rem s)" using found(1,2) by simp_all
    have bits: "r_bits ?t = r_bits s - n \<or> r_bits ?t < 8" using found(6) by simp
    have sx: "symbol_of (len_tab s) (h_lenbits s) (rem s @ ext) = (l, h, n)" for ext
      using code_table.symbol_append [OF lt, of "rem s" ext] sym by simp
    have op: "lens_op (c_op h)" by (rule lens_entry [OF found(7)])
    consider (lit) "c_op h = 0" | (eob) "c_op h \<noteq> 0" "c_op h AND 32 \<noteq> 0"
      | (bad) "c_op h \<noteq> 0" "c_op h AND 32 = 0" "c_op h AND 64 \<noteq> 0"
      | (len) "c_op h \<noteq> 0" "c_op h AND 32 = 0" "c_op h AND 64 = 0" by blast
    then show ?thesis
    proof cases
      case lit
      have p: "pend s (rem s) = (Inr (Lit (c_val h)), n)" using sym lit by (simp add: pd nexti_def next_instr_def)
      have run: "inflate_LEN_slow s = Next ((set_ins (if c_val h = 0xaa then [ucast (c_val h), ucast (c_val h)] else [ucast (c_val h)]) 0 ?v)\<lparr>i_mode := LIT\<rparr>)"
        using found(3,4) lit by (simp add: inflate_LEN_slow_def Let_def)
      have "r_bits ?t < 8" using bits b p pd by auto
      then have "sym_done s (pend s (rem s)) (inflate_LEN_slow s)"
        unfolding run p sym_done_def using adv set_ins_loaded [of ?v s, OF _ lit_bytes [of "c_val h"]]
        by (simp add: adv_def del: instr_bytes.simps)
      then show ?thesis using sym(2) p by (simp add: sym_result_def)
    next
      case eob
      have p: "pend s (rem s) = (Inr End_block, n)" using sym eob by (simp add: pd nexti_def next_instr_def)
      have run: "inflate_LEN_slow s = Next (?v\<lparr>i_back := -1, i_mode := SETENDOFBLOCK\<rparr>)"
        using found(3,4) eob by (simp add: inflate_LEN_slow_def Let_def)
      have "r_bits ?t < 8" using bits b p pd by auto
      then have "sym_done s (pend s (rem s)) (inflate_LEN_slow s)"
        unfolding run p sym_done_def using adv by (simp add: adv_def)
      then show ?thesis using sym(2) p by (simp add: sym_result_def)
    next
      case bad
      have p: "pend s (rem s) = (Inl ''invalid literal/length code'', n)" using sym bad by (simp add: pd nexti_def next_instr_def)
      have "inflate_LEN_slow s = Inflate.bad ''invalid literal/length code'' ?v"
        using found(3,4) bad by (simp add: inflate_LEN_slow_def Let_def)
      moreover have "adv n s ?v" "r_bits ?v < 8" using adv bits b p pd by auto
      ultimately show ?thesis using bad_done sym(2) p by (simp add: sym_result_def)
    next
      case len
      let ?u = "?v\<lparr>i_extra := unat (c_op h AND 15), i_mode := LENEXT\<rparr>"
      have run: "inflate_LEN_slow s = inflate_LENEXT ?u"
        using found(3,4) len by (simp add: inflate_LEN_slow_def Let_def)
      have ru: "rem ?u = drop n (rem s)" "rinv ?u" using adv by (simp_all add: adv_def)
      have ps: "pend s (rem s @ ext) = shift n (pend ?u (rem ?u @ ext))" for ext
        unfolding pd ru(1) using sx [of ext] len sym(2)
        by (simp add: nexti_def next_instr_def Let_def pend_def shift_def add.commute split: prod.splits)
      have "r_bits ?u < 8 + snd (pend ?u (rem ?u))" using bits b ps [of "[]"] pd by auto
      then have "sym_result ?u (inflate_LENEXT ?u)" using ru(2) dt hf op_low by (intro LENEXT_result) simp_all
      then show ?thesis unfolding run using adv ps by (intro sym_result_adv [of n s ?u]) simp_all
    qed
  next
    case (short l h n r)
    let ?u = "set_regs r ?s"
    have sn: "length (rem s) < snd (nexti s (rem s))"
      using short(1,2) by (auto simp: nexti_def next_instr_def Let_def split: prod.splits)
    have "inflate_LEN_slow s = Leave ?u" using short by (simp add: inflate_LEN_slow_def)
    moreover have "adv 0 s ?u" using short(4) a0 by simp
    moreover have "pend ?u bs = pend s bs" for bs by (simp add: pend_def m nexti_upd)
    moreover have "rem ?u = rem s" using short(4) by (simp add: adv_def)
    ultimately have "sym_wait s (inflate_LEN_slow s)"
      unfolding sym_wait_def using short m sn by (intro exI [of _ ?u] exI [of _ 0]) (simp add: pd)
    then show ?thesis using sn by (simp add: sym_result_def pd)
  qed
qed

end
