(* ===== verification/Code_Lengths.thy ===== *)
theory Code_Lengths
  imports Inftrees_Lookup Trees_Header
begin

text \<open>
  Reading the code lengths of a dynamic block, the part that inflate.c and deflate.c share.  The locale
  \<open>dropping\<close> says what these loops need of the \<^verbatim>\<open>DROPBITS\<close> of their file; inside it the loops of cases
  LENLENS and CODELENS are shown to follow the reference: a code length symbol \<open>cl_sym\<close> at a time,
  with the meaning that \<open>expand\<close> gives to the symbols.
\<close>

section \<open>The reference\<close>

text \<open>The extra bits of the repeat codes 16, 17 and 18.\<close>

definition cl_extra :: "nat \<Rightarrow> nat" where
  "cl_extra v = (if v < 16 then 0 else if v = 16 then 2 else if v = 17 then 3 else 7)"

text \<open>The symbol at the front of a bit string with its extra value, and the bits that it takes.\<close>

definition cl_sym :: "(nat \<Rightarrow> code option) \<Rightarrow> nat \<Rightarrow> bool list \<Rightarrow> (nat \<times> nat) \<times> nat" where
  "cl_sym tab nb bs =
    (let e = the (tab (val_of bs mod 2 ^ nb)); b = unat (c_bits e); v = unat (c_val e)
     in ((v, val_of (take (cl_extra v) (drop b bs))), b + cl_extra v))"

text \<open>The code lengths after the symbol, \<open>None\<close> when there is nothing to repeat or too much.\<close>

definition cl_next :: "nat \<Rightarrow> nat \<times> nat \<Rightarrow> nat list \<Rightarrow> nat list option" where
  "cl_next mx sy acc =
    (case expand [sy] acc of None \<Rightarrow> None | Some acc' \<Rightarrow> if length acc' > mx then None else Some acc')"

text \<open>Reading symbols until \<open>mx\<close> lengths are there: \<open>cl_reads tab nb mx bs acc bs' acc'\<close>.\<close>

inductive cl_reads :: "(nat \<Rightarrow> code option) \<Rightarrow> nat \<Rightarrow> nat \<Rightarrow> bool list \<Rightarrow> nat list \<Rightarrow> bool list \<Rightarrow> nat list \<Rightarrow> bool"
  for tab nb mx where
  cl_done: "cl_reads tab nb mx bs acc bs acc"
| cl_read: "length acc < mx \<Longrightarrow> cl_sym tab nb bs = (sy, c) \<Longrightarrow> c \<le> length bs \<Longrightarrow> cl_next mx sy acc = Some acc1 \<Longrightarrow>
    cl_reads tab nb mx (drop c bs) acc1 bs' acc' \<Longrightarrow> cl_reads tab nb mx bs acc bs' acc'"

text \<open>The lengths of the code length codes: fields of three bits, in the order of \<open>bl_order\<close>.\<close>

fun fields3 :: "nat \<Rightarrow> bool list \<Rightarrow> nat list" where
  "fields3 0 bs = []"
| "fields3 (Suc k) bs = val_of (take 3 bs) # fields3 k (drop 3 bs)"

definition ordered :: "nat \<Rightarrow> nat list \<Rightarrow> nat list" where
  "ordered n lens = map (\<lambda>i. lens ! (bl_order ! i)) [0..<n]"

lemma bl_order_facts: "distinct bl_order" "length bl_order = 19" "list_all (\<lambda>x. x < 19) bl_order"
  by code_simp+

lemma bl_order_less: "i < 19 \<Longrightarrow> bl_order ! i < 19"
  using bl_order_facts(2,3) by (simp add: list_all_length)

lemma bl_order_onto: "j < 19 \<Longrightarrow> \<exists>i<19. bl_order ! i = j"
proof -
  assume j: "j < 19"
  have "set bl_order \<subseteq> {..<19}" using bl_order_facts(3) by (auto simp: list_all_iff)
  moreover have "card (set bl_order) = 19" using distinct_card [OF bl_order_facts(1)] bl_order_facts(2) by simp
  ultimately have "set bl_order = {..<19}" by (intro card_subset_eq) simp_all
  then show ?thesis using j bl_order_facts(2) by (auto simp: in_set_conv_nth set_eq_iff)
qed

lemma length_ordered [simp]: "length (ordered n lens) = n"
  by (simp add: ordered_def)

lemma ordered_update:
  assumes "n < 19" and "19 \<le> length lens"
  shows "ordered (Suc n) (lens[bl_order ! n := v]) = ordered n lens @ [v]"
proof -
  have "lens[bl_order ! n := v] ! (bl_order ! i) = lens ! (bl_order ! i)" if "i < n" for i
    using that assms(1) bl_order_facts(1,2) by (simp add: nth_eq_iff_index_eq nth_list_update_neq)
  then have "ordered n (lens[bl_order ! n := v]) = ordered n lens" by (simp add: ordered_def)
  then show ?thesis using bl_order_less [OF assms(1)] assms by (simp add: ordered_def)
qed

lemma fields3_le: "list_all (\<lambda>l. l \<le> 7) (fields3 k bs)"
proof (induction k arbitrary: bs)
  case (Suc k)
  have "val_of (take 3 bs) < 2 ^ length (take 3 bs)" by (rule val_of_less)
  also have "\<dots> \<le> 2 ^ 3" by (rule power_increasing) simp_all
  finally show ?case using Suc by simp
qed simp

lemma ordered_all:
  assumes "list_all P (ordered 19 lens)" and "19 \<le> length lens" shows "list_all P (take 19 lens)"
proof -
  have "P (lens ! j)" if "j < 19" for j
    using bl_order_onto [OF that] assms(1) by (auto simp: ordered_def list_all_iff)
  then show ?thesis using assms(2) by (simp add: list_all_length)
qed

lemma cl_next_le:
  assumes "cl_next mx sy acc = Some acc'" and "list_all (\<lambda>x. x \<le> 15) acc" shows "list_all (\<lambda>x. x \<le> 15) acc'"
  using assms by (cases sy) (auto simp: cl_next_def list_all_iff last_in_set split: if_splits)

lemma cl_reads_le:
  assumes "cl_reads tab nb mx bs acc bs' acc'" and "list_all (\<lambda>x. x \<le> 15) acc" shows "list_all (\<lambda>x. x \<le> 15) acc'"
  using assms by (induction rule: cl_reads.induct) (auto dest: cl_next_le)

lemma cl_extra_le: "cl_extra v \<le> 7"
  by (simp add: cl_extra_def)

lemma lens_set_fields [simp]:
  "r_next (lens_set i v s) = r_next s" "r_hold (lens_set i v s) = r_hold s" "r_bits (lens_set i v s) = r_bits s"
  "rem (lens_set i v s) = rem s" "rinv (lens_set i v s) = rinv s" "h_have (lens_set i v s) = h_have s + 1"
  "h_lens (lens_set i v s) = (h_lens s)[i := v]"
  by (simp_all add: lens_set_def rem_def rinv_def)

lemma set_regs_inj: "set_regs r s = set_regs r' s \<longleftrightarrow> r = r'"
  by (cases s; cases r; cases r') (auto simp: set_regs_def)

context code_table
begin

lemma cl_entry:
  assumes "type = CODES"
  obtains e where "tab (x mod 2 ^ nb) = Some e" "unat (c_bits e) \<le> 7" "unat (c_val e) \<le> 18"
proof -
  obtain e where e: "tab (x mod 2 ^ nb) = Some e" by (rule root_entry)
  have fl: "nb \<le> 7" "\<not> is_link e" using code_flat [OF assms] e by (auto dest!: spec [of _ "x mod 2 ^ nb"])
  moreover have "unat (c_bits e) \<le> nb" using root_bits_le [OF _ e] by simp
  moreover have "entry_of CODES e" using root_kind [OF _ e] fl(2) assms by auto
  then have "unat (c_val e) \<le> 18"
    by (auto simp: entry_of_def table_entry_def max_syms_def unsigned_of_nat take_bit_nat_eq_self)
  ultimately show thesis using that [OF e] fl(1) by simp
qed

text \<open>A code length symbol is determined by its own bits.\<close>

lemma cl_sym_prefix:
  assumes "snd (cl_sym tab nb (bs @ ext)) \<le> length bs"
  shows "cl_sym tab nb bs = cl_sym tab nb (bs @ ext)"
proof -
  obtain e where e: "tab (val_of (bs @ ext) mod 2 ^ nb) = Some e" by (rule root_entry)
  have le: "unat (c_bits e) + cl_extra (unat (c_val e)) \<le> length bs" using assms e by (simp add: cl_sym_def Let_def)
  then have "(2::nat) ^ unat (c_bits e) dvd 2 ^ length bs" by (intro le_imp_power_dvd) simp
  then have "val_of bs mod 2 ^ unat (c_bits e) = val_of (bs @ ext) mod 2 ^ unat (c_bits e)"
    by (simp add: val_of_append mod_add_eq [symmetric] dvd_imp_mod_0)
  from first_prefix [OF e this] show ?thesis using e le by (simp add: cl_sym_def Let_def)
qed

end

section \<open>What the loops need of DROPBITS\<close>

lemma fetch_drop:
  "(case fetch look m nx h b of Fetched l e r \<Rightarrow> \<exists>j. fst r = drop j nx | Fetch_short r \<Rightarrow> \<exists>j. fst r = drop j nx | Fetch_undef \<Rightarrow> True)"
proof (induction nx arbitrary: h b)
  case Nil
  then show ?case by (subst fetch.simps) (auto split: option.splits)
next
  case (Cons x nx)
  have sub: "\<exists>j. drop i nx = drop j (x # nx)" for i by (rule exI [of _ "Suc i"]) simp
  show ?case using Cons.IH [of "h + push_bit b (ucast x)" "b + 8"]
    by (subst fetch.simps) (auto split: option.splits fetched.splits intro: exI [of _ 0] sub)
qed

text \<open>
  \<open>room k s\<close>: another \<open>k\<close> bits may be dropped.  \<open>taken s\<close> is what the macro keeps of the bits dropped,
  \<open>jot h bs\<close> how it grows.  \<open>rest s\<close> is the part of the state that the loops leave alone.
\<close>

locale dropping =
  fixes dropbits :: "nat \<Rightarrow> 'z huff_scheme \<Rightarrow> 'z huff_scheme"
    and room :: "nat \<Rightarrow> 'z huff_scheme \<Rightarrow> bool"
    and taken :: "'z huff_scheme \<Rightarrow> 'h"
    and jot :: "'h \<Rightarrow> bool list \<Rightarrow> 'h"
    and rest :: "'z huff_scheme \<Rightarrow> 'r"
  assumes drop_regs: "r_next (dropbits n s) = r_next s" "r_hold (dropbits n s) = drop_bit n (r_hold s)"
      "r_bits (dropbits n s) = r_bits s - n"
    and drop_lens: "h_lens (dropbits n s) = h_lens s" "h_have (dropbits n s) = h_have s"
    and drop_rest: "rest (dropbits n s) = rest s"
    and drop_taken: "rinv s \<Longrightarrow> room (n + k) s \<Longrightarrow> n \<le> 16 \<Longrightarrow> n \<le> r_bits s \<Longrightarrow>
      taken (dropbits n s) = jot (taken s) (take n (rem s)) \<and> room k (dropbits n s)"
    and room_mono: "room n s \<Longrightarrow> m \<le> n \<Longrightarrow> room m s"
    and jot_append: "jot (jot h bs) cs = jot h (bs @ cs)"
    and jot_Nil: "jot h [] = h"
    and rest_huff: "rest s = rest t \<Longrightarrow> h_nlen s = h_nlen t \<and> h_ndist s = h_ndist t \<and> h_codes s = h_codes t \<and>
      h_lencode s = h_lencode t \<and> h_lenbits s = h_lenbits t \<and> h_work s = h_work t"
    and same_regs: "rest (set_regs r s) = rest s" "taken (set_regs r s) = taken s" "room k (set_regs r s) = room k s"
    and same_lens: "rest (lens_set i v s) = rest s" "taken (lens_set i v s) = taken s" "room k (lens_set i v s) = room k s"
begin

text \<open>\<open>t\<close> is \<open>s\<close> after \<open>c\<close> bits with room for \<open>k\<close> more.\<close>

definition past :: "nat \<Rightarrow> nat \<Rightarrow> 'z huff_scheme \<Rightarrow> 'z huff_scheme \<Rightarrow> bool" where
  "past c k s t \<longleftrightarrow> rem t = drop c (rem s) \<and> c \<le> length (rem s) \<and> rinv t \<and> rest t = rest s \<and> room k t \<and>
    taken t = jot (taken s) (take c (rem s)) \<and> (\<exists>j. r_next t = drop j (r_next s))"

lemma past_refl: "rinv s \<Longrightarrow> room k s \<Longrightarrow> past 0 k s s"
  by (auto simp: past_def jot_Nil intro: exI [of _ 0])

lemma past_trans:
  assumes "past c k s t" and "past d m t u" shows "past (c + d) m s u"
proof -
  have a: "rem t = drop c (rem s)" "c \<le> length (rem s)" "rest t = rest s" "taken t = jot (taken s) (take c (rem s))"
    using assms(1) by (auto simp: past_def)
  have "take (c + d) (rem s) = take c (rem s) @ take d (rem t)" using a(1) by (simp add: take_add)
  moreover obtain i where "r_next t = drop i (r_next s)" using assms(1) by (auto simp: past_def)
  moreover obtain j where "r_next u = drop j (r_next t)" using assms(2) by (auto simp: past_def)
  ultimately show ?thesis using assms(2) a by (auto simp: past_def jot_append add.commute drop_drop)
qed

lemma past_mono: "past c k s t \<Longrightarrow> m \<le> k \<Longrightarrow> past c m s t"
  by (auto simp: past_def intro: room_mono)

lemma past_lens_set [simp]: "past c k s (lens_set i v t) = past c k s t"
  by (simp add: past_def same_lens)

lemma past_drop:
  assumes "rinv s" and "room (n + k) s" and "n \<le> 16" and "n \<le> r_bits s"
  shows "past n k s (dropbits n s)"
proof -
  have e: "rem (dropbits n s) = rem (drop_bits n s)" "rinv (dropbits n s) = rinv (drop_bits n s)"
    by (simp_all add: rem_def rinv_def drop_regs drop_bits_def)
  show ?thesis
    using drop_taken [OF assms] drop_bits_rem [OF assms(4)] drop_bits_inv [OF assms(1,4)] assms(4)
    by (auto simp: past_def e drop_rest length_rem drop_regs intro: exI [of _ 0])
qed

lemma past_huff:
  assumes "past c k s t"
  shows "h_nlen t = h_nlen s" "h_ndist t = h_ndist s" "h_codes t = h_codes s" "h_lencode t = h_lencode s"
    "h_lenbits t = h_lenbits s" "h_work t = h_work s"
  using rest_huff [of t s] assms by (auto simp: past_def)

text \<open>\<^verbatim>\<open>NEEDBITS\<close> leaves everything but the registers alone.\<close>

lemma need_cases:
  assumes "rinv s" and "room k s" and "n \<le> 48"
  obtains (got) r where "NEEDBITS n s = Got (set_regs r s)" "n \<le> length (rem s)" "n \<le> snd (snd r)"
      "past 0 k s (set_regs r s)" "snd (snd r) = r_bits s \<or> snd (snd r) < n + 8"
    | (short) r where "NEEDBITS n s = Short (set_regs r s)" "length (rem s) < n" "fst r = []" "past 0 k s (set_regs r s)"
proof -
  define r where "r = pull_bits n (r_next s) (r_hold s) (r_bits s)"
  have n: "NEEDBITS n s = (if snd (snd r) < n then Short (set_regs r s) else Got (set_regs r s))"
    by (simp add: NEEDBITS_def r_def)
  have sp: "hold_ok (fst (snd r)) (snd (snd r))" "bits_of (snd (snd r)) (fst (snd r)) @ bytes_bits (fst r) = rem s"
    "snd (snd r) < n \<Longrightarrow> fst r = []" "snd (snd r) = r_bits s \<or> snd (snd r) < n + 8"
    using pull_bits_spec [OF assms(1) [unfolded rinv_def] assms(3), of "r_next s" "fst r" "fst (snd r)" "snd (snd r)"]
    by (auto simp: r_def rem_def)
  have p: "past 0 k s (set_regs r s)"
    using sp(1,2) assms(2) pull_drop [of n "r_next s" "r_hold s" "r_bits s", folded r_def]
    by (simp add: past_def same_regs jot_Nil rinv_def rem_def [of "set_regs r s"])
  have l: "length (rem s) = snd (snd r) + 8 * length (fst r)" using arg_cong [OF sp(2), of length] by simp
  show thesis
  proof (cases "snd (snd r) < n")
    case True
    then show thesis using short [of r] n p sp(3) l by auto
  next
    case False
    then show thesis using got [of r] n p sp(4) l by auto
  qed
qed


lemma lens_fill_all:
  assumes "h_have s + n \<le> length (h_lens s)"
  shows "h_have (lens_fill n v s) = h_have s + n \<and>
    take (h_have s + n) (h_lens (lens_fill n v s)) = take (h_have s) (h_lens s) @ replicate n v \<and>
    length (h_lens (lens_fill n v s)) = length (h_lens s) \<and> past c k u (lens_fill n v s) = past c k u s \<and>
    r_bits (lens_fill n v s) = r_bits s"
  using assms
proof (induction n arbitrary: s)
  case (Suc n)
  let ?s = "lens_set (h_have s) v s"
  have l: "h_have ?s + n \<le> length (h_lens ?s)" using Suc.prems by simp
  have t: "take (Suc (h_have s)) ((h_lens s)[h_have s := v]) = take (h_have s) (h_lens s) @ [v]"
    using Suc.prems by (intro take_list_update_Suc) simp
  show ?case using Suc.IH [OF l] t by simp
qed simp

lemmas lens_fill_spec = lens_fill_all [THEN conjunct1] lens_fill_all [THEN conjunct2, THEN conjunct1]
  lens_fill_all [THEN conjunct2, THEN conjunct2]

text \<open>The result of reading one code length symbol.\<close>

definition cl_outcome :: "nat \<Rightarrow> 'z huff_scheme \<Rightarrow> (nat \<times> nat) \<times> nat \<Rightarrow> 'z huff_scheme cl_result \<Rightarrow> bool" where
  "cl_outcome k s cs res \<longleftrightarrow>
    (case cl_next (h_nlen s + h_ndist s) (fst cs) (take (h_have s) (h_lens s)) of
       Some acc \<Rightarrow> \<exists>t. res = CL_more t \<and> past (snd cs) k s t \<and> r_bits t < 8 \<and> h_have t = length acc \<and> h_have s < h_have t \<and>
         take (h_have t) (h_lens t) = acc \<and> length (h_lens t) = length (h_lens s)
     | None \<Rightarrow> \<exists>t c. res = CL_bad t \<and> past c k s t \<and> length (h_lens t) = length (h_lens s))"

lemma codelens_repeat_outcome:
  assumes p: "past (snd cs) k s t" and l: "h_lens t = h_lens s" "h_have t = h_have s" and r: "r_bits t < 8"
    and h: "h_have s \<le> h_nlen s + h_ndist s" "h_nlen s + h_ndist s \<le> length (h_lens s)" and n: "0 < n"
    and x: "expand [fst cs] (take (h_have s) (h_lens s)) = Some (take (h_have s) (h_lens s) @ replicate n v)"
  shows "cl_outcome k s cs (codelens_repeat v n t)"
proof -
  have huff: "h_nlen t = h_nlen s" "h_ndist t = h_ndist s" using past_huff [OF p] by simp_all
  have ml: "min (length (h_lens s)) (h_have s) = h_have s" using h by simp
  show ?thesis
  proof (cases "h_have s + n > h_nlen s + h_ndist s")
    case True
    then have "codelens_repeat v n t = CL_bad t" using l huff by (simp add: codelens_repeat_def)
    then show ?thesis using True p x l ml by (auto simp: cl_outcome_def cl_next_def)
  next
    case False
    then have le: "h_have t + n \<le> length (h_lens t)" using h l by simp
    have "codelens_repeat v n t = CL_more (lens_fill n v t)" using False l huff h by (simp add: codelens_repeat_def)
    then show ?thesis using False p x l ml lens_fill_spec [OF le] r n by (auto simp: cl_outcome_def cl_next_def)
  qed
qed


lemma fetch_code_past:
  assumes "rinv s" and "room k s" and "code_table (code_at s p) nb ty"
  obtains e r where "code_at s p (val_of (rem s) mod 2 ^ nb) = Some e" "past 0 k s (set_regs r s)"
    "if unat (c_bits e) \<le> length (rem s)
     then fetch_code p nb s = Fetched None e (set_regs r s) \<and> unat (c_bits e) \<le> snd (snd r) \<and>
       (snd (snd r) = r_bits s \<or> snd (snd r) < unat (c_bits e) + 8)
     else fetch_code p nb s = Fetch_short (set_regs r s) \<and> fst r = []"
proof -
  have st: "symbol_table is_link (code_at s p) nb" using assms(3) by (simp add: code_table_def)
  from symbol_table.fetch_code_spec [OF st assms(1) refl] obtain e r
    where e: "code_at s p (val_of (rem s) mod 2 ^ nb) = Some e" "rinv (set_regs r s)" "rem (set_regs r s) = rem s"
      "if unat (c_bits e) \<le> length (rem s)
       then fetch_code p nb s = Fetched None e (set_regs r s) \<and> unat (c_bits e) \<le> snd (snd r) \<and>
         (snd (snd r) = r_bits s \<or> snd (snd r) < unat (c_bits e) + 8)
       else fetch_code p nb s = Fetch_short (set_regs r s) \<and> fst r = []" by blast
  have "\<exists>j. fst r = drop j (r_next s)"
    using e(4) fetch_drop [where look = "\<lambda>hold. code_at s p (low_bits nb hold)" and m = 0 and nx = "r_next s" and h = "r_hold s" and b = "r_bits s"]
    by (auto simp: fetch_code_def set_regs_inj split: if_splits fetched.splits)
  then have "past 0 k s (set_regs r s)" using e(2,3) assms(2) by (simp add: past_def same_regs jot_Nil)
  with e show thesis using that by blast
qed

text \<open>The part of a step after a repeat code was found: its extra bits.\<close>

lemma repeat_bits:
  assumes s: "rinv s" "room (b + x + k) s" and b: "b \<le> 7" "x \<le> 7" "r_bits s < 8 + (b + x)" and e: "x = cl_extra v" and w: "b \<le> length (rem s)"
  obtains (got) r where "NEEDBITS (b + x) s = Got (set_regs r s)" "b + x \<le> length (rem s)"
      "past b (x + k) s (dropbits b (set_regs r s))"
      "BITS x (dropbits b (set_regs r s)) = val_of (take x (drop b (rem s)))"
      "past (b + x) k s (dropbits x (dropbits b (set_regs r s)))" "r_bits (dropbits x (dropbits b (set_regs r s))) < 8"
    | (short) r where "NEEDBITS (b + x) s = Short (set_regs r s)" "length (rem s) < b + x" "fst r = []" "past 0 (b + x + k) s (set_regs r s)"
proof -
  have n: "b + x \<le> 48" using b by simp
  show thesis
  proof (cases rule: need_cases [OF s n, case_names got short])
    case (got r)
    let ?s = "set_regs r s"
    have p: "rinv ?s" "room (b + (x + k)) ?s" "rem ?s = rem s" using got(4) by (auto simp: past_def ac_simps)
    have p1: "past b (x + k) ?s (dropbits b ?s)" using p b got(3) by (intro past_drop) auto
    have q: "rinv (dropbits b ?s)" "room (x + k) (dropbits b ?s)" "rem (dropbits b ?s) = drop b (rem s)"
      using p1 p by (auto simp: past_def)
    have bt: "x \<le> r_bits (dropbits b ?s)" using got(3) by (simp add: drop_regs)
    have p2: "past x k (dropbits b ?s) (dropbits x (dropbits b ?s))" using q bt b by (intro past_drop) auto
    have "BITS x (dropbits b ?s) = val_of (take x (drop b (rem s)))" using BITS_rem [OF bt] b q(3) by simp
    moreover have "r_bits (dropbits x (dropbits b ?s)) < 8" using got(5) b by (auto simp: drop_regs)
    moreover have p01: "past b (x + k) s (dropbits b ?s)" using past_trans [OF got(4) p1] by simp
    moreover have "past (b + x) k s (dropbits x (dropbits b ?s))" using past_trans [OF p01 p2] .
    ultimately show thesis using that(1) [of r] got by blast
  next
    case (short r)
    then show thesis using that(2) [of r] by blast
  qed
qed


abbreviation (input) "cl_of s \<equiv> cl_sym (code_at s (h_lencode s)) (h_lenbits s)"

lemma codelens_step_spec:
  assumes "rinv s" and "code_table (code_at s (h_lencode s)) (h_lenbits s) CODES" and "cs = cl_of s (rem s)" and "room (snd cs + k) s"
    and h: "h_have s < h_nlen s + h_ndist s" "h_nlen s + h_ndist s \<le> length (h_lens s)" and b: "r_bits s < 8 + snd cs"
  shows "if snd cs \<le> length (rem s) then cl_outcome k s cs (codelens_step dropbits s)
    else \<exists>t. codelens_step dropbits s = CL_short t \<and> past 0 (snd cs + k) s t \<and> r_next t = [] \<and> h_lens t = h_lens s \<and> h_have t = h_have s"
proof -
  obtain e r where e: "code_at s (h_lencode s) (val_of (rem s) mod 2 ^ h_lenbits s) = Some e" "past 0 (snd cs + k) s (set_regs r s)"
    and f: "if unat (c_bits e) \<le> length (rem s)
     then fetch_code (h_lencode s) (h_lenbits s) s = Fetched None e (set_regs r s) \<and> unat (c_bits e) \<le> snd (snd r) \<and>
       (snd (snd r) = r_bits s \<or> snd (snd r) < unat (c_bits e) + 8)
     else fetch_code (h_lencode s) (h_lenbits s) s = Fetch_short (set_regs r s) \<and> fst r = []"
    by (rule fetch_code_past [OF assms(1,4,2)])
  let ?b = "unat (c_bits e)" and ?v = "unat (c_val e)" and ?s = "set_regs r s"
  define x where "x = cl_extra ?v"
  have le: "?b \<le> 7" "?v \<le> 18" using code_table.cl_entry [OF assms(2) refl, of "val_of (rem s)"] e(1) by auto
  have x7: "x \<le> 7" by (simp add: x_def cl_extra_le)
  have cs: "cs = ((?v, val_of (take x (drop ?b (rem s)))), ?b + x)" using assms(3) e(1) by (simp add: cl_sym_def Let_def x_def)
  have ps: "rinv ?s" "room (?b + x + k) ?s" "rem ?s = rem s" using e(2) by (auto simp: past_def cs)
  have hs: "h_lens ?s = h_lens s" "h_have ?s = h_have s" by (simp_all add: set_regs_def)
  show ?thesis
  proof (cases "?b \<le> length (rem s)")
    case False
    then have "codelens_step dropbits s = CL_short ?s" using f by (simp add: codelens_step_def)
    then show ?thesis using False f e(2) hs cs by auto
  next
    case True
    then have fc: "fetch_code (h_lencode s) (h_lenbits s) s = Fetched None e ?s" and rb: "?b \<le> r_bits ?s" "r_bits ?s < 8 + (?b + x)"
      using f b cs by auto
    show ?thesis
    proof (cases "?v < 16")
      case lit: True
      then have x0: "x = 0" by (simp add: x_def cl_extra_def)
      let ?t = "dropbits ?b ?s"
      have p: "past ?b k s ?t" using past_trans [OF e(2) past_drop [OF ps(1), of ?b k]] ps(2) x0 le rb by simp
      have "codelens_step dropbits s = CL_more (lens_set (h_have s) ?v ?t)"
        using lit fc h by (simp add: codelens_step_def Let_def hs drop_lens)
      moreover have "cl_outcome k s cs (CL_more (lens_set (h_have s) ?v ?t))"
        using lit p x0 h rb by (simp add: cl_outcome_def cl_next_def cs drop_regs drop_lens hs take_list_update_Suc)
      ultimately show ?thesis using True x0 cs by simp
    next
      case rep: False
      define n where "n = (if ?v = 18 then 11 else 3) + val_of (take x (drop ?b (rem s)))"
      define v where "v = (if ?v = 16 then h_lens s ! (h_have s - 1) else 0)"
      define u where "u = (\<lambda>t. if ?v = 16 \<and> h_have s = 0 then CL_bad (dropbits ?b t)
        else codelens_repeat v n (dropbits x (dropbits ?b t)))"
      have w: "?b \<le> length (rem ?s)" using True ps(3) by simp
      show ?thesis
      proof (cases rule: repeat_bits [OF ps(1,2) le(1) x7 rb(2) x_def w, case_names got short])
        case (got r')
        let ?t = "set_regs r' ?s"
        have fs: "h_lens (dropbits x (dropbits ?b ?t)) = h_lens s" "h_have (dropbits x (dropbits ?b ?t)) = h_have s"
          "h_lens (dropbits ?b ?t) = h_lens s" "h_have (dropbits ?b ?t) = h_have s"
          by (simp_all add: drop_lens set_regs_def)
        have c3: "?v = 16 \<and> x = 2 \<or> ?v = 17 \<and> x = 3 \<or> ?v = 18 \<and> x = 7" using rep le(2) by (auto simp: x_def cl_extra_def)
        then have run: "codelens_step dropbits s = u ?t"
          using got(1,4) fc fs ps(3) by (auto simp: codelens_step_def Let_def u_def n_def v_def)
        have p1: "past ?b (x + k) s (dropbits ?b ?t)" and p2: "past (snd cs) k s (dropbits x (dropbits ?b ?t))"
          using past_trans [OF e(2) got(3)] past_trans [OF e(2) got(5)] by (simp_all add: cs)
        have "cl_outcome k s cs (u ?t)"
        proof (cases "?v = 16 \<and> h_have s = 0")
          case True
          then show ?thesis using past_mono [OF p1, of k] fs by (auto simp: cl_outcome_def cl_next_def cs u_def)
        next
          case False
          have "expand [fst cs] (take (h_have s) (h_lens s)) = Some (take (h_have s) (h_lens s) @ replicate n v)"
            using c3 False h by (auto simp: cs n_def v_def last_conv_nth nth_append)
          moreover have "0 < n" by (simp add: n_def)
          ultimately show ?thesis using codelens_repeat_outcome [OF p2 fs(1,2) got(6)] h False unfolding u_def by auto
        qed
        then show ?thesis using run got(2) ps(3) cs by simp
      next
        case (short r')
        have "codelens_step dropbits s = CL_short (set_regs r' ?s)"
          using short(1) fc rep le(2) by (auto simp: codelens_step_def Let_def x_def cl_extra_def)
        moreover have "past 0 (snd cs + k) s (set_regs r' ?s)" using past_trans [OF e(2) short(4)] by (simp add: cs)
        ultimately show ?thesis using short(2,3) ps(3) cs by (auto simp: set_regs_def)
      qed
    qed
  qed
qed


text \<open>Each length costs at most seven bits.\<close>

lemma cl_cost:
  assumes "code_table tab nb CODES" and "cl_next mx (fst (cl_sym tab nb bs)) acc = Some acc'"
  shows "snd (cl_sym tab nb bs) \<le> 7 * (length acc' - length acc)" "length acc < length acc'" "length acc' \<le> mx"
proof -
  obtain e where e: "tab (val_of bs mod 2 ^ nb) = Some e" "unat (c_bits e) \<le> 7" "unat (c_val e) \<le> 18"
    by (rule code_table.cl_entry [OF assms(1) refl])
  show "snd (cl_sym tab nb bs) \<le> 7 * (length acc' - length acc)" "length acc < length acc'" "length acc' \<le> mx"
    using assms(2) e by (auto simp: cl_sym_def Let_def cl_next_def cl_extra_def split: if_splits)
qed

lemma cl_cost_max: "code_table tab nb CODES \<Longrightarrow> snd (cl_sym tab nb bs) \<le> 14"
proof -
  assume t: "code_table tab nb CODES"
  obtain e where e: "tab (val_of bs mod 2 ^ nb) = Some e" "unat (c_bits e) \<le> 7" "unat (c_val e) \<le> 18"
    by (rule code_table.cl_entry [OF t refl])
  then show ?thesis by (auto simp: cl_sym_def Let_def cl_extra_def)
qed

lemma code_at_past: "past c k s t \<Longrightarrow> code_at t p = code_at s p"
  using past_huff(3) [of c k s t] by (simp add: code_at_def fun_eq_iff split: code_ptr.splits)

lemma cl_of_past: "past c k s t \<Longrightarrow> cl_of t = cl_of s"
  using past_huff(4,5) [of c k s t] code_at_past [of c k s t] by simp

definition cl_stop :: "nat \<Rightarrow> 'z huff_scheme \<Rightarrow> 'z huff_scheme cl_result \<Rightarrow> bool" where
  "cl_stop k s res \<longleftrightarrow>
    (let mx = h_nlen s + h_ndist s; reads = cl_reads (code_at s (h_lencode s)) (h_lenbits s) mx (rem s) (take (h_have s) (h_lens s)) in
     case res of
       CL_more t \<Rightarrow> (\<exists>c. past c (14 + k) s t) \<and> r_bits t < 8 \<and> h_have t = mx \<and> length (h_lens t) = length (h_lens s) \<and>
         reads (rem t) (take mx (h_lens t))
     | CL_short t \<Rightarrow> (\<exists>c. past c (7 * (mx - h_have t) + 14 + k) s t) \<and> r_next t = [] \<and> h_have t < mx \<and>
         length (h_lens t) = length (h_lens s) \<and> length (rem t) < snd (cl_of t (rem t)) \<and> reads (rem t) (take (h_have t) (h_lens t))
     | CL_bad t \<Rightarrow> (\<exists>c. past c k s t) \<and> length (h_lens t) = length (h_lens s) \<and>
         (\<exists>bs acc. reads bs acc \<and> length acc < mx \<and> snd (cl_of s bs) \<le> length bs \<and> cl_next mx (fst (cl_of s bs)) acc = None)
     | CL_undef \<Rightarrow> False)"

lemma codelens_loop_spec:
  assumes "rinv s" and "code_table (code_at s (h_lencode s)) (h_lenbits s) CODES"
    and "h_have s \<le> h_nlen s + h_ndist s" "h_nlen s + h_ndist s \<le> length (h_lens s)"
    and "room (7 * (h_nlen s + h_ndist s - h_have s) + 14 + k) s" and "h_nlen s + h_ndist s - h_have s \<le> fuel"
    and "r_bits s < 8 \<or> h_have s < h_nlen s + h_ndist s \<and> r_bits s < 8 + snd (cl_of s (rem s))"
  shows "cl_stop k s (codelens_loop dropbits fuel s)"
  using assms
proof (induction fuel arbitrary: s)
  case 0
  then have "codelens_loop dropbits 0 s = CL_more s" by (simp add: codelens_loop.simps)
  moreover have "past 0 (14 + k) s s" using past_refl [OF "0.prems"(1), of "14 + k"] room_mono [OF "0.prems"(5), of "14 + k"] by simp
  ultimately show ?case using "0.prems" by (auto simp: cl_stop_def Let_def intro: cl_done)
next
  case (Suc fuel)
  define mx where "mx = h_nlen s + h_ndist s"
  show ?case
  proof (cases "h_have s < mx")
    case False
    then have "codelens_loop dropbits (Suc fuel) s = CL_more s" by (simp add: codelens_loop.simps mx_def)
    moreover have "past 0 (14 + k) s s"
      using past_refl [OF Suc.prems(1), of "14 + k"] room_mono [OF Suc.prems(5), of "14 + k"] by simp
    ultimately show ?thesis using False Suc.prems by (auto simp: cl_stop_def Let_def mx_def intro: cl_done)
  next
    case True
    let ?cs = "cl_of s (rem s)" and ?acc = "take (h_have s) (h_lens s)"
    let ?reads = "cl_reads (code_at s (h_lencode s)) (h_lenbits s) mx (rem s) ?acc"
    have acc: "length ?acc = h_have s" using True Suc.prems(4) by (simp add: mx_def)
    have "snd ?cs \<le> 14" by (rule cl_cost_max [OF Suc.prems(2)])
    then obtain k' where k': "7 * (mx - h_have s) + 14 + k = snd ?cs + k'" and kk: "k \<le> k'"
      by (intro that [of "7 * (mx - h_have s) + 14 + k - snd ?cs"]) simp_all
    have step: "if snd ?cs \<le> length (rem s) then cl_outcome k' s ?cs (codelens_step dropbits s)
      else \<exists>t. codelens_step dropbits s = CL_short t \<and> past 0 (snd ?cs + k') s t \<and> r_next t = [] \<and> h_lens t = h_lens s \<and> h_have t = h_have s"
      by (rule codelens_step_spec [OF Suc.prems(1,2) refl])
        (use True Suc.prems(4,5,7) k' in \<open>auto simp: mx_def\<close>)
    have run: "codelens_loop dropbits (Suc fuel) s = (case codelens_step dropbits s of CL_more s' \<Rightarrow> codelens_loop dropbits fuel s' | r \<Rightarrow> r)"
      using True by (simp add: codelens_loop.simps mx_def)
    show ?thesis
    proof (cases "snd ?cs \<le> length (rem s)")
      case False
      then obtain t where t: "codelens_step dropbits s = CL_short t" "past 0 (snd ?cs + k') s t" "r_next t = []" "h_lens t = h_lens s" "h_have t = h_have s"
        using step by auto
      have "rem t = rem s" using t(2) by (simp add: past_def)
      then show ?thesis using t True False run k' cl_of_past [OF t(2)]
        by (auto simp: cl_stop_def Let_def mx_def [symmetric] intro: cl_done)
    next
      case enough: True
      show ?thesis
      proof (cases "cl_next mx (fst ?cs) ?acc")
        case None
        then obtain t c where t: "codelens_step dropbits s = CL_bad t" "past c k' s t" "length (h_lens t) = length (h_lens s)"
          using step enough by (auto simp: cl_outcome_def mx_def)
        have "past c k s t" by (rule past_mono [OF t(2) kk])
        then show ?thesis using t(1,3) run None enough True acc
          by (auto simp: cl_stop_def Let_def mx_def [symmetric] intro!: exI [of _ "rem s"] exI [of _ ?acc] cl_done)
      next
        case (Some acc')
        then obtain t where t: "codelens_step dropbits s = CL_more t" "past (snd ?cs) k' s t" "r_bits t < 8" "h_have t = length acc'"
          "take (h_have t) (h_lens t) = acc'" "length (h_lens t) = length (h_lens s)"
          using step enough by (auto simp: cl_outcome_def mx_def)
        note cost = cl_cost [OF Suc.prems(2) Some]
        have huff: "h_nlen t + h_ndist t = mx" "h_lencode t = h_lencode s" "h_lenbits t = h_lenbits s" "code_at t = code_at s"
          using past_huff [OF t(2)] code_at_past [OF t(2)] by (auto simp: mx_def)
        have rt: "rinv t" "room k' t" "rem t = drop (snd ?cs) (rem s)" using t(2) by (auto simp: past_def)
        have rm: "room (7 * (mx - length acc') + 14 + k) t"
          by (rule room_mono [OF rt(2)]) (use k' cost acc True in simp)
        have ih: "cl_stop k t (codelens_loop dropbits fuel t)"
          by (rule Suc.IH) (use rt rm t cost acc huff Suc.prems(2,4,6) in \<open>auto simp: mx_def\<close>)
        have reads: "?reads bs' acc''" if "cl_reads (code_at s (h_lencode s)) (h_lenbits s) mx (rem t) acc' bs' acc''" for bs' acc''
          by (rule cl_read [of ?acc _ _ _ _ "fst ?cs" "snd ?cs" acc']) (use that rt(3) enough Some True acc in simp_all)
        have pt: "\<exists>c. past c m s u" if "\<exists>c. past c m t u" for m u using that past_trans [OF t(2)] by blast
        have "cl_stop k s (codelens_loop dropbits fuel t)"
          using ih reads pt t(5,6) huff cl_of_past [OF t(2)]
          by (auto simp: cl_stop_def Let_def mx_def [symmetric] split: cl_result.splits)
        then show ?thesis using run t(1) by simp
      qed
    qed
  qed
qed


section \<open>Case LENLENS\<close>

lemma lenlens_loop_spec:
  assumes "rinv s" and "room (3 * k + m) s" and "h_have s + k \<le> 19" "19 \<le> length (h_lens s)" and "r_bits s < 8"
  shows "if 3 * k \<le> length (rem s)
    then \<exists>t. lenlens_loop dropbits k s = Got t \<and> past (3 * k) m s t \<and> r_bits t < 8 \<and> h_have t = h_have s + k \<and>
      length (h_lens t) = length (h_lens s) \<and> ordered (h_have t) (h_lens t) = ordered (h_have s) (h_lens s) @ fields3 k (rem s)
    else \<exists>t j. lenlens_loop dropbits k s = Short t \<and> past (3 * j) (3 * (k - j) + m) s t \<and> j < k \<and> r_next t = [] \<and> length (rem t) < 3 \<and>
      h_have t = h_have s + j \<and> length (h_lens t) = length (h_lens s) \<and>
      ordered (h_have t) (h_lens t) = ordered (h_have s) (h_lens s) @ fields3 j (rem s)"
  using assms
proof (induction k arbitrary: s)
  case 0
  then show ?case using past_refl by auto
next
  case (Suc k)
  have rm: "room (3 + (3 * k + m)) s" using Suc.prems(2) by (simp add: add.assoc)
  have n3: "(3::nat) \<le> 48" by simp
  show ?case
  proof (cases rule: need_cases [OF Suc.prems(1) rm n3, case_names got short])
    case (short r)
    then have "lenlens_loop dropbits (Suc k) s = Short (set_regs r s)" by simp
    then show ?thesis using short
      by (auto intro!: exI [of _ 0] simp: past_def set_regs_def add.assoc)
  next
    case (got r)
    let ?s = "set_regs r s"
    define u where "u = dropbits 3 (lens_set (bl_order ! h_have s) (BITS 3 ?s) ?s)"
    have h: "h_have ?s = h_have s" "h_lens ?s = h_lens s" by (simp_all add: set_regs_def)
    have v: "BITS 3 ?s = val_of (take 3 (rem s))" using BITS_rem [of 3 ?s] got(3,4) by (simp add: past_def)
    have p0: "past 0 (3 + (3 * k + m)) s (lens_set (bl_order ! h_have s) (BITS 3 ?s) ?s)" using got(4) by simp
    then have p: "past 3 (3 * k + m) s u"
      unfolding u_def using past_trans [OF p0 past_drop [of "lens_set (bl_order ! h_have s) (BITS 3 ?s) ?s" 3 "3 * k + m"]] got(3)
      by (auto simp: past_def)
    have o: "ordered (h_have u) (h_lens u) = ordered (h_have s) (h_lens s) @ [val_of (take 3 (rem s))]"
      "h_have u = h_have s + 1" "length (h_lens u) = length (h_lens s)"
      using ordered_update [of "h_have s" "h_lens s"] Suc.prems(3,4) v by (simp_all add: u_def drop_lens h)
    have ru: "rinv u" "room (3 * k + m) u" "r_bits u < 8" "rem u = drop 3 (rem s)" "3 \<le> length (rem s)"
      using p got(5) Suc.prems(5) by (auto simp: past_def u_def drop_regs)
    note ih = Suc.IH [OF ru(1,2) _ _ ru(3)]
    have run: "lenlens_loop dropbits (Suc k) s = lenlens_loop dropbits k u" using got(1) h by (simp add: u_def)
    have ih': "if 3 * k \<le> length (rem u)
      then \<exists>t. lenlens_loop dropbits k u = Got t \<and> past (3 * k) m u t \<and> r_bits t < 8 \<and> h_have t = h_have u + k \<and>
        length (h_lens t) = length (h_lens u) \<and> ordered (h_have t) (h_lens t) = ordered (h_have u) (h_lens u) @ fields3 k (rem u)
      else \<exists>t j. lenlens_loop dropbits k u = Short t \<and> past (3 * j) (3 * (k - j) + m) u t \<and> j < k \<and> r_next t = [] \<and> length (rem t) < 3 \<and>
        h_have t = h_have u + j \<and> length (h_lens t) = length (h_lens u) \<and>
        ordered (h_have t) (h_lens t) = ordered (h_have u) (h_lens u) @ fields3 j (rem u)"
      by (rule ih) (use Suc.prems o in simp_all)
    show ?thesis
    proof (cases "3 * k \<le> length (rem u)")
      case True
      then obtain t where t: "lenlens_loop dropbits k u = Got t" "past (3 * k) m u t" "r_bits t < 8" "h_have t = h_have u + k"
        "length (h_lens t) = length (h_lens u)" "ordered (h_have t) (h_lens t) = ordered (h_have u) (h_lens u) @ fields3 k (rem u)"
        using ih' by auto
      have "past (3 + 3 * k) m s t" by (rule past_trans [OF p t(2)])
      then show ?thesis using t True o run ru(4,5) by auto
    next
      case False
      then obtain t j where t: "lenlens_loop dropbits k u = Short t" "past (3 * j) (3 * (k - j) + m) u t" "j < k" "r_next t = []"
        "length (rem t) < 3" "h_have t = h_have u + j" "length (h_lens t) = length (h_lens u)"
        "ordered (h_have t) (h_lens t) = ordered (h_have u) (h_lens u) @ fields3 j (rem u)"
        using ih' by auto
      have "past (3 + 3 * j) (3 * (k - j) + m) s t" by (rule past_trans [OF p t(2)])
      then show ?thesis using t False o run ru(4,5) by (auto intro!: exI [of _ "Suc j"])
    qed
  qed
qed

lemma lenlens_pad_spec:
  assumes "h_have s + k = 19" and "19 \<le> length (h_lens s)"
  shows "past c m u (lenlens_pad k s) = past c m u s \<and> r_bits (lenlens_pad k s) = r_bits s \<and>
    length (h_lens (lenlens_pad k s)) = length (h_lens s) \<and>
    ordered 19 (h_lens (lenlens_pad k s)) = ordered (h_have s) (h_lens s) @ replicate k 0"
  using assms
proof (induction k arbitrary: s)
  case (Suc k)
  let ?s = "lens_set (bl_order ! h_have s) 0 s"
  have "h_have s < 19" using Suc.prems(1) by simp
  from ordered_update [OF this Suc.prems(2), of 0] Suc.IH [of ?s] Suc.prems show ?case by simp
qed simp

end

section \<open>Tables in the state\<close>

definition sizes :: "'z huff_scheme \<Rightarrow> bool" where
  "sizes s \<longleftrightarrow> length (h_lens s) = 320 \<and> length (h_work s) = 288 \<and> length (h_codes s) = ENOUGH"

lemma code_at_codes: "code_at s (Codes k) = (\<lambda>i. nth_opt (h_codes s) (k + i))"
  by (simp add: code_at_def fun_eq_iff)

lemma codes_part:
  "part_of base n tab i = Some e \<Longrightarrow> same_below n tab' tab \<Longrightarrow> nth_opt tab' (base + i) = Some e"
  by (auto simp: part_of_def nth_opt_def same_below_def split: if_splits)

end
