(* ===== verification/Inflate_Header.thy ===== *)
theory Inflate_Header
  imports Inflate_Decode Code_Lengths
begin

text \<open>
  Block headers in \<^verbatim>\<open>j_inflate\<close>.  The recording \<^verbatim>\<open>DROPBITS\<close> is a \<open>dropping\<close>: while a block header is read,
  the bits dropped are exactly the bits appended to the recorder.  The cases TABLE, LENLENS and CODELENS
  then read the counts and code lengths of a dynamic block, and the tables they build are usable.
\<close>

section \<open>The recording DROPBITS\<close>

definition hdr_room :: "nat \<Rightarrow> 'z recorder_scheme \<Rightarrow> bool" where
  "hdr_room k s \<longleftrightarrow> header_flag s = 1 \<and> hinv s \<and> hroom k s \<and> length (header_buf s) = 605"

definition hdr_rest :: "'z recorder_scheme \<Rightarrow> 'z recorder_scheme" where
  "hdr_rest s = s\<lparr>r_next := [], r_hold := 0, r_bits := 0, h_have := 0, h_lens := [], header_buf := [], header_have := 0,
     my_bi_buf := 0, my_bi_valid := 0, HEADER_BITS_CNT := 0, header_oob := False\<rparr>"

lemma hdr_rest_same: "same_rest s t \<Longrightarrow> hdr_rest s = hdr_rest t"
  unfolding same_rest_def hdr_rest_def by (cases s; cases t) simp

lemma hdr_rest_drop: "hdr_rest (DROPBITS n s) = hdr_rest s"
proof -
  have "hdr_rest (drop_bits n u) = hdr_rest u" for u :: "'a recorder_scheme" by (simp add: hdr_rest_def drop_bits_def)
  then show ?thesis using hdr_rest_same [OF same_rest_ops(5)] by (simp add: DROPBITS_def)
qed

lemma header_buf_length: "length (header_buf (DROPBITS n s)) = length (header_buf s)"
proof -
  have b: "length (header_buf (my_put_byte c u)) = length (header_buf u)" for c and u :: "'a recorder_scheme"
    by (simp add: my_put_byte_def)
  show ?thesis
    by (simp add: DROPBITS_def drop_bits_def DROP_HEADER_BITS_def my_send_bits_def my_put_short_def Let_def b)
qed

lemma DROPBITS_hold: "r_hold (DROPBITS n s) = drop_bit n (r_hold s)"
  by (simp add: DROPBITS_def drop_bits_def)

interpretation recorded: dropping DROPBITS hdr_room hout "(@)" hdr_rest
proof
  fix s t :: "'a recorder_scheme" and n k m i v r
  show "r_next (DROPBITS n s) = r_next s" "r_hold (DROPBITS n s) = drop_bit n (r_hold s)"
    "r_bits (DROPBITS n s) = r_bits s - n" "h_lens (DROPBITS n s) = h_lens s" "h_have (DROPBITS n s) = h_have s"
    by (simp_all add: DROPBITS_def drop_bits_def)
  show "hdr_rest (DROPBITS n s) = hdr_rest s" by (rule hdr_rest_drop)
  show "hout (DROPBITS n s) = hout s @ take n (rem s) \<and> hdr_room k (DROPBITS n s)"
    if "rinv s" "hdr_room (n + k) s" "n \<le> 16" "n \<le> r_bits s"
  proof -
    have f: "header_flag (DROPBITS n s) = header_flag s" by (simp add: DROPBITS_def drop_bits_def)
    show ?thesis using that DROPBITS_hout [of s n k] header_buf_length [of n s] by (simp add: hdr_room_def f)
  qed
  show "hdr_room n s \<Longrightarrow> m \<le> n \<Longrightarrow> hdr_room m s" by (auto simp: hdr_room_def intro: hsink.room_mono)
  show "hdr_rest (set_regs r s) = hdr_rest s" "hout (set_regs r s) = hout s" "hdr_room k (set_regs r s) = hdr_room k s"
    by (simp_all add: hdr_rest_def hout_def hdr_room_def hinv_def hroom_def as_writer_def set_regs_def)
  show "hdr_rest (lens_set i v s) = hdr_rest s" "hout (lens_set i v s) = hout s" "hdr_room k (lens_set i v s) = hdr_room k s"
    by (simp_all add: hdr_rest_def hout_def hdr_room_def hinv_def hroom_def as_writer_def lens_set_def)
  assume e: "hdr_rest s = hdr_rest t"
  show "h_nlen s = h_nlen t \<and> h_ndist s = h_ndist t \<and> h_codes s = h_codes t \<and>
      h_lencode s = h_lencode t \<and> h_lenbits s = h_lenbits t \<and> h_work s = h_work t"
    using arg_cong [OF e, of h_nlen] arg_cong [OF e, of h_ndist] arg_cong [OF e, of h_codes] arg_cong [OF e, of h_lencode]
      arg_cong [OF e, of h_lenbits] arg_cong [OF e, of h_work] by (simp add: hdr_rest_def)
qed simp_all

end
