(* ===== verification/Inflate_Tables.thy ===== *)
theory Inflate_Tables
  imports Inflate_Header Fixed_Tables Inftrees_Correct
begin

text \<open>
  From code lengths to tables in \<^verbatim>\<open>j_inflate\<close>: the calls of \<open>inflate_table\<close> in the cases LENLENS and CODELENS
  stay within \<open>codes\<close> and, when they report success, leave tables that decode every input.
\<close>

section \<open>Tables in the state\<close>

text \<open>What building tables may change.\<close>

definition built :: "inflate_run \<Rightarrow> inflate_run \<Rightarrow> bool" where
  "built s t \<longleftrightarrow> sizes t \<and> (\<exists>tab nx wk lc lb dc db r. t = s\<lparr>h_codes := tab, h_next := nx, h_work := wk, h_lencode := lc, h_lenbits := lb,
     h_distcode := dc, h_distbits := db, m_ret := r\<rparr>)"

text \<open>The tables of \<open>s\<close> are those that \<open>inflate_table\<close> makes for \<open>n\<close> literal/length and \<open>d\<close> distance code lengths.\<close>

definition tables_of :: "nat list \<Rightarrow> nat \<Rightarrow> nat \<Rightarrow> 'z huff_scheme \<Rightarrow> bool" where
  "tables_of lens n d s \<longleftrightarrow> (\<exists>codes work t u. inflate_table LENS lens n codes 0 9 work = Some t \<and> to_ret t = 0 \<and>
     inflate_table DISTS (drop n lens) d (to_tab t) (to_table t) 6 (to_work t) = Some u \<and> to_ret u = 0 \<and>
     h_codes s = to_tab u \<and> h_lencode s = Codes 0 \<and> h_lenbits s = to_bits t \<and> h_distcode s = Codes (to_table t) \<and> h_distbits s = to_bits u)"

lemma table_built:
  assumes "table_args type lens codes tab base bits work (replicate codes (ct (0, 0)))"
  obtains t where "inflate_table type lens codes tab base bits work = Some t" "length (to_tab t) = length tab"
    "length (to_work t) = length work" "same_below base (to_tab t) tab"
    "to_ret t = 0 \<Longrightarrow> type \<noteq> CODES \<Longrightarrow> to_table t \<le> base + space_of type"
    "to_ret t = 0 \<Longrightarrow> code_table (part_of base (to_table t) (to_tab t)) (to_bits t) type"
  using core_built [OF assms] by (metis inflate_table_def)

lemma inflate_codes_spec:
  assumes z: "sizes s" and n: "257 \<le> h_nlen s" "h_nlen s \<le> 286" "1 \<le> h_ndist s" "h_ndist s \<le> 30"
    and le: "list_all (\<lambda>l. l \<le> 15) (take (h_nlen s + h_ndist s) (h_lens s))"
  obtains (ok) t where "inflate_codes flush s = (if flush = Z_TREES then Leave (t\<lparr>i_mode := SEND_HEADER\<rparr>) else Next (t\<lparr>i_mode := SEND_HEADER\<rparr>))"
      "built s t" "tables_ok t" "tables_of (h_lens s) (h_nlen s) (h_ndist s) t" "m_ret t = 0"
    | (bad) t msg where "inflate_codes flush s = bad msg t" "built s t"
proof -
  let ?ls = "h_lens s" and ?n = "h_nlen s" and ?d = "h_ndist s"
  have lens: "length ?ls = 320" "length (h_work s) = 288" "length (h_codes s) = ENOUGH" using z by (simp_all add: sizes_def)
  have le': "\<forall>l \<in> set (take ?n ?ls). l \<le> 15" "\<forall>l \<in> set (take ?d (drop ?n ?ls)). l \<le> 15"
    using le by (simp_all add: take_add list_all_iff)
  have a1: "table_args LENS ?ls ?n (h_codes s) 0 9 (h_work s) (replicate ?n (ct (0, 0)))"
    using n le'(1) lens by (simp add: table_args_def max_syms_def space_of_def list_all_iff)
  obtain t where t: "inflate_table LENS ?ls ?n (h_codes s) 0 9 (h_work s) = Some t" "length (to_tab t) = ENOUGH"
    "length (to_work t) = 288" "to_ret t = 0 \<Longrightarrow> to_table t \<le> ENOUGH_LENS"
    "to_ret t = 0 \<Longrightarrow> code_table (part_of 0 (to_table t) (to_tab t)) (to_bits t) LENS"
    using table_built [OF a1] lens by (auto simp: space_of_def)
  define s1 where "s1 = (table_result t (s\<lparr>h_next := 0, h_lencode := Codes 0, h_lenbits := 9\<rparr>))\<lparr>h_lenbits := to_bits t\<rparr>"
  have b1: "built s s1" unfolding built_def
  proof (intro conjI exI)
    show "sizes s1" using t lens by (simp add: s1_def table_result_def sizes_def)
    show "s1 = s\<lparr>h_codes := to_tab t, h_next := to_table t, h_work := to_work t, h_lencode := Codes 0, h_lenbits := to_bits t,
        h_distcode := h_distcode s, h_distbits := h_distbits s, m_ret := to_ret t\<rparr>" by (simp add: s1_def table_result_def)
  qed
  show thesis
  proof (cases "to_ret t = 0")
    case False
    then have "inflate_codes flush s = Inflate.bad ''invalid literal/lengths set'' s1"
      using t(1) by (simp add: inflate_codes_def Let_def s1_def)
    then show thesis using bad b1 by blast
  next
    case True
    have a2: "table_args DISTS (drop ?n ?ls) ?d (to_tab t) (to_table t) 6 (to_work t) (replicate ?d (ct (0, 0)))"
      using n le'(2) lens t(2,3) t(4) [OF True] by (simp add: table_args_def max_syms_def space_of_def list_all_iff)
    obtain u where u: "inflate_table DISTS (drop ?n ?ls) ?d (to_tab t) (to_table t) 6 (to_work t) = Some u" "length (to_tab u) = ENOUGH"
      "length (to_work u) = 288" "same_below (to_table t) (to_tab u) (to_tab t)"
      "to_ret u = 0 \<Longrightarrow> code_table (part_of (to_table t) (to_table u) (to_tab u)) (to_bits u) DISTS"
      using table_built [OF a2] t(2,3) by auto
    define s2 where "s2 = (table_result u (s1\<lparr>h_distcode := Codes (to_table t), h_distbits := 6\<rparr>))\<lparr>h_distbits := to_bits u\<rparr>"
    have s2: "s2 = s\<lparr>h_codes := to_tab u, h_next := to_table u, h_work := to_work u, h_lencode := Codes 0, h_lenbits := to_bits t,
          h_distcode := Codes (to_table t), h_distbits := to_bits u, m_ret := to_ret u\<rparr>" by (simp add: s2_def s1_def table_result_def)
    have b2: "built s s2" unfolding built_def
      by (intro conjI exI, use u lens in \<open>simp add: s2 sizes_def\<close>, rule s2)
    show thesis
    proof (cases "to_ret u = 0")
      case False
      then have "inflate_codes flush s = Inflate.bad ''invalid distances set'' s2"
        using t(1) u(1) True by (simp add: inflate_codes_def Let_def s1_def s2_def table_result_def)
      then show thesis using bad b2 by blast
    next
      case ok2: True
      have "inflate_codes flush s = (if flush = Z_TREES then Leave (s2\<lparr>i_mode := SEND_HEADER\<rparr>) else Next (s2\<lparr>i_mode := SEND_HEADER\<rparr>))"
        using t(1) u(1) True ok2 by (simp add: inflate_codes_def Let_def s1_def s2_def table_result_def)
      moreover have "code_table (nth_opt (to_tab u)) (to_bits t) LENS"
        by (rule code_table_mono [OF t(5) [OF True]]) (use codes_part [OF _ u(4), of 0] in auto)
      moreover have "code_table (\<lambda>i. nth_opt (to_tab u) (to_table t + i)) (to_bits u) DISTS"
        by (rule code_table_mono [OF u(5) [OF ok2]]) (auto intro: codes_part [OF _ same_below_refl])
      ultimately have run: "inflate_codes flush s = (if flush = Z_TREES then Leave (s2\<lparr>i_mode := SEND_HEADER\<rparr>) else Next (s2\<lparr>i_mode := SEND_HEADER\<rparr>))"
        and "tables_ok s2" by (simp_all add: tables_ok_def code_at_codes s2)
      moreover have "tables_of ?ls ?n ?d s2"
        unfolding tables_of_def by (intro exI [of _ "h_codes s"] exI [of _ "h_work s"] exI [of _ t] exI [of _ u]) (simp add: t(1) u(1) True ok2 s2)
      ultimately show thesis using ok [of s2] b2 ok2 by (simp add: s2)
    qed
  qed
qed

end
