(* ===== verification/Inflate_Inv.thy ===== *)
theory Inflate_Inv
  imports Inflate_Tables
begin

text \<open>
  The invariant of \<^verbatim>\<open>j_inflate\<close> between the rounds of its loop and between calls, and the measure that every
  round decreases.  The invariant says, mode by mode, what the code relies on: that tables are usable
  where symbols are decoded, that the recorder has room for the header bits still to come, that no more
  bits are held than the current symbol can take.
\<close>

section \<open>Fields that the bit operations leave alone\<close>

lemma hdr_fields:
  fixes s t :: inflate_run
  assumes "hdr_rest t = hdr_rest s"
  shows "i_strm t = i_strm s" "i_mode t = i_mode s" "i_last t = i_last s" "i_wrap t = i_wrap s" "i_havedict t = i_havedict s"
    "i_flags t = i_flags s" "i_check t = i_check s" "i_total t = i_total s" "i_head t = i_head s" "i_wbits t = i_wbits s"
    "i_length t = i_length s" "i_offset t = i_offset s" "i_extra t = i_extra s" "i_ncode t = i_ncode s" "i_tree_type t = i_tree_type s"
    "m_strm t = m_strm s" "m_put t = m_put s" "m_left t = m_left s" "m_in t = m_in s" "m_out t = m_out s" "m_ret t = m_ret s"
    "m_ins t = m_ins s" "h_work t = h_work s" "h_codes t = h_codes s" "h_nlen t = h_nlen s" "h_ndist t = h_ndist s"
    "h_lencode t = h_lencode s" "h_lenbits t = h_lenbits s" "h_distcode t = h_distcode s" "h_distbits t = h_distbits s"
    "header_flag t = header_flag s" "header_index t = header_index s"
  using arg_cong [OF assms, of i_strm] arg_cong [OF assms, of i_mode] arg_cong [OF assms, of i_last] arg_cong [OF assms, of i_wrap]
    arg_cong [OF assms, of i_havedict] arg_cong [OF assms, of i_flags] arg_cong [OF assms, of i_check] arg_cong [OF assms, of i_total]
    arg_cong [OF assms, of i_head] arg_cong [OF assms, of i_wbits] arg_cong [OF assms, of i_length] arg_cong [OF assms, of i_offset]
    arg_cong [OF assms, of i_extra] arg_cong [OF assms, of i_ncode] arg_cong [OF assms, of i_tree_type] arg_cong [OF assms, of m_strm]
    arg_cong [OF assms, of m_put] arg_cong [OF assms, of m_left] arg_cong [OF assms, of m_in] arg_cong [OF assms, of m_out]
    arg_cong [OF assms, of m_ret] arg_cong [OF assms, of m_ins] arg_cong [OF assms, of h_work] arg_cong [OF assms, of h_codes]
    arg_cong [OF assms, of h_nlen] arg_cong [OF assms, of h_ndist] arg_cong [OF assms, of h_lencode] arg_cong [OF assms, of h_lenbits]
    arg_cong [OF assms, of h_distcode] arg_cong [OF assms, of h_distbits] arg_cong [OF assms, of header_flag]
    arg_cong [OF assms, of header_index]
  by (simp_all add: hdr_rest_def)

lemma hdr_rest_ops:
  "hdr_rest (set_regs r s) = hdr_rest s" "hdr_rest (BYTEBITS s) = hdr_rest s" "hdr_rest (INITBITS s) = hdr_rest s"
  "hdr_rest (my_bi_windup s) = hdr_rest s" "hdr_rest (my_put_byte c s) = hdr_rest s"
  by (simp_all add: hdr_rest_same [OF same_rest_ops(1)] hdr_rest_same [OF same_rest_ops(4)])
    (simp_all add: hdr_rest_def set_regs_def BYTEBITS_def drop_bits_def INITBITS_def)

lemmas run_frame [simp] = hdr_fields [OF hdr_rest_drop] hdr_fields [OF hdr_rest_ops(1)] hdr_fields [OF hdr_rest_ops(2)]
  hdr_fields [OF hdr_rest_ops(3)] hdr_fields [OF hdr_rest_ops(4)] hdr_fields [OF hdr_rest_ops(5)]

declare recorded.drop_lens [simp]

section \<open>The invariant\<close>

definition basic :: "inflate_run \<Rightarrow> bool" where
  "basic s \<longleftrightarrow> rinv s \<and> sizes s \<and> length (header_buf s) = 605 \<and> \<not> header_oob s \<and> length (ins_buffer (m_ins s)) = 6 \<and> i_head s = None"

text \<open>An instruction waits to be sent.\<close>

definition sending :: "inflate_run \<Rightarrow> bool" where
  "sending s \<longleftrightarrow> ins_buffer_index (m_ins s) < ins_buffer_have (m_ins s) \<and> ins_buffer_have (m_ins s) \<le> 6"

text \<open>The header is complete and the tables are in place.\<close>

definition in_block :: "inflate_run \<Rightarrow> bool" where
  "in_block s \<longleftrightarrow> header_flag s = 0 \<and> tables_ok s"

lemma tables_ok_cong:
  fixes s t :: inflate_run
  assumes "h_codes t = h_codes s" "h_lencode t = h_lencode s" "h_lenbits t = h_lenbits s" "h_distcode t = h_distcode s" "h_distbits t = h_distbits s"
  shows "tables_ok t = tables_ok s" "nexti t = nexti s"
  using code_at_cong [OF assms(1)] assms(2-) by (simp_all add: tables_ok_def nexti_def)

lemma in_block_cong:
  fixes s t :: inflate_run
  assumes "h_codes t = h_codes s" "h_lencode t = h_lencode s" "h_lenbits t = h_lenbits s" "h_distcode t = h_distcode s" "h_distbits t = h_distbits s"
    and "header_flag t = header_flag s"
  shows "in_block t = in_block s"
  using tables_ok_cong(1) [OF assms(1-5)] assms(6) by (simp add: in_block_def)

lemma tables_upd [simp]:
  fixes s :: inflate_run
  shows "tables_ok (s\<lparr>i_mode := xmode\<rparr>) = tables_ok s"
    "tables_ok (s\<lparr>i_length := xlength\<rparr>) = tables_ok s"
    "tables_ok (s\<lparr>i_check := xcheck\<rparr>) = tables_ok s"
    "tables_ok (s\<lparr>i_flags := xflags\<rparr>) = tables_ok s"
    "tables_ok (s\<lparr>i_wbits := xwbits\<rparr>) = tables_ok s"
    "tables_ok (s\<lparr>i_last := xlast\<rparr>) = tables_ok s"
    "tables_ok (s\<lparr>i_total := xtotal\<rparr>) = tables_ok s"
    "tables_ok (s\<lparr>i_back := xback\<rparr>) = tables_ok s"
    "tables_ok (s\<lparr>m_ret := xret\<rparr>) = tables_ok s"
    "tables_ok (s\<lparr>m_strm := xstrm\<rparr>) = tables_ok s"
    "tables_ok (s\<lparr>m_out := xout\<rparr>) = tables_ok s"
    "tables_ok (s\<lparr>i_tree_type := xtree_type\<rparr>) = tables_ok s"
    "tables_ok (s\<lparr>m_put := xput\<rparr>) = tables_ok s"
    "tables_ok (s\<lparr>m_left := xleft\<rparr>) = tables_ok s"
    "tables_ok (s\<lparr>m_ins := xins\<rparr>) = tables_ok s"
    "tables_ok (s\<lparr>i_dmax := xdmax\<rparr>) = tables_ok s"
    "tables_ok (s\<lparr>i_head := xhead\<rparr>) = tables_ok s"
  by (rule tables_ok_cong, simp_all)+

lemma in_block_upd [simp]:
  "in_block (s\<lparr>i_mode := xmode\<rparr>) = in_block s"
  "in_block (s\<lparr>i_length := xlength\<rparr>) = in_block s"
  "in_block (s\<lparr>i_check := xcheck\<rparr>) = in_block s"
  "in_block (s\<lparr>i_flags := xflags\<rparr>) = in_block s"
  "in_block (s\<lparr>i_wbits := xwbits\<rparr>) = in_block s"
  "in_block (s\<lparr>i_last := xlast\<rparr>) = in_block s"
  "in_block (s\<lparr>i_total := xtotal\<rparr>) = in_block s"
  "in_block (s\<lparr>i_back := xback\<rparr>) = in_block s"
  "in_block (s\<lparr>m_ret := xret\<rparr>) = in_block s"
  "in_block (s\<lparr>m_strm := xstrm\<rparr>) = in_block s"
  "in_block (s\<lparr>m_out := xout\<rparr>) = in_block s"
  "in_block (s\<lparr>i_tree_type := xtree_type\<rparr>) = in_block s"
  "in_block (s\<lparr>m_put := xput\<rparr>) = in_block s"
  "in_block (s\<lparr>m_left := xleft\<rparr>) = in_block s"
  "in_block (s\<lparr>m_ins := xins\<rparr>) = in_block s"
  "in_block (s\<lparr>i_dmax := xdmax\<rparr>) = in_block s"
  "in_block (s\<lparr>i_head := xhead\<rparr>) = in_block s"
  by (simp_all add: in_block_def)

lemma hdr_room_upd [simp]:
  fixes s :: inflate_run
  shows "hdr_room k (s\<lparr>i_mode := xmode\<rparr>) = hdr_room k s"
    "hdr_room k (s\<lparr>i_length := xlength\<rparr>) = hdr_room k s"
    "hdr_room k (s\<lparr>i_check := xcheck\<rparr>) = hdr_room k s"
    "hdr_room k (s\<lparr>i_flags := xflags\<rparr>) = hdr_room k s"
    "hdr_room k (s\<lparr>i_wbits := xwbits\<rparr>) = hdr_room k s"
    "hdr_room k (s\<lparr>i_last := xlast\<rparr>) = hdr_room k s"
    "hdr_room k (s\<lparr>i_total := xtotal\<rparr>) = hdr_room k s"
    "hdr_room k (s\<lparr>i_back := xback\<rparr>) = hdr_room k s"
    "hdr_room k (s\<lparr>m_ret := xret\<rparr>) = hdr_room k s"
    "hdr_room k (s\<lparr>m_strm := xstrm\<rparr>) = hdr_room k s"
    "hdr_room k (s\<lparr>m_out := xout\<rparr>) = hdr_room k s"
    "hdr_room k (s\<lparr>i_tree_type := xtree_type\<rparr>) = hdr_room k s"
    "hdr_room k (s\<lparr>m_put := xput\<rparr>) = hdr_room k s"
    "hdr_room k (s\<lparr>m_left := xleft\<rparr>) = hdr_room k s"
    "hdr_room k (s\<lparr>m_ins := xins\<rparr>) = hdr_room k s"
    "hdr_room k (s\<lparr>i_dmax := xdmax\<rparr>) = hdr_room k s"
    "hdr_room k (s\<lparr>i_head := xhead\<rparr>) = hdr_room k s"
  by (simp_all add: hdr_room_def hinv_def hroom_def as_writer_def)

definition counts_ok :: "inflate_run \<Rightarrow> bool" where
  "counts_ok s \<longleftrightarrow> 257 \<le> h_nlen s \<and> h_nlen s \<le> 286 \<and> 1 \<le> h_ndist s \<and> h_ndist s \<le> 30 \<and> i_tree_type s = 2"

abbreviation (input) "total_lens s \<equiv> h_nlen s + h_ndist s"

definition mode_ok :: "inflate_run \<Rightarrow> bool" where
  "mode_ok s \<longleftrightarrow>
    (case i_mode s of
       HEAD \<Rightarrow> (if i_wrap s \<noteq> 0 then hdr_room 4 s else r_bits s < 8)
     | FLAGS \<Rightarrow> True | TIME \<Rightarrow> True | OS \<Rightarrow> True
     | EXLEN \<Rightarrow> r_bits s < 8 \<or> i_flags s AND 0x0400 \<noteq> 0
     | EXTRA \<Rightarrow> r_bits s < 8 | NAME \<Rightarrow> r_bits s < 8 | COMMENT \<Rightarrow> r_bits s < 8
     | HCRC \<Rightarrow> r_bits s < 8 \<or> i_flags s AND 0x0200 \<noteq> 0
     | TYPE_0 \<Rightarrow> r_bits s < 8 | TYPEDO \<Rightarrow> r_bits s < 8
     | STORED \<Rightarrow> hdr_room (if my_bi_valid s = 0 then 96 else 112) s \<and> r_bits s < 32 \<and> i_tree_type s = 0 \<and> header_index s = 0
     | TABLE \<Rightarrow> hdr_room 2400 s \<and> r_bits s < 14 \<and> i_tree_type s = 2 \<and> header_index s = 0
     | LENLENS \<Rightarrow> hdr_room (3 * (19 - h_have s) + 2300) s \<and> r_bits s < 8 \<and> counts_ok s \<and> h_have s < i_ncode s \<and> i_ncode s \<le> 19 \<and>
         list_all (\<lambda>l. l \<le> 7) (ordered (h_have s) (h_lens s)) \<and> header_index s = 0
     | CODELENS \<Rightarrow> hdr_room (7 * (total_lens s - h_have s) + 78) s \<and> counts_ok s \<and> h_have s < total_lens s \<and>
         code_table (code_at s (h_lencode s)) (h_lenbits s) CODES \<and> list_all (\<lambda>l. l \<le> 15) (take (h_have s) (h_lens s)) \<and>
         (\<forall>ext. r_bits s < 8 + snd (cl_sym (code_at s (h_lencode s)) (h_lenbits s) (held s @ ext))) \<and> header_index s = 0
     | SEND_HEADER \<Rightarrow> r_bits s < 8 \<and> (i_tree_type s \<noteq> 0 \<longrightarrow> tables_ok s) \<and>
         (if header_flag s = 1 then hdr_room 64 s \<and> header_index s = 0
          else header_flag s = 0 \<and> header_index s < header_have s \<and> header_have s \<le> 605)
     | COPY_0 \<Rightarrow> r_bits s < 8 | COPY \<Rightarrow> r_bits s < 8
     | LEN_0 \<Rightarrow> in_block s \<and> r_bits s < 8
     | LEN \<Rightarrow> in_block s \<and> (\<forall>ext. r_bits s < 8 + snd (pend s (held s @ ext)))
     | LENEXT \<Rightarrow> in_block s \<and> (\<forall>ext. r_bits s < 8 + snd (pend s (held s @ ext))) \<and> i_extra s \<le> 15
     | DIST \<Rightarrow> in_block s \<and> (\<forall>ext. r_bits s < 8 + snd (pend s (held s @ ext)))
     | DISTEXT \<Rightarrow> in_block s \<and> (\<forall>ext. r_bits s < 8 + snd (pend s (held s @ ext))) \<and> i_extra s \<le> 15
     | LIT \<Rightarrow> in_block s \<and> r_bits s < 8 \<and> sending s \<and> ins_type (m_ins s) = 0
     | SENDINS \<Rightarrow> sending s \<and> r_bits s < 8 \<and> (ins_type (m_ins s) \<notin> {2, 3, 4} \<longrightarrow> in_block s)
     | SETENDOFBLOCK \<Rightarrow> r_bits s < 8
     | CHECK \<Rightarrow> hdr_room 64 s \<and> r_bits s \<le> 32
     | LENGTH_0 \<Rightarrow> True | DONE \<Rightarrow> True | BAD \<Rightarrow> True
     | DICTID \<Rightarrow> False | DICT \<Rightarrow> False | MATCH \<Rightarrow> False | MEM \<Rightarrow> False | SYNC \<Rightarrow> False)"

definition inflate_inv :: "inflate_run \<Rightarrow> bool" where
  "inflate_inv s \<longleftrightarrow> basic s \<and> mode_ok s"

section \<open>The measure\<close>

definition mode_rank :: "inflate_mode \<Rightarrow> nat" where
  "mode_rank m = (case m of HEAD \<Rightarrow> 12
     | FLAGS \<Rightarrow> 11 | TIME \<Rightarrow> 11 | OS \<Rightarrow> 11 | EXLEN \<Rightarrow> 11 | EXTRA \<Rightarrow> 11 | NAME \<Rightarrow> 11 | COMMENT \<Rightarrow> 11 | HCRC \<Rightarrow> 11
     | TYPE_0 \<Rightarrow> 10 | TYPEDO \<Rightarrow> 10 | STORED \<Rightarrow> 9 | TABLE \<Rightarrow> 9 | LENLENS \<Rightarrow> 9 | CODELENS \<Rightarrow> 9 | SEND_HEADER \<Rightarrow> 8
     | COPY_0 \<Rightarrow> 7 | COPY \<Rightarrow> 7 | LEN_0 \<Rightarrow> 7 | LEN \<Rightarrow> 7 | LENEXT \<Rightarrow> 7 | DIST \<Rightarrow> 7 | DISTEXT \<Rightarrow> 7
     | LIT \<Rightarrow> 5 | CHECK \<Rightarrow> 4 | SETENDOFBLOCK \<Rightarrow> 3 | SENDINS \<Rightarrow> 2 | LENGTH_0 \<Rightarrow> 1 | _ \<Rightarrow> 0)"

definition mu :: "inflate_run \<Rightarrow> nat" where
  "mu s = 16 * m_left s + mode_rank (i_mode s)"

section \<open>Accounting\<close>

text \<open>The identity of the stream.\<close>

definition stream_id :: "inflate_run \<Rightarrow> nat \<times> nat \<times> bool \<times> bool \<times> bool \<times> bool \<times> ulong \<times> nat" where
  "stream_id s = (i_strm s, z_addr (m_strm s), z_zalloc (m_strm s), z_zfree (m_strm s), z_in_null (m_strm s), z_out_null (m_strm s),
     z_total_in (m_strm s), m_in s)"

text \<open>From \<open>s\<close> to \<open>t\<close>: a part of the input is taken, output is appended within the space left, and
  the count of the output agrees.\<close>

definition moves :: "inflate_run \<Rightarrow> inflate_run \<Rightarrow> bool" where
  "moves s t \<longleftrightarrow> stream_id t = stream_id s \<and> (\<exists>j. r_next t = drop j (r_next s)) \<and>
    (\<exists>w. m_put t = m_put s @ w \<and> m_left s = m_left t + length w) \<and>
    (m_left s \<le> m_out s \<longrightarrow> m_left t \<le> m_out t \<and>
      z_total_out (m_strm t) + of_nat (m_out t) = z_total_out (m_strm s) + of_nat (m_out s))"

lemma moves_refl: "moves s s"
  by (auto simp: moves_def intro: exI [of _ 0])

lemma moves_trans:
  assumes "moves s t" and "moves t u" shows "moves s u"
proof -
  obtain i j where "r_next t = drop i (r_next s)" "r_next u = drop j (r_next t)" using assms by (auto simp: moves_def)
  then have "\<exists>j. r_next u = drop j (r_next s)" by auto
  moreover obtain v w where "m_put t = m_put s @ v" "m_left s = m_left t + length v" "m_put u = m_put t @ w" "m_left t = m_left u + length w"
    using assms by (auto simp: moves_def)
  then have "\<exists>w. m_put u = m_put s @ w \<and> m_left s = m_left u + length w" by (auto intro!: exI [of _ "v @ w"])
  ultimately show ?thesis using assms by (auto simp: moves_def)
qed

text \<open>What a round of the loop may do.\<close>

definition stuck :: "int \<Rightarrow> inflate_run \<Rightarrow> bool" where
  "stuck flush t \<longleftrightarrow> m_ret t = Z_OK \<and> (r_next t = [] \<or> m_left t = 0 \<or> flush = Z_BLOCK \<or> flush = Z_TREES) \<or>
     m_ret t = Z_STREAM_END \<and> i_mode t = DONE \<or> m_ret t = Z_DATA_ERROR \<and> i_mode t = BAD"

definition round_ok :: "int \<Rightarrow> nat \<Rightarrow> inflate_run \<Rightarrow> inflate_run step \<Rightarrow> bool" where
  "round_ok flush B s res \<longleftrightarrow>
    (case res of
       Next t \<Rightarrow> inflate_inv t \<and> moves s t \<and> mu t < B \<and> (m_ret t = Z_OK \<or> i_mode t = BAD)
     | Leave t \<Rightarrow> inflate_inv t \<and> moves s t \<and> stuck flush t
     | Ret _ _ \<Rightarrow> False
     | Undef \<Rightarrow> False)"

lemma round_ok_trans: "moves s t \<Longrightarrow> round_ok flush B t res \<Longrightarrow> round_ok flush B s res"
  by (auto simp: round_ok_def dest: moves_trans split: step.splits)

lemma round_ok_mono: "round_ok flush B s res \<Longrightarrow> B \<le> C \<Longrightarrow> round_ok flush C s res"
  by (auto simp: round_ok_def split: step.splits)

end
