(* ===== verification/Inflate_Rounds.thy ===== *)
theory Inflate_Rounds
  imports Inflate_Inv
begin

text \<open>
  Every case of the switch of \<^verbatim>\<open>j_inflate\<close> keeps the invariant, stays within its arrays, and goes down in the
  measure when the loop goes round again.
\<close>

lemma basic_simps [simp]:
  "basic (s\<lparr>i_mode := m\<rparr>) = basic s" "basic (s\<lparr>i_length := n\<rparr>) = basic s" "basic (s\<lparr>i_check := c\<rparr>) = basic s"
  "basic (s\<lparr>i_flags := f\<rparr>) = basic s" "basic (s\<lparr>i_wbits := n\<rparr>) = basic s" "basic (s\<lparr>i_last := n\<rparr>) = basic s"
  "basic (s\<lparr>i_tree_type := n\<rparr>) = basic s" "basic (s\<lparr>m_ret := r\<rparr>) = basic s" "basic (s\<lparr>m_strm := z\<rparr>) = basic s"
  "basic (s\<lparr>i_total := c\<rparr>) = basic s" "basic (s\<lparr>i_back := b\<rparr>) = basic s" "basic (s\<lparr>m_out := n\<rparr>) = basic s"
  by (simp_all add: basic_def sizes_def rinv_def)

section \<open>Sending\<close>

lemma SENDINS_round:
  assumes "inflate_inv s" and "i_mode s = SENDINS" and "m_ret s = 0" and "mu s \<le> B"
  shows "round_ok flush B s (inflate_SENDINS s)"
proof (cases "m_left s = 0")
  case True
  then show ?thesis using assms moves_refl by (simp add: inflate_SENDINS_def round_ok_def stuck_def)
next
  case False
  let ?g = "m_ins s"
  let ?n = "ins_buffer_have ?g - ins_buffer_index ?g"
  define c where "c = (if ?n > m_left s then m_left s else ?n)"
  have g: "ins_buffer_index ?g < ins_buffer_have ?g" "ins_buffer_have ?g \<le> 6" "length (ins_buffer ?g) = 6" "r_bits s < 8"
    "ins_type ?g \<notin> {2, 3, 4} \<longrightarrow> in_block s"
    using assms by (auto simp: inflate_inv_def mode_ok_def basic_def sending_def)
  have c: "0 < c" "c \<le> m_left s" "ins_buffer_index ?g + c \<le> ins_buffer_have ?g" using False g by (auto simp: c_def)
  define w :: "byte list" where "w = map ucast (take c (drop (ins_buffer_index ?g) (ins_buffer ?g)))"
  have w: "length w = c" using c g by (simp add: w_def)
  define t where "t = s\<lparr>m_left := m_left s - c, m_put := m_put s @ w, m_ins := ?g\<lparr>ins_buffer_index := ins_buffer_index ?g + c\<rparr>\<rparr>"
  define m where "m = (if ins_type ?g = 4 then TYPE_0 else if ins_type ?g = 3 then LENGTH_0 else if ins_type ?g \<noteq> 2 then LEN else TYPE_0)"
  have run: "inflate_SENDINS s = Next (if ins_buffer_index ?g + c = ins_buffer_have ?g then t\<lparr>i_mode := m\<rparr> else t)"
    using False c g by (simp add: inflate_SENDINS_def Let_def t_def m_def w_def c_def [symmetric])
  have bt: "basic t" using assms(1) by (simp add: inflate_inv_def basic_def t_def sizes_def rinv_def)
  have tab: "in_block (t\<lparr>i_mode := m\<rparr>) = in_block s" "in_block t = in_block s"
    by (rule in_block_cong, simp_all add: t_def)+
  have tf: "i_mode t = SENDINS" "r_bits t = r_bits s" "ins_buffer_index (m_ins t) = ins_buffer_index ?g + c"
    "ins_buffer_have (m_ins t) = ins_buffer_have ?g" "ins_type (m_ins t) = ins_type ?g" "m_ret t = 0"
    using assms(2,3) by (simp_all add: t_def)
  have "mode_ok (t\<lparr>i_mode := m\<rparr>)" using g tab tf by (simp add: mode_ok_def m_def)
  moreover have "mode_ok t" if "ins_buffer_index ?g + c \<noteq> ins_buffer_have ?g"
    using that g c tab tf by (simp add: mode_ok_def sending_def)
  moreover have "moves s t" using c w by (auto simp: moves_def stream_id_def t_def intro: exI [of _ 0])
  moreover have "moves t (t\<lparr>i_mode := m\<rparr>)" by (auto simp: moves_def stream_id_def intro: exI [of _ 0])
  moreover have "mu t < B" "mu (t\<lparr>i_mode := m\<rparr>) < B"
    using assms(2,4) c by (auto simp: mu_def t_def m_def mode_rank_def)
  ultimately show ?thesis
    unfolding run using bt tf by (auto simp: round_ok_def inflate_inv_def intro: moves_trans)
qed

lemma set_ins_upd:
  "length vs \<le> 6 \<Longrightarrow> basic s \<Longrightarrow> basic (set_ins vs ty s)"
  "vs \<noteq> [] \<Longrightarrow> length vs \<le> 6 \<Longrightarrow> sending (set_ins vs ty s)"
  "in_block (set_ins vs ty s) = in_block s" "ins_type (m_ins (set_ins vs ty s)) = ty" "i_mode (set_ins vs ty s) = i_mode s"
  "m_ret (set_ins vs ty s) = m_ret s" "i_wrap (set_ins vs ty s) = i_wrap s" "i_flags (set_ins vs ty s) = i_flags s"
  "r_next (set_ins vs ty s) = r_next s" "r_hold (set_ins vs ty s) = r_hold s" "m_out (set_ins vs ty s) = m_out s"
  "hdr_room k (set_ins vs ty s) = hdr_room k s" "stream_id (set_ins vs ty s) = stream_id s" "i_wbits (set_ins vs ty s) = i_wbits s"
  by (auto simp: set_ins_def basic_def sizes_def rinv_def sending_def stream_id_def)

lemma SETENDOFBLOCK_round:
  assumes "inflate_inv s" and "i_mode s = SETENDOFBLOCK" and "m_ret s = 0"
  shows "round_ok flush (mu s) s (inflate_SETENDOFBLOCK s)"
proof -
  let ?t = "(set_ins [0xaa, 0xff] 2 s)\<lparr>i_mode := SENDINS\<rparr>"
  have "inflate_inv ?t" using assms by (simp add: inflate_inv_def mode_ok_def set_ins_upd sending_def) (simp add: set_ins_def)
  moreover have "mu ?t \<le> mu s" using assms(2) by (simp add: mu_def mode_rank_def)
  ultimately have "round_ok flush (mu s) ?t (inflate_SENDINS ?t)" using assms(3) by (intro SENDINS_round) (simp_all add: set_ins_upd)
  moreover have "moves s ?t" by (auto simp: moves_def stream_id_def set_ins_def intro: exI [of _ 0])
  ultimately show ?thesis by (simp add: inflate_SETENDOFBLOCK_def round_ok_trans)
qed

lemma windup_pending: "pending (bi_windup s) \<le> pending s + 2"
  by (simp add: bi_windup_def Let_def)

lemma hdr_room_windup: "hdr_room (k + 16) s \<Longrightarrow> hdr_room k (my_bi_windup s)"
proof -
  assume r: "hdr_room (k + 16) s"
  then have s: "winv (as_writer s)" "wroom (k + 16) (as_writer s)" "length (pending_buf (as_writer s)) = 605"
    by (simp_all add: hdr_room_def hinv_def hroom_def as_writer_fields)
  have w: "as_writer (my_bi_windup s) = bi_windup (as_writer s)" by (rule as_writer_windup)
  have "winv (bi_windup (as_writer s))" using bi_windup_correct(2) [OF s(1) wsink.room_mono [OF s(2)]] by simp
  moreover have "wroom k (bi_windup (as_writer s))"
    using s(2) windup_pending [of "as_writer s"] by (simp add: wroom_def)
  moreover have "length (header_buf (my_bi_windup s)) = 605" using arg_cong [OF w, of "\<lambda>w. length (pending_buf w)"] s(3)
    by (simp add: as_writer_fields)
  ultimately show ?thesis using r by (simp add: hdr_room_def hinv_def hroom_def w)
qed

text \<open>The end mark of a header.\<close>

lemma header_marks:
  assumes "hdr_room 64 s"
  defines "t \<equiv> (my_put_byte 0xff (my_put_byte 0xaa (my_bi_windup s)))\<lparr>header_flag := 0\<rparr>"
  shows "0 < header_have t" "header_have t \<le> 605" "length (header_buf t) = 605" "\<not> header_oob t"
    "bytes_bits (take (header_have t) (header_buf t)) = pad8 (hout s) @ bits_of 8 (0xaa :: byte) @ bits_of 8 (0xff :: byte)"
proof -
  let ?u = "my_bi_windup s"
  have r: "hdr_room 48 ?u" by (rule hdr_room_windup) (use assms(1) in simp)
  have rm: "hdr_room 0 s" by (rule recorded.room_mono [OF assms(1)]) simp
  have v: "bi_valid (as_writer ?u) = 0" by (simp add: as_writer_windup)
  have h: "header_have ?u + 2 \<le> length (header_buf ?u)" "length (header_buf ?u) = 605" "\<not> header_oob ?u"
    using r v by (simp_all add: hdr_room_def hroom_def wroom_def hinv_def winv_def as_writer_fields)
  have o: "bytes_bits (take (header_have ?u) (header_buf ?u)) = pad8 (hout s)"
    using bi_windup_correct(1) [of "as_writer s"] rm v as_writer_windup [of s]
    by (simp add: hdr_room_def hinv_def hroom_def hout_def wout_def as_writer_fields)
      (metis as_writer_fields(3,4))
  have t: "t = ?u\<lparr>header_buf := (header_buf ?u)[header_have ?u := 0xaa, header_have ?u + 1 := 0xff], header_have := header_have ?u + 2, header_flag := 0\<rparr>"
    using h by (simp add: t_def my_put_byte_def)
  show "0 < header_have t" "header_have t \<le> 605" "length (header_buf t) = 605" "\<not> header_oob t" using h by (simp_all add: t)
  have "take (header_have ?u + 2) ((header_buf ?u)[header_have ?u := 0xaa, header_have ?u + 1 := 0xff])
    = take (header_have ?u) (header_buf ?u) @ [0xaa, 0xff]"
    using h(1) take_list_update_Suc [of "header_have ?u + 1" "(header_buf ?u)[header_have ?u := 0xaa]" "0xff"]
      take_list_update_Suc [of "header_have ?u" "header_buf ?u" "0xaa"] by simp
  then show "bytes_bits (take (header_have t) (header_buf t)) = pad8 (hout s) @ bits_of 8 (0xaa :: byte) @ bits_of 8 (0xff :: byte)"
    using o by (simp add: t)
qed

lemma SEND_HEADER_round:
  assumes "inflate_inv s" and "i_mode s = SEND_HEADER" and "m_ret s = 0"
  shows "round_ok flush (mu s) s (inflate_SEND_HEADER s)"
proof -
  define t where "t = (if header_flag s = 1 then (my_put_byte 0xff (my_put_byte 0xaa (my_bi_windup s)))\<lparr>header_flag := 0\<rparr> else s)"
  have ms: "r_bits s < 8" "i_tree_type s \<noteq> 0 \<longrightarrow> tables_ok s"
    "if header_flag s = 1 then hdr_room 64 s \<and> header_index s = 0 else header_flag s = 0 \<and> header_index s < header_have s \<and> header_have s \<le> 605"
    and bs: "basic s"
    using assms by (auto simp: inflate_inv_def mode_ok_def)
  have th: "header_index t < header_have t" "header_have t \<le> 605" "length (header_buf t) = 605" "\<not> header_oob t" "header_flag t = 0"
    using header_marks [of s] ms(3) bs by (auto simp: t_def basic_def)
  have f: "i_strm t = i_strm s" "i_mode t = i_mode s" "i_head t = i_head s" "i_tree_type t = i_tree_type s" "m_strm t = m_strm s" "m_put t = m_put s"
    "m_left t = m_left s" "m_in t = m_in s" "m_out t = m_out s" "m_ret t = m_ret s" "m_ins t = m_ins s" "h_work t = h_work s" "h_codes t = h_codes s"
    "h_lencode t = h_lencode s" "h_lenbits t = h_lenbits s" "h_distcode t = h_distcode s" "h_distbits t = h_distbits s"
    by (simp_all add: t_def)
  have regs: "r_next t = r_next s" "r_hold t = r_hold s" "r_bits t = r_bits s" "h_lens t = h_lens s" by (simp_all add: t_def)
  have bt: "basic t" using bs th regs f by (simp add: basic_def sizes_def rinv_def)
  have tt: "tables_ok t = tables_ok s" by (rule tables_ok_cong) (simp_all add: f)
  have mv: "moves s t" by (auto simp: moves_def stream_id_def f regs intro: exI [of _ 0])
  have mt: "mode_ok t" using ms th tt f regs assms(2) by (simp add: mode_ok_def)
  show ?thesis
  proof (cases "m_left t = 0")
    case True
    then have "inflate_SEND_HEADER s = Leave t" by (simp add: inflate_SEND_HEADER_def t_def Let_def)
    then show ?thesis using True bt mt mv f assms(3) by (simp add: round_ok_def inflate_inv_def stuck_def)
  next
    case False
    define c where "c = (if header_have t - header_index t > m_left t then m_left t else header_have t - header_index t)"
    have c: "0 < c" "c \<le> m_left t" "header_index t + c \<le> header_have t" using False th by (auto simp: c_def)
    define u where "u = t\<lparr>m_left := m_left t - c, m_put := m_put t @ take c (drop (header_index t) (header_buf t)), header_index := header_index t + c\<rparr>"
    define m where "m = (if i_tree_type t = 0 then COPY_0 else LEN_0)"
    have run: "inflate_SEND_HEADER s = Next (if header_have u = header_index u then u\<lparr>i_mode := m\<rparr> else u)"
      using False c th by (simp add: inflate_SEND_HEADER_def Let_def t_def [symmetric] c_def [symmetric] u_def m_def)
    have uf: "i_mode u = SEND_HEADER" "r_bits u = r_bits s" "header_flag u = 0" "header_have u = header_have t" "header_index u = header_index t + c"
      "i_tree_type u = i_tree_type s" "m_ret u = 0" using assms(2,3) f regs th by (simp_all add: u_def)
    have tu: "tables_ok u = tables_ok s" using tables_ok_cong(1) [of u t] tt by (simp add: u_def)
    have "basic u" using bt by (simp add: basic_def sizes_def rinv_def u_def)
    moreover have "mode_ok u" if "header_have u \<noteq> header_index u"
      using that ms(1,2) uf th c tu by (simp add: mode_ok_def)
    moreover have "mode_ok (u\<lparr>i_mode := m\<rparr>)" using ms(1,2) uf tu f(4) by (simp add: mode_ok_def m_def in_block_def)
    moreover have "moves s u" by (rule moves_trans [OF mv]) (use c th in \<open>auto simp: moves_def stream_id_def u_def intro: exI [of _ 0]\<close>)
    moreover have "moves u (u\<lparr>i_mode := m\<rparr>)" by (auto simp: moves_def stream_id_def intro: exI [of _ 0])
    moreover have "m_left u < m_left s" using c f by (simp add: u_def)
    then have "mu u < mu s" "mu (u\<lparr>i_mode := m\<rparr>) < mu s" using uf assms(2) by (simp_all add: mu_def mode_rank_def m_def)
    ultimately show ?thesis unfolding run using uf by (auto simp: round_ok_def inflate_inv_def intro: moves_trans)
  qed
qed

section \<open>Stored data\<close>

lemma COPY_round:
  assumes "inflate_inv s" and "i_mode s = COPY" and "m_ret s = 0"
  shows "round_ok flush (mu s) s (inflate_COPY s)"
proof -
  define c1 where "c1 = (if i_length s > length (r_next s) then length (r_next s) else i_length s)"
  define c where "c = (if c1 > m_left s then m_left s else c1)"
  have le: "c \<le> m_left s" "c \<le> length (r_next s)" by (auto simp: c_def c1_def)
  have bs: "basic s" "r_bits s < 8" using assms by (auto simp: inflate_inv_def mode_ok_def)
  consider (fin) "i_length s = 0" | (stop) "i_length s \<noteq> 0" "c = 0" | (more) "i_length s \<noteq> 0" "c \<noteq> 0" by blast
  then show ?thesis
  proof cases
    case fin
    then have "inflate_COPY s = Next (s\<lparr>i_mode := SETENDOFBLOCK\<rparr>)" by (simp add: inflate_COPY_def)
    then show ?thesis using bs assms(2,3)
      by (auto simp: round_ok_def inflate_inv_def mode_ok_def mu_def mode_rank_def moves_def stream_id_def intro: exI [of _ 0])
  next
    case stop
    then have "inflate_COPY s = Leave s" by (simp add: inflate_COPY_def Let_def c_def [symmetric] c1_def [symmetric])
    moreover have "m_left s = 0 \<or> r_next s = []" using stop by (auto simp: c_def c1_def split: if_splits)
    ultimately show ?thesis using assms moves_refl by (auto simp: round_ok_def stuck_def)
  next
    case more
    define t where "t = s\<lparr>m_put := m_put s @ take c (r_next s), r_next := drop c (r_next s), m_left := m_left s - c, i_length := i_length s - c\<rparr>"
    have run: "inflate_COPY s = Next t" using more by (simp add: inflate_COPY_def Let_def t_def c_def [symmetric] c1_def [symmetric])
    have tf: "i_mode t = COPY" "r_bits t = r_bits s" "m_ret t = 0" "m_left t = m_left s - c" using assms by (simp_all add: t_def)
    have "basic t" using bs by (simp add: basic_def sizes_def rinv_def t_def)
    moreover have "moves s t" using le by (auto simp: moves_def stream_id_def t_def intro: exI [of _ c])
    moreover have "mu t < mu s" using more le tf assms(2) by (simp add: mu_def)
    ultimately show ?thesis unfolding run using bs tf by (simp add: round_ok_def inflate_inv_def mode_ok_def)
  qed
qed

lemma COPY_0_round:
  assumes "inflate_inv s" and "i_mode s = COPY_0" and "m_ret s = 0"
  shows "round_ok flush (mu s) s (inflate_COPY_0 s)"
proof -
  let ?t = "s\<lparr>i_mode := COPY\<rparr>"
  have "inflate_inv ?t" using assms by (simp add: inflate_inv_def mode_ok_def)
  then have "round_ok flush (mu ?t) ?t (inflate_COPY ?t)" using assms(3) by (intro COPY_round) simp_all
  moreover have "mu ?t = mu s" using assms(2) by (simp add: mu_def mode_rank_def)
  moreover have "moves s ?t" by (auto simp: moves_def stream_id_def intro: exI [of _ 0])
  ultimately show ?thesis by (simp add: inflate_COPY_0_def round_ok_trans)
qed

section \<open>Waiting for bits\<close>

lemma pulled_basic: "pulled n s r \<Longrightarrow> basic s \<Longrightarrow> basic (set_regs r s)"
  by (simp add: pulled_def basic_def sizes_def set_regs_def)

lemma pulled_moves: "pulled n s r \<Longrightarrow> moves s (set_regs r s)"
  by (auto simp: pulled_def moves_def stream_id_def set_regs_def intro: exI [of _ 0])

lemma with_bits_round:
  assumes "basic s" and "n \<le> 48" and "m_ret s = 0"
    and short: "\<And>r. pulled n s r \<Longrightarrow> fst r = [] \<Longrightarrow> snd (snd r) < n \<Longrightarrow> mode_ok (set_regs r s)"
    and got: "\<And>r. pulled n s r \<Longrightarrow> n \<le> snd (snd r) \<Longrightarrow> basic (set_regs r s) \<Longrightarrow> round_ok flush B (set_regs r s) (k (set_regs r s))"
  shows "round_ok flush B s (with_bits n s k)"
proof -
  have r: "rinv s" using assms(1) by (simp add: basic_def)
  show ?thesis
  proof (cases rule: with_bits_cases [OF r assms(2), of k, case_names got short])
    case (got r)
    then show ?thesis using assms(5) [of r] pulled_basic [OF _ assms(1)] pulled_moves round_ok_trans by metis
  next
    case (short r)
    then show ?thesis using assms(4) [of r] pulled_basic [OF _ assms(1)] pulled_moves [of n s r] assms(3)
      by (simp add: round_ok_def inflate_inv_def stuck_def)
  qed
qed

lemma bad_round:
  assumes "basic t" and "moves s t" and "0 < B"
  shows "16 * m_left t < B \<Longrightarrow> round_ok flush B s (bad msg t)"
proof -
  assume b: "16 * m_left t < B"
  let ?t = "(set_msg msg t)\<lparr>i_mode := BAD\<rparr>"
  have "basic ?t" using assms(1) by (simp add: set_msg_def)
  moreover have "moves t ?t" by (auto simp: moves_def stream_id_def set_msg_def intro: exI [of _ 0])
  moreover have "mu ?t < B" using b by (simp add: mu_def mode_rank_def)
  ultimately show ?thesis using assms(2) by (auto simp: bad_def round_ok_def inflate_inv_def mode_ok_def intro: moves_trans)
qed

section \<open>Trailer\<close>

lemma DONE_round:
  assumes "basic s" and "i_mode s = DONE" shows "round_ok flush B s (inflate_DONE s)"
  using assms by (auto simp: inflate_DONE_def round_ok_def inflate_inv_def mode_ok_def stuck_def moves_def stream_id_def intro: exI [of _ 0])

lemma INITBITS_basic [simp]: "basic s \<Longrightarrow> basic (INITBITS s)"
  by (simp add: basic_def sizes_def rinv_def INITBITS_def)

lemma INITBITS_moves: "moves s (INITBITS s)"
  by (auto simp: moves_def stream_id_def INITBITS_def intro: exI [of _ 0])

lemma mode_moves: "moves s (s\<lparr>i_mode := m\<rparr>)"
  by (auto simp: moves_def stream_id_def intro: exI [of _ 0])

lemma LENGTH_round:
  assumes "basic s" and "i_mode s = LENGTH_0" and "m_ret s = 0" and "mu s \<le> B"
  shows "round_ok flush B s (inflate_LENGTH s)"
proof -
  have d: "round_ok flush B t (inflate_DONE (t\<lparr>i_mode := DONE\<rparr>))" if "basic t" for t
    by (rule round_ok_trans [OF mode_moves DONE_round]) (use that in simp_all)
  have b: "16 * m_left s < B" using assms(2,4) by (simp add: mu_def mode_rank_def)
  show ?thesis
  proof (cases "i_wrap s \<noteq> 0 \<and> i_flags s \<noteq> 0")
    case False
    then show ?thesis using d [OF assms(1)] by (auto simp: inflate_LENGTH_def)
  next
    case True
    have "round_ok flush B s (with_bits 32 s (\<lambda>s.
       if i_wrap s AND 4 \<noteq> 0 \<and> r_hold s \<noteq> i_total s AND 0xffffffff then bad ''incorrect length check'' s
       else inflate_DONE ((INITBITS s)\<lparr>i_mode := DONE\<rparr>)))"
    proof (rule with_bits_round [OF assms(1) _ assms(3)])
      fix r assume r: "pulled 32 s r"
      show "mode_ok (set_regs r s)" using assms(2) by (simp add: mode_ok_def)
      assume bs: "basic (set_regs r s)"
      have "round_ok flush B (set_regs r s) (bad ''incorrect length check'' (set_regs r s))"
        by (rule bad_round [OF bs moves_refl]) (use b in simp_all)
      moreover have "round_ok flush B (set_regs r s) (inflate_DONE ((INITBITS (set_regs r s))\<lparr>i_mode := DONE\<rparr>))"
        by (rule round_ok_trans [OF INITBITS_moves d]) (use bs in simp)
      ultimately show "round_ok flush B (set_regs r s) (if i_wrap (set_regs r s) AND 4 \<noteq> 0 \<and>
            r_hold (set_regs r s) \<noteq> i_total (set_regs r s) AND 0xffffffff then bad ''incorrect length check'' (set_regs r s)
          else inflate_DONE ((INITBITS (set_regs r s))\<lparr>i_mode := DONE\<rparr>))"
        by (simp split: if_split)
    qed simp
    then show ?thesis using True by (simp add: inflate_LENGTH_def)
  qed
qed

section \<open>Recorded bits\<close>

lemma past_rest: "recorded.past c k s t \<Longrightarrow> hdr_rest t = hdr_rest s"
  by (simp add: recorded.past_def)

lemma past_moves:
  fixes s t :: inflate_run
  assumes "recorded.past c k s t" shows "moves s t"
  using hdr_fields [OF past_rest [OF assms]] assms by (auto simp: moves_def stream_id_def recorded.past_def)

lemma past_basic:
  fixes s t :: inflate_run
  assumes "recorded.past c k s t" and "basic s" and "length (h_lens t) = 320" shows "basic t"
  using hdr_fields [OF past_rest [OF assms(1)]] assms
  by (auto simp: basic_def sizes_def recorded.past_def hdr_room_def hinv_def winv_def as_writer_fields)

lemma pulled_past: "pulled n s r \<Longrightarrow> hdr_room k s \<Longrightarrow> recorded.past 0 k s (set_regs r s)"
  by (auto simp: pulled_def recorded.past_def recorded.same_regs recorded.jot_Nil)

lemma drop_past:
  fixes s t :: inflate_run
  assumes "recorded.past c (n + k) s t" and "n \<le> 16" and "n \<le> r_bits t"
  shows "recorded.past (c + n) k s (DROPBITS n t)"
  by (rule recorded.past_trans [OF assms(1) recorded.past_drop]) (use assms in \<open>auto simp: recorded.past_def\<close>)

lemma CHECK_round:
  assumes "inflate_inv s" and m: "i_mode s = CHECK" and "m_ret s = 0"
  shows "round_ok flush (mu s) s (inflate_CHECK s)"
proof -
  have bs: "basic s" and hr: "hdr_room 64 s" using assms by (auto simp: inflate_inv_def mode_ok_def)
  show ?thesis
  proof (cases "i_wrap s = 0")
    case True
    have "round_ok flush (mu s) (s\<lparr>i_mode := LENGTH_0\<rparr>) (inflate_LENGTH (s\<lparr>i_mode := LENGTH_0\<rparr>))"
      by (rule LENGTH_round) (use bs assms in \<open>simp_all add: mu_def mode_rank_def\<close>)
    then show ?thesis using True round_ok_trans [OF mode_moves] by (simp add: inflate_CHECK_def)
  next
    case False
    have "round_ok flush (mu s) s (with_bits 32 s (\<lambda>s. Next ((check_bytes s)\<lparr>i_mode := SENDINS\<rparr>)))"
    proof (rule with_bits_round [OF bs _ assms(3)])
      fix r assume r: "pulled 32 s r"
      show "mode_ok (set_regs r s)" if "snd (snd r) < 32"
        using that m hr by (simp add: mode_ok_def recorded.same_regs)
      assume b32: "32 \<le> snd (snd r)" and bb: "basic (set_regs r s)"
      let ?s = "set_regs r s"
      define d where "d = m_out ?s - m_left ?s"
      define u where "u = ?s\<lparr>m_strm := (m_strm ?s)\<lparr>z_total_out := z_total_out (m_strm ?s) + of_nat d\<rparr>, i_total := i_total ?s + of_nat d, m_out := m_left ?s\<rparr>"
      define v where "v = DROPBITS 8 (DROPBITS 8 (DROPBITS 8 (DROPBITS 8 u)))"
      define vs where "vs = map (of_nat :: nat \<Rightarrow> ulong) [BITS 8 u, BITS 8 (DROPBITS 8 u), BITS 8 (DROPBITS 8 (DROPBITS 8 u)),
        BITS 8 (DROPBITS 8 (DROPBITS 8 (DROPBITS 8 u)))]"
      have cb: "check_bytes ?s = INITBITS (set_ins vs 3 v)"
        by (simp add: check_bytes_def Let_def u_def v_def vs_def d_def)
      have bu: "basic u" using bb by (simp add: u_def)
      have rb: "r_bits u = snd (snd r)" by (simp add: u_def)
      have hu: "hdr_room 64 u" using hr by (simp add: u_def recorded.same_regs)
      have "recorded.past 0 (8 + (8 + (8 + (8 + 32)))) u u"
        by (rule recorded.past_refl) (use bu hu in \<open>auto simp: basic_def\<close>)
      from drop_past [OF this] have p1: "recorded.past 8 (8 + (8 + (8 + 32))) u (DROPBITS 8 u)" using rb b32 by simp
      from drop_past [OF p1] have p2: "recorded.past 16 (8 + (8 + 32)) u (DROPBITS 8 (DROPBITS 8 u))" using rb b32 by (simp add: DROPBITS_rem)
      from drop_past [OF p2] have p3: "recorded.past 24 (8 + 32) u (DROPBITS 8 (DROPBITS 8 (DROPBITS 8 u)))" using rb b32 by (simp add: DROPBITS_rem)
      from drop_past [OF p3] have p4: "recorded.past 32 32 u v" using rb b32 by (simp add: v_def DROPBITS_rem)
      let ?t = "(INITBITS (set_ins vs 3 v))\<lparr>i_mode := SENDINS\<rparr>"
      have l: "length vs = 4" "vs \<noteq> []" by (simp_all add: vs_def)
      have bv: "basic v" by (rule past_basic [OF p4 bu]) (use bu in \<open>simp add: v_def basic_def sizes_def\<close>)
      have it: "inflate_inv ?t"
        using bv l by (simp add: inflate_inv_def mode_ok_def set_ins_upd sending_def) (simp add: set_ins_def)
      have "moves ?s u" by (auto simp: moves_def stream_id_def u_def d_def intro: exI [of _ 0] simp flip: of_nat_add)
      then have "moves ?s v" using moves_trans past_moves [OF p4] by blast
      moreover have "moves v (set_ins vs 3 v)" by (auto simp: moves_def set_ins_upd intro: exI [of _ 0])
      ultimately have mv: "moves ?s ?t" using moves_trans INITBITS_moves mode_moves by meson
      have "m_left ?t = m_left s" "m_ret ?t = 0"
        using assms(3) by (simp_all add: set_ins_upd v_def u_def)
      then show "round_ok flush (mu s) ?s (Next ((check_bytes ?s)\<lparr>i_mode := SENDINS\<rparr>))"
        unfolding cb using it mv m by (simp add: round_ok_def mu_def mode_rank_def)
    qed simp
    then show ?thesis using False by (simp add: inflate_CHECK_def)
  qed
qed

end
