(* ===== verification/Inflate_Rounds_Sym.thy ===== *)
theory Inflate_Rounds_Sym
  imports Inflate_Rounds
begin

text \<open>The cases of \<^verbatim>\<open>j_inflate\<close> that decode symbols keep the invariant.\<close>

section \<open>Symbols are determined by their own bits\<close>

context code_table
begin

lemma symbol_shrink:
  assumes "snd (snd (symbol (val_of (bs @ ext)))) \<le> length bs" shows "symbol (val_of bs) = symbol (val_of (bs @ ext))"
proof (rule symbol_prefix)
  let ?n = "symbol_len (val_of (bs @ ext))"
  have "(2::nat) ^ ?n dvd 2 ^ length bs" using assms by (intro le_imp_power_dvd) (simp add: symbol_len_def)
  then show "val_of bs mod 2 ^ ?n = val_of (bs @ ext) mod 2 ^ ?n"
    by (simp add: val_of_append mod_add_eq [symmetric] dvd_imp_mod_0)
qed

end

lemma next_dist_shrink:
  assumes ct: "code_table dt dnb DISTS" and le: "snd (next_dist dt dnb len (bs @ ext)) \<le> length bs"
  shows "next_dist dt dnb len bs = next_dist dt dnb len (bs @ ext)"
proof -
  obtain l h n where s: "symbol_of dt dnb (bs @ ext) = (l, h, n)" by (metis prod_cases3)
  then have n: "n \<le> length bs" using le by (auto simp: next_dist_def Let_def split: if_splits)
  then have "symbol_of dt dnb bs = (l, h, n)" using code_table.symbol_shrink [OF ct, of bs ext] s by simp
  then show ?thesis using s n le by (auto simp: next_dist_def Let_def split: if_splits)
qed

lemma next_instr_shrink:
  assumes lt: "code_table lt lnb LENS" and dt: "code_table dt dnb DISTS" and le: "snd (next_instr lt lnb dt dnb (bs @ ext)) \<le> length bs"
  shows "next_instr lt lnb dt dnb bs = next_instr lt lnb dt dnb (bs @ ext)"
proof -
  obtain l h n where s: "symbol_of lt lnb (bs @ ext) = (l, h, n)" by (metis prod_cases3)
  then have n: "n \<le> length bs" using le by (auto simp: next_instr_def Let_def split: if_splits prod.splits)
  then have s': "symbol_of lt lnb bs = (l, h, n)" using code_table.symbol_shrink [OF lt, of bs ext] s by simp
  define x where "x = unat (c_op h AND 15)"
  show ?thesis
  proof (cases "c_op h = 0 \<or> c_op h AND 32 \<noteq> 0 \<or> c_op h AND 64 \<noteq> 0")
    case True
    then show ?thesis using s s' by (auto simp: next_instr_def)
  next
    case False
    let ?d = "\<lambda>cs. next_dist dt dnb (unat (c_val h) + val_of (take x (drop n cs))) (drop (n + x) cs)"
    have e: "next_instr lt lnb dt dnb cs = (fst (?d cs), n + x + snd (?d cs))" if "symbol_of lt lnb cs = (l, h, n)" for cs
      using False that by (simp add: next_instr_def Let_def x_def split: prod.splits)
    have le': "n + x + snd (?d (bs @ ext)) \<le> length bs" using le unfolding e [OF s] by (simp only: snd_conv)
    have v: "take x (drop n (bs @ ext)) = take x (drop n bs)" "drop (n + x) (bs @ ext) = drop (n + x) bs @ ext" using le' by simp_all
    have "n + x + snd (next_dist dt dnb (unat (c_val h) + val_of (take x (drop n bs))) (drop (n + x) bs @ ext)) \<le> length bs"
      using le' by (simp only: v)
    then have "?d bs = ?d (bs @ ext)" unfolding v by (intro next_dist_shrink [OF dt]) simp
    then show ?thesis using e [OF s] e [OF s'] by simp
  qed
qed

lemma pend_shrink:
  assumes "tables_ok s" and "i_mode s \<in> {LEN, LENEXT, DIST, DISTEXT}" and le: "snd (pend s (bs @ ext)) \<le> length bs"
  shows "pend s bs = pend s (bs @ ext)"
proof -
  have t: "code_table (len_tab s) (h_lenbits s) LENS" "code_table (dist_tab s) (h_distbits s) DISTS"
    using assms(1) by (auto simp: tables_ok_def)
  consider "i_mode s = LEN" | "i_mode s = LENEXT" | "i_mode s = DIST" | "i_mode s = DISTEXT" using assms(2) by blast
  then show ?thesis
  proof cases
    case 1
    then show ?thesis using le next_instr_shrink [OF t] by (simp add: pend_def nexti_def)
  next
    case 2
    let ?x = "i_extra s"
    have x: "?x \<le> length bs" using 2 le by (simp add: pend_def)
    then have "next_dist (dist_tab s) (h_distbits s) (i_length s + val_of (take ?x bs)) (drop ?x bs)
      = next_dist (dist_tab s) (h_distbits s) (i_length s + val_of (take ?x bs)) (drop ?x bs @ ext)"
      using 2 le by (intro next_dist_shrink [OF t(2)]) (simp add: pend_def)
    then show ?thesis using 2 x by (simp add: pend_def)
  next
    case 3
    then show ?thesis using le next_dist_shrink [OF t(2)] by (simp add: pend_def)
  next
    case 4
    then show ?thesis using le by (simp add: pend_def)
  qed
qed

section \<open>One symbol\<close>

lemma rem_drop_next:
  assumes "rem t = drop n (rem s)" and "length (r_next t) \<le> length (r_next s)"
  shows "\<exists>j. r_next t = drop j (r_next s)"
proof (cases "r_next t = []")
  case False
  define j where "j = length (r_next s) - length (r_next t)"
  have dr: "drop (8 * k) (bytes_bits bs) = bytes_bits (drop k bs)" for k and bs :: "byte list"
  proof (induction k arbitrary: bs)
    case (Suc k)
    then show ?case by (cases bs) simp_all
  qed simp
  have l: "r_bits t + 8 * length (r_next t) = r_bits s + 8 * length (r_next s) - n"
    using arg_cong [OF assms(1), of length] by (simp add: length_rem)
  have "0 < length (r_next t)" using False by simp
  then have n: "n + r_bits t = r_bits s + 8 * j" using l assms(2) unfolding j_def diff_mult_distrib2 by linarith
  have "bytes_bits (r_next t) = drop (r_bits t) (rem t)" by (simp add: rem_def)
  also have "\<dots> = drop (r_bits s + 8 * j) (rem s)" unfolding assms(1) drop_drop using n by (simp add: add.commute)
  also have "\<dots> = bytes_bits (drop j (r_next s))" by (simp add: rem_def dr)
  finally show ?thesis using bytes_bits_inject by blast
qed (auto intro: exI [of _ "length (r_next s)"])

lemma quiet_stream:
  assumes "quiet t = quiet s"
  shows "stream_id t = stream_id s" "z_total_out (m_strm t) = z_total_out (m_strm s)"
proof -
  note q = quiet_strm [OF assms]
  show "stream_id t = stream_id s"
    using arg_cong [OF q, of z_addr] arg_cong [OF q, of z_zalloc] arg_cong [OF q, of z_zfree] arg_cong [OF q, of z_in_null]
      arg_cong [OF q, of z_out_null] arg_cong [OF q, of z_total_in] quiet_fields [OF assms]
    by (simp add: stream_id_def)
  show "z_total_out (m_strm t) = z_total_out (m_strm s)" using arg_cong [OF q, of z_total_out] by simp
qed

lemma quiet_basic:
  assumes "quiet t = quiet s" and "basic s" and "rinv t" and "length (ins_buffer (m_ins t)) = 6"
  shows "basic t"
  using quiet_fields [OF assms(1)] assms(2-) by (simp add: basic_def sizes_def)

lemma quiet_in_block: "quiet t = quiet s \<Longrightarrow> in_block t = in_block s"
  using quiet_tables(1) [of t s] quiet_fields(15) [of t s] by (simp add: in_block_def)

lemma quiet_moves:
  assumes "quiet t = quiet s" and "m_put t = m_put s" "m_left t = m_left s" and "\<exists>j. r_next t = drop j (r_next s)"
  shows "moves s t"
  using quiet_stream [OF assms(1)] quiet_fields [OF assms(1)] assms(2-) by (auto simp: moves_def intro: exI [of _ "[]"])

abbreviation (input) "sym_modes \<equiv> {LEN, LENEXT, DIST, DISTEXT}"

lemma sym_round:
  assumes bs: "basic s" and ib: "in_block s" and m: "i_mode s \<in> sym_modes" and r: "m_ret s = 0"
    and b: "r_bits s < 8 + snd (pend s (rem s))" and res: "sym_result s res"
  shows "round_ok flush (mu s) s res"
proof (cases "snd (pend s (rem s)) \<le> length (rem s)")
  case True
  then have "sym_done s (pend s (rem s)) res" using res by (simp add: sym_result_def)
  then obtain t where t: "res = Next t" "quiet t = quiet s" "rem t = drop (snd (pend s (rem s))) (rem s)" "rinv t" "r_bits t < 8"
    "m_put t = m_put s" "m_left t = m_left s"
    and c: "case fst (pend s (rem s)) of
       Inl m \<Rightarrow> i_mode t = BAD \<and> z_msg (m_strm t) = Some m \<and> m_ins t = m_ins s
     | Inr i \<Rightarrow> z_msg (m_strm t) = z_msg (m_strm s) \<and>
         (case i of
            Lit _ \<Rightarrow> i_mode t = LIT \<and> ins_loaded s t (instr_bytes i) 0
          | Match _ _ \<Rightarrow> i_mode t = SENDINS \<and> ins_loaded s t (instr_bytes i) 1
          | End_block \<Rightarrow> i_mode t = SETENDOFBLOCK \<and> m_ins t = m_ins s)"
    unfolding sym_done_def by blast
  have len: "length (ins_buffer (m_ins s)) = 6" using bs by (simp add: basic_def)
  have ld: "length (ins_buffer (m_ins t)) = 6 \<and> sending t \<and> ins_type (m_ins t) = ty" if l: "ins_loaded s t (instr_bytes i) ty" for i ty
  proof -
    obtain vs where vs: "map ucast vs = instr_bytes i" "m_ins t = \<lparr>ins_buffer = vs @ drop (length vs) (ins_buffer (m_ins s)),
       ins_buffer_index = 0, ins_buffer_have = length vs, ins_type = ty\<rparr>" using l by (auto simp: ins_loaded_def)
    have "length vs = length (instr_bytes i)" using vs(1) by (metis length_map)
    then have "1 \<le> length vs" "length vs \<le> 4" using instr_bytes_len [of i] by simp_all
    then show ?thesis using vs(2) len by (auto simp: sending_def)
  qed
  have "length (rem t) = length (rem s) - snd (pend s (rem s))" using t(3) by simp
  then have "length (r_next t) \<le> length (r_next s)" using b by (simp add: length_rem)
  then have mv: "moves s t" by (intro quiet_moves [OF t(2,6,7)] rem_drop_next [OF t(3)])
  have it: "in_block t" using quiet_in_block [OF t(2)] ib by simp
  have rt: "m_ret t = 0" using quiet_fields(33) [OF t(2)] r by simp
  have "mode_ok t \<and> length (ins_buffer (m_ins t)) = 6 \<and> mode_rank (i_mode t) < 7"
  proof (cases "fst (pend s (rem s))")
    case (Inl msg)
    then show ?thesis using c len by (auto simp: mode_ok_def mode_rank_def)
  next
    case (Inr i)
    show ?thesis
    proof (cases i)
      case (Lit v)
      then show ?thesis using c Inr ld [of i 0] t(5) it by (auto simp: mode_ok_def mode_rank_def)
    next
      case (Match l d)
      then show ?thesis using c Inr ld [of i 1] t(5) it by (auto simp: mode_ok_def mode_rank_def)
    next
      case End_block
      then show ?thesis using c Inr len t(5) by (auto simp: mode_ok_def mode_rank_def)
    qed
  qed
  moreover have "mode_rank (i_mode s) = 7" using m by (auto simp: mode_rank_def)
  ultimately show ?thesis using t(1,7) mv rt quiet_basic [OF t(2) bs t(4)] by (simp add: round_ok_def inflate_inv_def mu_def)
next
  case False
  then have "sym_wait s res" using res by (simp add: sym_result_def)
  then obtain t c where t: "res = Leave t" "adv c s t" "r_next t = []" "i_mode t \<in> sym_modes"
    "i_mode t = LENEXT \<or> i_mode t = DISTEXT \<longrightarrow> i_extra t \<le> 15" "length (rem t) < snd (pend t (rem t))"
    unfolding sym_wait_def by blast
  have a: "quiet t = quiet s" "rinv t" "m_put t = m_put s" "m_left t = m_left s" "m_ins t = m_ins s" using t(2) by (auto simp: adv_def)
  have it: "in_block t" using quiet_in_block [OF a(1)] ib by simp
  have "rem t = held t" using t(3) by (simp add: rem_held)
  then have "r_bits t < snd (pend t (held t @ ext))" for ext
    using pend_shrink [of t "held t" ext] it t(4,6) by (fastforce simp: in_block_def)
  then have "r_bits t < 8 + snd (pend t (held t @ ext))" for ext by (meson trans_less_add2)
  then have "mode_ok t" using t(4,5) it by (auto simp: mode_ok_def)
  moreover have "moves s t" by (rule quiet_moves [OF a(1,3,4)]) (use t(3) in \<open>auto intro: exI [of _ "length (r_next s)"]\<close>)
  moreover have "basic t" using quiet_basic [OF a(1) bs a(2)] a(5) bs by (simp add: basic_def)
  moreover have "m_ret t = 0" using quiet_fields(33) [OF a(1)] r by simp
  ultimately show ?thesis using t(1,3) by (simp add: round_ok_def inflate_inv_def stuck_def)
qed

lemma sym_mode_facts:
  assumes "inflate_inv s" and "i_mode s \<in> sym_modes"
  shows "basic s" "in_block s" "header_flag s = 0" "rinv s" "tables_ok s" "code_table (dist_tab s) (h_distbits s) DISTS"
    "r_bits s < 8 + snd (pend s (rem s))" "i_mode s = LENEXT \<or> i_mode s = DISTEXT \<Longrightarrow> i_extra s \<le> 15"
  using assms by (auto simp: inflate_inv_def mode_ok_def in_block_def basic_def tables_ok_def rem_held)

lemma ext_rounds:
  assumes "inflate_inv s" and "m_ret s = 0"
  shows "i_mode s = DISTEXT \<Longrightarrow> round_ok flush (mu s) s (inflate_DISTEXT s)"
    and "i_mode s = DIST \<Longrightarrow> round_ok flush (mu s) s (inflate_DIST s)"
    and "i_mode s = LENEXT \<Longrightarrow> round_ok flush (mu s) s (inflate_LENEXT s)"
proof -
  have r: "round_ok flush (mu s) s res" if "sym_result s res" "i_mode s \<in> sym_modes" for res
    using sym_round [OF _ _ that(2) assms(2) _ that(1)] sym_mode_facts [OF assms(1) that(2)] by blast
  show "round_ok flush (mu s) s (inflate_DISTEXT s)" if m: "i_mode s = DISTEXT"
    using r [OF DISTEXT_result] sym_mode_facts [OF assms(1)] m by (simp add: pend_def)
  show "round_ok flush (mu s) s (inflate_DIST s)" if m: "i_mode s = DIST"
    using r [OF DIST_result] sym_mode_facts [OF assms(1)] m by simp
  show "round_ok flush (mu s) s (inflate_LENEXT s)" if m: "i_mode s = LENEXT"
    using r [OF LENEXT_result] sym_mode_facts [OF assms(1)] m by simp
qed

lemma instrs_bytes_pos: "js \<noteq> [] \<Longrightarrow> 0 < length (instrs_bytes js)"
  using instr_bytes_len [of "hd js"] by (cases js) (auto simp: Suc_le_eq)

lemma LEN_round:
  assumes "inflate_inv s" and m: "i_mode s = LEN" and r: "m_ret s = 0"
  shows "round_ok flush (mu s) s (inflate_LEN s)"
proof (cases "length (r_next s) \<ge> 6 \<and> m_left s \<ge> 258")
  case False
  have f: "in_block s" "basic s" "header_flag s = 0" "rinv s" "tables_ok s" "r_bits s < 8 + snd (nexti s (rem s))"
    using sym_mode_facts [OF assms(1)] m by (auto simp: pend_def)
  have "sym_result s (inflate_LEN_slow s)" by (rule LEN_slow_result [OF f(3-5) m f(6)])
  then have "round_ok flush (mu s) s (inflate_LEN_slow s)"
    using sym_round [OF f(2,1) _ r] m f(6) by (simp add: pend_def)
  moreover have "inflate_LEN s = inflate_LEN_slow s" using False by (auto simp: inflate_LEN_def)
  ultimately show ?thesis by simp
next
  case True
  have f: "in_block s" "basic s" "header_flag s = 0" "rinv s" "tables_ok s" "r_bits s < 8 + snd (nexti s (rem s))"
    using sym_mode_facts [OF assms(1)] m by (auto simp: pend_def)
  obtain t js k n where t: "inflate_LEN s = Next t" "quiet t = quiet s" "rem t = drop n (rem s)" "rinv t" "r_bits t < 8"
    "m_left t + length (m_put t) = m_left s + length (m_put s)" "\<exists>j. r_next t = drop j (r_next s)" "m_ins t = m_ins s"
    and c: "k = n \<and> js \<noteq> [] \<and> i_mode t = LEN \<and> z_msg (m_strm t) = z_msg (m_strm s) \<and> m_put t = m_put s @ instrs_bytes js \<or>
     nexti s (drop k (rem s)) = (Inr End_block, n - k) \<and> i_mode t = TYPE_0 \<and> z_msg (m_strm t) = z_msg (m_strm s) \<and>
       m_put t = m_put s @ instrs_bytes js @ [0xaa, 0xff] \<or>
     (\<exists>m. nexti s (drop k (rem s)) = (Inl m, n - k) \<and> i_mode t = BAD \<and> z_msg (m_strm t) = Some m \<and>
       m_put t = m_put s @ instrs_bytes js)"
    by (rule inflate_LEN_fast [OF f(5,4) conjunct1 [OF True] conjunct2 [OF True] disjI2 [OF f(6)] m])
  obtain w where w: "m_put t = m_put s @ w" "m_left s = m_left t + length w" using c t(6) by auto
  have mv: "moves s t" using quiet_stream [OF t(2)] quiet_fields [OF t(2)] w t(7) by (auto simp: moves_def)
  have bt: "basic t" by (rule quiet_basic [OF t(2) f(2) t(4)]) (use t(8) f(2) in \<open>simp add: basic_def\<close>)
  have it: "in_block t" using quiet_in_block [OF t(2)] f(1) by simp
  have rt: "m_ret t = 0" using quiet_fields(33) [OF t(2)] r by simp
  have rk: "mode_rank LEN = 7" "mode_rank BAD = 0" "mode_rank TYPE_0 = 10" by (simp_all add: mode_rank_def)
  from c consider "i_mode t = LEN" "w \<noteq> []" | "i_mode t = TYPE_0" "w \<noteq> []" | "i_mode t = BAD"
    using w(1) instrs_bytes_pos [of js] by auto
  then have "mode_ok t \<and> mu t < mu s"
  proof cases
    case 1
    then have "0 < length w" by simp
    then show ?thesis using 1 it t(5) w(2) m rk by (simp add: mode_ok_def mu_def)
  next
    case 2
    then show ?thesis using t(5) w(2) m rk by (cases w) (simp_all add: mode_ok_def mu_def)
  next
    case 3
    then show ?thesis using w(2) m rk by (simp add: mode_ok_def mu_def)
  qed
  then show ?thesis using t(1) bt mv rt by (simp add: round_ok_def inflate_inv_def)
qed

lemma LEN_0_round:
  assumes "inflate_inv s" and "i_mode s = LEN_0" and "m_ret s = 0"
  shows "round_ok flush (mu s) s (inflate_LEN_0 s)"
proof -
  let ?t = "s\<lparr>i_mode := LEN\<rparr>"
  have "inflate_inv ?t" using assms by (simp add: inflate_inv_def mode_ok_def)
  then have "round_ok flush (mu ?t) ?t (inflate_LEN ?t)" using assms(3) by (intro LEN_round) simp_all
  moreover have "mu ?t = mu s" using assms(2) by (simp add: mu_def mode_rank_def)
  ultimately show ?thesis using round_ok_trans [OF mode_moves] by (simp add: inflate_LEN_0_def)
qed

lemma LIT_round:
  assumes "inflate_inv s" and "i_mode s = LIT" and "m_ret s = 0"
  shows "round_ok flush (mu s) s (inflate_LIT s)"
proof -
  have "mode_ok (s\<lparr>i_mode := SENDINS\<rparr>)" using assms by (simp add: inflate_inv_def mode_ok_def sending_def)
  then show ?thesis using assms mode_moves by (simp add: inflate_LIT_def round_ok_def inflate_inv_def mu_def mode_rank_def)
qed

end
