(* ===== verification/Inflate_Rounds_Hdr.thy ===== *)
theory Inflate_Rounds_Hdr
  imports Inflate_Rounds_Sym
begin

text \<open>The cases of \<^verbatim>\<open>j_inflate\<close> that read block headers keep the invariant.\<close>

section \<open>Dynamic blocks\<close>

lemma codes_round:
  assumes bs: "basic s" and ct: "counts_ok s" and le: "list_all (\<lambda>l. l \<le> 15) (take (total_lens s) (h_lens s))"
    and b: "r_bits s < 8" and hr: "hdr_room 64 s" and hi: "header_index s = 0" and m: "mode_rank (i_mode s) = 9"
  shows "round_ok flush (mu s) s (inflate_codes flush s)"
proof -
  have n: "257 \<le> h_nlen s" "h_nlen s \<le> 286" "1 \<le> h_ndist s" "h_ndist s \<le> 30" "i_tree_type s = 2" using ct by (auto simp: counts_ok_def)
  have z: "sizes s" using bs by (simp add: basic_def)
  have frame: "basic t \<and> moves s t \<and> r_bits t = r_bits s \<and> m_left t = m_left s \<and> hdr_room 64 t \<and> header_index t = header_index s \<and>
      i_tree_type t = i_tree_type s \<and> header_flag t = header_flag s" if bt: "built s t" for t
  proof -
    obtain tab nx wk lc lb dc db rt where t: "t = s\<lparr>h_codes := tab, h_next := nx, h_work := wk, h_lencode := lc, h_lenbits := lb,
       h_distcode := dc, h_distbits := db, m_ret := rt\<rparr>" and zt: "sizes t" using bt unfolding built_def by blast
    have "basic t" using bs zt by (simp add: basic_def rinv_def t)
    moreover have "hdr_room 64 t" using hr by (simp add: t hdr_room_def hinv_def hroom_def as_writer_def)
    moreover have "moves s t" by (auto simp: moves_def stream_id_def t intro: exI [of _ 0])
    ultimately show ?thesis by (simp add: t)
  qed
  show ?thesis
  proof (cases rule: inflate_codes_spec [OF z n(1-4) le, of flush, case_names ok bad])
    case (ok t)
    let ?t = "t\<lparr>i_mode := SEND_HEADER\<rparr>"
    note f = frame [OF ok(2)]
    have h1: "header_flag s = 1" using hr by (simp add: hdr_room_def)
    have "inflate_inv ?t" using f ok(3) b hi h1 by (simp add: inflate_inv_def mode_ok_def)
    moreover have "moves s ?t" using f moves_trans [OF _ mode_moves] by blast
    moreover have "mu ?t < mu s" using f m by (simp add: mu_def mode_rank_def)
    ultimately show ?thesis using ok(1,5) by (simp add: round_ok_def stuck_def)
  next
    case (bad t msg)
    note f = frame [OF bad(2)]
    show ?thesis unfolding bad(1) by (rule bad_round) (use f m in \<open>simp_all add: mu_def\<close>)
  qed
qed

lemma past_block:
  fixes s t :: inflate_run
  assumes "recorded.past c k s t"
  shows "m_left t = m_left s" "i_mode t = i_mode s" "m_ret t = m_ret s" "header_index t = header_index s" "counts_ok t = counts_ok s"
    "h_nlen t = h_nlen s" "h_ndist t = h_ndist s" "mu t = mu s" "i_ncode t = i_ncode s" "hdr_room k t" "rinv t"
  using hdr_fields [OF past_rest [OF assms]] assms by (simp_all add: counts_ok_def mu_def recorded.past_def)

lemma CODELENS_round:
  assumes "inflate_inv s" and m: "i_mode s = CODELENS" and r: "m_ret s = 0"
  shows "round_ok flush (mu s) s (inflate_CODELENS flush s)"
proof -
  have bs: "basic s" and ms: "hdr_room (7 * (total_lens s - h_have s) + 14 + 64) s" "counts_ok s" "h_have s < total_lens s"
    "code_table (code_at s (h_lencode s)) (h_lenbits s) CODES" "list_all (\<lambda>l. l \<le> 15) (take (h_have s) (h_lens s))"
    "\<forall>ext. r_bits s < 8 + snd (cl_sym (code_at s (h_lencode s)) (h_lenbits s) (held s @ ext))" "header_index s = 0"
    using assms by (auto simp: inflate_inv_def mode_ok_def add.assoc)
  have ri: "rinv s" and len: "length (h_lens s) = 320" using bs by (auto simp: basic_def sizes_def)
  have tl: "total_lens s \<le> length (h_lens s)" using ms(2) len by (simp add: counts_ok_def)
  have st: "recorded.cl_stop 64 s (codelens_loop DROPBITS (total_lens s - h_have s) s)"
    by (rule recorded.codelens_loop_spec [OF ri ms(4) _ tl ms(1)]) (use ms in \<open>auto simp: rem_held\<close>)
  show ?thesis
  proof (cases "codelens_loop DROPBITS (total_lens s - h_have s) s")
    case (CL_more t)
    then obtain c where p: "recorded.past c (14 + 64) s t" and t: "r_bits t < 8" "h_have t = total_lens s" "length (h_lens t) = length (h_lens s)"
      "cl_reads (code_at s (h_lencode s)) (h_lenbits s) (total_lens s) (rem s) (take (h_have s) (h_lens s)) (rem t) (take (total_lens s) (h_lens t))"
      using st by (auto simp: recorded.cl_stop_def Let_def)
    note f = past_block [OF p]
    have bt: "basic t" by (rule past_basic [OF p bs]) (use t(3) len in simp)
    have le: "list_all (\<lambda>l. l \<le> 15) (take (total_lens t) (h_lens t))" using cl_reads_le [OF t(4) ms(5)] f by simp
    have hr: "hdr_room 64 t" by (rule recorded.room_mono [OF f(10)]) simp
    have "round_ok flush (mu s) t (inflate_codes flush t)"
      using codes_round [OF bt _ le t(1) hr] f ms(2,7) m by (simp add: mode_rank_def)
    moreover have "round_ok flush (mu s) t (bad ''invalid code -- missing end-of-block'' t)"
      by (rule bad_round [OF bt moves_refl]) (use f m in \<open>simp_all add: mu_def mode_rank_def\<close>)
    ultimately have "round_ok flush (mu s) t (inflate_CODELENS flush s)" using CL_more by (simp add: inflate_CODELENS_def)
    then show ?thesis by (rule round_ok_trans [OF past_moves [OF p]])
  next
    case (CL_short t)
    then obtain c where p: "recorded.past c (7 * (total_lens s - h_have t) + 14 + 64) s t" and t: "r_next t = []" "h_have t < total_lens s"
      "length (h_lens t) = length (h_lens s)" "length (rem t) < snd (cl_sym (code_at t (h_lencode t)) (h_lenbits t) (rem t))"
      "cl_reads (code_at s (h_lencode s)) (h_lenbits s) (total_lens s) (rem s) (take (h_have s) (h_lens s)) (rem t) (take (h_have t) (h_lens t))"
      using st by (auto simp: recorded.cl_stop_def Let_def)
    note f = past_block [OF p]
    have bt: "basic t" by (rule past_basic [OF p bs]) (use t(3) len in simp)
    have ct: "code_table (code_at t (h_lencode t)) (h_lenbits t) CODES"
      using ms(4) recorded.code_at_past [OF p] recorded.past_huff [OF p] by simp
    have "rem t = held t" using t(1) by (simp add: rem_held)
    then have "r_bits t < 8 + snd (cl_sym (code_at t (h_lencode t)) (h_lenbits t) (held t @ ext))" for ext
      using code_table.cl_sym_prefix [OF ct, of "held t" ext] t(4) by fastforce
    then have "mode_ok t" using f m ms(2,7) t(2) ct cl_reads_le [OF t(5) ms(5)] by (simp add: mode_ok_def add.assoc)
    then show ?thesis using CL_short bt past_moves [OF p] f r t(1) by (simp add: inflate_CODELENS_def round_ok_def inflate_inv_def stuck_def)
  next
    case (CL_bad t)
    then obtain c where p: "recorded.past c 64 s t" and t: "length (h_lens t) = length (h_lens s)"
      using st by (auto simp: recorded.cl_stop_def Let_def)
    have bt: "basic t" by (rule past_basic [OF p bs]) (use t len in simp)
    have "round_ok flush (mu s) s (bad ''invalid bit length repeat'' t)"
      by (rule bad_round [OF bt past_moves [OF p]]) (use past_block [OF p] m in \<open>simp_all add: mu_def mode_rank_def\<close>)
    then show ?thesis using CL_bad by (simp add: inflate_CODELENS_def)
  next
    case CL_undef
    then show ?thesis using st by (simp add: recorded.cl_stop_def Let_def)
  qed
qed

lemma LENLENS_round:
  assumes "inflate_inv s" and m: "i_mode s = LENLENS" and r: "m_ret s = 0"
  shows "round_ok flush (mu s) s (inflate_LENLENS flush s)"
proof -
  define k where "k = i_ncode s - h_have s"
  have bs: "basic s" and ms: "hdr_room (3 * (19 - h_have s) + 2300) s" "r_bits s < 8" "counts_ok s" "h_have s < i_ncode s" "i_ncode s \<le> 19"
    "list_all (\<lambda>l. l \<le> 7) (ordered (h_have s) (h_lens s))" "header_index s = 0"
    using assms by (auto simp: inflate_inv_def mode_ok_def)
  have ri: "rinv s" and len: "length (h_lens s) = 320" using bs by (auto simp: basic_def sizes_def)
  have "hdr_room (3 * k + (3 * (19 - i_ncode s) + 2300)) s"
    by (rule recorded.room_mono [OF ms(1)]) (use ms(4,5) in \<open>simp add: k_def\<close>)
  note spec = recorded.lenlens_loop_spec [OF ri this _ _ ms(2)]
  have sp: "if 3 * k \<le> length (rem s)
    then \<exists>t. lenlens_loop DROPBITS k s = Got t \<and> recorded.past (3 * k) (3 * (19 - i_ncode s) + 2300) s t \<and> r_bits t < 8 \<and> h_have t = h_have s + k \<and>
      length (h_lens t) = length (h_lens s) \<and> ordered (h_have t) (h_lens t) = ordered (h_have s) (h_lens s) @ fields3 k (rem s)
    else \<exists>t j. lenlens_loop DROPBITS k s = Short t \<and> recorded.past (3 * j) (3 * (k - j) + (3 * (19 - i_ncode s) + 2300)) s t \<and> j < k \<and>
      r_next t = [] \<and> length (rem t) < 3 \<and> h_have t = h_have s + j \<and> length (h_lens t) = length (h_lens s) \<and>
      ordered (h_have t) (h_lens t) = ordered (h_have s) (h_lens s) @ fields3 j (rem s)"
    by (rule spec) (use ms len in \<open>simp_all add: k_def\<close>)
  show ?thesis
  proof (cases "3 * k \<le> length (rem s)")
    case False
    then obtain t j where t: "lenlens_loop DROPBITS k s = Short t" "recorded.past (3 * j) (3 * (k - j) + (3 * (19 - i_ncode s) + 2300)) s t" "j < k"
      "r_next t = []" "length (rem t) < 3" "h_have t = h_have s + j" "length (h_lens t) = length (h_lens s)"
      "ordered (h_have t) (h_lens t) = ordered (h_have s) (h_lens s) @ fields3 j (rem s)"
      using sp by auto
    note f = past_block [OF t(2)]
    have bt: "basic t" by (rule past_basic [OF t(2) bs]) (use t(7) len in simp)
    have "hdr_room (3 * (19 - h_have t) + 2300) t"
      by (rule recorded.room_mono [OF f(10)]) (use t(3,6) ms(5) in \<open>simp add: k_def\<close>)
    then have "mode_ok t" using f m ms t(3,5,6,8) fields3_le [of j "rem s"] by (simp add: mode_ok_def length_rem k_def)
    then show ?thesis using t(1,4) bt past_moves [OF t(2)] f r
      by (simp add: inflate_LENLENS_def k_def [symmetric] round_ok_def inflate_inv_def stuck_def)
  next
    case True
    then obtain t where t: "lenlens_loop DROPBITS k s = Got t" "recorded.past (3 * k) (3 * (19 - i_ncode s) + 2300) s t" "r_bits t < 8"
      "h_have t = i_ncode s" "length (h_lens t) = 320" "ordered (h_have t) (h_lens t) = ordered (h_have s) (h_lens s) @ fields3 k (rem s)"
      using sp len ms(4) by (auto simp: k_def)
    have have19: "h_have t + (19 - h_have t) = 19" using t(4) ms(5) by simp
    define u where "u = lenlens_pad (19 - h_have t) t"
    have up: "recorded.past (3 * k) (3 * (19 - i_ncode s) + 2300) s u" "r_bits u < 8" "length (h_lens u) = 320"
      "ordered 19 (h_lens u) = ordered (h_have t) (h_lens t) @ replicate (19 - h_have t) 0"
      using recorded.lenlens_pad_spec [OF have19, of "3 * k" "3 * (19 - i_ncode s) + 2300" s] t(2,3,5) by (simp_all add: u_def)
    note f = past_block [OF up(1)]
    have bu: "basic u" by (rule past_basic [OF up(1) bs up(3)])
    have o7: "list_all (\<lambda>l. l \<le> 7) (take 19 (h_lens u))"
      by (rule ordered_all) (use up(3,4) t(6) ms(6) fields3_le [of k "rem s"] in \<open>auto simp: list_all_iff\<close>)
    have z: "length (h_work u) = 288" "length (h_codes u) = ENOUGH" using bu by (auto simp: basic_def sizes_def)
    have "table_args CODES (h_lens u) 19 (h_codes u) 0 7 (h_work u) (replicate 19 (ct (0, 0)))"
      using o7 z up(3) by (simp add: table_args_def max_syms_def space_of_def)
    from table_built [OF this] obtain v where v: "inflate_table CODES (h_lens u) 19 (h_codes u) 0 7 (h_work u) = Some v"
      "length (to_tab v) = ENOUGH" "length (to_work v) = 288"
      "to_ret v = 0 \<Longrightarrow> code_table (part_of 0 (to_table v) (to_tab v)) (to_bits v) CODES"
      using z by metis
    define w where "w = u\<lparr>h_lencode := Codes 0, m_ret := to_ret v, h_codes := to_tab v, h_next := to_table v, h_work := to_work v, h_lenbits := to_bits v\<rparr>"
    have run: "inflate_LENLENS flush s = (if to_ret v \<noteq> 0 then bad ''invalid code lengths set'' w
        else inflate_CODELENS flush (w\<lparr>h_have := 0, i_mode := CODELENS\<rparr>))"
      using t(1) v(1) by (simp add: inflate_LENLENS_def k_def [symmetric] u_def [symmetric] Let_def table_result_def w_def)
    have bw: "basic w" using bu v(2,3) by (simp add: basic_def sizes_def rinv_def w_def)
    have "moves u w" by (auto simp: moves_def stream_id_def w_def intro: exI [of _ 0])
    then have mw: "moves s w" using moves_trans past_moves [OF up(1)] by blast
    have left: "m_left w = m_left s" using f by (simp add: w_def)
    show ?thesis
    proof (cases "to_ret v = 0")
      case False
      have "round_ok flush (mu s) s (bad ''invalid code lengths set'' w)"
        by (rule bad_round [OF bw mw]) (use left m in \<open>simp_all add: mu_def mode_rank_def\<close>)
      then show ?thesis using run False by simp
    next
      case ok: True
      define x where "x = w\<lparr>h_have := 0, i_mode := CODELENS\<rparr>"
      have xf: "i_mode x = CODELENS" "m_ret x = 0" "h_have x = 0" "counts_ok x" "header_index x = 0" "r_bits x < 8" "m_left x = m_left s"
        "h_nlen x = h_nlen s" "h_ndist x = h_ndist s"
        using f ms(3,7) up(2) ok left by (simp_all add: x_def w_def counts_ok_def)
      have ct: "code_table (code_at x (h_lencode x)) (h_lenbits x) CODES"
        using code_table_mono [OF v(4) [OF ok], of "nth_opt (to_tab v)"] codes_part [OF _ same_below_refl, of 0]
        by (simp add: x_def w_def code_at_codes)
      have hx: "hdr_room (3 * (19 - i_ncode s) + 2300) x"
        using f(10) by (simp add: x_def w_def hdr_room_def hinv_def hroom_def as_writer_def)
      have hr: "hdr_room (7 * (total_lens x - h_have x) + 78) x"
        by (rule recorded.room_mono [OF hx]) (use xf(3,4) in \<open>simp add: counts_ok_def\<close>)
      have "basic x" using bw by (simp add: basic_def sizes_def rinv_def x_def)
      then have ix: "inflate_inv x" using xf hr ct by (simp add: inflate_inv_def mode_ok_def counts_ok_def)
      have "round_ok flush (mu x) x (inflate_CODELENS flush x)" by (rule CODELENS_round [OF ix xf(1,2)])
      moreover have "mu x = mu s" using xf m by (simp add: mu_def mode_rank_def)
      moreover have "moves w x" by (auto simp: moves_def stream_id_def x_def intro: exI [of _ 0])
      ultimately show ?thesis using run ok mw by (simp add: x_def [symmetric]) (metis moves_trans round_ok_trans)
    qed
  qed
qed

lemma drop_step:
  assumes "basic t" and "hdr_room (n + k) t" and "n \<le> 16" and "n \<le> r_bits t"
  shows "basic (DROPBITS n t)" "hdr_room k (DROPBITS n t)" "moves t (DROPBITS n t)" "rem (DROPBITS n t) = drop n (rem t)"
    "hout (DROPBITS n t) = hout t @ take n (rem t)" "r_bits (DROPBITS n t) = r_bits t - n" "BITS n t = val_of (take n (rem t))"
proof -
  have p: "recorded.past n k t (DROPBITS n t)" using assms by (intro recorded.past_drop) (auto simp: basic_def)
  show "basic (DROPBITS n t)" by (rule past_basic [OF p assms(1)]) (use assms(1) in \<open>simp add: basic_def sizes_def\<close>)
  show "moves t (DROPBITS n t)" by (rule past_moves [OF p])
  show "hdr_room k (DROPBITS n t)" "rem (DROPBITS n t) = drop n (rem t)" "hout (DROPBITS n t) = hout t @ take n (rem t)"
    using p by (auto simp: recorded.past_def)
  show "r_bits (DROPBITS n t) = r_bits t - n" by (simp add: recorded.drop_regs)
  show "BITS n t = val_of (take n (rem t))" using BITS_rem [OF assms(4)] assms(3) by simp
qed

lemma count_upd:
  "basic (t\<lparr>h_nlen := a\<rparr>) = basic t" "basic (t\<lparr>h_ndist := a\<rparr>) = basic t" "basic (t\<lparr>i_ncode := a\<rparr>) = basic t"
  "hdr_room k (t\<lparr>h_nlen := a\<rparr>) = hdr_room k t" "hdr_room k (t\<lparr>h_ndist := a\<rparr>) = hdr_room k t" "hdr_room k (t\<lparr>i_ncode := a\<rparr>) = hdr_room k t"
  "hout (t\<lparr>h_nlen := a\<rparr>) = hout t" "hout (t\<lparr>h_ndist := a\<rparr>) = hout t" "hout (t\<lparr>i_ncode := a\<rparr>) = hout t"
  "rem (t\<lparr>h_nlen := a\<rparr>) = rem t" "rem (t\<lparr>h_ndist := a\<rparr>) = rem t" "rem (t\<lparr>i_ncode := a\<rparr>) = rem t"
  "moves (t\<lparr>h_nlen := a\<rparr>) u = moves t u" "moves (t\<lparr>h_ndist := a\<rparr>) u = moves t u" "moves (t\<lparr>i_ncode := a\<rparr>) u = moves t u"
  for t :: inflate_run
  by (simp_all add: basic_def sizes_def rinv_def hdr_room_def hinv_def hroom_def as_writer_def hout_def rem_def moves_def stream_id_def)

lemma table_counts_spec:
  assumes "basic s" and "hdr_room (14 + k) s" and "14 \<le> r_bits s"
  defines "t \<equiv> table_counts s"
  shows "basic t" "hdr_room k t" "moves s t" "rem t = drop 14 (rem s)" "hout t = hout s @ take 14 (rem s)" "r_bits t = r_bits s - 14"
    "h_nlen t = val_of (take 5 (rem s)) + 257" "h_ndist t = val_of (take 5 (drop 5 (rem s))) + 1" "i_ncode t = val_of (take 4 (drop 10 (rem s))) + 4"
    "i_mode t = i_mode s" "m_ret t = m_ret s" "m_left t = m_left s" "i_tree_type t = i_tree_type s" "header_index t = header_index s"
proof -
  define a where "a = s\<lparr>h_nlen := BITS 5 s + 257\<rparr>"
  define b where "b = (DROPBITS 5 a)\<lparr>h_ndist := BITS 5 (DROPBITS 5 a) + 1\<rparr>"
  define c where "c = (DROPBITS 5 b)\<lparr>i_ncode := BITS 4 (DROPBITS 5 b) + 4\<rparr>"
  have t: "t = DROPBITS 4 c" by (simp add: t_def table_counts_def Let_def a_def b_def c_def)
  have n: "5 + (5 + (4 + k)) = 14 + k" by simp
  have a: "basic a" "hdr_room (5 + (5 + (4 + k))) a" "5 \<le> r_bits a" using assms(1-3) by (simp_all only: n count_upd a_def) simp_all
  note A = drop_step [OF a(1,2) _ a(3)]
  have b: "basic b" "hdr_room (5 + (4 + k)) b" "5 \<le> r_bits b" using A assms(3) by (simp_all add: count_upd b_def a_def)
  note B = drop_step [OF b(1,2) _ b(3)]
  have c: "basic c" "hdr_room (4 + k) c" "4 \<le> r_bits c" using A(6) B assms(3) by (simp_all add: count_upd c_def b_def a_def)
  note C = drop_step [OF c(1,2) _ c(3)]
  have as: "rem a = rem s" "hout a = hout s" "r_bits a = r_bits s" "moves a = moves s" by (simp_all add: a_def count_upd fun_eq_iff)
  have bs: "rem b = drop 5 (rem s)" "hout b = hout s @ take 5 (rem s)" "r_bits b = r_bits s - 5" "moves s b"
    using A(3-6) as by (simp_all add: b_def count_upd moves_def stream_id_def)
  have B3: "moves b (DROPBITS 5 b)" "moves c = moves (DROPBITS 5 b)" using B(3) by (simp_all add: c_def count_upd fun_eq_iff)
  have cs: "rem c = drop 10 (rem s)" "hout c = hout s @ take 5 (rem s) @ take 5 (drop 5 (rem s))" "r_bits c = r_bits s - 10"
    using B(4-6) bs by (simp_all add: c_def count_upd)
  show "basic t" "hdr_room k t" using C by (simp_all add: t)
  have "moves (DROPBITS 5 b) (DROPBITS 4 c)" using C(3) B3(2) by simp
  then show "moves s t" using moves_trans [OF moves_trans [OF bs(4) B3(1)]] by (simp add: t)
  show "rem t = drop 14 (rem s)" "r_bits t = r_bits s - 14" using C(4,6) cs by (simp_all add: t)
  have "take 14 (rem s) = take 5 (rem s) @ take 5 (drop 5 (rem s)) @ take 4 (drop 10 (rem s))"
    using take_add [of 5 9 "rem s"] take_add [of 5 4 "drop 5 (rem s)"] by simp
  then show "hout t = hout s @ take 14 (rem s)" using C(5) cs by (simp add: t)
  have v: "BITS 4 (DROPBITS 5 b) = BITS 4 c" "BITS 5 (DROPBITS 5 a) = BITS 5 b" "BITS 5 s = BITS 5 a"
    by (simp_all add: c_def b_def a_def BITS_def)
  have f: "h_nlen t = BITS 5 s + 257" "h_ndist t = BITS 5 (DROPBITS 5 a) + 1" "i_ncode t = BITS 4 (DROPBITS 5 b) + 4"
    by (simp_all add: t c_def b_def a_def)
  show "h_nlen t = val_of (take 5 (rem s)) + 257" "h_ndist t = val_of (take 5 (drop 5 (rem s))) + 1" "i_ncode t = val_of (take 4 (drop 10 (rem s))) + 4"
    unfolding f v using A(7) B(7) C(7) as bs cs by simp_all
  show "i_mode t = i_mode s" "m_ret t = m_ret s" "m_left t = m_left s" "i_tree_type t = i_tree_type s" "header_index t = header_index s"
    by (simp_all add: t c_def b_def a_def)
qed

lemma TABLE_round:
  assumes "inflate_inv s" and m: "i_mode s = TABLE" and r: "m_ret s = 0"
  shows "round_ok flush (mu s) s (inflate_TABLE flush s)"
proof -
  have bs: "basic s" and ms: "hdr_room (14 + 2386) s" "r_bits s < 14" "i_tree_type s = 2" "header_index s = 0"
    using assms by (auto simp: inflate_inv_def mode_ok_def)
  show ?thesis unfolding inflate_TABLE_def
  proof (rule with_bits_round [OF bs _ r])
    fix rg assume rg: "pulled 14 s rg"
    show "mode_ok (set_regs rg s)" if "snd (snd rg) < 14" using that m ms by (simp add: mode_ok_def recorded.same_regs)
    assume b: "14 \<le> snd (snd rg)" and bb: "basic (set_regs rg s)"
    let ?s = "set_regs rg s"
    define u where "u = table_counts ?s"
    have hr: "hdr_room (14 + 2386) ?s" "14 \<le> r_bits ?s" using ms(1) b by (simp_all add: recorded.same_regs)
    note U = table_counts_spec [OF bb hr, folded u_def]
    define x where "x = u\<lparr>h_have := 0, i_mode := LENLENS\<rparr>"
    have nc: "i_ncode u \<le> 19" using U(9) val_of_less [of "take 4 (drop 10 (rem ?s))"] power_increasing [of "length (take 4 (drop 10 (rem ?s)))" 4 "2::nat"]
      by simp
    have u8: "r_bits u < 8" using U(6) rg ms(2) by (auto simp: pulled_def)
    have "round_ok flush (mu s) ?s (bad ''too many length or distance symbols'' u)"
      by (rule bad_round [OF U(1,3)]) (use U(12) m in \<open>simp_all add: mu_def mode_rank_def\<close>)
    moreover have "round_ok flush (mu s) ?s (inflate_LENLENS flush x)" if lim: "\<not> (h_nlen u > 286 \<or> h_ndist u > 30)"
    proof -
      have bx: "basic x" using U(1) by (simp add: basic_def sizes_def rinv_def x_def)
      have hx: "hdr_room 2386 x" using U(2) by (simp add: x_def hdr_room_def hinv_def hroom_def as_writer_def)
      have xf: "i_mode x = LENLENS" "m_ret x = 0" "h_have x = 0" "counts_ok x" "header_index x = 0" "m_left x = m_left s" "r_bits x < 8"
        "0 < i_ncode x" "i_ncode x \<le> 19" "moves u x"
        using U(7-9,11-14) ms r lim u8 nc by (auto simp: x_def counts_ok_def moves_def stream_id_def intro: exI [of _ 0])
      have "inflate_inv x" using bx xf recorded.room_mono [OF hx, of 2357] by (simp add: inflate_inv_def mode_ok_def ordered_def)
      then have "round_ok flush (mu x) x (inflate_LENLENS flush x)" by (rule LENLENS_round [OF _ xf(1,2)])
      moreover have "mu x = mu s" using xf m by (simp add: mu_def mode_rank_def)
      ultimately show ?thesis using U(3) xf(10) moves_trans round_ok_trans by metis
    qed
    ultimately show "round_ok flush (mu s) ?s (let s1 = table_counts ?s in
      if h_nlen s1 > 286 \<or> h_ndist s1 > 30 then bad ''too many length or distance symbols'' s1
      else inflate_LENLENS flush (s1\<lparr>h_have := 0, i_mode := LENLENS\<rparr>))"
      unfolding Let_def u_def [symmetric] x_def [symmetric] by (simp split: if_split)
  qed simp
qed

section \<open>The type of a block\<close>

definition typedo_body :: "int \<Rightarrow> inflate_run \<Rightarrow> inflate_run step" where
  "typedo_body flush s =
     (let s1 = DROPBITS 1 (s\<lparr>i_last := BITS 1 s\<rparr>); t = BITS 2 s1 in
       if t = 0 then Next (DROPBITS 2 (s1\<lparr>i_mode := STORED, i_tree_type := 0\<rparr>))
       else if t = 1 then
         let s2 = (fixedtables s1)\<lparr>i_tree_type := 1, i_mode := SEND_HEADER\<rparr> in
         if flush = Z_TREES then Leave (DROPBITS 2 s2) else Next (DROPBITS 2 s2)
       else if t = 2 then Next (DROPBITS 2 (s1\<lparr>i_mode := TABLE, i_tree_type := 2\<rparr>))
       else Next (DROPBITS 2 ((set_msg ''invalid block type'' s1)\<lparr>i_mode := BAD\<rparr>)))"

text \<open>\<open>t\<close> is \<open>s\<close> after the three bits of the block type \<open>ty\<close>.\<close>

definition typed :: "inflate_run \<Rightarrow> nat \<Rightarrow> inflate_run \<Rightarrow> bool" where
  "typed s ty t \<longleftrightarrow> basic t \<and> hdr_room 4000 t \<and> moves s t \<and> rem t = drop 3 (rem s) \<and> hout t = hout s @ take 3 (rem s) \<and> r_bits t = r_bits s - 3 \<and>
    i_last t = val_of (take 1 (rem s)) \<and> m_ret t = m_ret s \<and> m_left t = m_left s \<and> m_put t = m_put s \<and> m_ins t = m_ins s \<and>
    header_index t = header_index s \<and> i_wrap t = i_wrap s \<and>
    i_mode t = (if ty = 0 then STORED else if ty = 1 then SEND_HEADER else if ty = 2 then TABLE else BAD) \<and>
    (ty < 3 \<longrightarrow> i_tree_type t = ty) \<and>
    (ty = 1 \<longrightarrow> h_lencode t = Lenfix \<and> h_lenbits t = 9 \<and> h_distcode t = Distfix \<and> h_distbits t = 5)"

lemma typedo_body_spec:
  assumes "basic s" and "hdr_room (1 + (2 + 4000)) s" and "3 \<le> r_bits s"
  obtains t where "typed s (val_of (take 2 (drop 1 (rem s)))) t"
    "typedo_body flush s = (if val_of (take 2 (drop 1 (rem s))) = 1 \<and> flush = Z_TREES then Leave t else Next t)"
proof -
  define a where "a = s\<lparr>i_last := BITS 1 s\<rparr>"
  define b where "b = DROPBITS 1 a"
  define ty where "ty = val_of (take 2 (drop 1 (rem s)))"
  have a: "basic a" "hdr_room (1 + (2 + 4000)) a" "1 \<le> r_bits a" using assms by (simp_all add: a_def)
  note B = drop_step [OF a(1,2) _ a(3), folded b_def]
  have as: "rem a = rem s" "hout a = hout s" "r_bits a = r_bits s" "moves s a" "BITS 1 s = BITS 1 a"
    by (auto simp: a_def hout_def as_writer_def rem_def moves_def stream_id_def BITS_def intro: exI [of _ 0])
  have sb: "moves s b" using moves_trans [OF as(4)] B(3) by simp
  have bf: "rem b = drop 1 (rem s)" "hout b = hout s @ take 1 (rem s)" "r_bits b = r_bits s - 1" using B(4-6) as by simp_all
  have last: "i_last b = val_of (take 1 (rem s))" using B(7) as by (simp add: b_def) (simp add: a_def)
  have ty: "BITS 2 b = ty" using BITS_rem [of 2 b] bf assms(3) by (simp add: ty_def)
  have t3: "take 3 (rem s) = take 1 (rem s) @ take 2 (drop 1 (rem s))" using take_add [of 1 2 "rem s"] by (simp add: numeral_3_eq_3)
  have fin: "typed s ty (DROPBITS 2 c)"
    if c: "basic c" "hdr_room (2 + 4000) c" "moves s c" "rem c = rem b" "hout c = hout b" "r_bits c = r_bits b" "i_last c = i_last b" "m_ret c = m_ret b"
      "m_left c = m_left b" "m_put c = m_put b" "m_ins c = m_ins b" "header_index c = header_index b" "i_wrap c = i_wrap b"
      "i_mode c = (if ty = 0 then STORED else if ty = 1 then SEND_HEADER else if ty = 2 then TABLE else BAD)" "ty < 3 \<longrightarrow> i_tree_type c = ty"
      "ty = 1 \<longrightarrow> h_lencode c = Lenfix \<and> h_lenbits c = 9 \<and> h_distcode c = Distfix \<and> h_distbits c = 5" for c
  proof -
    have r2: "2 \<le> r_bits c" using c(6) bf assms(3) by simp
    note D = drop_step [OF c(1,2) _ r2]
    have sf: "m_ret b = m_ret s" "m_left b = m_left s" "m_put b = m_put s" "m_ins b = m_ins s" "header_index b = header_index s" "i_wrap b = i_wrap s"
      by (simp_all add: b_def a_def)
    show ?thesis unfolding typed_def using D c(7-) moves_trans [OF c(3)] bf last t3 c(4-6) sf by simp
  qed
  have four: "ty = 0 \<or> ty = 1 \<or> ty = 2 \<or> ty = 3"
  proof -
    have "ty < 2 ^ length (take 2 (drop 1 (rem s)))" unfolding ty_def by (rule val_of_less)
    also have "\<dots> \<le> 2 ^ 2" by (rule power_increasing) simp_all
    finally show ?thesis by auto
  qed
  have mv: "moves s (b\<lparr>i_mode := x, i_tree_type := y\<rparr>)" "moves s ((fixedtables b)\<lparr>i_tree_type := y, i_mode := x\<rparr>)"
    "moves s ((set_msg z b)\<lparr>i_mode := x\<rparr>)" for x y z
    using sb by (simp_all add: moves_def stream_id_def fixedtables_def set_msg_def)
  have simps: "basic (fixedtables b) = basic b" "hdr_room k (fixedtables b) = hdr_room k b" "hout (fixedtables b) = hout b"
    "basic (set_msg z b) = basic b" "hdr_room k (set_msg z b) = hdr_room k b" "hout (set_msg z b) = hout b" for k z
    by (simp_all add: fixedtables_def set_msg_def basic_def sizes_def rinv_def hdr_room_def hinv_def hroom_def hout_def as_writer_def)
  have hu: "hout (t\<lparr>i_mode := x\<rparr>) = hout t" "hout (t\<lparr>i_tree_type := y\<rparr>) = hout t" "rem (t\<lparr>i_tree_type := y\<rparr>) = rem t" "rem (fixedtables t) = rem t"
    for t :: inflate_run and x y
    by (simp_all add: hout_def as_writer_def rem_def fixedtables_def)
  show thesis
  proof (rule that)
    let ?c = "if ty = 0 then b\<lparr>i_mode := STORED, i_tree_type := 0\<rparr> else if ty = 1 then (fixedtables b)\<lparr>i_tree_type := 1, i_mode := SEND_HEADER\<rparr>
      else if ty = 2 then b\<lparr>i_mode := TABLE, i_tree_type := 2\<rparr> else (set_msg ''invalid block type'' b)\<lparr>i_mode := BAD\<rparr>"
    show "typedo_body flush s = (if val_of (take 2 (drop 1 (rem s))) = 1 \<and> flush = Z_TREES then Leave (DROPBITS 2 ?c) else Next (DROPBITS 2 ?c))"
      unfolding ty_def [symmetric] typedo_body_def Let_def a_def [symmetric] b_def [symmetric] ty by simp
    show "typed s (val_of (take 2 (drop 1 (rem s)))) (DROPBITS 2 ?c)"
      unfolding ty_def [symmetric]
      by (rule fin) (use four B(1,2) mv in \<open>auto simp: simps hu, auto simp: fixedtables_def set_msg_def\<close>)
  qed
qed

lemma tables_ok_fixed:
  fixes s :: inflate_run
  assumes "h_lencode s = Lenfix" "h_lenbits s = 9" "h_distcode s = Distfix" "h_distbits s = 5"
  shows "tables_ok s"
proof -
  have "code_at s Lenfix = nth_opt lenfix" "code_at s Distfix = nth_opt distfix" by (simp_all add: code_at_def fun_eq_iff)
  then show ?thesis using assms fixed_lens.code_table_axioms fixed_dists.code_table_axioms by (simp add: tables_ok_def)
qed

lemma reset_recorder:
  assumes "basic s0"
  defines "s \<equiv> s0\<lparr>header_flag := 1, header_index := 0, header_have := 0, my_bi_buf := 0, my_bi_valid := 0\<rparr>"
  shows "basic s" "hdr_room 4800 s" "moves s0 s" "hout s = []" "rem s = rem s0"
  using assms by (auto simp: basic_def sizes_def rinv_def hdr_room_def hinv_def hroom_def winv_def wroom_def as_writer_def hout_def wout_def
      rem_def moves_def stream_id_def intro: exI [of _ 0])

lemma TYPEDO_round:
  assumes "inflate_inv s0" and m: "i_mode s0 = TYPE_0 \<or> i_mode s0 = TYPEDO" and r: "m_ret s0 = 0"
  shows "round_ok flush (mu s0) s0 (inflate_TYPEDO flush s0)"
proof -
  define s where "s = s0\<lparr>header_flag := 1, header_index := 0, header_have := 0, my_bi_buf := 0, my_bi_valid := 0\<rparr>"
  have b0: "basic s0" "r_bits s0 < 8" using assms by (auto simp: inflate_inv_def mode_ok_def)
  note R = reset_recorder [OF b0(1), folded s_def]
  have sf: "r_bits s = r_bits s0" "i_mode s = i_mode s0" "m_ret s = 0" "m_left s = m_left s0" "header_index s = 0" "i_last s = i_last s0"
    using r by (simp_all add: s_def)
  have mr: "mu s0 = 16 * m_left s + 10" using m sf by (auto simp: mu_def mode_rank_def)
  have run: "inflate_TYPEDO flush s0 = (if i_last s \<noteq> 0 then Next ((BYTEBITS s)\<lparr>i_mode := CHECK\<rparr>) else with_bits 3 s (typedo_body flush))"
    unfolding inflate_TYPEDO_def s_def [symmetric] typedo_body_def [abs_def] Let_def ..
  have "round_ok flush (mu s0) s (inflate_TYPEDO flush s0)"
  proof (cases "i_last s = 0")
    case False
    let ?t = "(BYTEBITS s)\<lparr>i_mode := CHECK\<rparr>"
    have rs: "rinv s" using R(1) by (simp add: basic_def)
    have "basic (BYTEBITS s)" using R(1) BYTEBITS_rem(2) [OF rs] by (simp add: basic_def sizes_def BYTEBITS_def drop_bits_def)
    moreover have "hdr_room 64 (BYTEBITS s)"
      using recorded.room_mono [OF R(2), of 64] by (simp add: BYTEBITS_def drop_bits_def hdr_room_def hinv_def hroom_def as_writer_def)
    moreover have "r_bits (BYTEBITS s) = 0" using BYTEBITS_rem(5) [OF rs] b0(2) sf by simp
    moreover have "moves s (BYTEBITS s)" by (auto simp: moves_def stream_id_def BYTEBITS_def drop_bits_def intro: exI [of _ 0])
    ultimately show ?thesis unfolding run using False sf mr moves_trans [OF _ mode_moves]
      by (simp add: round_ok_def inflate_inv_def mode_ok_def mu_def mode_rank_def)
  next
    case True
    have "round_ok flush (mu s0) s (with_bits 3 s (typedo_body flush))"
    proof (rule with_bits_round [OF R(1) _ sf(3)])
      fix rg assume rg: "pulled 3 s rg"
      show "mode_ok (set_regs rg s)" if "snd (snd rg) < 3" using that m sf by (auto simp: mode_ok_def)
      assume b: "3 \<le> snd (snd rg)" and bb: "basic (set_regs rg s)"
      let ?s = "set_regs rg s"
      have b3: "3 \<le> r_bits ?s" "r_bits ?s < 11" using b rg sf b0(2) by (auto simp: pulled_def)
      have hr: "hdr_room (1 + (2 + 4000)) ?s" using recorded.room_mono [OF R(2), of 4003] by (simp add: recorded.same_regs)
      obtain t where t: "typed ?s (val_of (take 2 (drop 1 (rem ?s)))) t"
        "typedo_body flush ?s = (if val_of (take 2 (drop 1 (rem ?s))) = 1 \<and> flush = Z_TREES then Leave t else Next t)"
        by (rule typedo_body_spec [OF bb hr b3(1)])
      let ?ty = "val_of (take 2 (drop 1 (rem ?s)))"
      note f = t(1) [unfolded typed_def]
      have h1: "header_flag t = 1" using f by (simp add: hdr_room_def)
      have hrt: "hdr_room k t" if "k \<le> 4000" for k using recorded.room_mono [of 4000 t k] f that by simp
      have fixed: "tables_ok t" if "?ty = 1" using f that by (intro tables_ok_fixed) auto
      consider "?ty = 0" | "?ty = 1" | "?ty = 2" | "?ty \<noteq> 0 \<and> ?ty \<noteq> 1 \<and> ?ty \<noteq> 2" by blast
      then have "mode_ok t"
        by cases (use f b3 sf hrt h1 fixed in \<open>auto simp: mode_ok_def\<close>)
      moreover have "mode_rank (i_mode t) < 10" using f by (simp add: mode_rank_def)
      moreover have "mu t < mu s0" using calculation(2) mr f by (simp add: mu_def)
      ultimately show "round_ok flush (mu s0) ?s (typedo_body flush ?s)"
        unfolding t(2) using f sf by (auto simp: round_ok_def inflate_inv_def stuck_def)
    qed simp
    then show ?thesis using run True by simp
  qed
  then show ?thesis by (rule round_ok_trans [OF R(3)])
qed

lemma TYPE_round:
  assumes "inflate_inv s" and m: "i_mode s = TYPE_0" and r: "m_ret s = 0"
  shows "round_ok flush (mu s) s (inflate_TYPE flush s)"
  using TYPEDO_round [OF assms(1) _ r] assms moves_refl by (auto simp: inflate_TYPE_def round_ok_def stuck_def)

section \<open>Stored blocks\<close>

text \<open>Winding up twice is winding up once, so that case STORED may be entered again.\<close>

lemma windup_room:
  assumes "hdr_room (if my_bi_valid s = 0 then 96 else 112) s"
  shows "hdr_room 96 (my_bi_windup s)" "my_bi_valid (my_bi_windup s) = 0" "hout (my_bi_windup s) = pad8 (hout s)"
proof -
  have r0: "hdr_room 0 s" by (rule recorded.room_mono [OF assms]) simp
  then show "hout (my_bi_windup s) = pad8 (hout s)"
    using hsink.out_windup [of s] by (simp add: hdr_room_def)
  show "my_bi_valid (my_bi_windup s) = 0" using as_writer_fields(2) [of "my_bi_windup s"] by (simp add: as_writer_windup)
  show "hdr_room 96 (my_bi_windup s)"
  proof (cases "my_bi_valid s = 0")
    case True
    have "as_writer (my_bi_windup s) = (as_writer s)\<lparr>bi_buf := 0, bi_valid := 0\<rparr>"
      using True by (simp add: as_writer_windup bi_windup_def Let_def as_writer_fields)
    moreover have "header_buf (my_bi_windup s) = header_buf s" using True by (simp add: my_bi_windup_def)
    moreover have "reg_ok 0 0" by simp
    ultimately show ?thesis using assms True
      by (simp add: hdr_room_def hinv_def hroom_def winv_def wroom_def as_writer_fields)
  qed (use assms hdr_room_windup [of 96 s] in simp)
qed

lemma STORED_round:
  assumes "inflate_inv s0" and m: "i_mode s0 = STORED" and r: "m_ret s0 = 0"
  shows "round_ok flush (mu s0) s0 (inflate_STORED s0)"
proof -
  define s where "s = my_bi_windup (BYTEBITS s0)"
  have b0: "basic s0" and ms: "hdr_room (if my_bi_valid s0 = 0 then 96 else 112) s0" "r_bits s0 < 32" "i_tree_type s0 = 0" "header_index s0 = 0"
    using assms by (auto simp: inflate_inv_def mode_ok_def)
  have rs: "rinv s0" using b0 by (simp add: basic_def)
  have "hdr_room (if my_bi_valid (BYTEBITS s0) = 0 then 96 else 112) (BYTEBITS s0)"
    using ms(1) by (simp add: BYTEBITS_def drop_bits_def hdr_room_def hinv_def hroom_def as_writer_def)
  note W = windup_room [OF this, folded s_def]
  have sf: "i_mode s = STORED" "m_ret s = 0" "m_left s = m_left s0" "i_tree_type s = 0" "header_index s = 0" "h_lens s = h_lens s0"
    "r_next s = r_next s0" "r_bits s \<le> r_bits s0"
    using m r ms BYTEBITS_rem(4,5) [OF rs] by (simp_all add: s_def) (simp add: BYTEBITS_def drop_bits_def)
  have "rinv s" using BYTEBITS_rem(2) [OF rs] by (simp add: s_def rinv_def)
  then have bs: "basic s" using b0 W(1) sf(6)
    by (auto simp: basic_def sizes_def hdr_room_def hinv_def winv_def as_writer_fields s_def)
  have mv: "moves s0 s" using sf(7) by (auto simp: moves_def stream_id_def s_def intro: exI [of _ 0])
  have "round_ok flush (mu s0) s (inflate_STORED s0)"
    unfolding inflate_STORED_def s_def [symmetric]
  proof (rule with_bits_round [OF bs _ sf(2)])
    fix rg assume rg: "pulled 32 s rg"
    have v: "my_bi_valid (set_regs rg s) = 0" using W(2) by (simp add: set_regs_def)
    show "mode_ok (set_regs rg s)" if "snd (snd rg) < 32"
      using that sf W(1) v by (simp add: mode_ok_def recorded.same_regs)
    assume b: "32 \<le> snd (snd rg)" and bb: "basic (set_regs rg s)"
    let ?s = "set_regs rg s"
    let ?u = "?s\<lparr>i_length := unat ((ucast (r_hold ?s) :: uint32) AND 0xffff)\<rparr>"
    let ?t = "(DROPBITS 16 (DROPBITS 16 ?u))\<lparr>i_mode := SEND_HEADER\<rparr>"
    have b40: "snd (snd rg) < 40" using rg sf ms(2) by (auto simp: pulled_def)
    have u: "basic ?u" "hdr_room (16 + (16 + 64)) ?u" "16 \<le> r_bits ?u" "moves ?s ?u"
      using bb W(1) b by (auto simp: recorded.same_regs moves_def stream_id_def intro: exI [of _ 0])
    note A = drop_step [OF u(1,2) _ u(3)]
    have r16: "16 \<le> r_bits (DROPBITS 16 ?u)" using A(6) b by simp
    note B = drop_step [OF A(1,2) _ r16]
    have "round_ok flush (mu s0) ?s (bad ''invalid stored block lengths'' ?s)"
      by (rule bad_round [OF bb moves_refl]) (use sf m in \<open>simp_all add: mu_def mode_rank_def\<close>)
    moreover have "round_ok flush (mu s0) ?s (Next ?t)"
    proof -
      have "moves ?s (DROPBITS 16 (DROPBITS 16 ?u))" using moves_trans [OF u(4)] moves_trans [OF A(3)] B(3) by simp
      then have "moves ?s ?t" using moves_trans mode_moves by blast
      moreover have "inflate_inv ?t" using B(1,2,6) A(6) b40 sf W(1) by (simp add: inflate_inv_def mode_ok_def) (simp add: hdr_room_def)
      ultimately show ?thesis using sf m by (simp add: round_ok_def mu_def mode_rank_def)
    qed
    ultimately show "round_ok flush (mu s0) ?s (if r_hold ?s AND 0xffff \<noteq> drop_bit 16 (r_hold ?s) XOR 0xffff
        then bad ''invalid stored block lengths'' ?s else Next ?t)"
      by (simp split: if_split)
  qed simp
  then show ?thesis by (rule round_ok_trans [OF mv])
qed

end
