(* ===== verification/Inflate_Rounds_Gz.thy ===== *)
theory Inflate_Rounds_Gz
  imports Inflate_Rounds_Hdr
begin

text \<open>The cases of \<^verbatim>\<open>j_inflate\<close> that read a gzip or zlib header keep the invariant.\<close>

lemma upd_head_none [simp]: "i_head s = None \<Longrightarrow> upd_head f s = s"
  by (simp add: upd_head_def)

lemma basic_head: "basic s \<Longrightarrow> i_head s = None"
  by (simp add: basic_def)

lemma set_adler_check_simps [simp]:
  "basic (set_adler_check v s) = basic s" "r_bits (set_adler_check v s) = r_bits s" "m_left (set_adler_check v s) = m_left s"
  "m_ret (set_adler_check v s) = m_ret s" "moves s (set_adler_check v s)" "r_hold (set_adler_check v s) = r_hold s"
  "sending (set_adler_check v s) = sending s" "m_ins (set_adler_check v s) = m_ins s"
  by (auto simp: set_adler_check_def moves_def stream_id_def sending_def intro: exI [of _ 0])

lemma gz_moves:
  "moves s (s\<lparr>i_check := c\<rparr>)" "moves s (s\<lparr>i_length := n\<rparr>)" "moves s (s\<lparr>i_flags := f\<rparr>)" "moves s (s\<lparr>i_wbits := n\<rparr>)"
  "moves s (s\<lparr>i_length := n, i_mode := m\<rparr>)" "moves s (s\<lparr>i_dmax := n\<rparr>)"
  by (auto simp: moves_def stream_id_def intro: exI [of _ 0])

text \<open>\<open>gz_ok B s\<close>: a state inside the header with measure at most \<open>B\<close>.\<close>

definition gz_ok :: "nat \<Rightarrow> inflate_run \<Rightarrow> bool" where
  "gz_ok B s \<longleftrightarrow> basic s \<and> m_ret s = 0 \<and> 16 * m_left s + 11 \<le> B"

lemma gz_ok_upd [simp]:
  "gz_ok B (s\<lparr>i_mode := m\<rparr>) = gz_ok B s" "gz_ok B (s\<lparr>i_check := c\<rparr>) = gz_ok B s" "gz_ok B (s\<lparr>i_length := n\<rparr>) = gz_ok B s"
  "gz_ok B (s\<lparr>i_flags := f\<rparr>) = gz_ok B s" "gz_ok B (s\<lparr>i_wbits := n\<rparr>) = gz_ok B s" "gz_ok B s \<Longrightarrow> gz_ok B (INITBITS s)"
  by (simp_all add: gz_ok_def)

lemma gz_bad: "gz_ok B s \<Longrightarrow> round_ok flush B s (bad msg s)"
  by (rule bad_round [OF _ moves_refl]) (simp_all add: gz_ok_def)

lemma gz_bits:
  assumes "gz_ok B s" and "n \<le> 48"
    and "\<And>r. snd (snd r) < n \<Longrightarrow> mode_ok (set_regs r s)"
    and "\<And>r. gz_ok B (set_regs r s) \<Longrightarrow> i_mode (set_regs r s) = i_mode s \<Longrightarrow> round_ok flush B (set_regs r s) (k (set_regs r s))"
  shows "round_ok flush B s (with_bits n s k)"
  by (rule with_bits_round) (use assms in \<open>auto simp: gz_ok_def\<close>)

lemma HCRC_done_round:
  assumes "gz_ok B s" and "r_bits s < 8"
  shows "round_ok flush B s (inflate_HCRC_done s)"
proof -
  let ?t = "(set_adler_check (crc32 0 0 None) s)\<lparr>i_mode := TYPE_0\<rparr>"
  have "inflate_HCRC_done s = Next ?t" using assms by (simp add: inflate_HCRC_done_def basic_head gz_ok_def)
  moreover have "moves s ?t" using moves_trans [OF set_adler_check_simps(5) mode_moves] .
  ultimately show ?thesis using assms
    by (auto simp: round_ok_def inflate_inv_def mode_ok_def mu_def mode_rank_def gz_ok_def)
qed

lemma HCRC_round:
  assumes "gz_ok B s" and m: "i_mode s = HCRC" and b: "r_bits s < 8 \<or> i_flags s AND 0x0200 \<noteq> 0"
  shows "round_ok flush B s (inflate_HCRC s)"
proof (cases "i_flags s AND 0x0200 = 0")
  case True
  then show ?thesis using HCRC_done_round [OF assms(1)] b by (simp add: inflate_HCRC_def)
next
  case False
  have "round_ok flush B s (with_bits 16 s (\<lambda>s.
       if i_wrap s AND 4 \<noteq> 0 \<and> r_hold s \<noteq> i_check s AND 0xffff then bad ''header crc mismatch'' s
       else inflate_HCRC_done (INITBITS s)))"
  proof (rule gz_bits [OF assms(1)])
    fix r :: "byte list \<times> ulong \<times> nat"
    show "mode_ok (set_regs r s)" using m False by (simp add: mode_ok_def)
    assume g: "gz_ok B (set_regs r s)"
    have "round_ok flush B (set_regs r s) (inflate_HCRC_done (INITBITS (set_regs r s)))"
      by (rule round_ok_trans [OF INITBITS_moves HCRC_done_round]) (use g in simp_all)
    then show "round_ok flush B (set_regs r s)
        (if i_wrap (set_regs r s) AND 4 \<noteq> 0 \<and> r_hold (set_regs r s) \<noteq> i_check (set_regs r s) AND 0xffff
         then bad ''header crc mismatch'' (set_regs r s) else inflate_HCRC_done (INITBITS (set_regs r s)))"
      using gz_bad [OF g] by (simp split: if_split)
  qed simp
  then show ?thesis using False by (simp add: inflate_HCRC_def)
qed

text \<open>The loops over the name and the comment.\<close>

lemma zstr_loop_none:
  "bs \<noteq> [] \<Longrightarrow> \<exists>n l. zstr_loop lim bs c len None = Some (c + n, l, len, None) \<and> n \<le> length bs \<and> (l \<noteq> 0 \<longrightarrow> n = length bs)"
proof (induction bs arbitrary: c)
  case (Cons b bs)
  show ?case
  proof (cases "b \<noteq> 0 \<and> bs \<noteq> []")
    case True
    then obtain n l where "zstr_loop lim bs (c + 1) len None = Some (c + 1 + n, l, len, None)" "n \<le> length bs" "l \<noteq> 0 \<longrightarrow> n = length bs"
      using Cons.IH [of "c + 1"] by blast
    then show ?thesis using True by (auto intro!: exI [of _ "Suc n"] exI [of _ l])
  qed (auto intro!: exI [of _ 1])
qed simp

lemma string_next:
  assumes "gz_ok B s" and "r_bits s < 8" and "m = i_mode s" and "m = NAME \<or> m = COMMENT"
    and s1: "s1 = s\<lparr>i_length := n, r_next := drop c (r_next s), i_check := k\<rparr>"
  shows "gz_ok B s1" "r_bits s1 < 8" "i_mode s1 = i_mode s" "moves s s1" "c = length (r_next s) \<Longrightarrow> round_ok flush B s (Leave s1)"
proof -
  have "basic s1" using assms(1) by (simp add: s1 gz_ok_def basic_def sizes_def rinv_def)
  then show g: "gz_ok B s1" and "r_bits s1 < 8" "i_mode s1 = i_mode s" using assms by (simp_all add: gz_ok_def s1)
  show mv: "moves s s1" by (auto simp: s1 moves_def stream_id_def)
  show "round_ok flush B s (Leave s1)" if "c = length (r_next s)"
    using that g mv assms(2-4) by (auto simp: round_ok_def inflate_inv_def gz_ok_def stuck_def mode_ok_def s1)
qed

text \<open>The state after a string has been read: length, check value and input change.\<close>

definition str_state :: "nat \<Rightarrow> nat \<Rightarrow> inflate_run \<Rightarrow> inflate_run" where
  "str_state c n s = (let s1 = s\<lparr>i_length := n\<rparr>;
     s2 = (if hcrc_on s1 then s1\<lparr>i_check := crc32 0 (i_check s1) (Some (take c (r_next s1)))\<rparr> else s1)
     in s2\<lparr>r_next := drop c (r_next s2)\<rparr>)"

lemma str_state_eq:
  "\<exists>k. str_state c n s = s\<lparr>i_length := n, r_next := drop c (r_next s), i_check := k\<rparr>"
proof (cases "hcrc_on (s\<lparr>i_length := n\<rparr>)")
  case True
  then show ?thesis
    by (intro exI [of _ "crc32 0 (i_check s) (Some (take c (r_next s)))"], intro inflate_run.equality) (simp_all add: str_state_def Let_def)
next
  case False
  then show ?thesis by (intro exI [of _ "i_check s"], intro inflate_run.equality) (simp_all add: str_state_def Let_def)
qed

lemma string_round:
  assumes "gz_ok B s" and "r_bits s < 8" and "m = i_mode s" and "m = NAME \<or> m = COMMENT"
    and "\<And>t. gz_ok B t \<Longrightarrow> r_bits t < 8 \<Longrightarrow> round_ok flush B t (k t)"
    and res: "res = (if r_next s = [] then Leave s
       else (case zstr_loop 0 (r_next s) 0 (i_length s) None of
            None \<Rightarrow> Undef
          | Some (copy, len, n, buf) \<Rightarrow> if len \<noteq> 0 then Leave (str_state copy n s) else k (str_state copy n s)))"
  shows "round_ok flush B s res"
proof (cases "r_next s = []")
  case True
  then show ?thesis using assms(1-4) moves_refl res by (auto simp: round_ok_def inflate_inv_def gz_ok_def stuck_def mode_ok_def)
next
  case False
  obtain n l where z: "zstr_loop 0 (r_next s) 0 (i_length s) None = Some (n, l, i_length s, None)" "l \<noteq> 0 \<longrightarrow> n = length (r_next s)"
    using zstr_loop_none [OF False, of 0 0 "i_length s"] by auto
  obtain c where c: "str_state n (i_length s) s = s\<lparr>i_length := i_length s, r_next := drop n (r_next s), i_check := c\<rparr>"
    using str_state_eq by blast
  note S = string_next [OF assms(1-4) c]
  show ?thesis
  proof (cases "l = 0")
    case True
    then have "res = k (str_state n (i_length s) s)" using res z False by simp
    then show ?thesis using round_ok_trans [OF S(4) assms(5) [OF S(1,2)]] by simp
  next
    case False
    then have "res = Leave (str_state n (i_length s) s)" using res z \<open>r_next s \<noteq> []\<close> by simp
    then show ?thesis using S(5) z(2) False by simp
  qed
qed

lemma COMMENT_round:
  assumes "gz_ok B s" and "i_mode s = COMMENT" and "r_bits s < 8"
  shows "round_ok flush B s (inflate_COMMENT s)"
proof -
  have h: "i_head s = None" using assms(1) by (simp add: gz_ok_def basic_head)
  have k: "round_ok flush B t (inflate_HCRC (t\<lparr>i_mode := HCRC\<rparr>))" if "gz_ok B t" "r_bits t < 8" for t
    by (rule round_ok_trans [OF mode_moves HCRC_round]) (use that in simp_all)
  show ?thesis
  proof (cases "i_flags s AND 0x1000 = 0")
    case True
    then show ?thesis using k [OF assms(1,3)] h by (simp add: inflate_COMMENT_def)
  next
    case False
    show ?thesis
      by (rule string_round [OF assms(1,3) refl _ k]) (use False h assms(2) in \<open>auto simp: inflate_COMMENT_def str_state_def Let_def split: option.split\<close>)
  qed
qed

lemma NAME_round:
  assumes "gz_ok B s" and "i_mode s = NAME" and "r_bits s < 8"
  shows "round_ok flush B s (inflate_NAME s)"
proof -
  have h: "i_head s = None" using assms(1) by (simp add: gz_ok_def basic_head)
  have k: "round_ok flush B t (inflate_COMMENT (t\<lparr>i_length := 0, i_mode := COMMENT\<rparr>))" if "gz_ok B t" "r_bits t < 8" for t
    by (rule round_ok_trans [OF gz_moves(5) COMMENT_round]) (use that in simp_all)
  show ?thesis
  proof (cases "i_flags s AND 0x0800 = 0")
    case True
    then show ?thesis using k [OF assms(1,3)] h by (simp add: inflate_NAME_def)
  next
    case False
    show ?thesis
      by (rule string_round [OF assms(1,3) refl _ k]) (use False h assms(2) in \<open>auto simp: inflate_NAME_def str_state_def Let_def split: option.split\<close>)
  qed
qed

lemma head_same: "i_head s = None \<Longrightarrow> s\<lparr>i_head := None\<rparr> = s" and check_same: "s\<lparr>i_check := i_check s\<rparr> = s" for s :: inflate_run
  by (rule inflate_run.equality; simp)+

lemma EXTRA_round:
  assumes "gz_ok B s" and m: "i_mode s = EXTRA" and "r_bits s < 8"
  shows "round_ok flush B s (inflate_EXTRA s)"
proof -
  have h: "i_head s = None" using assms(1) by (simp add: gz_ok_def basic_head)
  have k: "round_ok flush B t (inflate_NAME (t\<lparr>i_length := 0, i_mode := NAME\<rparr>))" if "gz_ok B t" "r_bits t < 8" for t
    by (rule round_ok_trans [OF gz_moves(5) NAME_round]) (use that in simp_all)
  show ?thesis
  proof (cases "i_flags s AND 0x0400 = 0")
    case True
    then show ?thesis using k [OF assms(1,3)] by (simp add: inflate_EXTRA_def)
  next
    case False
    define c where "c = (if i_length s > length (r_next s) then length (r_next s) else i_length s)"
    obtain t where t: "(if c \<noteq> 0 then inflate_EXTRA_copy c s else Some s) = Some t" "gz_ok B t" "r_bits t < 8" "i_mode t = EXTRA" "moves s t"
      "i_length t = i_length s - c" "r_next t = drop c (r_next s)"
    proof (cases "c = 0")
      case True
      then show thesis using that [of s] assms moves_refl by simp
    next
      case False
      obtain k where e: "inflate_EXTRA_copy c s = Some (s\<lparr>i_check := k, r_next := drop c (r_next s), i_length := i_length s - c\<rparr>)"
      proof (cases "hcrc_on s")
        case True
        then show thesis using that by (simp add: inflate_EXTRA_copy_def h Let_def head_same)
      next
        case False
        then show thesis using that [of "i_check s"] by (simp add: inflate_EXTRA_copy_def h Let_def head_same check_same)
      qed
      show thesis
        by (rule that [of "s\<lparr>i_check := k, r_next := drop c (r_next s), i_length := i_length s - c\<rparr>"])
          (use False e assms in \<open>auto simp: gz_ok_def basic_def sizes_def rinv_def moves_def stream_id_def\<close>)
    qed
    have run: "inflate_EXTRA s = (if i_length t \<noteq> 0 then Leave t else inflate_NAME (t\<lparr>i_length := 0, i_mode := NAME\<rparr>))"
      using False t(1) by (simp add: inflate_EXTRA_def Let_def c_def [symmetric])
    show ?thesis
    proof (cases "i_length t = 0")
      case True
      then show ?thesis using run round_ok_trans [OF t(5) k [OF t(2,3)]] by simp
    next
      case False
      then have "r_next t = []" using t(6,7) by (simp add: c_def split: if_splits)
      then show ?thesis using run False t(2-5) by (simp add: round_ok_def inflate_inv_def gz_ok_def stuck_def mode_ok_def)
    qed
  qed
qed

text \<open>A field of the header: its bits, the header CRC, the next case.\<close>

lemma field_round:
  assumes "gz_ok B s" and "n \<le> 48" and "\<And>r. snd (snd r) < n \<Longrightarrow> mode_ok (set_regs r s)"
    and "\<And>t. gz_ok B t \<Longrightarrow> i_mode t = m \<Longrightarrow> r_bits t = 0 \<Longrightarrow> round_ok flush B t (k t)"
    and "\<And>t. gz_ok B t \<Longrightarrow> gz_ok B (g t) \<and> moves t (g t)"
  shows "round_ok flush B s (with_bits n s (\<lambda>s. k ((INITBITS (g s))\<lparr>i_mode := m\<rparr>)))"
proof (rule gz_bits [OF assms(1-3)])
  fix r assume t: "gz_ok B (set_regs r s)"
  let ?t = "set_regs r s"
  have "round_ok flush B ((INITBITS (g ?t))\<lparr>i_mode := m\<rparr>) (k ((INITBITS (g ?t))\<lparr>i_mode := m\<rparr>))"
    using assms(5) [OF t] by (intro assms(4)) simp_all
  moreover have "moves ?t ((INITBITS (g ?t))\<lparr>i_mode := m\<rparr>)"
    using assms(5) [OF t] INITBITS_moves [of "g ?t"] mode_moves [of "INITBITS (g ?t)" m] moves_trans by blast
  ultimately show "round_ok flush B ?t (k ((INITBITS (g ?t))\<lparr>i_mode := m\<rparr>))" by (rule round_ok_trans [rotated])
qed

lemma EXLEN_round:
  assumes "gz_ok B s" and m: "i_mode s = EXLEN" and b: "r_bits s < 8 \<or> i_flags s AND 0x0400 \<noteq> 0"
  shows "round_ok flush B s (inflate_EXLEN s)"
proof -
  have h: "i_head t = None" if "gz_ok B t" for t using that by (simp add: gz_ok_def basic_head)
  have k: "round_ok flush B t (inflate_EXTRA t)" if "gz_ok B t" "i_mode t = EXTRA" "r_bits t = 0" for t
    by (rule EXTRA_round) (use that in simp_all)
  show ?thesis
  proof (cases "i_flags s AND 0x0400 = 0")
    case True
    have "round_ok flush B (s\<lparr>i_mode := EXTRA\<rparr>) (inflate_EXTRA (s\<lparr>i_mode := EXTRA\<rparr>))"
      by (rule EXTRA_round) (use assms True in simp_all)
    then show ?thesis using True h [OF assms(1)] round_ok_trans [OF mode_moves] by (simp add: inflate_EXLEN_def)
  next
    case False
    then have e: "inflate_EXLEN s = with_bits 16 s (\<lambda>s.
       let n = unat (ucast (r_hold s) :: uint32);
           s1 = upd_head (\<lambda>h. h\<lparr>gz_extra_len := n\<rparr>) (s\<lparr>i_length := n\<rparr>);
           s2 = (if hcrc_on s1 then s1\<lparr>i_check := CRC2 (i_check s1) (r_hold s1)\<rparr> else s1)
       in inflate_EXTRA ((INITBITS s2)\<lparr>i_mode := EXTRA\<rparr>))" by (simp add: inflate_EXLEN_def)
    show ?thesis unfolding e Let_def
      by (rule field_round [OF assms(1) _ _ k])
        (use m False moves_trans [OF gz_moves(2) gz_moves(1)] in \<open>simp_all add: mode_ok_def h gz_moves\<close>)
  qed
qed

lemma OS_round:
  assumes "gz_ok B s" and m: "i_mode s = OS"
  shows "round_ok flush B s (inflate_OS s)"
proof -
  have h: "i_head t = None" if "gz_ok B t" for t using that by (simp add: gz_ok_def basic_head)
  have k: "round_ok flush B t (inflate_EXLEN t)" if "gz_ok B t" "i_mode t = EXLEN" "r_bits t = 0" for t
    by (rule EXLEN_round) (use that in simp_all)
  show ?thesis unfolding inflate_OS_def Let_def
    by (rule field_round [OF assms(1) _ _ k]) (use m in \<open>simp_all add: mode_ok_def h gz_moves moves_refl\<close>)
qed

lemma TIME_round:
  assumes "gz_ok B s" and m: "i_mode s = TIME"
  shows "round_ok flush B s (inflate_TIME s)"
proof -
  have h: "i_head t = None" if "gz_ok B t" for t using that by (simp add: gz_ok_def basic_head)
  have k: "round_ok flush B t (inflate_OS t)" if "gz_ok B t" "i_mode t = OS" "r_bits t = 0" for t
    by (rule OS_round) (use that in simp_all)
  show ?thesis unfolding inflate_TIME_def Let_def
    by (rule field_round [OF assms(1) _ _ k]) (use m in \<open>simp_all add: mode_ok_def h gz_moves moves_refl\<close>)
qed

lemma FLAGS_round:
  assumes "gz_ok B s" and m: "i_mode s = FLAGS"
  shows "round_ok flush B s (inflate_FLAGS s)"
proof -
  have k: "round_ok flush B t (inflate_TIME t)" if "gz_ok B t" "i_mode t = TIME" for t
    by (rule TIME_round) (use that in simp_all)
  show ?thesis unfolding inflate_FLAGS_def
  proof (rule gz_bits [OF assms(1)])
    fix r :: "byte list \<times> ulong \<times> nat"
    show "mode_ok (set_regs r s)" using m by (simp add: mode_ok_def)
    assume g: "gz_ok B (set_regs r s)"
    define t where "t = (set_regs r s)\<lparr>i_flags := uint (r_hold (set_regs r s))\<rparr>"
    have t: "gz_ok B t" "moves (set_regs r s) t" "i_head t = None" using g by (simp_all add: t_def gz_moves gz_ok_def basic_head)
    define u where "u = (if hcrc_on t then t\<lparr>i_check := CRC2 (i_check t) (r_hold t)\<rparr> else t)"
    have u: "gz_ok B u" "moves t u" using t by (simp_all add: u_def gz_moves moves_refl)
    have "round_ok flush B t (inflate_TIME ((INITBITS u)\<lparr>i_mode := TIME\<rparr>))"
      by (rule round_ok_trans [OF moves_trans [OF u(2) moves_trans [OF INITBITS_moves mode_moves]] k]) (use u in simp_all)
    then have "round_ok flush B t (if i_flags t AND 0xff \<noteq> Z_DEFLATED then bad ''unknown compression method'' t
      else if i_flags t AND 0xe000 \<noteq> 0 then bad ''unknown header flags set'' t
      else inflate_TIME ((INITBITS u)\<lparr>i_mode := TIME\<rparr>))"
      using gz_bad [OF t(1)] by (simp split: if_split)
    from round_ok_trans [OF t(2) this]
    show "round_ok flush B (set_regs r s) (let s = (set_regs r s)\<lparr>i_flags := uint (r_hold (set_regs r s))\<rparr> in
      if i_flags s AND 0xff \<noteq> Z_DEFLATED then bad ''unknown compression method'' s
      else if i_flags s AND 0xe000 \<noteq> 0 then bad ''unknown header flags set'' s
      else
        let s1 = upd_head (\<lambda>h. h\<lparr>gz_text := uint (drop_bit 8 (r_hold s) AND 1)\<rparr>) s;
            s2 = (if hcrc_on s1 then s1\<lparr>i_check := CRC2 (i_check s1) (r_hold s1)\<rparr> else s1)
        in inflate_TIME ((INITBITS s2)\<lparr>i_mode := TIME\<rparr>))"
      unfolding t_def [symmetric] Let_def upd_head_none [OF t(3)] u_def [symmetric] .
  qed simp
qed

section \<open>Case HEAD\<close>

lemma zlib_header_round:
  assumes "basic s" and hr: "hdr_room 4 s" and "m_ret s = 0" and b: "16 \<le> r_bits s" and sd: "sending s" "ins_type (m_ins s) = 4"
    and B: "16 * m_left s + 2 < B"
  shows "round_ok flush B s (zlib_header s)"
proof -
  have h: "i_head s = None" using assms(1) by (simp add: basic_def)
  define u where "u = DROPBITS 4 s"
  have hr': "hdr_room (4 + 0) s" using hr by simp
  have b4: "4 \<le> r_bits s" using b by simp
  note D = drop_step [OF assms(1) hr' _ b4, folded u_def]
  define v where "v = (if i_wbits u = 0 then u\<lparr>i_wbits := BITS 4 u + 8\<rparr> else u)"
  have v: "basic v" "moves s v" "m_left v = m_left s" "m_ret v = 0" "m_ins v = m_ins s"
    using D(1,3) moves_trans [OF D(3) gz_moves(4)] assms(3) by (simp_all add: v_def) (simp_all add: u_def)
  define w where "w = INITBITS ((set_adler_check (adler32 0 None) (v\<lparr>i_dmax := 2 ^ (BITS 4 u + 8), i_flags := 0\<rparr>))\<lparr>i_mode := SENDINS\<rparr>)"
  have w: "basic w" "i_mode w = SENDINS" "r_bits w = 0" "m_left w = m_left s" "m_ret w = 0" "m_ins w = m_ins s"
    using v by (simp_all add: w_def) (simp add: basic_def sizes_def rinv_def set_adler_check_def INITBITS_def)
  have "moves v w" by (auto simp: w_def moves_def stream_id_def INITBITS_def set_adler_check_def intro: exI [of _ 0])
  then have mw: "moves s w" using v(2) moves_trans by blast
  have nx: "round_ok flush B s (Next w)"
    using w mw sd B by (simp add: round_ok_def inflate_inv_def mode_ok_def sending_def mu_def mode_rank_def)
  have bd: "round_ok flush B s (bad msg s)" "round_ok flush B s (bad msg v)" for msg
    using bad_round [OF assms(1) moves_refl, of B flush msg] bad_round [OF v(1,2), of B flush msg] v(3) B by simp_all
  show ?thesis unfolding zlib_header_def Let_def upd_head_none [OF h] u_def [symmetric] v_def [symmetric] w_def [symmetric]
    using nx bd by (simp split: if_split)
qed

lemma HEAD_round:
  assumes "inflate_inv s" and m: "i_mode s = HEAD" and r: "m_ret s = 0"
  shows "round_ok flush (mu s) s (inflate_HEAD s)"
proof -
  have bs: "basic s" using assms(1) by (simp add: inflate_inv_def)
  show ?thesis
  proof (cases "i_wrap s = 0")
    case True
    have r0: "r_bits s < 8" using assms(1) m True by (simp add: inflate_inv_def mode_ok_def)
    show ?thesis using True bs m r mode_moves r0
      by (simp add: inflate_HEAD_def round_ok_def inflate_inv_def mode_ok_def mu_def mode_rank_def)
  next
    case False
    have hr: "hdr_room 4 s" using assms False by (simp add: inflate_inv_def mode_ok_def)
    have "round_ok flush (mu s) s (with_bits 16 s (\<lambda>s0.
       let s = set_ins [r_hold s0 AND 0xff, drop_bit 8 (r_hold s0) AND 0xff] 4 s0 in
       if i_wrap s AND 2 \<noteq> 0 \<and> r_hold s = 0x8b1f
       then let s1 = (if i_wbits s = 0 then s\<lparr>i_wbits := 15\<rparr> else s)
            in Next ((INITBITS (s1\<lparr>i_check := CRC2 (crc32 0 0 None) (r_hold s1)\<rparr>))\<lparr>i_mode := FLAGS\<rparr>)
       else zlib_header s))"
    proof (rule with_bits_round [OF bs _ r])
      fix rg assume "pulled 16 s rg"
      show "mode_ok (set_regs rg s)" using m hr False by (simp add: mode_ok_def recorded.same_regs)
      assume b: "16 \<le> snd (snd rg)" and bb: "basic (set_regs rg s)"
      define t where "t = set_ins [r_hold (set_regs rg s) AND 0xff, drop_bit 8 (r_hold (set_regs rg s)) AND 0xff] 4 (set_regs rg s)"
      have t: "basic t" "hdr_room 4 t" "m_ret t = 0" "16 \<le> r_bits t" "sending t" "ins_type (m_ins t) = 4" "m_left t = m_left s" "moves (set_regs rg s) t"
        using bb hr r b by (auto simp: t_def set_ins_upd recorded.same_regs moves_def intro: exI [of _ 0])
      define u where "u = (if i_wbits t = 0 then t\<lparr>i_wbits := 15\<rparr> else t)"
      have u: "basic u" "moves t u" "m_left u = m_left s" "m_ret u = 0" using t by (simp_all add: u_def gz_moves moves_refl)
      let ?v = "(INITBITS (u\<lparr>i_check := CRC2 (crc32 0 0 None) (r_hold u)\<rparr>))\<lparr>i_mode := FLAGS\<rparr>"
      have "moves u ?v" by (auto simp: moves_def stream_id_def INITBITS_def intro: exI [of _ 0])
      then have "moves t ?v" using u(2) moves_trans by blast
      then have "round_ok flush (mu s) t (Next ?v)"
        using u m by (simp add: round_ok_def inflate_inv_def mode_ok_def mu_def mode_rank_def)
      moreover have "round_ok flush (mu s) t (zlib_header t)"
        by (rule zlib_header_round [OF t(1-6)]) (use t(7) m in \<open>simp add: mu_def mode_rank_def\<close>)
      ultimately have "round_ok flush (mu s) t (if i_wrap t AND 2 \<noteq> 0 \<and> r_hold t = 0x8b1f then Next ?v else zlib_header t)"
        by (simp split: if_split)
      from round_ok_trans [OF t(8) this]
      show "round_ok flush (mu s) (set_regs rg s)
       (let s = set_ins [r_hold (set_regs rg s) AND 0xff, drop_bit 8 (r_hold (set_regs rg s)) AND 0xff] 4 (set_regs rg s) in
       if i_wrap s AND 2 \<noteq> 0 \<and> r_hold s = 0x8b1f
       then let s1 = (if i_wbits s = 0 then s\<lparr>i_wbits := 15\<rparr> else s)
            in Next ((INITBITS (s1\<lparr>i_check := CRC2 (crc32 0 0 None) (r_hold s1)\<rparr>))\<lparr>i_mode := FLAGS\<rparr>)
       else zlib_header s)"
        unfolding t_def [symmetric] Let_def u_def [symmetric] .
    qed simp
    then show ?thesis using False by (simp add: inflate_HEAD_def)
  qed
qed

end
