(* ===== verification/Inflate_Loop.thy ===== *)
theory Inflate_Loop
  imports Inflate_Rounds_Gz
begin

text \<open>
  \<^verbatim>\<open>j_inflate\<close> as a whole.  A stream that \<^verbatim>\<open>j_inflateInit2_\<close> has set up satisfies \<open>good_stream\<close>; every call
  returns, stays within its buffers, keeps \<open>good_stream\<close> and accounts for the bytes it took and wrote.
\<close>

section \<open>The loop\<close>

lemma inflate_step_round:
  assumes "inflate_inv s" and "m_ret s = Z_OK \<or> i_mode s = BAD"
  shows "round_ok flush (mu s) s (inflate_step flush s)"
proof (cases "i_mode s = BAD")
  case True
  have "moves s (s\<lparr>m_ret := -3\<rparr>)" by (auto simp: moves_def stream_id_def intro: exI [of _ 0])
  then show ?thesis using True assms by (simp add: inflate_step_def round_ok_def stuck_def inflate_inv_def mode_ok_def)
next
  case False
  then have r: "m_ret s = 0" using assms(2) by simp
  have b: "basic s" and mo: "mode_ok s" using assms(1) by (auto simp: inflate_inv_def)
  have g: "gz_ok (mu s) s" if "mode_rank (i_mode s) = 11" using that b r by (simp add: gz_ok_def mu_def)
  show ?thesis
    unfolding inflate_step_def
    using assms(1) r b mo False HEAD_round [OF assms(1)] SENDINS_round [OF assms(1)] SETENDOFBLOCK_round [OF assms(1)]
      SEND_HEADER_round [OF assms(1)] COPY_round [OF assms(1)] COPY_0_round [OF assms(1)] CHECK_round [OF assms(1)]
      LENGTH_round [OF b] DONE_round [OF b] ext_rounds [OF assms(1)] LEN_round [OF assms(1)] LEN_0_round [OF assms(1)] LIT_round [OF assms(1)]
      CODELENS_round [OF assms(1)] LENLENS_round [OF assms(1)] TABLE_round [OF assms(1)] TYPEDO_round [OF assms(1)] TYPE_round [OF assms(1)]
      STORED_round [OF assms(1)] FLAGS_round [OF g] TIME_round [OF g] OS_round [OF g] EXLEN_round [OF g] EXTRA_round [OF g]
      NAME_round [OF g] COMMENT_round [OF g] HCRC_round [OF g]
    by (cases "i_mode s") (simp_all add: mode_ok_def mode_rank_def)
qed

lemma inflate_loop_stops:
  assumes "inflate_inv s" and "m_ret s = Z_OK \<or> i_mode s = BAD" and "mu s < n"
  shows "\<exists>t. inflate_loop n flush s = Done (fst (inf_leave flush t)) (snd (inf_leave flush t)) \<and> inflate_inv t \<and> moves s t \<and> stuck flush t"
  using assms
proof (induction n arbitrary: s)
  case (Suc n)
  note r = inflate_step_round [OF Suc.prems(1,2), of flush]
  show ?case
  proof (cases "inflate_step flush s")
    case (Next t)
    then have t: "inflate_inv t" "moves s t" "mu t < mu s" "m_ret t = Z_OK \<or> i_mode t = BAD" using r by (auto simp: round_ok_def)
    obtain u where "inflate_loop n flush t = Done (fst (inf_leave flush u)) (snd (inf_leave flush u))" "inflate_inv u" "moves t u" "stuck flush u"
      using Suc.IH [OF t(1,4)] t(3) Suc.prems(3) by auto
    then show ?thesis using Next moves_trans [OF t(2)] by auto
  next
    case (Leave t)
    then show ?thesis using r by (auto simp: round_ok_def split: prod.splits intro!: exI [of _ t])
  qed (use r in \<open>auto simp: round_ok_def\<close>)
qed simp

section \<open>A call\<close>

definition good_stream :: "ins_globals \<Rightarrow> inflate_strm \<Rightarrow> bool" where
  "good_stream g strm \<longleftrightarrow> \<not> inflateStateCheck (Some strm) \<and> (\<forall>st. z_state strm = Some st \<longrightarrow> inflate_inv (inflate_enter g strm st))"

lemma mode_rank_le: "mode_rank m \<le> 12"
  by (cases m) (simp_all add: mode_rank_def)

lemma inf_leave_fields:
  fixes flush t
  defines "u \<equiv> snd (inf_leave flush t)"
  shows "z_next_in (m_strm u) = r_next t" "z_out (m_strm u) = m_put t" "z_avail_out (m_strm u) = m_left t"
    "z_total_in (m_strm u) = z_total_in (m_strm t) + of_nat (m_in t - length (r_next t))"
    "z_total_out (m_strm u) = z_total_out (m_strm t) + of_nat (m_out t - m_left t)"
    "i_hold u = r_hold t" "i_bits u = r_bits t" "i_mode u = i_mode t" "i_strm u = i_strm t" "m_ins u = m_ins t"
    "z_addr (m_strm u) = z_addr (m_strm t)" "z_zalloc (m_strm u) = z_zalloc (m_strm t)" "z_zfree (m_strm u) = z_zfree (m_strm t)"
    "z_in_null (m_strm u) = z_in_null (m_strm t)" "z_out_null (m_strm u) = z_out_null (m_strm t)" "z_msg (m_strm u) = z_msg (m_strm t)"
  by (simp_all add: u_def inf_leave_def Let_def RESTORE_def set_adler_check_def)

text \<open>The invariant does not depend on the buffers of the caller nor on the check values.\<close>

lemma caller_code_at:
  fixes s :: inflate_run
  shows "code_at (s\<lparr>r_next := xr_next\<rparr>) = code_at s"
    "code_at (s\<lparr>m_strm := xm_strm\<rparr>) = code_at s"
    "code_at (s\<lparr>m_put := xm_put\<rparr>) = code_at s"
    "code_at (s\<lparr>m_left := xm_left\<rparr>) = code_at s"
    "code_at (s\<lparr>m_in := xm_in\<rparr>) = code_at s"
    "code_at (s\<lparr>m_out := xm_out\<rparr>) = code_at s"
    "code_at (s\<lparr>m_ret := xm_ret\<rparr>) = code_at s"
    "code_at (s\<lparr>i_hold := xi_hold\<rparr>) = code_at s"
    "code_at (s\<lparr>i_bits := xi_bits\<rparr>) = code_at s"
    "code_at (s\<lparr>i_check := xi_check\<rparr>) = code_at s"
    "code_at (s\<lparr>i_total := xi_total\<rparr>) = code_at s"
  by (rule ext, rule code_at_cong, simp)+

lemma caller_simps:
  fixes s :: inflate_run
  shows "held (s\<lparr>r_next := xr_next\<rparr>) = held s"
    "held (s\<lparr>m_strm := xm_strm\<rparr>) = held s"
    "held (s\<lparr>m_put := xm_put\<rparr>) = held s"
    "held (s\<lparr>m_left := xm_left\<rparr>) = held s"
    "held (s\<lparr>m_in := xm_in\<rparr>) = held s"
    "held (s\<lparr>m_out := xm_out\<rparr>) = held s"
    "held (s\<lparr>m_ret := xm_ret\<rparr>) = held s"
    "held (s\<lparr>i_hold := xi_hold\<rparr>) = held s"
    "held (s\<lparr>i_bits := xi_bits\<rparr>) = held s"
    "held (s\<lparr>i_check := xi_check\<rparr>) = held s"
    "held (s\<lparr>i_total := xi_total\<rparr>) = held s"
    "hdr_room k (s\<lparr>r_next := xr_next\<rparr>) = hdr_room k s"
    "hdr_room k (s\<lparr>m_strm := xm_strm\<rparr>) = hdr_room k s"
    "hdr_room k (s\<lparr>m_put := xm_put\<rparr>) = hdr_room k s"
    "hdr_room k (s\<lparr>m_left := xm_left\<rparr>) = hdr_room k s"
    "hdr_room k (s\<lparr>m_in := xm_in\<rparr>) = hdr_room k s"
    "hdr_room k (s\<lparr>m_out := xm_out\<rparr>) = hdr_room k s"
    "hdr_room k (s\<lparr>m_ret := xm_ret\<rparr>) = hdr_room k s"
    "hdr_room k (s\<lparr>i_hold := xi_hold\<rparr>) = hdr_room k s"
    "hdr_room k (s\<lparr>i_bits := xi_bits\<rparr>) = hdr_room k s"
    "hdr_room k (s\<lparr>i_check := xi_check\<rparr>) = hdr_room k s"
    "hdr_room k (s\<lparr>i_total := xi_total\<rparr>) = hdr_room k s"
  by (simp_all add: held_def hdr_room_def hinv_def hroom_def as_writer_def)

lemma caller_pend:
  fixes s :: inflate_run
  shows "pend (s\<lparr>r_next := xr_next\<rparr>) = pend s"
    "pend (s\<lparr>m_strm := xm_strm\<rparr>) = pend s"
    "pend (s\<lparr>m_put := xm_put\<rparr>) = pend s"
    "pend (s\<lparr>m_left := xm_left\<rparr>) = pend s"
    "pend (s\<lparr>m_in := xm_in\<rparr>) = pend s"
    "pend (s\<lparr>m_out := xm_out\<rparr>) = pend s"
    "pend (s\<lparr>m_ret := xm_ret\<rparr>) = pend s"
    "pend (s\<lparr>i_hold := xi_hold\<rparr>) = pend s"
    "pend (s\<lparr>i_bits := xi_bits\<rparr>) = pend s"
    "pend (s\<lparr>i_check := xi_check\<rparr>) = pend s"
    "pend (s\<lparr>i_total := xi_total\<rparr>) = pend s"
  by (rule ext, cases "i_mode s", simp_all add: pend_def nexti_def caller_code_at)+

lemma caller_inv:
  fixes s :: inflate_run
  shows "inflate_inv (s\<lparr>r_next := xr_next\<rparr>) = inflate_inv s"
    "inflate_inv (s\<lparr>m_strm := xm_strm\<rparr>) = inflate_inv s"
    "inflate_inv (s\<lparr>m_put := xm_put\<rparr>) = inflate_inv s"
    "inflate_inv (s\<lparr>m_left := xm_left\<rparr>) = inflate_inv s"
    "inflate_inv (s\<lparr>m_in := xm_in\<rparr>) = inflate_inv s"
    "inflate_inv (s\<lparr>m_out := xm_out\<rparr>) = inflate_inv s"
    "inflate_inv (s\<lparr>m_ret := xm_ret\<rparr>) = inflate_inv s"
    "inflate_inv (s\<lparr>i_hold := xi_hold\<rparr>) = inflate_inv s"
    "inflate_inv (s\<lparr>i_bits := xi_bits\<rparr>) = inflate_inv s"
    "inflate_inv (s\<lparr>i_check := xi_check\<rparr>) = inflate_inv s"
    "inflate_inv (s\<lparr>i_total := xi_total\<rparr>) = inflate_inv s"
  by (cases "i_mode s", simp_all add: inflate_inv_def basic_def sizes_def rinv_def mode_ok_def caller_simps caller_code_at caller_pend
      in_block_def tables_ok_def counts_ok_def sending_def)+

lemma inflate_enter_eq:
  "\<exists>zn zs zp zl zi zo zr zh zb zc zt. inflate_enter (m_ins u) strm (inflate_state.truncate u)
    = (u\<lparr>r_hold := i_hold u, r_bits := i_bits u, i_mode := (if i_mode u = TYPE_0 then TYPEDO else i_mode u)\<rparr>)
      \<lparr>r_next := zn, m_strm := zs, m_put := zp, m_left := zl, m_in := zi, m_out := zo, m_ret := zr,
       i_hold := zh, i_bits := zb, i_check := zc, i_total := zt\<rparr>"
  by (rule exI [of _ "z_next_in strm"], rule exI [of _ strm], rule exI [of _ "z_out strm"], rule exI [of _ "z_avail_out strm"],
      rule exI [of _ "length (z_next_in strm)"], rule exI [of _ "z_avail_out strm"], rule exI [of _ 0],
      rule exI [of _ "i_hold u"], rule exI [of _ "i_bits u"], rule exI [of _ "i_check u"], rule exI [of _ "i_total u"],
      rule inflate_run.equality)
    (simp_all add: inflate_enter_def Let_def LOAD_def inflate_state.defs inflate_run.defs recorder.defs huff.defs reader.defs)

lemma inf_leave_inv:
  "inflate_inv t \<Longrightarrow> inflate_inv (snd (inf_leave flush t))" "r_hold (snd (inf_leave flush t)) = i_hold (snd (inf_leave flush t))"
  "r_bits (snd (inf_leave flush t)) = i_bits (snd (inf_leave flush t))"
  by (simp_all add: inf_leave_def Let_def RESTORE_def set_adler_check_def caller_inv)

lemma regs_same: "r_hold u = i_hold u \<Longrightarrow> r_bits u = i_bits u \<Longrightarrow> u\<lparr>r_hold := i_hold u, r_bits := i_bits u\<rparr> = u" for u :: inflate_run
  by (rule inflate_run.equality) simp_all

lemma type_inv: "inflate_inv s \<Longrightarrow> inflate_inv (s\<lparr>i_mode := (if i_mode s = TYPE_0 then TYPEDO else i_mode s)\<rparr>)"
proof (cases "i_mode s = TYPE_0")
  case False
  have "s\<lparr>i_mode := i_mode s\<rparr> = s" by (rule inflate_run.equality) simp_all
  then show "inflate_inv s \<Longrightarrow> ?thesis" using False by simp
qed (simp add: inflate_inv_def mode_ok_def)

lemma leave_inv:
  fixes flush
  assumes "inflate_inv t"
  defines "u \<equiv> snd (inf_leave flush t)"
  shows "inflate_inv (inflate_enter (m_ins u) strm (inflate_state.truncate u))"
proof -
  have "inflate_inv u" unfolding u_def by (rule inf_leave_inv(1) [OF assms(1)])
  moreover have "u\<lparr>r_hold := i_hold u, r_bits := i_bits u\<rparr> = u"
    by (rule regs_same) (simp_all only: u_def inf_leave_inv(2,3))
  ultimately have "inflate_inv (u\<lparr>r_hold := i_hold u, r_bits := i_bits u\<rparr>)" by (rule back_subst [of inflate_inv, OF _ sym])
  from type_inv [OF this]
  have v: "inflate_inv (u\<lparr>r_hold := i_hold u, r_bits := i_bits u, i_mode := (if i_mode u = TYPE_0 then TYPEDO else i_mode u)\<rparr>)"
    by (cases "i_mode u = TYPE_0") simp_all
  obtain zn zs zp zl zi zo zr zh zb zc zt where "inflate_enter (m_ins u) strm (inflate_state.truncate u)
    = (u\<lparr>r_hold := i_hold u, r_bits := i_bits u, i_mode := (if i_mode u = TYPE_0 then TYPEDO else i_mode u)\<rparr>)
      \<lparr>r_next := zn, m_strm := zs, m_put := zp, m_left := zl, m_in := zi, m_out := zo, m_ret := zr,
       i_hold := zh, i_bits := zb, i_check := zc, i_total := zt\<rparr>"
    using inflate_enter_eq [of u strm] by blast
  then show ?thesis using v by (simp only: caller_inv)
qed

lemma enter_fields:
  "r_next (inflate_enter g strm st) = z_next_in strm" "m_put (inflate_enter g strm st) = z_out strm" "m_left (inflate_enter g strm st) = z_avail_out strm"
  "m_in (inflate_enter g strm st) = length (z_next_in strm)" "m_out (inflate_enter g strm st) = z_avail_out strm" "m_ret (inflate_enter g strm st) = 0"
  "m_strm (inflate_enter g strm st) = strm" "m_ins (inflate_enter g strm st) = g" "i_strm (inflate_enter g strm st) = i_strm st"
  "i_mode (inflate_enter g strm st) = (if i_mode st = TYPE_0 then TYPEDO else i_mode st)"
  "r_hold (inflate_enter g strm st) = i_hold st" "r_bits (inflate_enter g strm st) = i_bits st"
  by (simp_all add: inflate_enter_def Let_def LOAD_def inflate_state.defs inflate_run.defs recorder.defs huff.defs reader.defs)

text \<open>What a call does to the stream.\<close>

definition call_ok :: "inflate_strm \<Rightarrow> inflate_strm \<Rightarrow> bool" where
  "call_ok strm strm' \<longleftrightarrow>
    (\<exists>j. j \<le> length (z_next_in strm) \<and> z_next_in strm' = drop j (z_next_in strm) \<and> z_total_in strm' = z_total_in strm + of_nat j) \<and>
    (\<exists>w. z_out strm' = z_out strm @ w \<and> z_avail_out strm = z_avail_out strm' + length w \<and> z_total_out strm' = z_total_out strm + of_nat (length w))"

lemma j_inflate_call:
  assumes good: "good_stream g strm" and out: "\<not> z_out_null strm" and inp: "z_in_null strm \<longrightarrow> z_next_in strm = []"
  obtains ret g' strm' t where "j_inflate flush g (Some strm) = Done ret (g', Some strm')" "good_stream g' strm'" "call_ok strm strm'"
    "stuck flush t" "ret = fst (inf_leave flush t)" "z_next_in strm' = r_next t" "z_avail_out strm' = m_left t"
    "\<exists>st'. z_state strm' = Some st' \<and> i_mode st' = i_mode t"
    "m_in t = length (z_next_in strm)" "moves (inflate_enter g strm (the (z_state strm))) t"
proof -
  obtain st where st: "z_state strm = Some st" "z_zalloc strm" "z_zfree strm" "i_strm st = z_addr strm"
    using good by (auto simp: good_stream_def inflateStateCheck_def split: option.splits if_splits)
  define s where "s = inflate_enter g strm st"
  have si: "inflate_inv s" using good st by (simp add: good_stream_def s_def)
  note e = enter_fields [of g strm st, folded s_def]
  have mu: "mu s < inflate_fuel s" using mode_rank_le [of "i_mode s"] by (simp add: mu_def inflate_fuel_def)
  have r0: "m_ret s = 0 \<or> i_mode s = BAD" by (simp add: e)
  obtain t where t: "inflate_loop (inflate_fuel s) flush s = Done (fst (inf_leave flush t)) (snd (inf_leave flush t))"
    "inflate_inv t" "moves s t" "stuck flush t"
    using inflate_loop_stops [OF si r0 mu, of flush] by blast
  define u where "u = snd (inf_leave flush t)"
  define strm' where "strm' = (m_strm u)\<lparr>z_state := Some (inflate_state.truncate u)\<rparr>"
  note l = inf_leave_fields [of flush t, folded u_def]
  have run: "j_inflate flush g (Some strm) = Done (fst (inf_leave flush t)) (m_ins u, Some strm')"
    using st out inp t(1)
    by (auto simp: j_inflate_def inflateStateCheck_def s_def [symmetric] Let_def inflate_exit_def u_def strm'_def)
  have id: "stream_id t = stream_id s" using t(3) by (simp add: moves_def)
  have gs: "good_stream (m_ins u) strm'"
    using leave_inv [OF t(2), of flush strm'] st id e l
    by (simp add: good_stream_def inflateStateCheck_def strm'_def stream_id_def u_def [symmetric])
      (simp add: inflate_state.defs recorder.defs huff.defs reader.defs)
  obtain j where j: "r_next t = drop j (z_next_in strm)" "j \<le> length (z_next_in strm)"
  proof -
    obtain j where j: "r_next t = drop j (z_next_in strm)" using t(3) e by (auto simp: moves_def)
    then show thesis using that [of "min j (length (z_next_in strm))"] by (cases "j \<le> length (z_next_in strm)") auto
  qed
  obtain w where w: "m_put t = z_out strm @ w" "z_avail_out strm = m_left t + length w" using t(3) e by (auto simp: moves_def)
  have tot: "m_left t \<le> m_out t" "z_total_out (m_strm t) + of_nat (m_out t) = z_total_out strm + of_nat (z_avail_out strm)"
    using t(3) e by (auto simp: moves_def)
  have "z_total_out (m_strm u) = z_total_out strm + of_nat (length w)"
  proof -
    have "z_total_out (m_strm u) + of_nat (m_left t) = z_total_out (m_strm t) + of_nat (m_out t)"
      using tot(1) by (simp add: l of_nat_diff)
    also have "\<dots> = z_total_out strm + of_nat (length w) + of_nat (m_left t)" unfolding tot(2) w(2) by simp
    finally show ?thesis by simp
  qed
  moreover have "m_in t = length (z_next_in strm)" "z_total_in (m_strm t) = z_total_in strm" using id e by (auto simp: stream_id_def)
  ultimately have co: "call_ok strm strm'"
    unfolding call_ok_def using l j w by (intro conjI exI [of _ j] exI [of _ w]) (simp_all add: strm'_def)
  show thesis
    by (rule that [OF run gs co t(4) refl]) (use l t(3) st id e in \<open>simp_all add: strm'_def s_def stream_id_def inflate_state.defs recorder.defs huff.defs reader.defs\<close>)
qed

section \<open>Setting up\<close>

text \<open>The arrays of the structure have the sizes that inflate.h declares.\<close>

definition fresh_state :: "inflate_state \<Rightarrow> bool" where
  "fresh_state st \<longleftrightarrow> length (h_lens st) = 320 \<and> length (h_work st) = 288 \<and> length (h_codes st) = ENOUGH \<and>
     length (header_buf st) = 605 \<and> \<not> header_oob st"

lemma fresh_inv:
  assumes "fresh_state st" and "i_mode st = HEAD" "i_head st = None" "i_bits st = 0" "i_hold st = 0" "i_wrap st = 0"
    and "length (ins_buffer g) = 6"
  shows "inflate_inv (inflate_enter g strm st)"
  using assms by (simp add: inflate_inv_def mode_ok_def basic_def sizes_def rinv_def fresh_state_def enter_fields)
    (simp add: inflate_enter_def Let_def LOAD_def inflate_state.defs inflate_run.defs recorder.defs huff.defs reader.defs)

definition init_accepts :: "int \<Rightarrow> bool" where
  "init_accepts windowBits \<longleftrightarrow> -15 \<le> windowBits \<and> windowBits \<le> -8 \<or>
     0 \<le> windowBits \<and> windowBits < 48 \<and> (windowBits mod 16 = 0 \<or> 8 \<le> windowBits mod 16)"

lemma wrap_request_accepts:
  "init_accepts windowBits \<longleftrightarrow> (case wrap_request windowBits of None \<Rightarrow> False | Some (wrap, wb) \<Rightarrow> \<not> (wb \<noteq> 0 \<and> (wb < 8 \<or> wb > 15)))"
proof -
  have "windowBits AND 15 = windowBits mod 16" using take_bit_eq_mask [of 4 windowBits] by (simp add: take_bit_eq_mod mask_eq_exp_minus_1)
  moreover have "0 \<le> windowBits mod 16" "windowBits mod 16 < 16" by simp_all
  ultimately show ?thesis by (auto simp: wrap_request_def init_accepts_def)
qed

text \<open>A raw stream on which no call has been made yet; its input is a block with no symbols.\<close>

definition demo_state :: inflate_state where
  "demo_state = \<lparr>r_next = [], r_hold = 0, r_bits = 0, h_nlen = 0, h_ndist = 0, h_have = 0, h_lens = replicate 320 0, h_work = replicate 288 0,
     h_codes = replicate ENOUGH (mk_code (0, 0, 0)), h_next = 0, h_lencode = Codes 0, h_lenbits = 0, h_distcode = Codes 0, h_distbits = 0,
     header_buf = replicate 605 0, header_index = 0, header_have = 0, header_flag = 1, my_bi_buf = 0, my_bi_valid = 0, HEADER_BITS_CNT = 0,
     header_oob = False, i_strm = 0, i_mode = HEAD, i_last = 0, i_wrap = 0, i_havedict = 0, i_flags = -1, i_dmax = 32768, i_check = 0, i_total = 0,
     i_head = None, i_wbits = 15, i_wsize = 0, i_whave = 0, i_wnext = 0, i_window = None, i_hold = 0, i_bits = 0, i_length = 0, i_offset = 0,
     i_extra = 0, i_ncode = 0, i_sane = 1, i_back = -1, i_was = 0, i_tree_type = 0\<rparr>"

definition demo_stream :: inflate_strm where
  "demo_stream = \<lparr>z_next_in = [0x03, 0x00], z_in_null = False, z_total_in = 0, z_out = [], z_out_null = False, z_avail_out = 16, z_total_out = 0,
     z_msg = None, z_state = Some demo_state, z_zalloc = True, z_zfree = True, z_data_type = 0, z_adler = 0, z_addr = 0\<rparr>"

definition demo_ins :: ins_globals where
  "demo_ins = \<lparr>ins_buffer = replicate 6 0, ins_buffer_index = 0, ins_buffer_have = 0, ins_type = 0\<rparr>"

lemma demo_fresh: "fresh_state demo_state" "length (ins_buffer demo_ins) = 6"
  by (simp_all add: fresh_state_def demo_state_def demo_ins_def)

lemma demo_good: "good_stream demo_ins demo_stream" "\<not> z_out_null demo_stream" "z_in_null demo_stream \<longrightarrow> z_next_in demo_stream = []"
  using demo_fresh
  by (auto intro!: fresh_inv simp: good_stream_def inflateStateCheck_def demo_stream_def) (simp_all add: demo_state_def)

text \<open>C7: \<^verbatim>\<open>j_inflateInit2_\<close> accepts exactly the window sizes -15 to -8 for raw streams and 0 or 8 to 15 with 0, 16 or 32 added
  for wrapped ones, whatever the memory it gets contains; a refused request frees the state again.  A
  raw stream it has set up satisfies the invariant that \<open>j_inflate\<close> relies on.\<close>

theorem j_inflateInit2_outcome:
  assumes "fresh_state st" and "length (ins_buffer g) = 6"
  shows "case j_inflateInit2 (Some st) windowBits (Some strm) of
      (ret, None) \<Rightarrow> False
    | (ret, Some strm') \<Rightarrow>
        ret = (if init_accepts windowBits then Z_OK else Z_STREAM_ERROR) \<and>
        (z_state strm' \<noteq> None \<longleftrightarrow> init_accepts windowBits) \<and> z_next_in strm' = z_next_in strm \<and> z_avail_out strm' = z_avail_out strm \<and>
        (init_accepts windowBits \<and> windowBits < 0 \<longrightarrow> good_stream g strm')"
proof (cases "init_accepts windowBits")
  case False
  then have "case wrap_request windowBits of None \<Rightarrow> True | Some (wrap, wb) \<Rightarrow> wb \<noteq> 0 \<and> (wb < 8 \<or> wb > 15)"
    by (auto simp: wrap_request_accepts split: option.splits prod.splits)
  then show ?thesis using False
    by (auto simp: j_inflateInit2_def Let_def j_inflateReset2_def inflateStateCheck_def split: option.splits prod.splits)
next
  case True
  obtain wrap wb where w: "wrap_request windowBits = Some (wrap, wb)" "\<not> (wb \<noteq> 0 \<and> (wb < 8 \<or> wb > 15))" "windowBits < 0 \<longrightarrow> wrap = 0"
    using True by (auto simp: wrap_request_accepts wrap_request_def split: option.splits prod.splits if_splits)
  note sz = assms(1) [unfolded fresh_state_def]
  show ?thesis
    using True w
    by (simp add: j_inflateInit2_def Let_def j_inflateReset2_def j_inflateReset_def j_inflateResetKeep_def inflateStateCheck_def good_stream_def)
      (auto intro!: fresh_inv simp: sz assms(2) fresh_state_def)
qed

theorem j_inflateInit2_outcome_witness:
  "case j_inflateInit2 (Some demo_state) (-15) (Some demo_stream) of
     (ret, None) \<Rightarrow> False | (ret, Some strm') \<Rightarrow> ret = Z_OK \<and> good_stream demo_ins strm'"
  using j_inflateInit2_outcome [OF demo_fresh, of "-15" demo_stream] by (auto simp: init_accepts_def split: option.splits prod.splits)

section \<open>Properties of a call\<close>



text \<open>C5: \<^verbatim>\<open>j_inflate\<close> keeps the invariant of the stream.  It takes a front part of the input and appends to the output within
  the space announced, and \<open>avail_out\<close>, \<open>total_in\<close> and \<open>total_out\<close> say by how much, also when the call
  goes through case CHECK, which updates \<open>total_out\<close> on its own.\<close>

theorem j_inflate_keeps:
  assumes "good_stream g strm" and "\<not> z_out_null strm" and "z_in_null strm \<longrightarrow> z_next_in strm = []"
    and "j_inflate flush g (Some strm) = Done ret (g', Some strm')"
  shows "good_stream g' strm' \<and>
    (\<exists>j. j \<le> length (z_next_in strm) \<and> z_next_in strm' = drop j (z_next_in strm) \<and> z_total_in strm' = z_total_in strm + of_nat j) \<and>
    (\<exists>w. z_out strm' = z_out strm @ w \<and> z_avail_out strm = z_avail_out strm' + length w \<and> z_total_out strm' = z_total_out strm + of_nat (length w))"
  by (rule j_inflate_call [OF assms(1-3), of flush]) (use assms(4) in \<open>simp add: call_ok_def\<close>)

theorem j_inflate_keeps_witness:
  "\<exists>ret g' strm'. j_inflate Z_NO_FLUSH demo_ins (Some demo_stream) = Done ret (g', Some strm') \<and> good_stream g' strm' \<and>
    z_avail_out strm' \<le> 16"
proof -
  obtain ret g' strm' where c: "j_inflate Z_NO_FLUSH demo_ins (Some demo_stream) = Done ret (g', Some strm')"
    by (rule j_inflate_call [OF demo_good])
  from j_inflate_keeps [OF demo_good c] show ?thesis using c by (auto simp: demo_stream_def)
qed

text \<open>C6: Progress.  When \<^verbatim>\<open>j_inflate\<close> returns without an error and without having reached the end of the stream, it is
  because the input is used up, the output space is full, or the caller asked to stop at block
  boundaries; it returns \<^verbatim>\<open>Z_STREAM_END\<close> only in mode DONE and \<^verbatim>\<open>Z_DATA_ERROR\<close> only in mode BAD.\<close>

theorem j_inflate_progress:
  assumes "good_stream g strm" and "\<not> z_out_null strm" and "z_in_null strm \<longrightarrow> z_next_in strm = []"
    and "j_inflate flush g (Some strm) = Done ret (g', Some strm')"
  shows "(ret = Z_OK \<or> ret = Z_BUF_ERROR \<longrightarrow> z_next_in strm' = [] \<or> z_avail_out strm' = 0 \<or> flush = Z_BLOCK \<or> flush = Z_TREES) \<and>
    (ret = Z_STREAM_END \<longrightarrow> map_option i_mode (z_state strm') = Some DONE) \<and>
    (ret = Z_DATA_ERROR \<longrightarrow> map_option i_mode (z_state strm') = Some BAD)"
proof -
  obtain t where c: "stuck flush t" "ret = fst (inf_leave flush t)" "z_next_in strm' = r_next t" "z_avail_out strm' = m_left t"
    "\<exists>st'. z_state strm' = Some st' \<and> i_mode st' = i_mode t"
    by (rule j_inflate_call [OF assms(1-3), of flush]) (use assms(4) in auto)
  have "ret = m_ret t \<or> ret = Z_BUF_ERROR \<and> m_ret t = Z_OK"
    unfolding c(2) by (simp add: inf_leave_def Let_def RESTORE_def set_adler_check_def)
  then show ?thesis using c by (auto simp: stuck_def)
qed

theorem j_inflate_progress_witness:
  "\<exists>ret g' strm'. j_inflate Z_NO_FLUSH demo_ins (Some demo_stream) = Done ret (g', Some strm') \<and>
    (ret = Z_OK \<longrightarrow> z_next_in strm' = [] \<or> z_avail_out strm' = 0)"
proof -
  obtain ret g' strm' where c: "j_inflate Z_NO_FLUSH demo_ins (Some demo_stream) = Done ret (g', Some strm')"
    by (rule j_inflate_call [OF demo_good])
  from j_inflate_progress [OF demo_good c] show ?thesis using c by auto
qed

text \<open>C8: The end of a stream and a data error are final: every further call reports them again and touches neither
  the input nor the output, whatever the rest of the state is.\<close>

theorem j_inflate_final:
  assumes "\<not> inflateStateCheck (Some strm)" and "\<not> z_out_null strm" and "z_in_null strm \<longrightarrow> z_next_in strm = []"
    and "z_state strm = Some st" and "i_mode st = BAD \<or> i_mode st = DONE"
  shows "\<exists>strm'. j_inflate flush g (Some strm) = Done (if i_mode st = BAD then Z_DATA_ERROR else Z_STREAM_END) (g, Some strm') \<and>
    z_next_in strm' = z_next_in strm \<and> z_out strm' = z_out strm \<and> z_avail_out strm' = z_avail_out strm \<and>
    z_total_in strm' = z_total_in strm \<and> z_total_out strm' = z_total_out strm \<and> map_option i_mode (z_state strm') = Some (i_mode st)"
proof -
  define s where "s = inflate_enter g strm st"
  define c :: int where "c = (if i_mode st = BAD then Z_DATA_ERROR else Z_STREAM_END)"
  note e = enter_fields [of g strm st, folded s_def]
  let ?t = "s\<lparr>m_ret := c\<rparr>"
  have step: "inflate_step flush s = Leave ?t" using assms(5) e(10) by (auto simp: inflate_step_def inflate_DONE_def c_def)
  have fuel: "inflate_fuel s = Suc (16 * m_left s + 15)" by (simp add: inflate_fuel_def)
  have ret: "fst (inf_leave flush ?t) = c" by (auto simp: inf_leave_def Let_def RESTORE_def set_adler_check_def c_def)
  note l = inf_leave_fields [of flush ?t]
  have "inflate_loop (inflate_fuel s) flush s = Done c (snd (inf_leave flush ?t))"
    unfolding fuel inflate_loop.simps(2) step using ret by (simp add: case_prod_beta)
  then have "j_inflate flush g (Some strm) = Done c (m_ins (snd (inf_leave flush ?t)),
      Some ((m_strm (snd (inf_leave flush ?t)))\<lparr>z_state := Some (inflate_state.truncate (snd (inf_leave flush ?t)))\<rparr>))"
    using assms by (auto simp: j_inflate_def s_def [symmetric] Let_def inflate_exit_def)
  moreover have "i_mode (inflate_state.truncate u) = i_mode u" for u :: inflate_run
    by (simp add: inflate_state.defs recorder.defs huff.defs reader.defs)
  ultimately show ?thesis using l e assms(5) by (auto simp: c_def)
qed

theorem j_inflate_final_witness:
  "\<exists>strm'. j_inflate Z_NO_FLUSH demo_ins (Some (demo_stream\<lparr>z_state := Some (demo_state\<lparr>i_mode := BAD\<rparr>)\<rparr>)) = Done Z_DATA_ERROR (demo_ins, Some strm') \<and>
    z_next_in strm' = [0x03, 0x00] \<and> z_out strm' = []"
  using j_inflate_final [of "demo_stream\<lparr>z_state := Some (demo_state\<lparr>i_mode := BAD\<rparr>)\<rparr>" "demo_state\<lparr>i_mode := BAD\<rparr>" Z_NO_FLUSH demo_ins]
  by (auto simp: demo_stream_def inflateStateCheck_def demo_state_def)

end
