(* ===== verification/Deflate_State.thy ===== *)
theory Deflate_State
  imports Z_Stream Code_Reader Trees Adler32
begin

text \<open>
  The state of deflate.c: \<^verbatim>\<open>struct internal_state\<close> (deflate.h), its modes, the globals and the local
  variables of \<^verbatim>\<open>deflate_my\<close>, and the routines that set a stream up, take it down and move pending output
  to the caller.  \<open>deflate_state\<close> extends the shared part \<open>huff\<close>; the fields of trees.c are the record
  \<open>d_tr\<close> inside it.  The window and the hash tables are allocated but never used by the re-encoder; only
  whether their allocation succeeds is kept.
\<close>

section \<open>Data\<close>

text \<open>\<^verbatim>\<open>deflate_mode\<close>; \<open>TYPE_0\<close>, \<open>COPY_0\<close>, \<open>LEN_0\<close> and \<open>LENGTH_0\<close> are \<^verbatim>\<open>TYPE\<close>, \<^verbatim>\<open>COPY_\<close>, \<^verbatim>\<open>LEN_\<close> and
  \<^verbatim>\<open>LENGTH\<close>.\<close>

datatype deflate_mode = HEAD | FLAGS | TIME | OS | EXLEN | EXTRA | NAME | COMMENT | HCRC | DICTID | DICT
  | TYPE_0 | TYPEDO | STORED | COPY_0 | COPY | TABLE | LENLENS | CODELENS | LEN_0 | LEN | INS0 | INS1 | INS2
  | LENEXT | DIST | DISTEXT | MATCH | LIT | CHECK | LENGTH_0 | DONE | SENDINS | BAD | MEM | ENDOFBLOCK
  | SKPI_HEADER_END | SYNC

abbreviation (input) "INIT_STATE \<equiv> (42::int)"
abbreviation (input) "EXTRA_STATE \<equiv> (69::int)"
abbreviation (input) "NAME_STATE \<equiv> (73::int)"
abbreviation (input) "COMMENT_STATE \<equiv> (91::int)"
abbreviation (input) "HCRC_STATE \<equiv> (103::int)"
abbreviation (input) "BUSY_STATE \<equiv> (113::int)"
abbreviation (input) "FINISH_STATE \<equiv> (666::int)"

text \<open>\<open>d_pending_out\<close> is an index into \<open>pending_buf\<close>.\<close>

record deflate_state = huff +
  d_tr :: trees_state
  d_strm :: nat
  d_status :: int
  d_pending_buf_size :: nat
  d_pending_out :: nat
  d_wrap :: int
  d_gzhead :: "gz_header option"
  d_method :: int
  d_last_flush :: int
  d_w_size :: nat
  d_w_bits :: nat
  d_w_mask :: nat
  d_hash_size :: nat
  d_hash_bits :: nat
  d_hash_mask :: nat
  d_hash_shift :: nat
  d_level :: int
  d_strategy :: int
  d_lit_bufsize :: nat
  d_high_water :: nat
  d_last :: nat
  d_ttype :: tree_type
  d_length :: nat
  d_offset :: nat
  d_hold :: ulong
  d_bits :: nat
  d_mode :: deflate_mode

type_synonym deflate_strm = "deflate_state z_stream"

text \<open>The file-level arrays \<open>de_ins_buf\<close> and \<open>insbuf\<close> are declared as arrays of six pointers; what is stored
  there are small numbers.  The three counters that case HEAD declares inside the switch hide the file-level
  variables of the same names in all the cases below, so that only these are ever used.\<close>

record de_globals =
  de_ins_buf :: "nat list"
  insbuf :: "nat list"

record de_locals =
  de_ins_buf_index :: int
  de_ins_buf_have :: int
  de_ins_type :: int

text \<open>A running call of \<open>deflate_my\<close>.\<close>

record deflate_run = deflate_state +
  de_strm :: deflate_strm
  de_in :: nat
  de_out :: uint32
  de_ret :: int
  de_g :: de_globals
  de_l :: de_locals

section \<open>Setting up and taking down\<close>

definition deflateStateCheck :: "deflate_strm option \<Rightarrow> bool" where
  "deflateStateCheck strmp =
    (case strmp of
       None \<Rightarrow> True
     | Some strm \<Rightarrow>
         if \<not> z_zalloc strm \<or> \<not> z_zfree strm then True
         else case z_state strm of
                None \<Rightarrow> True
              | Some s \<Rightarrow> d_strm s \<noteq> z_addr strm \<or>
                  d_status s \<noteq> INIT_STATE \<and> d_status s \<noteq> EXTRA_STATE \<and> d_status s \<noteq> NAME_STATE \<and>
                  d_status s \<noteq> COMMENT_STATE \<and> d_status s \<noteq> HCRC_STATE \<and> d_status s \<noteq> BUSY_STATE \<and>
                  d_status s \<noteq> FINISH_STATE)"

text \<open>\<^verbatim>\<open>Z_UNKNOWN\<close> is 2.\<close>

definition j_deflateResetKeep :: "deflate_strm option \<Rightarrow> int \<times> deflate_strm option" where
  "j_deflateResetKeep strmp =
    (if deflateStateCheck strmp then (Z_STREAM_ERROR, strmp)
     else case strmp of
       None \<Rightarrow> (Z_STREAM_ERROR, strmp)
     | Some strm \<Rightarrow>
       (case z_state strm of
          None \<Rightarrow> (Z_STREAM_ERROR, strmp)
        | Some s \<Rightarrow>
            let strm1 = strm\<lparr>z_total_in := 0, z_total_out := 0, z_msg := None, z_data_type := 2\<rparr>;
                s1 = s\<lparr>d_tr := (d_tr s)\<lparr>pending := 0\<rparr>, d_pending_out := 0\<rparr>;
                s2 = (if d_wrap s1 < 0 then s1\<lparr>d_wrap := - d_wrap s1\<rparr> else s1);
                s3 = s2\<lparr>d_status := INIT_STATE\<rparr>;
                strm2 = strm1\<lparr>z_adler := adler32 0 None\<rparr>;
                s4 = s3\<lparr>d_last_flush := -2\<rparr>;
                s5 = s4\<lparr>d_tr := j_tr_init (d_tr s4)\<rparr>
            in (Z_OK, Some (strm2\<lparr>z_state := Some s5\<rparr>))))"

definition j_deflateReset :: "deflate_strm option \<Rightarrow> int \<times> deflate_strm option" where
  "j_deflateReset strmp = (let ret = j_deflateResetKeep strmp in ret)"

definition j_deflateEnd :: "deflate_strm option \<Rightarrow> int \<times> deflate_strm option" where
  "j_deflateEnd strmp =
    (if deflateStateCheck strmp then (Z_STREAM_ERROR, strmp)
     else case strmp of
       None \<Rightarrow> (Z_STREAM_ERROR, strmp)
     | Some strm \<Rightarrow>
       (case z_state strm of
          None \<Rightarrow> (Z_STREAM_ERROR, strmp)
        | Some s \<Rightarrow>
            let status = d_status s
            in (if status = BUSY_STATE then Z_DATA_ERROR else Z_OK, Some (strm\<lparr>z_state := None\<rparr>))))"

text \<open>The wrap value and the window bits asked for, \<open>None\<close> below -15.\<close>

definition deflate_wrap :: "int \<Rightarrow> (int \<times> int) option" where
  "deflate_wrap windowBits =
    (if windowBits < 0 then (if windowBits < -15 then None else Some (0, - windowBits)) else Some (1, windowBits))"

text \<open>What the allocator returns: the block for the state with arbitrary contents, whether there was
  memory for the window and the two hash arrays, and the array \<open>pending_buf\<close> of the size asked for.\<close>

record deflate_memory =
  mem_state :: "deflate_state option"
  mem_window :: bool
  mem_prev :: bool
  mem_head :: bool
  mem_pending_buf :: "nat \<Rightarrow> byte list option"

definition deflate_sizes :: "int \<Rightarrow> int \<Rightarrow> deflate_state \<Rightarrow> deflate_state" where
  "deflate_sizes windowBits memLevel s =
    (let s1 = s\<lparr>d_w_bits := nat windowBits\<rparr>;
         s2 = s1\<lparr>d_w_size := 2 ^ d_w_bits s1\<rparr>;
         s3 = s2\<lparr>d_w_mask := d_w_size s2 - 1\<rparr>;
         s4 = s3\<lparr>d_hash_bits := nat memLevel + 7\<rparr>;
         s5 = s4\<lparr>d_hash_size := 2 ^ d_hash_bits s4\<rparr>;
         s6 = s5\<lparr>d_hash_mask := d_hash_size s5 - 1, d_hash_shift := (d_hash_bits s5 + 3 - 1) div 3\<rparr>
     in s6\<lparr>d_high_water := 0, d_lit_bufsize := 2 ^ (nat memLevel + 6)\<rparr>)"

text \<open>\<open>MAX_MEM_LEVEL\<close> comes from the configuration header, which is not part of the repository.\<close>

definition j_deflateInit2 :: "int \<Rightarrow> deflate_memory \<Rightarrow> int \<Rightarrow> int \<Rightarrow> int \<Rightarrow> int \<Rightarrow> int \<Rightarrow> deflate_strm option \<Rightarrow>
    int \<times> deflate_strm option" where
  "j_deflateInit2 max_mem_level mem level0 method windowBits0 memLevel strategy strmp =
    (case strmp of
       None \<Rightarrow> (Z_STREAM_ERROR, None)
     | Some strm0 \<Rightarrow>
         let strm = strm0\<lparr>z_msg := None, z_zalloc := True, z_zfree := True\<rparr>;
             level = (if level0 = Z_DEFAULT_COMPRESSION then 6 else level0)
         in (case deflate_wrap windowBits0 of
               None \<Rightarrow> (Z_STREAM_ERROR, Some strm)
             | Some (wrap, windowBits) \<Rightarrow>
                 if memLevel < 1 \<or> memLevel > max_mem_level \<or> method \<noteq> Z_DEFLATED \<or> windowBits < 8 \<or> windowBits > 15 \<or>
                    level < 0 \<or> level > 9 \<or> strategy < 0 \<or> strategy > Z_FIXED \<or> windowBits = 8 \<and> wrap \<noteq> 1
                 then (Z_STREAM_ERROR, Some strm)
                 else
                   (case mem_state mem of
                      None \<Rightarrow> (Z_MEM_ERROR, Some strm)
                    | Some s \<Rightarrow>
                        let s1 = s\<lparr>d_strm := z_addr strm, d_status := INIT_STATE, d_wrap := wrap, d_gzhead := None\<rparr>;
                            s2 = deflate_sizes (if windowBits = 8 then 9 else windowBits) memLevel s1;
                            s3 = s2\<lparr>d_pending_buf_size := d_lit_bufsize s2 * 16\<rparr>
                        in (case (mem_window mem \<and> mem_prev mem \<and> mem_head mem, mem_pending_buf mem (d_lit_bufsize s3 * 16)) of
                              (True, Some buf) \<Rightarrow>
                                let s4 = s3\<lparr>d_tr := (d_tr s3)\<lparr>pending_buf := buf, sym_off := d_lit_bufsize s3,
                                              sym_end := (d_lit_bufsize s3 - 1) * 12\<rparr>,
                                            d_level := level, d_strategy := strategy, d_method := method, d_mode := HEAD\<rparr>
                                in j_deflateReset (Some (strm\<lparr>z_state := Some s4\<rparr>))
                            | _ \<Rightarrow>
                                let s4 = s3\<lparr>d_status := FINISH_STATE\<rparr>;
                                    strm1 = strm\<lparr>z_msg := ERR_MSG Z_MEM_ERROR, z_state := Some s4\<rparr>
                                in (Z_MEM_ERROR, snd (j_deflateEnd (Some strm1)))))))"

text \<open>\<open>DEF_MEM_LEVEL\<close> is 8 when \<open>MAX_MEM_LEVEL\<close> is at least 8; \<^verbatim>\<open>Z_DEFAULT_STRATEGY\<close> is 0.\<close>

definition j_deflateInit :: "int \<Rightarrow> int \<Rightarrow> deflate_memory \<Rightarrow> int \<Rightarrow> deflate_strm option \<Rightarrow> int \<times> deflate_strm option" where
  "j_deflateInit max_wbits max_mem_level mem level strmp =
    j_deflateInit2 max_mem_level mem level Z_DEFLATED max_wbits (if max_mem_level \<ge> 8 then 8 else max_mem_level) 0 strmp"

definition j_deflateSetHeader :: "gz_header option \<Rightarrow> deflate_strm option \<Rightarrow> int \<times> deflate_strm option" where
  "j_deflateSetHeader head strmp =
    (if deflateStateCheck strmp then (Z_STREAM_ERROR, strmp)
     else case Option.bind strmp z_state of
       None \<Rightarrow> (Z_STREAM_ERROR, strmp)
     | Some s \<Rightarrow>
         if d_wrap s \<noteq> 2 then (Z_STREAM_ERROR, strmp)
         else (Z_OK, map_option (\<lambda>strm. strm\<lparr>z_state := Some (s\<lparr>d_gzhead := head\<rparr>)\<rparr>) strmp))"

text \<open>The values stored through \<open>pending\<close> and \<open>bits\<close>.\<close>

definition j_deflatePending :: "deflate_strm option \<Rightarrow> int \<times> (nat \<times> nat) option" where
  "j_deflatePending strmp =
    (if deflateStateCheck strmp then (Z_STREAM_ERROR, None)
     else case Option.bind strmp z_state of
       None \<Rightarrow> (Z_STREAM_ERROR, None)
     | Some s \<Rightarrow> (Z_OK, Some (pending (d_tr s), bi_valid (d_tr s))))"

section \<open>Moving data\<close>

text \<open>\<^verbatim>\<open>flush_pending\<close>; reading beyond \<open>pending_buf\<close> sets the flag \<open>oob\<close>.\<close>

definition flush_pending :: "deflate_strm \<Rightarrow> 'z deflate_state_scheme \<Rightarrow> deflate_strm \<times> 'z deflate_state_scheme" where
  "flush_pending strm s0 =
    (let s = s0\<lparr>d_tr := j_tr_flush_bits (d_tr s0)\<rparr>;
         len0 = pending (d_tr s);
         len = (if len0 > z_avail_out strm then z_avail_out strm else len0)
     in if len = 0 then (strm, s)
        else
          let t = d_tr s;
              strm1 = strm\<lparr>z_out := z_out strm @ take len (drop (d_pending_out s) (pending_buf t)),
                           z_total_out := z_total_out strm + of_nat len, z_avail_out := z_avail_out strm - len\<rparr>;
              t1 = t\<lparr>pending := pending t - len, oob := oob t \<or> length (pending_buf t) < d_pending_out s + len\<rparr>;
              s1 = s\<lparr>d_tr := t1, d_pending_out := d_pending_out s + len\<rparr>
          in (strm1, if pending t1 = 0 then s1\<lparr>d_pending_out := 0\<rparr> else s1))"

text \<open>\<^verbatim>\<open>read_buf\<close>: the number of bytes, the bytes stored in \<open>buf\<close> and the stream; \<open>wrap\<close> is the one of the state.\<close>

definition read_buf :: "int \<Rightarrow> nat \<Rightarrow> deflate_strm \<Rightarrow> nat \<times> byte list \<times> deflate_strm" where
  "read_buf wrap size_0 strm =
    (let avail = length (z_next_in strm); len = (if avail > size_0 then size_0 else avail)
     in if len = 0 then (0, [], strm)
        else
          let buf = take len (z_next_in strm);
              strm1 = (if wrap = 1 then strm\<lparr>z_adler := adler32 (z_adler strm) (Some buf)\<rparr> else strm)
          in (len, buf, strm1\<lparr>z_next_in := drop len (z_next_in strm1), z_total_in := z_total_in strm1 + of_nat len\<rparr>))"

section \<open>Registers\<close>

definition de_LOAD :: "deflate_run \<Rightarrow> deflate_run" where
  "de_LOAD s = s\<lparr>r_next := z_next_in (de_strm s), r_hold := d_hold s, r_bits := d_bits s\<rparr>"

definition de_RESTORE :: "deflate_run \<Rightarrow> deflate_run" where
  "de_RESTORE s = s\<lparr>de_strm := (de_strm s)\<lparr>z_next_in := r_next s\<rparr>, d_hold := r_hold s, d_bits := r_bits s\<rparr>"

end
