(* ===== verification/Deflate.thy ===== *)
theory Deflate
  imports Deflate_State
begin

text \<open>
  The state machine of \<^verbatim>\<open>deflate_my\<close> (deflate.c), which reads an instruction stream and re-encodes it as a
  DEFLATE stream, and the entry point \<^verbatim>\<open>j_deflate\<close>.  One function for each case of the switch; a case that
  falls through calls the next one.  Two local variables are used before they are set: \<open>out\<close>, and the
  counters of \<open>de_locals\<close> when the switch is entered at a case below HEAD.  What they contain is an argument of
  the call.
\<close>

section \<open>Helpers\<close>

definition de_msg :: "string \<Rightarrow> deflate_run \<Rightarrow> deflate_run" where
  "de_msg m s = s\<lparr>de_strm := (de_strm s)\<lparr>z_msg := Some m\<rparr>\<rparr>"

definition de_bad :: "string \<Rightarrow> deflate_run \<Rightarrow> deflate_run step" where
  "de_bad m s = Next ((de_msg m s)\<lparr>d_mode := BAD\<rparr>)"

definition put_ins :: "nat \<Rightarrow> deflate_run \<Rightarrow> deflate_run" where
  "put_ins i s = s\<lparr>de_g := (de_g s)\<lparr>de_ins_buf := (de_ins_buf (de_g s))[i := BITS 8 s]\<rparr>\<rparr>"

definition set_insbuf :: "nat \<Rightarrow> deflate_run \<Rightarrow> deflate_run" where
  "set_insbuf i s = s\<lparr>de_g := (de_g s)\<lparr>insbuf := (insbuf (de_g s))[i := BITS 8 s]\<rparr>\<rparr>"

text \<open>\<^verbatim>\<open>zmemcpy(state->sym_buf + state->sym_next, next, copy)\<close>\<close>

definition sym_copy :: "byte list \<Rightarrow> 'z trees_state_scheme \<Rightarrow> 'z trees_state_scheme" where
  "sym_copy bs t =
    (let i = sym_off t + sym_next t; n = length bs; a = pending_buf t
     in if i + n \<le> length a then t\<lparr>pending_buf := take i a @ bs @ drop (i + n) a, sym_next := sym_next t + n\<rparr>
        else t\<lparr>sym_next := sym_next t + n, oob := True\<rparr>)"

definition clear_trees :: "'z trees_state_scheme \<Rightarrow> 'z trees_state_scheme" where
  "clear_trees t = t\<lparr>bl_tree := replicate (2 * BL_CODES + 1) (ct (0, 0)), dyn_ltree := replicate (2 * L_CODES + 1) (ct (0, 0)),
     dyn_dtree := replicate (2 * D_CODES + 1) (ct (0, 0))\<rparr>"

section \<open>Sending and the trailer\<close>

text \<open>\<open>avail_out\<close> is unsigned and \<open>de_ins_buf_have - de_ins_buf_index\<close> signed and wider, so that the comparison is
  one of integers.\<close>

definition deflate_SENDINS :: "deflate_run \<Rightarrow> deflate_run step" where
  "deflate_SENDINS s =
    (let strm = de_strm s in
     if z_avail_out strm = 0 then Leave s
     else
       let l = de_l s; n = de_ins_buf_have l - de_ins_buf_index l;
           copy = (if n > int (z_avail_out strm) then z_avail_out strm else nat (n mod 2 ^ 32))
       in if copy \<noteq> 0 \<and> (de_ins_buf_index l < 0 \<or> de_ins_buf_index l + int copy > 6) then Undef
          else
            let s1 = s\<lparr>de_strm := strm\<lparr>z_avail_out := z_avail_out strm - copy,
                         z_out := z_out strm @ map of_nat (take copy (drop (nat (de_ins_buf_index l)) (de_ins_buf (de_g s))))\<rparr>,
                       de_l := l\<lparr>de_ins_buf_index := de_ins_buf_index l + int copy\<rparr>\<rparr>;
                l1 = de_l s1
            in if de_ins_buf_index l1 = de_ins_buf_have l1
               then (if de_ins_type l1 = 0 then Next (s1\<lparr>d_mode := TYPE_0\<rparr>)
                     else if de_ins_type l1 = 1 then Leave (s1\<lparr>de_ret := Z_STREAM_END\<rparr>)
                     else Next s1)
               else Next s1)"

definition deflate_DONE :: "deflate_run \<Rightarrow> deflate_run step" where
  "deflate_DONE s =
    (if d_wrap s = 0 then Leave (s\<lparr>de_ret := Z_STREAM_END\<rparr>)
     else with_bits 32 s (\<lambda>s.
       let s1 = s\<lparr>de_l := \<lparr>de_ins_buf_index = 0, de_ins_buf_have = 4, de_ins_type = 1\<rparr>\<rparr>;
           s2 = drop_bits 8 (put_ins 0 s1); s3 = drop_bits 8 (put_ins 1 s2);
           s4 = drop_bits 8 (put_ins 2 s3); s5 = drop_bits 8 (put_ins 3 s4)
       in deflate_SENDINS ((INITBITS s5)\<lparr>d_mode := SENDINS\<rparr>)))"

section \<open>Symbols\<close>

text \<open>When the symbol buffer is full the function returns 1 at once, without \<^verbatim>\<open>RESTORE()\<close>.\<close>

definition deflate_LIT :: "deflate_run \<Rightarrow> deflate_run step" where
  "deflate_LIT s =
    (case tr_tally_lit_my (of_nat (d_length s)) (d_tr s) of
       (t, bflush) \<Rightarrow> let s1 = s\<lparr>d_tr := t\<rparr> in if bflush then Ret 1 s1 else Next (s1\<lparr>d_mode := LEN\<rparr>))"

definition deflate_MATCH :: "deflate_run \<Rightarrow> deflate_run step" where
  "deflate_MATCH s =
    (case tr_tally_dist_my (of_nat (d_offset s)) (of_nat (d_length s)) (d_tr s) of
       (t, bflush) \<Rightarrow> let s1 = s\<lparr>d_tr := t\<rparr> in if bflush then Ret 1 s1 else Next (s1\<lparr>d_mode := LEN\<rparr>))"

definition deflate_INS2 :: "deflate_run \<Rightarrow> deflate_run step" where
  "deflate_INS2 s =
    with_bits 16 s (\<lambda>s.
      let s1 = drop_bits 8 (set_insbuf 2 s);
          s2 = drop_bits 8 (set_insbuf 3 s1);
          b = insbuf (de_g s2)
      in deflate_MATCH (s2\<lparr>d_mode := MATCH, d_length := b ! 3, d_offset := b ! 2 + push_bit 8 (b ! 1)\<rparr>))"

definition deflate_INS1 :: "deflate_run \<Rightarrow> deflate_run step" where
  "deflate_INS1 s =
    with_bits 8 s (\<lambda>s.
      let s1 = drop_bits 8 (set_insbuf 1 s);
          b = insbuf (de_g s1) ! 1
      in if b = 0xaa then Next (s1\<lparr>d_length := 0xaa, d_mode := LIT\<rparr>)
         else if b = 0xff then Next (s1\<lparr>d_mode := ENDOFBLOCK\<rparr>)
         else if b > 0x80 then de_bad ''invalid literal/length code'' s1
         else deflate_INS2 (s1\<lparr>d_mode := INS2\<rparr>))"

definition deflate_LEN :: "deflate_run \<Rightarrow> deflate_run step" where
  "deflate_LEN s =
    with_bits 8 s (\<lambda>s.
      let s1 = drop_bits 8 (set_insbuf 0 s);
          b = insbuf (de_g s1) ! 0
      in if b \<noteq> 0xaa then Next (s1\<lparr>d_length := b, d_mode := LIT\<rparr>)
         else deflate_INS1 (s1\<lparr>d_mode := INS1\<rparr>))"

definition deflate_LEN_0 :: "deflate_run \<Rightarrow> deflate_run step" where
  "deflate_LEN_0 s = deflate_LEN ((INITBITS s)\<lparr>d_mode := LEN\<rparr>)"

section \<open>Block headers\<close>

definition deflate_SKPI_HEADER_END :: "deflate_run \<Rightarrow> deflate_run step" where
  "deflate_SKPI_HEADER_END s =
    with_bits 16 (BYTEBITS s) (\<lambda>s.
      let s1 = drop_bits 16 s
      in Next (s1\<lparr>d_mode := (if d_ttype s1 = STORE then COPY_0 else LEN_0)\<rparr>))"

definition de_table :: "table_out \<Rightarrow> deflate_run \<Rightarrow> deflate_run" where
  "de_table t s = s\<lparr>de_ret := to_ret t, h_codes := to_tab t, h_next := to_table t, h_work := to_work t\<rparr>"

definition deflate_codes :: "int \<Rightarrow> deflate_run \<Rightarrow> deflate_run step" where
  "deflate_codes flush s0 =
    (let s = s0\<lparr>h_next := 0, h_lencode := Codes 0, h_lenbits := 9\<rparr> in
     case inflate_table_my LENS (h_lens s) (h_nlen s) (h_codes s) (h_next s) (h_lenbits s) (h_work s) (dyn_ltree (d_tr s)) of
       None \<Rightarrow> Undef
     | Some t \<Rightarrow>
         let s1 = (de_table t s)\<lparr>h_lenbits := to_bits t, d_tr := (d_tr s)\<lparr>dyn_ltree := to_tree t\<rparr>\<rparr> in
         if to_ret t \<noteq> 0 then de_bad ''invalid literal/lengths set'' s1
         else
           let s2 = s1\<lparr>h_distcode := Codes (h_next s1), h_distbits := 6\<rparr> in
           (case inflate_table_my DISTS (drop (h_nlen s2) (h_lens s2)) (h_ndist s2) (h_codes s2) (h_next s2)
                   (h_distbits s2) (h_work s2) (dyn_dtree (d_tr s2)) of
              None \<Rightarrow> Undef
            | Some u \<Rightarrow>
                let s3 = (de_table u s2)\<lparr>h_distbits := to_bits u, d_tr := (d_tr s2)\<lparr>dyn_dtree := to_tree u\<rparr>\<rparr> in
                if to_ret u \<noteq> 0 then de_bad ''invalid distances set'' s3
                else let s4 = s3\<lparr>d_mode := SKPI_HEADER_END\<rparr> in if flush = Z_TREES then Leave s4 else Next s4))"

definition deflate_CODELENS :: "int \<Rightarrow> deflate_run \<Rightarrow> deflate_run step" where
  "deflate_CODELENS flush s =
    (case codelens_loop drop_bits (h_nlen s + h_ndist s - h_have s) s of
       CL_undef \<Rightarrow> Undef
     | CL_short s1 \<Rightarrow> Leave s1
     | CL_bad s1 \<Rightarrow> de_bad ''invalid bit length repeat'' s1
     | CL_more s1 \<Rightarrow>
         if h_lens s1 ! 256 = 0 then de_bad ''invalid code -- missing end-of-block'' s1
         else deflate_codes flush s1)"

definition deflate_LENLENS :: "int \<Rightarrow> deflate_run \<Rightarrow> deflate_run step" where
  "deflate_LENLENS flush s =
    (case lenlens_loop drop_bits (ncode (d_tr s) - h_have s) s of
       Short s1 \<Rightarrow> Leave s1
     | Got s1 \<Rightarrow>
         let s2 = (lenlens_pad (19 - h_have s1) s1)\<lparr>h_next := 0, h_lencode := Codes 0, h_lenbits := 7\<rparr> in
         (case inflate_table_my CODES (h_lens s2) 19 (h_codes s2) (h_next s2) (h_lenbits s2) (h_work s2) (bl_tree (d_tr s2)) of
            None \<Rightarrow> Undef
          | Some t \<Rightarrow>
              let s3 = (de_table t s2)\<lparr>h_lenbits := to_bits t, d_tr := (d_tr s2)\<lparr>bl_tree := to_tree t\<rparr>\<rparr> in
              if to_ret t \<noteq> 0 then de_bad ''invalid code lengths set'' s3
              else deflate_CODELENS flush (s3\<lparr>h_have := 0, d_mode := CODELENS\<rparr>)))"

definition de_counts :: "deflate_run \<Rightarrow> deflate_run" where
  "de_counts s =
    (let s1 = s\<lparr>h_nlen := BITS 5 s + 257\<rparr>;
         s2 = drop_bits 5 (s1\<lparr>d_tr := (d_tr s1)\<lparr>l_desc := (l_desc (d_tr s1))\<lparr>max_code := h_nlen s1\<rparr>\<rparr>\<rparr>);
         s3 = s2\<lparr>h_ndist := BITS 5 s2 + 1\<rparr>;
         s4 = drop_bits 5 (s3\<lparr>d_tr := (d_tr s3)\<lparr>d_desc := (d_desc (d_tr s3))\<lparr>max_code := h_ndist s3\<rparr>\<rparr>\<rparr>)
     in drop_bits 4 (s4\<lparr>d_tr := (d_tr s4)\<lparr>ncode := BITS 4 s4 + 4\<rparr>\<rparr>))"

definition deflate_TABLE :: "int \<Rightarrow> deflate_run \<Rightarrow> deflate_run step" where
  "deflate_TABLE flush s =
    with_bits 14 s (\<lambda>s. deflate_LENLENS flush ((de_counts s)\<lparr>h_have := 0, d_mode := LENLENS\<rparr>))"

section \<open>Stored blocks\<close>

definition deflate_COPY :: "deflate_run \<Rightarrow> deflate_run step" where
  "deflate_COPY s =
    (let n = d_length s in
     if n \<noteq> 0 then
       let copy = (if n > length (r_next s) then length (r_next s) else n)
       in if copy = 0 then Leave s
          else Next (s\<lparr>d_tr := sym_copy (take copy (r_next s)) (d_tr s), r_next := drop copy (r_next s), d_length := n - copy\<rparr>)
     else with_bits 16 s (\<lambda>s. Next ((drop_bits 16 s)\<lparr>d_mode := ENDOFBLOCK\<rparr>)))"

definition deflate_COPY_0 :: "deflate_run \<Rightarrow> deflate_run step" where
  "deflate_COPY_0 s = deflate_COPY (s\<lparr>d_mode := COPY\<rparr>)"

definition deflate_STORED :: "deflate_run \<Rightarrow> deflate_run step" where
  "deflate_STORED s =
    with_bits 32 (BYTEBITS s) (\<lambda>s.
      if r_hold s AND 0xffff \<noteq> drop_bit 16 (r_hold s) XOR 0xffff then de_bad ''invalid stored block lengths'' s
      else Next ((INITBITS (s\<lparr>d_length := unat ((ucast (r_hold s) :: uint32) AND 0xffff)\<rparr>))\<lparr>d_mode := SKPI_HEADER_END\<rparr>))"

section \<open>Block types\<close>

text \<open>The switch on the block type, after the bit of the last block has been read.\<close>

definition de_type :: "int \<Rightarrow> deflate_run \<Rightarrow> deflate_run step" where
  "de_type flush s =
    (let t = BITS 2 s in
     if t = 0 then Next (drop_bits 2 (s\<lparr>d_ttype := STORE, d_mode := STORED\<rparr>))
     else if t = 1 then
       let s1 = s\<lparr>d_mode := SKPI_HEADER_END, d_ttype := FIXED\<rparr>
       in if flush = Z_TREES then Leave (drop_bits 2 s1) else Next (drop_bits 2 s1)
     else if t = 2 then Next (drop_bits 2 (s\<lparr>d_mode := TABLE, d_ttype := DYNAMIC\<rparr>))
     else Next (drop_bits 2 ((de_msg ''invalid block type'' s)\<lparr>d_mode := BAD\<rparr>)))"

definition deflate_TYPEDO :: "int \<Rightarrow> deflate_run \<Rightarrow> deflate_run step" where
  "deflate_TYPEDO flush s0 =
    (let s = s0\<lparr>d_tr := clear_trees (d_tr s0)\<rparr> in
     if d_last s \<noteq> 0 then Next ((BYTEBITS s)\<lparr>d_mode := DONE\<rparr>)
     else with_bits 3 s (\<lambda>s. de_type flush (drop_bits 1 (s\<lparr>d_last := BITS 1 s\<rparr>))))"

definition deflate_TYPE :: "int \<Rightarrow> deflate_run \<Rightarrow> deflate_run step" where
  "deflate_TYPE flush s = (if flush = Z_BLOCK \<or> flush = Z_TREES then Leave s else deflate_TYPEDO flush s)"

definition deflate_HEAD :: "deflate_run \<Rightarrow> deflate_run step" where
  "deflate_HEAD s =
    (if d_wrap s = 0 then Next (s\<lparr>d_mode := TYPEDO\<rparr>)
     else with_bits 8 s (\<lambda>s.
       with_bits 8 (drop_bits 8 (put_ins 0 s)) (\<lambda>s.
         Next ((drop_bits 8 (put_ins 1 s))\<lparr>de_l := \<lparr>de_ins_buf_index = 0, de_ins_buf_have = 2, de_ins_type = 0\<rparr>,
                 d_mode := SENDINS\<rparr>))))"

section \<open>End of a block\<close>

definition deflate_ENDOFBLOCK :: "deflate_run \<Rightarrow> deflate_run step" where
  "deflate_ENDOFBLOCK s0 =
    (let s = s0\<lparr>d_mode := TYPE_0\<rparr>; t = d_tr s;
         s1 = s\<lparr>d_tr := tr_flush_block_my (sym_off t) (sym_next t) (d_ttype s) (of_nat (d_last s)) t\<rparr>
     in (case flush_pending (de_strm s1) s1 of
           (strm, s2) \<Rightarrow> let s3 = s2\<lparr>de_strm := strm\<rparr> in if z_avail_out strm = 0 then Leave s3 else Next s3))"

section \<open>The loop\<close>

definition deflate_step :: "int \<Rightarrow> deflate_run \<Rightarrow> deflate_run step" where
  "deflate_step flush s =
    (case d_mode s of
       HEAD \<Rightarrow> deflate_HEAD s | TYPE_0 \<Rightarrow> deflate_TYPE flush s | TYPEDO \<Rightarrow> deflate_TYPEDO flush s
     | STORED \<Rightarrow> deflate_STORED s | COPY_0 \<Rightarrow> deflate_COPY_0 s | COPY \<Rightarrow> deflate_COPY s
     | TABLE \<Rightarrow> deflate_TABLE flush s | LENLENS \<Rightarrow> deflate_LENLENS flush s | CODELENS \<Rightarrow> deflate_CODELENS flush s
     | SKPI_HEADER_END \<Rightarrow> deflate_SKPI_HEADER_END s | LEN_0 \<Rightarrow> deflate_LEN_0 s | LEN \<Rightarrow> deflate_LEN s
     | INS1 \<Rightarrow> deflate_INS1 s | INS2 \<Rightarrow> deflate_INS2 s | MATCH \<Rightarrow> deflate_MATCH s | LIT \<Rightarrow> deflate_LIT s
     | DONE \<Rightarrow> deflate_DONE s | SENDINS \<Rightarrow> deflate_SENDINS s | BAD \<Rightarrow> Leave (s\<lparr>de_ret := Z_DATA_ERROR\<rparr>)
     | MEM \<Rightarrow> Ret Z_MEM_ERROR s | ENDOFBLOCK \<Rightarrow> deflate_ENDOFBLOCK s
     | _ \<Rightarrow> Ret Z_STREAM_ERROR s)"

text \<open>The label \<open>inf_leave\<close>; \<open>in\<close> and \<open>out\<close> are unsigned.\<close>

definition de_leave :: "int \<Rightarrow> deflate_run \<Rightarrow> int \<times> deflate_run" where
  "de_leave flush s0 =
    (let s = de_RESTORE s0;
         din = de_in s - length (z_next_in (de_strm s));
         dout = de_out s - of_nat (z_avail_out (de_strm s));
         s1 = s\<lparr>de_strm := (de_strm s)\<lparr>z_total_in := z_total_in (de_strm s) + of_nat din,
                                       z_total_out := z_total_out (de_strm s) + ucast dout\<rparr>\<rparr>;
         ret = (if (din = 0 \<and> dout = 0 \<or> flush = Z_FINISH) \<and> de_ret s1 = Z_OK then Z_BUF_ERROR else de_ret s1)
     in (ret, s1))"

fun deflate_loop :: "nat \<Rightarrow> int \<Rightarrow> deflate_run \<Rightarrow> deflate_run run" where
  "deflate_loop 0 flush s = Out_of_fuel"
| "deflate_loop (Suc n) flush s =
    (case deflate_step flush s of
       Next s1 \<Rightarrow> deflate_loop n flush s1
     | Leave s1 \<Rightarrow> (case de_leave flush s1 of (ret, s2) \<Rightarrow> Done ret s2)
     | Ret ret s1 \<Rightarrow> Done ret s1
     | Undef \<Rightarrow> Undefined)"

text \<open>Between two rounds that take input there are at most four that take none.\<close>

definition deflate_fuel :: "deflate_run \<Rightarrow> nat" where
  "deflate_fuel s = 4 * (r_bits s + 8 * length (r_next s)) + 8"

definition deflate_enter :: "uint32 \<Rightarrow> de_locals \<Rightarrow> de_globals \<Rightarrow> deflate_strm \<Rightarrow> deflate_state \<Rightarrow> deflate_run" where
  "deflate_enter out l g strm state =
    (let st = (if d_mode state = TYPE_0 then state\<lparr>d_mode := TYPEDO\<rparr> else state)
     in de_LOAD (deflate_state.extend st (deflate_run.fields strm (length (z_next_in strm)) out Z_OK g l)))"

definition deflate_exit :: "deflate_run \<Rightarrow> de_globals \<times> deflate_strm" where
  "deflate_exit s = (de_g s, (de_strm s)\<lparr>z_state := Some (deflate_state.truncate s)\<rparr>)"

definition deflate_my :: "uint32 \<Rightarrow> de_locals \<Rightarrow> int \<Rightarrow> de_globals \<Rightarrow> deflate_strm \<Rightarrow> (de_globals \<times> deflate_strm) run" where
  "deflate_my out l flush g strm =
    (if z_out_null strm \<or> z_in_null strm \<and> z_next_in strm \<noteq> [] then Done Z_STREAM_ERROR (g, strm)
     else case z_state strm of
       None \<Rightarrow> Undefined
     | Some state \<Rightarrow>
         let s = deflate_enter out l g strm state in
         (case deflate_loop (deflate_fuel s) flush s of
            Done ret s1 \<Rightarrow> Done ret (deflate_exit s1)
          | Undefined \<Rightarrow> Undefined
          | Out_of_fuel \<Rightarrow> Out_of_fuel))"

section \<open>The entry point\<close>

definition RANK :: "int \<Rightarrow> int" where
  "RANK f = f * 2 - (if f > 4 then 9 else 0)"

text \<open>\<^verbatim>\<open>ERR_RETURN\<close>\<close>

definition err_return :: "int \<Rightarrow> de_globals \<Rightarrow> deflate_strm \<Rightarrow> (de_globals \<times> deflate_strm option) run" where
  "err_return err g strm = Done err (g, Some (strm\<lparr>z_msg := ERR_MSG err\<rparr>))"

text \<open>The call of \<open>deflate_my\<close> and the return value.\<close>

definition deflate_rest :: "uint32 \<Rightarrow> de_locals \<Rightarrow> int \<Rightarrow> de_globals \<Rightarrow> deflate_strm \<Rightarrow> (de_globals \<times> deflate_strm option) run" where
  "deflate_rest out l flush g strm =
    (case deflate_my out l flush g strm of
       Done ret (g1, strm1) \<Rightarrow>
         (if ret \<noteq> Z_OK \<and> ret \<noteq> Z_STREAM_END then Done ret (g1, Some strm1)
          else case z_state strm1 of
            None \<Rightarrow> Undefined
          | Some s1 \<Rightarrow> Done (if pending (d_tr s1) \<noteq> 0 then Z_OK else Z_STREAM_END) (g1, Some strm1))
     | Undefined \<Rightarrow> Undefined
     | Out_of_fuel \<Rightarrow> Out_of_fuel)"

definition j_deflate :: "uint32 \<Rightarrow> de_locals \<Rightarrow> int \<Rightarrow> de_globals \<Rightarrow> deflate_strm option \<Rightarrow>
    (de_globals \<times> deflate_strm option) run" where
  "j_deflate out l flush g strmp =
    (if deflateStateCheck strmp \<or> flush > Z_BLOCK \<or> flush < 0 then Done Z_STREAM_ERROR (g, strmp)
     else case strmp of
       None \<Rightarrow> Done Z_STREAM_ERROR (g, strmp)
     | Some strm \<Rightarrow>
       (case z_state strm of
          None \<Rightarrow> Done Z_STREAM_ERROR (g, strmp)
        | Some s \<Rightarrow>
            if z_out_null strm \<or> z_next_in strm \<noteq> [] \<and> z_in_null strm \<or> d_status s = FINISH_STATE \<and> flush \<noteq> Z_FINISH
            then err_return Z_STREAM_ERROR g strm
            else if z_avail_out strm = 0 then err_return Z_BUF_ERROR g strm
            else
              let old_flush = d_last_flush s; s1 = s\<lparr>d_last_flush := flush\<rparr>; strm1 = strm\<lparr>z_state := Some s1\<rparr> in
              if pending (d_tr s1) \<noteq> 0 then
                (case flush_pending strm1 s1 of
                   (strm2, s2) \<Rightarrow>
                     if z_avail_out strm2 = 0 then Done Z_OK (g, Some (strm2\<lparr>z_state := Some (s2\<lparr>d_last_flush := -1\<rparr>)\<rparr>))
                     else deflate_rest out l flush g (strm2\<lparr>z_state := Some s2\<rparr>))
              else if z_next_in strm1 = [] \<and> RANK flush \<le> RANK old_flush \<and> flush \<noteq> Z_FINISH
              then err_return Z_BUF_ERROR g strm1
              else deflate_rest out l flush g strm1))"

end
