(* ===== verification/Deflate_Inv.thy ===== *)
theory Deflate_Inv
  imports Deflate Code_Lengths Inftrees_Correct
begin

text \<open>
  The invariant of \<^verbatim>\<open>deflate_my\<close> between the rounds of its loop and between calls, for raw streams, and the
  measure that every round decreases.
\<close>

section \<open>The plain DROPBITS\<close>

definition de_rest :: "'z huff_scheme \<Rightarrow> 'z huff_scheme" where
  "de_rest s = s\<lparr>r_next := [], r_hold := 0, r_bits := 0, h_have := 0, h_lens := []\<rparr>"

interpretation plain: dropping drop_bits "\<lambda>k s. True" "\<lambda>s. 0 :: nat" "\<lambda>h bs. h" de_rest
proof
  fix s t :: "'a huff_scheme" and n r i v
  show "r_next (drop_bits n s) = r_next s" "r_hold (drop_bits n s) = drop_bit n (r_hold s)" "r_bits (drop_bits n s) = r_bits s - n"
    "h_lens (drop_bits n s) = h_lens s" "h_have (drop_bits n s) = h_have s" "de_rest (drop_bits n s) = de_rest s"
    "de_rest (set_regs r s) = de_rest s" "de_rest (lens_set i v s) = de_rest s"
    by (simp_all add: de_rest_def drop_bits_def set_regs_def lens_set_def)
  assume e: "de_rest s = de_rest t"
  show "h_nlen s = h_nlen t \<and> h_ndist s = h_ndist t \<and> h_codes s = h_codes t \<and>
      h_lencode s = h_lencode t \<and> h_lenbits s = h_lenbits t \<and> h_work s = h_work t"
    using arg_cong [OF e, of h_nlen] arg_cong [OF e, of h_ndist] arg_cong [OF e, of h_codes] arg_cong [OF e, of h_lencode]
      arg_cong [OF e, of h_lenbits] arg_cong [OF e, of h_work] by (simp add: de_rest_def)
qed simp_all

lemma de_fields:
  fixes s t :: deflate_run
  assumes "de_rest t = de_rest s"
  shows "d_tr t = d_tr s" "d_strm t = d_strm s" "d_status t = d_status s" "d_pending_out t = d_pending_out s" "d_wrap t = d_wrap s"
    "d_last t = d_last s" "d_ttype t = d_ttype s" "d_length t = d_length s" "d_offset t = d_offset s" "d_mode t = d_mode s"
    "de_strm t = de_strm s" "de_in t = de_in s" "de_out t = de_out s" "de_ret t = de_ret s" "de_g t = de_g s" "de_l t = de_l s"
    "h_work t = h_work s" "h_codes t = h_codes s" "h_nlen t = h_nlen s" "h_ndist t = h_ndist s" "h_lencode t = h_lencode s"
    "h_lenbits t = h_lenbits s" "h_distcode t = h_distcode s" "h_distbits t = h_distbits s"
  using arg_cong [OF assms, of d_tr] arg_cong [OF assms, of d_strm] arg_cong [OF assms, of d_status] arg_cong [OF assms, of d_pending_out]
    arg_cong [OF assms, of d_wrap] arg_cong [OF assms, of d_last] arg_cong [OF assms, of d_ttype] arg_cong [OF assms, of d_length]
    arg_cong [OF assms, of d_offset] arg_cong [OF assms, of d_mode] arg_cong [OF assms, of de_strm] arg_cong [OF assms, of de_in]
    arg_cong [OF assms, of de_out] arg_cong [OF assms, of de_ret] arg_cong [OF assms, of de_g] arg_cong [OF assms, of de_l]
    arg_cong [OF assms, of h_work] arg_cong [OF assms, of h_codes] arg_cong [OF assms, of h_nlen] arg_cong [OF assms, of h_ndist]
    arg_cong [OF assms, of h_lencode] arg_cong [OF assms, of h_lenbits] arg_cong [OF assms, of h_distcode] arg_cong [OF assms, of h_distbits]
  by (simp_all add: de_rest_def)

lemma de_rest_ops:
  "de_rest (set_regs r s) = de_rest s" "de_rest (drop_bits n s) = de_rest s" "de_rest (BYTEBITS s) = de_rest s" "de_rest (INITBITS s) = de_rest s"
  by (simp_all add: de_rest_def set_regs_def drop_bits_def BYTEBITS_def INITBITS_def)

lemmas de_frame [simp] = de_fields [OF de_rest_ops(1)] de_fields [OF de_rest_ops(2)] de_fields [OF de_rest_ops(3)] de_fields [OF de_rest_ops(4)]

lemma de_lens [simp]:
  fixes s :: deflate_run
  shows "h_lens (set_regs r s) = h_lens s" "h_lens (drop_bits n s) = h_lens s" "h_lens (BYTEBITS s) = h_lens s" "h_lens (INITBITS s) = h_lens s"
    "h_have (set_regs r s) = h_have s" "h_have (drop_bits n s) = h_have s" "h_have (BYTEBITS s) = h_have s" "h_have (INITBITS s) = h_have s"
  by (simp_all add: set_regs_def drop_bits_def BYTEBITS_def INITBITS_def)

section \<open>The invariant\<close>

definition dbasic :: "deflate_run \<Rightarrow> bool" where
  "dbasic s \<longleftrightarrow> rinv s \<and> sizes s \<and> length (insbuf (de_g s)) = 6 \<and> d_wrap s = 0"

definition trees_room :: "deflate_run \<Rightarrow> bool" where
  "trees_room s \<longleftrightarrow> length (bl_tree (d_tr s)) = 39 \<and> length (dyn_ltree (d_tr s)) = 573 \<and> length (dyn_dtree (d_tr s)) = 61"

definition dcounts_ok :: "deflate_run \<Rightarrow> bool" where
  "dcounts_ok s \<longleftrightarrow> 257 \<le> h_nlen s \<and> h_nlen s \<le> 288 \<and> 1 \<le> h_ndist s \<and> h_ndist s \<le> 32 \<and> 4 \<le> ncode (d_tr s) \<and> ncode (d_tr s) \<le> 19"

definition dmode_ok :: "deflate_run \<Rightarrow> bool" where
  "dmode_ok s \<longleftrightarrow>
    (case d_mode s of
       HEAD \<Rightarrow> r_bits s < 8 | TYPE_0 \<Rightarrow> r_bits s < 8 | TYPEDO \<Rightarrow> r_bits s < 8
     | STORED \<Rightarrow> r_bits s < 32
     | COPY_0 \<Rightarrow> r_bits s = 0
     | COPY \<Rightarrow> r_bits s = 0 \<or> r_bits s = 8 \<and> d_length s = 0
     | TABLE \<Rightarrow> r_bits s < 14 \<and> trees_room s
     | LENLENS \<Rightarrow> r_bits s < 8 \<and> trees_room s \<and> dcounts_ok s \<and> h_have s < ncode (d_tr s) \<and>
         list_all (\<lambda>l. l \<le> 7) (ordered (h_have s) (h_lens s))
     | CODELENS \<Rightarrow> trees_room s \<and> dcounts_ok s \<and> h_have s < h_nlen s + h_ndist s \<and>
         code_table (code_at s (h_lencode s)) (h_lenbits s) CODES \<and> list_all (\<lambda>l. l \<le> 15) (take (h_have s) (h_lens s)) \<and>
         (\<forall>ext. r_bits s < 8 + snd (cl_sym (code_at s (h_lencode s)) (h_lenbits s) (held s @ ext)))
     | SKPI_HEADER_END \<Rightarrow> r_bits s < 16
     | LEN_0 \<Rightarrow> r_bits s = 0 | LEN \<Rightarrow> r_bits s = 0 | INS1 \<Rightarrow> r_bits s = 0
     | INS2 \<Rightarrow> r_bits s = 0 \<or> r_bits s = 8
     | MATCH \<Rightarrow> r_bits s = 0 | LIT \<Rightarrow> r_bits s = 0 | ENDOFBLOCK \<Rightarrow> r_bits s = 0
     | DONE \<Rightarrow> True | BAD \<Rightarrow> True
     | _ \<Rightarrow> False)"

definition deflate_inv :: "deflate_run \<Rightarrow> bool" where
  "deflate_inv s \<longleftrightarrow> dbasic s \<and> dmode_ok s"

section \<open>The measure\<close>

definition drank :: "deflate_mode \<Rightarrow> nat" where
  "drank m = (case m of HEAD \<Rightarrow> 3 | TYPE_0 \<Rightarrow> 2 | TYPEDO \<Rightarrow> 2 | STORED \<Rightarrow> 2 | LENLENS \<Rightarrow> 2 | CODELENS \<Rightarrow> 2 | TABLE \<Rightarrow> 2
     | ENDOFBLOCK \<Rightarrow> 3 | LIT \<Rightarrow> 3 | MATCH \<Rightarrow> 3 | DONE \<Rightarrow> 1 | BAD \<Rightarrow> 1 | SKPI_HEADER_END \<Rightarrow> 1 | _ \<Rightarrow> 0)"

definition dmu :: "deflate_run \<Rightarrow> nat" where
  "dmu s = 4 * length (rem s) + drank (d_mode s)"

lemma drank_le: "drank m \<le> 3"
  by (simp add: drank_def split: deflate_mode.split)

lemma dmu_fuel: "dmu s < deflate_fuel s"
  using drank_le [of "d_mode s"] by (simp add: dmu_def deflate_fuel_def length_rem)

section \<open>Accounting\<close>

definition dstream_id :: "deflate_run \<Rightarrow> (nat \<times> int \<times> nat \<times> bool \<times> bool) \<times> (bool \<times> bool \<times> ulong \<times> nat \<times> byte list)" where
  "dstream_id s = ((d_strm s, d_status s, z_addr (de_strm s), z_zalloc (de_strm s), z_zfree (de_strm s)),
     (z_in_null (de_strm s), z_out_null (de_strm s), z_total_in (de_strm s), de_in s, z_next_in (de_strm s)))"

definition dmoves :: "deflate_run \<Rightarrow> deflate_run \<Rightarrow> bool" where
  "dmoves s t \<longleftrightarrow> dstream_id t = dstream_id s \<and> (\<exists>j. r_next t = drop j (r_next s)) \<and>
    (\<exists>w. z_out (de_strm t) = z_out (de_strm s) @ w \<and> z_avail_out (de_strm t) + length w \<le> z_avail_out (de_strm s))"

lemma dmoves_refl: "dmoves s s"
  by (auto simp: dmoves_def intro: exI [of _ 0])

lemma dmoves_trans:
  assumes "dmoves s t" and "dmoves t u" shows "dmoves s u"
proof -
  obtain i j where "r_next t = drop i (r_next s)" "r_next u = drop j (r_next t)" using assms by (auto simp: dmoves_def)
  then have "\<exists>j. r_next u = drop j (r_next s)" by auto
  moreover obtain v w where "z_out (de_strm t) = z_out (de_strm s) @ v" "z_avail_out (de_strm t) + length v \<le> z_avail_out (de_strm s)"
    "z_out (de_strm u) = z_out (de_strm t) @ w" "z_avail_out (de_strm u) + length w \<le> z_avail_out (de_strm t)"
    using assms by (auto simp: dmoves_def)
  then have "\<exists>w. z_out (de_strm u) = z_out (de_strm s) @ w \<and> z_avail_out (de_strm u) + length w \<le> z_avail_out (de_strm s)"
    by (auto intro!: exI [of _ "v @ w"])
  ultimately show ?thesis using assms by (auto simp: dmoves_def)
qed

definition dstuck :: "int \<Rightarrow> deflate_run \<Rightarrow> bool" where
  "dstuck flush t \<longleftrightarrow> de_ret t = Z_OK \<and> (r_next t = [] \<or> z_avail_out (de_strm t) = 0 \<or> flush = Z_BLOCK \<or> flush = Z_TREES) \<or>
     de_ret t = Z_STREAM_END \<and> d_mode t = DONE \<or> de_ret t = Z_DATA_ERROR \<and> d_mode t = BAD"

text \<open>What a round of the loop may do; the direct return is the one with a full symbol buffer.\<close>

definition dround_ok :: "int \<Rightarrow> nat \<Rightarrow> deflate_run \<Rightarrow> deflate_run step \<Rightarrow> bool" where
  "dround_ok flush B s res \<longleftrightarrow>
    (case res of
       Next t \<Rightarrow> deflate_inv t \<and> dmoves s t \<and> dmu t < B \<and> (de_ret t = Z_OK \<or> d_mode t = BAD)
     | Leave t \<Rightarrow> deflate_inv t \<and> dmoves s t \<and> dstuck flush t
     | Ret r t \<Rightarrow> r = 1 \<and> dmoves s t \<and> sym_next (d_tr t) = sym_end (d_tr t) \<and> (d_mode t = LIT \<or> d_mode t = MATCH)
     | Undef \<Rightarrow> False)"

lemma dround_ok_trans: "dmoves s t \<Longrightarrow> dround_ok flush B t res \<Longrightarrow> dround_ok flush B s res"
  by (auto simp: dround_ok_def dest: dmoves_trans split: step.splits)

lemma dround_ok_mono: "dround_ok flush B s res \<Longrightarrow> B \<le> C \<Longrightarrow> dround_ok flush C s res"
  by (auto simp: dround_ok_def split: step.splits)

text \<open>Updates that the invariant does not look at.\<close>

lemma rem_cong: "r_next s = r_next t \<Longrightarrow> r_hold s = r_hold t \<Longrightarrow> r_bits s = r_bits t \<Longrightarrow> rem s = rem t \<and> rinv s = rinv t"
  by (simp add: rem_def rinv_def)

end
