(* ===== verification/Deflate_Rounds.thy ===== *)
theory Deflate_Rounds
  imports Deflate_Inv
begin

text \<open>
  One lemma for each case of the switch of \<^verbatim>\<open>deflate_my\<close>: a round keeps the invariant, decreases the measure
  and accounts for input and output, or it leaves the loop for a reason.  For the cases that read
  instructions the lemmas ending in \<open>_eq\<close> say exactly what a round does, byte by byte.
\<close>

section \<open>Reading whole bytes\<close>

lemma hold_zero: "rinv s \<Longrightarrow> r_bits s = 0 \<Longrightarrow> r_hold s = 0"
  by (simp add: rinv_def hold_ok_def)

lemma with_byte:
  assumes "rinv s" and "r_bits s = 0"
  shows "with_bits 8 s k = (case r_next s of [] \<Rightarrow> Leave s | b # bs \<Rightarrow> k (s\<lparr>r_next := bs, r_hold := ucast b, r_bits := 8\<rparr>))"
  using assms hold_zero [OF assms]
  by (cases "r_next s"; cases "tl (r_next s)") (auto simp: with_bits_def NEEDBITS_def set_regs_def Let_def)

lemma low_bits_byte: "low_bits 8 (ucast (b :: byte)) = unat b"
  using unat_byte_less [of b] by (simp add: low_bits_mod unsigned_ucast_eq take_bit_nat_eq_self)

lemma byte_gone: "drop_bit 8 (ucast (b :: byte) :: ulong) = 0"
  by (rule bit_word_eqI) (auto simp: bit_simps dest: bit_imp_le_length)

definition eat :: "nat \<Rightarrow> byte \<Rightarrow> byte list \<Rightarrow> deflate_run \<Rightarrow> deflate_run" where
  "eat i b bs s = s\<lparr>r_next := bs, de_g := (de_g s)\<lparr>insbuf := (insbuf (de_g s))[i := unat b]\<rparr>\<rparr>"

lemma eat_byte:
  assumes "r_hold s = 0" and "r_bits s = 0"
  shows "drop_bits 8 (set_insbuf i (s\<lparr>r_next := bs, r_hold := ucast b, r_bits := 8\<rparr>)) = eat i b bs s"
  using assms by (cases s) (simp add: drop_bits_def set_insbuf_def eat_def BITS_def low_bits_byte byte_gone)

lemma eat_fields [simp]:
  "r_next (eat i b bs s) = bs" "r_hold (eat i b bs s) = r_hold s" "r_bits (eat i b bs s) = r_bits s"
  "rinv (eat i b bs s) = rinv s" "de_strm (eat i b bs s) = de_strm s" "d_mode (eat i b bs s) = d_mode s"
  "d_tr (eat i b bs s) = d_tr s" "de_ret (eat i b bs s) = de_ret s" "d_wrap (eat i b bs s) = d_wrap s"
  "insbuf (de_g (eat i b bs s)) = (insbuf (de_g s))[i := unat b]" "sizes (eat i b bs s) = sizes s"
  "dstream_id (eat i b bs s) = dstream_id s" "d_length (eat i b bs s) = d_length s" "d_last (eat i b bs s) = d_last s"
  "d_ttype (eat i b bs s) = d_ttype s" "d_pending_out (eat i b bs s) = d_pending_out s"
  by (simp_all add: eat_def rinv_def sizes_def dstream_id_def)

lemma byte_nat: "unat (b :: byte) = 0xaa \<longleftrightarrow> b = 0xaa" "unat b = 0xff \<longleftrightarrow> b = 0xff" "0x80 < unat b \<longleftrightarrow> 0x80 < b"
proof -
  have e: "unat b = unat c \<longleftrightarrow> b = c" for c :: byte by (metis unsigned_word_eqI)
  show "unat b = 0xaa \<longleftrightarrow> b = 0xaa" "unat b = 0xff \<longleftrightarrow> b = 0xff" using e [of "0xaa"] e [of "0xff"] by simp_all
  show "0x80 < unat b \<longleftrightarrow> 0x80 < b" by (simp add: word_less_nat_alt)
qed

section \<open>Instructions\<close>

definition ready :: "deflate_run \<Rightarrow> bool" where
  "ready s \<longleftrightarrow> dbasic s \<and> r_bits s = 0"

lemma ready_facts: "ready s \<Longrightarrow> rinv s \<and> r_bits s = 0 \<and> r_hold s = 0 \<and> length (insbuf (de_g s)) = 6"
  using hold_zero [of s] by (simp add: ready_def dbasic_def)

lemma LEN_eq:
  assumes "ready s"
  shows "deflate_LEN s = (case r_next s of [] \<Rightarrow> Leave s
    | b # bs \<Rightarrow> if b \<noteq> 0xaa then Next ((eat 0 b bs s)\<lparr>d_length := unat b, d_mode := LIT\<rparr>)
              else deflate_INS1 ((eat 0 b bs s)\<lparr>d_mode := INS1\<rparr>))"
proof (cases "r_next s")
  case Nil
  then show ?thesis using ready_facts [OF assms] by (simp add: deflate_LEN_def with_byte)
next
  case (Cons b bs)
  have e: "drop_bits 8 (set_insbuf 0 (s\<lparr>r_next := bs, r_hold := ucast b, r_bits := 8\<rparr>)) = eat 0 b bs s"
    and l: "length (insbuf (de_g s)) = 6" and r: "rinv s" "r_bits s = 0" using eat_byte [of s] ready_facts [OF assms] by auto
  show ?thesis unfolding deflate_LEN_def with_byte [OF r] Let_def Cons list.case e using l by (simp add: byte_nat)
qed

lemma INS1_eq:
  assumes "ready s"
  shows "deflate_INS1 s = (case r_next s of [] \<Rightarrow> Leave s
    | b # bs \<Rightarrow> if b = 0xaa then Next ((eat 1 b bs s)\<lparr>d_length := 0xaa, d_mode := LIT\<rparr>)
              else if b = 0xff then Next ((eat 1 b bs s)\<lparr>d_mode := ENDOFBLOCK\<rparr>)
              else if b > 0x80 then de_bad ''invalid literal/length code'' (eat 1 b bs s)
              else deflate_INS2 ((eat 1 b bs s)\<lparr>d_mode := INS2\<rparr>))"
proof (cases "r_next s")
  case Nil
  then show ?thesis using ready_facts [OF assms] by (simp add: deflate_INS1_def with_byte)
next
  case (Cons b bs)
  have e: "drop_bits 8 (set_insbuf 1 (s\<lparr>r_next := bs, r_hold := ucast b, r_bits := 8\<rparr>)) = eat 1 b bs s"
    and l: "length (insbuf (de_g s)) = 6" and r: "rinv s" "r_bits s = 0" using eat_byte [of s] ready_facts [OF assms] by auto
  show ?thesis unfolding deflate_INS1_def with_byte [OF r] Let_def Cons list.case e using l by (simp add: byte_nat)
qed

text \<open>The bytes not yet taken, when a whole byte or none is held.\<close>

definition inbytes :: "'z reader_scheme \<Rightarrow> byte list" where
  "inbytes s = (if r_bits s = 8 then ucast (r_hold s) # r_next s else r_next s)"

definition half :: "deflate_run \<Rightarrow> bool" where
  "half s \<longleftrightarrow> dbasic s \<and> (r_bits s = 0 \<or> r_bits s = 8)"

definition eat2 :: "byte \<Rightarrow> byte \<Rightarrow> byte list \<Rightarrow> deflate_run \<Rightarrow> deflate_run" where
  "eat2 b c bs s = eat 3 c bs (eat 2 b [] (s\<lparr>r_hold := 0, r_bits := 0\<rparr>))"

lemma half_hold: "rinv s \<Longrightarrow> r_bits s = 8 \<Longrightarrow> r_hold s = ucast (ucast (r_hold s) :: byte)"
proof -
  assume "rinv s" "r_bits s = 8"
  then have "hold_ok (r_hold s) 8" by (simp add: rinv_def)
  then show ?thesis by (intro bit_word_eqI) (auto simp: bit_simps dest: hold_ok_bit)
qed

lemma with_two:
  assumes "rinv s" and "r_bits s = 0 \<or> r_bits s = 8"
  shows "case inbytes s of
      b # c # bs \<Rightarrow> with_bits 16 s k = k (s\<lparr>r_next := bs, r_hold := ucast b + push_bit 8 (ucast c), r_bits := 16\<rparr>)
    | _ \<Rightarrow> \<exists>r. with_bits 16 s k = Leave (set_regs r s) \<and> fst r = [] \<and> rinv (set_regs r s) \<and>
        (snd (snd r) = 0 \<or> snd (snd r) = 8) \<and> inbytes (set_regs r s) = inbytes s"
  using assms(2)
proof
  assume z: "r_bits s = 0"
  then have h: "r_hold s = 0" using hold_zero [OF assms(1)] by simp
  consider "r_next s = []" | b where "r_next s = [b]" | b c bs where "r_next s = b # c # bs" by (metis list.exhaust)
  then show ?thesis
  proof cases
    case 1
    then have "set_regs ([], 0, 0) s = s" using z h by (cases s) (simp add: set_regs_def)
    moreover have "with_bits 16 s k = Leave (set_regs ([], 0, 0) s)" using 1 z h by (simp add: with_bits_def NEEDBITS_def Let_def)
    ultimately have "\<exists>r. with_bits 16 s k = Leave (set_regs r s) \<and> fst r = [] \<and> rinv (set_regs r s) \<and>
        (snd (snd r) = 0 \<or> snd (snd r) = 8) \<and> inbytes (set_regs r s) = inbytes s"
      using assms(1) by (intro exI [of _ "([], 0, 0)"]) simp
    moreover have "inbytes s = []" using 1 z by (simp add: inbytes_def)
    ultimately show ?thesis by simp
  next
    case 2
    have "ucast (ucast b :: ulong) = b" by (rule bit_word_eqI) (auto simp: bit_simps)
    moreover have "hold_ok (0 + push_bit 0 (ucast b)) 8" using hold_add_ok [of 0 0 b] by simp
    ultimately show ?thesis using 2 z h assms(1)
      by (auto simp: inbytes_def with_bits_def NEEDBITS_def set_regs_def rinv_def intro!: exI [of _ "([], ucast b, 8)"])
  next
    case 3
    then show ?thesis using z h by (cases bs) (auto simp: inbytes_def with_bits_def NEEDBITS_def set_regs_def)
  qed
next
  assume e: "r_bits s = 8"
  show ?thesis
  proof (cases "r_next s")
    case Nil
    then have "set_regs ([], r_hold s, 8) s = s" using e by (cases s) (simp add: set_regs_def)
    moreover have "with_bits 16 s k = Leave (set_regs ([], r_hold s, 8) s)" using Nil e by (simp add: with_bits_def NEEDBITS_def Let_def)
    ultimately have "\<exists>r. with_bits 16 s k = Leave (set_regs r s) \<and> fst r = [] \<and> rinv (set_regs r s) \<and>
        (snd (snd r) = 0 \<or> snd (snd r) = 8) \<and> inbytes (set_regs r s) = inbytes s"
      using assms(1) by (intro exI [of _ "([], r_hold s, 8)"]) simp
    moreover have "inbytes s = [ucast (r_hold s)]" using Nil e by (simp add: inbytes_def)
    ultimately show ?thesis by simp
  next
    case (Cons c bs)
    then show ?thesis using e half_hold [OF assms(1) e]
      by (cases bs) (auto simp: inbytes_def with_bits_def NEEDBITS_def set_regs_def)
  qed
qed

lemma two_bytes:
  fixes b c :: byte
  shows "low_bits 8 (ucast b + push_bit 8 (ucast c)) = unat b" "drop_bit 8 (ucast b + push_bit 8 (ucast c)) = (ucast c :: ulong)"
proof -
  have ok: "hold_ok (ucast b) 8" using hold_add_ok [of 0 0 b] by simp
  define r where "r = \<lparr>r_next = [], r_hold = ucast b + push_bit 8 (ucast c), r_bits = 16\<rparr>"
  have "rem r = bits_of 8 b @ bits_of 8 c" using hold_add_bits [OF ok, of c] hold_add_bits [of 0 0 b] by (simp add: rem_def r_def)
  then have "BITS 8 r = val_of (bits_of 8 b)" using BITS_rem [of 8 r] by (simp add: r_def)
  then show "low_bits 8 (ucast b + push_bit 8 (ucast c)) = unat b"
    by (simp add: BITS_def r_def val_of_bits_of_word take_bit_nat_eq_self unat_byte_less)
  show "drop_bit 8 (ucast b + push_bit 8 (ucast c)) = (ucast c :: ulong)"
    unfolding hold_add_or [OF ok] by (rule bit_word_eqI) (auto simp: bit_simps dest: bit_imp_le_length)
qed

lemma eat_two:
  "drop_bits 8 (set_insbuf 3 (drop_bits 8 (set_insbuf 2 (s\<lparr>r_next := bs, r_hold := ucast b + push_bit 8 (ucast c), r_bits := 16\<rparr>)))) = eat2 b c bs s"
  by (cases s) (simp add: drop_bits_def set_insbuf_def eat_def eat2_def BITS_def two_bytes low_bits_byte byte_gone del: drop_bit_drop_bit)

lemma INS2_eq:
  assumes "half s"
  shows "case inbytes s of
      b # c # bs \<Rightarrow> deflate_INS2 s = deflate_MATCH ((eat2 b c bs s)\<lparr>d_mode := MATCH, d_length := unat c,
        d_offset := unat b + push_bit 8 (insbuf (de_g s) ! 1)\<rparr>)
    | _ \<Rightarrow> \<exists>r. deflate_INS2 s = Leave (set_regs r s) \<and> fst r = [] \<and> half (set_regs r s) \<and> inbytes (set_regs r s) = inbytes s"
proof -
  have r: "rinv s" "r_bits s = 0 \<or> r_bits s = 8" and l: "length (insbuf (de_g s)) = 6" using assms by (auto simp: half_def dbasic_def)
  have k: "half (set_regs r s) \<longleftrightarrow> rinv (set_regs r s) \<and> (snd (snd r) = 0 \<or> snd (snd r) = 8)" for r
    using assms by (auto simp: half_def dbasic_def sizes_def)
  consider b c bs where "inbytes s = b # c # bs" | "\<forall>b c bs. inbytes s \<noteq> b # c # bs" by blast
  then show ?thesis
  proof cases
    case 1
    have e: "insbuf (de_g (eat2 b c bs s)) = (insbuf (de_g s))[2 := unat b, 3 := unat c]" by (simp add: eat2_def eat_def)
    have w2: "with_bits 16 s k = k (s\<lparr>r_next := bs, r_hold := ucast b + push_bit 8 (ucast c), r_bits := 16\<rparr>)" for k
      using with_two [OF r, of k] 1 by simp
    show ?thesis unfolding 1 list.case deflate_INS2_def w2 Let_def eat_two e using l by simp
  next
    case 2
    then show ?thesis using with_two [OF r] unfolding deflate_INS2_def k by (auto split: list.splits)
  qed
qed

section \<open>Rounds: symbols\<close>

lemma dmoves_same:
  "dstream_id t = dstream_id s \<Longrightarrow> \<exists>j. r_next t = drop j (r_next s) \<Longrightarrow> z_out (de_strm t) = z_out (de_strm s) \<Longrightarrow>
   z_avail_out (de_strm t) = z_avail_out (de_strm s) \<Longrightarrow> dmoves s t"
  by (simp add: dmoves_def)

lemma dmoves_eat: "r_next s = b # bs \<Longrightarrow> dmoves s (eat i b bs s)"
  by (rule dmoves_same) (auto intro: exI [of _ 1])

lemma tally_round:
  assumes "ready s" and "de_ret s = 0" and "d_mode s = LIT \<or> d_mode s = MATCH"
    and "f (d_tr s) = (t, sym_next t = sym_end t)" and "4 * length (rem s) < B"
  shows "dround_ok flush B s (case f (d_tr s) of (t, bflush) \<Rightarrow>
    let s1 = s\<lparr>d_tr := t\<rparr> in if bflush then Ret 1 s1 else Next (s1\<lparr>d_mode := LEN\<rparr>))"
  using assms
  by (auto simp: dround_ok_def Let_def deflate_inv_def dmode_ok_def ready_def dbasic_def sizes_def rinv_def dmu_def drank_def rem_def
      dstream_id_def intro!: dmoves_same exI [of _ 0])

lemma LIT_dround:
  assumes "ready s" and "de_ret s = 0" and "d_mode s = LIT" and "4 * length (rem s) < B"
  shows "dround_ok flush B s (deflate_LIT s)"
  unfolding deflate_LIT_def
  by (rule tally_round [OF assms(1,2) _ _ assms(4)]) (use assms in \<open>simp_all add: tr_tally_lit_my_def Let_def\<close>)

lemma MATCH_dround:
  assumes "ready s" and "de_ret s = 0" and "d_mode s = MATCH" and "4 * length (rem s) < B"
  shows "dround_ok flush B s (deflate_MATCH s)"
  unfolding deflate_MATCH_def
  by (rule tally_round [OF assms(1,2) _ _ assms(4)]) (use assms in \<open>simp_all add: tr_tally_dist_my_def Let_def\<close>)

lemma inbytes_rem: "half s \<Longrightarrow> rem s = bytes_bits (inbytes s)"
proof -
  assume h: "half s"
  have "bits_of 8 (r_hold s) = bits_of 8 (ucast (r_hold s) :: byte)"
    by (rule nth_equalityI) (auto simp: bit_simps)
  then show ?thesis using h by (auto simp: half_def rem_def inbytes_def)
qed

lemma eat2_fields [simp]:
  "r_next (eat2 b c bs s) = bs" "r_bits (eat2 b c bs s) = 0" "rinv (eat2 b c bs s)" "de_strm (eat2 b c bs s) = de_strm s"
  "d_tr (eat2 b c bs s) = d_tr s" "de_ret (eat2 b c bs s) = de_ret s" "d_wrap (eat2 b c bs s) = d_wrap s"
  "length (insbuf (de_g (eat2 b c bs s))) = length (insbuf (de_g s))" "sizes (eat2 b c bs s) = sizes s" "dstream_id (eat2 b c bs s) = dstream_id s"
  "rem (eat2 b c bs s) = bytes_bits bs" "d_last (eat2 b c bs s) = d_last s" "d_ttype (eat2 b c bs s) = d_ttype s"
  "d_pending_out (eat2 b c bs s) = d_pending_out s"
  by (simp_all add: eat2_def eat_def rinv_def sizes_def dstream_id_def rem_def)

lemma INS2_dround:
  assumes "half s" and "de_ret s = 0" and "d_mode s = INS2" and "4 * length (rem s) \<le> B"
  shows "dround_ok flush B s (deflate_INS2 s)"
proof -
  note e = INS2_eq [OF assms(1)]
  consider b c bs where "inbytes s = b # c # bs" | "\<forall>b c bs. inbytes s \<noteq> b # c # bs" by blast
  then show ?thesis
  proof cases
    case 1
    define t where "t = (eat2 b c bs s)\<lparr>d_mode := MATCH, d_length := unat c, d_offset := unat b + push_bit 8 (insbuf (de_g s) ! 1)\<rparr>"
    have run: "deflate_INS2 s = deflate_MATCH t" using e 1 by (simp add: t_def)
    have rd: "ready t" "de_ret t = 0" "d_mode t = MATCH" "rem t = bytes_bits bs"
      using assms by (auto simp: t_def ready_def dbasic_def half_def sizes_def rinv_def eat2_def eat_def rem_def)
    have "\<exists>j. bs = drop j (r_next s)"
    proof (cases "r_bits s = 8")
      case True
      then show ?thesis using 1 by (auto simp: inbytes_def intro: exI [of _ 1])
    next
      case False
      then show ?thesis using 1 by (auto simp: inbytes_def intro: exI [of _ 2])
    qed
    then have mv: "dmoves s t" by (intro dmoves_same) (auto simp: t_def dstream_id_def eat2_def eat_def)
    have "dround_ok flush B t (deflate_MATCH t)"
      by (rule MATCH_dround [OF rd(1-3)]) (use assms(4) 1 inbytes_rem [OF assms(1)] rd(4) in simp)
    then show ?thesis using run dround_ok_trans [OF mv] by simp
  next
    case 2
    then obtain r where r: "deflate_INS2 s = Leave (set_regs r s)" "fst r = []" "half (set_regs r s)"
      using e by (auto split: list.splits)
    then show ?thesis using assms(2,3)
      by (auto simp: dround_ok_def deflate_inv_def dmode_ok_def half_def dstuck_def dstream_id_def intro!: dmoves_same exI [of _ "length (r_next s)"])
  qed
qed

lemma ready_rem: "ready s \<Longrightarrow> rem s = bytes_bits (r_next s)"
  by (simp add: ready_def rem_def)

lemma ready_eat: "ready s \<Longrightarrow> ready (eat i b bs s)"
  by (simp add: ready_def dbasic_def)

lemma ready_upd [simp]:
  "ready (s\<lparr>d_mode := m\<rparr>) = ready s" "ready (s\<lparr>d_length := n\<rparr>) = ready s" "ready (s\<lparr>de_strm := x\<rparr>) = ready s" "ready (s\<lparr>d_tr := t\<rparr>) = ready s"
  by (simp_all add: ready_def dbasic_def sizes_def rinv_def)

lemma short_round:
  assumes "dbasic s" and "dmode_ok s" and "de_ret s = 0" and "r_next s = []"
  shows "dround_ok flush B s (Leave s)"
  using assms by (simp add: dround_ok_def deflate_inv_def dmoves_refl dstuck_def)

lemma next_round:
  assumes "dbasic t" and "dmode_ok t" and "de_ret t = 0 \<or> d_mode t = BAD" and "dmoves s t" and "dmu t < B"
  shows "dround_ok flush B s (Next t)"
  using assms by (simp add: dround_ok_def deflate_inv_def)

lemma dbad_round:
  assumes "dbasic t" and "dmoves s t" and "4 * length (rem t) + 1 < B"
  shows "dround_ok flush B s (de_bad msg t)"
proof -
  have "dmoves t ((de_msg msg t)\<lparr>d_mode := BAD\<rparr>)"
    by (rule dmoves_same) (auto simp: de_msg_def dstream_id_def intro: exI [of _ 0])
  then show ?thesis unfolding de_bad_def
    by (intro next_round) (use assms dmoves_trans in \<open>auto simp: de_msg_def dbasic_def sizes_def rinv_def dmode_ok_def dmu_def drank_def rem_def\<close>)
qed

lemma ready_basic: "ready s \<Longrightarrow> dbasic s" "ready s \<Longrightarrow> half s" "ready s \<Longrightarrow> r_bits s = 0"
  by (simp_all add: ready_def half_def)

lemma dmoves_mode: "dmoves s (t\<lparr>d_mode := m\<rparr>) = dmoves s t" "dmoves s (t\<lparr>d_length := n\<rparr>) = dmoves s t"
  by (simp_all add: dmoves_def dstream_id_def)

lemma INS1_dround:
  assumes "ready s" and "de_ret s = 0" and "d_mode s = INS1" and "4 * length (rem s) \<le> B"
  shows "dround_ok flush B s (deflate_INS1 s)"
proof (cases "r_next s")
  case Nil
  have "dround_ok flush B s (Leave s)"
    by (rule short_round) (use assms ready_basic [OF assms(1)] Nil in \<open>auto simp: dmode_ok_def\<close>)
  then show ?thesis using INS1_eq [OF assms(1)] Nil by simp
next
  case (Cons b bs)
  let ?t = "eat 1 b bs s"
  have rt: "ready ?t" "dmoves s ?t" and l: "4 * length (rem ?t) + 32 \<le> B"
    using ready_eat [OF assms(1)] dmoves_eat [OF Cons] ready_rem [OF ready_eat [OF assms(1)], of 1 b bs] assms(4) ready_rem [OF assms(1)] Cons by auto
  note q = INS1_eq [OF assms(1), unfolded Cons list.case]
  consider "b = 0xaa" | "b = 0xff" | "b \<noteq> 0xaa" "b \<noteq> 0xff" "b > 0x80" | "b \<noteq> 0xaa" "b \<noteq> 0xff" "\<not> b > 0x80" by blast
  then show ?thesis
  proof cases
    case 1
    have "dround_ok flush B s (Next (?t\<lparr>d_length := 0xaa, d_mode := LIT\<rparr>))"
      by (rule next_round) (use rt ready_basic [OF rt(1)] l assms(2) in
        \<open>auto simp: dmode_ok_def dmoves_mode dmu_def drank_def rem_def dbasic_def sizes_def rinv_def\<close>)
    then show ?thesis using q 1 by simp
  next
    case 2
    have "dround_ok flush B s (Next (?t\<lparr>d_mode := ENDOFBLOCK\<rparr>))"
      by (rule next_round) (use rt ready_basic [OF rt(1)] l assms(2) in
        \<open>auto simp: dmode_ok_def dmoves_mode dmu_def drank_def rem_def dbasic_def sizes_def rinv_def\<close>)
    then show ?thesis using q 2 by simp
  next
    case 3
    have "dround_ok flush B s (de_bad ''invalid literal/length code'' ?t)"
      by (rule dbad_round) (use rt ready_basic [OF rt(1)] l in auto)
    then show ?thesis using q 3 by simp
  next
    case 4
    let ?u = "?t\<lparr>d_mode := INS2\<rparr>"
    have "half ?u" using ready_basic [of ?u] rt(1) by simp
    then have "dround_ok flush B ?u (deflate_INS2 ?u)"
      by (rule INS2_dround) (use l assms(2) in \<open>auto simp: rem_def\<close>)
    then have "dround_ok flush B s (deflate_INS2 ?u)"
      by (rule dround_ok_trans [rotated]) (simp only: dmoves_mode rt)
    then show ?thesis using q 4 by simp
  qed
qed

lemma LEN_dround:
  assumes "ready s" and "de_ret s = 0" and "d_mode s = LEN" and "4 * length (rem s) \<le> B"
  shows "dround_ok flush B s (deflate_LEN s)"
proof (cases "r_next s")
  case Nil
  have "dround_ok flush B s (Leave s)"
    by (rule short_round) (use assms ready_basic [OF assms(1)] Nil in \<open>auto simp: dmode_ok_def\<close>)
  then show ?thesis using LEN_eq [OF assms(1)] Nil by simp
next
  case (Cons b bs)
  let ?t = "eat 0 b bs s"
  have rt: "ready ?t" "dmoves s ?t" and l: "4 * length (rem ?t) + 32 \<le> B"
    using ready_eat [OF assms(1)] dmoves_eat [OF Cons] ready_rem [OF ready_eat [OF assms(1)], of 0 b bs] assms(4) ready_rem [OF assms(1)] Cons by auto
  note q = LEN_eq [OF assms(1), unfolded Cons list.case]
  show ?thesis
  proof (cases "b = 0xaa")
    case False
    have "dround_ok flush B s (Next (?t\<lparr>d_length := unat b, d_mode := LIT\<rparr>))"
      by (rule next_round) (use rt ready_basic [OF rt(1)] l assms(2) in
        \<open>auto simp: dmode_ok_def dmoves_mode dmu_def drank_def rem_def dbasic_def sizes_def rinv_def\<close>)
    then show ?thesis using q False by simp
  next
    case True
    let ?u = "?t\<lparr>d_mode := INS1\<rparr>"
    have "dround_ok flush B ?u (deflate_INS1 ?u)"
      by (rule INS1_dround) (use rt l assms(2) in \<open>auto simp: rem_def\<close>)
    then have "dround_ok flush B s (deflate_INS1 ?u)"
      by (rule dround_ok_trans [rotated]) (simp add: dmoves_mode rt)
    then show ?thesis using q True by simp
  qed
qed

lemma INITBITS_ready: "ready s \<Longrightarrow> INITBITS s = s"
  using ready_facts [of s] by (cases s) (simp add: INITBITS_def)

lemma LEN_0_dround:
  assumes "ready s" and "de_ret s = 0" and "d_mode s = LEN_0" and "4 * length (rem s) \<le> B"
  shows "dround_ok flush B s (deflate_LEN_0 s)"
proof -
  let ?t = "s\<lparr>d_mode := LEN\<rparr>"
  have "dround_ok flush B ?t (deflate_LEN ?t)"
    by (rule LEN_dround) (use assms in \<open>auto simp: rem_def\<close>)
  then have "dround_ok flush B s (deflate_LEN ?t)"
    by (rule dround_ok_trans [rotated]) (simp add: dmoves_mode dmoves_refl)
  then show ?thesis by (simp add: deflate_LEN_0_def INITBITS_ready [OF assms(1)])
qed

section \<open>Rounds: end of a block, stored blocks\<close>

lemma flush_pending_moves:
  fixes s0 :: "'z deflate_state_scheme"
  assumes "flush_pending strm s0 = (strm', s1)"
  shows "\<exists>t po. s1 = s0\<lparr>d_tr := t, d_pending_out := po\<rparr>"
    "\<exists>w. z_out strm' = z_out strm @ w \<and> z_avail_out strm' + length w \<le> z_avail_out strm"
    "z_addr strm' = z_addr strm" "z_zalloc strm' = z_zalloc strm" "z_zfree strm' = z_zfree strm" "z_in_null strm' = z_in_null strm"
    "z_out_null strm' = z_out_null strm" "z_total_in strm' = z_total_in strm" "z_next_in strm' = z_next_in strm"
proof -
  have p: "\<exists>t po. s0\<lparr>d_tr := x\<rparr> = s0\<lparr>d_tr := t, d_pending_out := po\<rparr>" for x
    by (rule exI [of _ x], rule exI [of _ "d_pending_out s0"]) simp
  have q: "\<exists>t po. s0\<lparr>d_tr := x, d_pending_out := y\<rparr> = s0\<lparr>d_tr := t, d_pending_out := po\<rparr>" for x y by blast
  show "\<exists>t po. s1 = s0\<lparr>d_tr := t, d_pending_out := po\<rparr>"
    using assms p q by (simp add: flush_pending_def Let_def split: if_splits) blast+
  show "\<exists>w. z_out strm' = z_out strm @ w \<and> z_avail_out strm' + length w \<le> z_avail_out strm"
    "z_addr strm' = z_addr strm" "z_zalloc strm' = z_zalloc strm" "z_zfree strm' = z_zfree strm" "z_in_null strm' = z_in_null strm"
    "z_out_null strm' = z_out_null strm" "z_total_in strm' = z_total_in strm" "z_next_in strm' = z_next_in strm"
    using assms by (auto simp: flush_pending_def Let_def split: if_splits)
qed

lemma ENDOFBLOCK_dround:
  assumes "ready s" and "de_ret s = 0" and "d_mode s = ENDOFBLOCK"
  shows "dround_ok flush (dmu s) s (deflate_ENDOFBLOCK s)"
proof -
  define s1 where "s1 = s\<lparr>d_mode := TYPE_0, d_tr := tr_flush_block_my (sym_off (d_tr s)) (sym_next (d_tr s)) (d_ttype s) (of_nat (d_last s)) (d_tr s)\<rparr>"
  obtain strm s2 where f: "flush_pending (de_strm s1) s1 = (strm, s2)" by fastforce
  note fm = flush_pending_moves [OF f]
  obtain t po where s2: "s2 = s1\<lparr>d_tr := t, d_pending_out := po\<rparr>" using fm(1) by blast
  define s3 where "s3 = s2\<lparr>de_strm := strm\<rparr>"
  have run: "deflate_ENDOFBLOCK s = (if z_avail_out strm = 0 then Leave s3 else Next s3)"
    using f by (simp add: deflate_ENDOFBLOCK_def Let_def s1_def s3_def)
  have b: "dbasic s3" "de_ret s3 = 0" "d_mode s3 = TYPE_0" "r_bits s3 = 0" "r_next s3 = r_next s" "rem s3 = rem s" "z_avail_out (de_strm s3) = z_avail_out strm"
    using assms by (auto simp: s3_def s2 s1_def ready_def dbasic_def sizes_def rinv_def rem_def)
  have mv: "dmoves s s3"
    using fm(2-) by (auto simp: dmoves_def dstream_id_def s3_def s2 s1_def intro: exI [of _ 0])
  have m: "dmode_ok s3" "dmu s3 < dmu s" using b assms(3) by (simp_all add: dmode_ok_def dmu_def drank_def)
  show ?thesis using run b m mv by (simp add: dround_ok_def deflate_inv_def dstuck_def)
qed

lemma COPY_dround:
  assumes "dbasic s" and "de_ret s = 0" and "d_mode s = COPY" and "r_bits s = 0 \<or> r_bits s = 8 \<and> d_length s = 0" and "4 * length (rem s) \<le> B"
  shows "dround_ok flush B s (deflate_COPY s)"
proof (cases "d_length s = 0")
  case False
  define copy where "copy = (if d_length s > length (r_next s) then length (r_next s) else d_length s)"
  have z: "r_bits s = 0" using assms(4) False by simp
  show ?thesis
  proof (cases "copy = 0")
    case True
    then have "r_next s = []" using False by (auto simp: copy_def split: if_splits)
    then have "dround_ok flush B s (Leave s)" by (intro short_round) (use assms in \<open>auto simp: dmode_ok_def\<close>)
    then show ?thesis using True False by (simp add: deflate_COPY_def copy_def [symmetric] Let_def)
  next
    case nz: False
    define t where "t = s\<lparr>d_tr := sym_copy (take copy (r_next s)) (d_tr s), r_next := drop copy (r_next s), d_length := d_length s - copy\<rparr>"
    have c: "copy \<le> length (r_next s)" by (simp add: copy_def)
    have "dround_ok flush B s (Next t)"
    proof (rule next_round)
      show "dbasic t" "dmode_ok t" "de_ret t = 0 \<or> d_mode t = BAD"
        using assms z by (auto simp: t_def dbasic_def sizes_def rinv_def dmode_ok_def)
      show "dmoves s t" by (rule dmoves_same) (auto simp: t_def dstream_id_def)
      show "dmu t < B" using assms(3,5) c nz by (simp add: dmu_def drank_def t_def length_rem)
    qed
    then show ?thesis using nz False by (simp add: deflate_COPY_def copy_def [symmetric] Let_def t_def)
  qed
next
  case True
  have r: "rinv s" "r_bits s = 0 \<or> r_bits s = 8" using assms by (auto simp: dbasic_def)
  have h: "half s" using assms(1) r by (simp add: half_def)
  define k where "k = (\<lambda>s :: deflate_run. Next ((drop_bits 16 s)\<lparr>d_mode := ENDOFBLOCK\<rparr>))"
  have run: "deflate_COPY s = with_bits 16 s k" using True by (simp add: deflate_COPY_def k_def)
  have kk: "half (set_regs r s) \<longleftrightarrow> rinv (set_regs r s) \<and> (snd (snd r) = 0 \<or> snd (snd r) = 8)" for r
    using h by (auto simp: half_def dbasic_def sizes_def)
  consider b c bs where "inbytes s = b # c # bs" | "\<forall>b c bs. inbytes s \<noteq> b # c # bs" by blast
  then show ?thesis
  proof cases
    case 1
    define u where "u = s\<lparr>r_next := bs, r_hold := ucast b + push_bit 8 (ucast c), r_bits := 16\<rparr>"
    have w: "with_bits 16 s k = k u" using with_two [OF r, of k] 1 by (simp add: u_def)
    have ok: "hold_ok (ucast b) 8" using hold_add_ok [of 0 0 b] by simp
    have "rinv u" using hold_add_ok [OF ok, of c] by (simp add: u_def rinv_def)
    then have ri: "rinv (drop_bits 16 u)" by (rule drop_bits_inv) (simp add: u_def)
    define t where "t = (drop_bits 16 u)\<lparr>d_mode := ENDOFBLOCK\<rparr>"
    have "\<exists>j. bs = drop j (r_next s)"
    proof (cases "r_bits s = 8")
      case True
      then show ?thesis using 1 by (auto simp: inbytes_def intro: exI [of _ 1])
    next
      case False
      then show ?thesis using 1 by (auto simp: inbytes_def intro: exI [of _ 2])
    qed
    then have mv: "dmoves s t" by (intro dmoves_same) (auto simp: t_def u_def dstream_id_def)
    have len: "length (rem s) = 16 + length (rem t)" using inbytes_rem [OF h] 1 by (simp add: t_def u_def length_rem)
    have "dround_ok flush B s (Next t)"
      by (rule next_round) (use assms ri mv len in \<open>auto simp: t_def u_def dbasic_def sizes_def dmode_ok_def rinv_def dmu_def drank_def\<close>)
    then show ?thesis using run w by (simp add: k_def t_def)
  next
    case 2
    then obtain r where r: "with_bits 16 s k = Leave (set_regs r s)" "fst r = []" "half (set_regs r s)"
      using with_two [OF r, of k] kk by (auto split: list.splits)
    then show ?thesis using assms(2,3) True run
      by (auto simp: dround_ok_def deflate_inv_def dmode_ok_def half_def dstuck_def dstream_id_def intro!: dmoves_same exI [of _ "length (r_next s)"])
  qed
qed

lemma COPY_0_dround:
  assumes "ready s" and "de_ret s = 0" and "d_mode s = COPY_0" and "4 * length (rem s) \<le> B"
  shows "dround_ok flush B s (deflate_COPY_0 s)"
proof -
  let ?t = "s\<lparr>d_mode := COPY\<rparr>"
  have "dround_ok flush B ?t (deflate_COPY ?t)"
    by (rule COPY_dround) (use assms ready_basic [of ?t] in \<open>auto simp: rem_def\<close>)
  then show ?thesis unfolding deflate_COPY_0_def
    by (rule dround_ok_trans [rotated]) (simp add: dmoves_mode dmoves_refl)
qed

end
