(* ===== verification/Deflate_Rounds_Hdr.thy ===== *)
theory Deflate_Rounds_Hdr
  imports Deflate_Rounds
begin

text \<open>The cases of \<^verbatim>\<open>deflate_my\<close> that read block headers: what they do, and that they keep the invariant.\<close>

section \<open>Building tables and trees\<close>

definition dbuilt :: "deflate_run \<Rightarrow> deflate_run \<Rightarrow> bool" where
  "dbuilt s t \<longleftrightarrow> sizes t \<and> (\<exists>tab nx wk lc lb dc db r lt dt. t = s\<lparr>h_codes := tab, h_next := nx, h_work := wk, h_lencode := lc, h_lenbits := lb,
     h_distcode := dc, h_distbits := db, d_tr := (d_tr s)\<lparr>dyn_ltree := lt, dyn_dtree := dt\<rparr>, de_ret := r\<rparr>)"

lemma deflate_codes_spec:
  assumes z: "sizes s" and ct: "dcounts_ok s" and tr: "trees_room s"
    and le: "list_all (\<lambda>l. l \<le> 15) (take (h_nlen s + h_ndist s) (h_lens s))"
  obtains (ok) t where "deflate_codes flush s = (if flush = Z_TREES then Leave (t\<lparr>d_mode := SKPI_HEADER_END\<rparr>) else Next (t\<lparr>d_mode := SKPI_HEADER_END\<rparr>))"
      "dbuilt s t" "de_ret t = 0" "tree_of (take (h_nlen s) (h_lens s)) (dyn_ltree (d_tr s)) (dyn_ltree (d_tr t))"
      "tree_of (take (h_ndist s) (drop (h_nlen s) (h_lens s))) (dyn_dtree (d_tr s)) (dyn_dtree (d_tr t))"
    | (bad) t msg where "deflate_codes flush s = de_bad msg t" "dbuilt s t"
        "\<exists>out. inflate_table_my LENS (h_lens s) (h_nlen s) (h_codes s) 0 9 (h_work s) (dyn_ltree (d_tr s)) = Some out \<and> (to_ret out \<noteq> 0 \<or>
           (\<exists>out2. inflate_table_my DISTS (drop (h_nlen s) (h_lens s)) (h_ndist s) (to_tab out) (to_table out) 6 (to_work out) (dyn_dtree (d_tr s)) = Some out2 \<and>
             to_ret out2 \<noteq> 0))"
proof -
  let ?ls = "h_lens s" and ?n = "h_nlen s" and ?d = "h_ndist s" and ?lt = "dyn_ltree (d_tr s)" and ?dt = "dyn_dtree (d_tr s)"
  have lens: "length ?ls = 320" "length (h_work s) = 288" "length (h_codes s) = ENOUGH" using z by (simp_all add: sizes_def)
  have n: "?n \<le> 288" "1 \<le> ?d" "?d \<le> 32" "length ?lt = 573" "length ?dt = 61" using ct tr by (simp_all add: dcounts_ok_def trees_room_def)
  have le': "\<forall>l \<in> set (take ?n ?ls). l \<le> 15" "\<forall>l \<in> set (take ?d (drop ?n ?ls)). l \<le> 15"
    using le by (simp_all add: take_add list_all_iff)
  have a1: "table_args LENS ?ls ?n (h_codes s) 0 9 (h_work s) ?lt"
    using n le'(1) lens by (simp add: table_args_def max_syms_def space_of_def list_all_iff)
  obtain t where t: "inflate_table_my LENS ?ls ?n (h_codes s) 0 9 (h_work s) ?lt = Some t" "length (to_tab t) = ENOUGH"
    "length (to_work t) = 288" "to_ret t = 0 \<Longrightarrow> to_table t \<le> ENOUGH_LENS" "to_ret t = 0 \<Longrightarrow> tree_of (take ?n ?ls) ?lt (to_tree t)"
    using core_built [OF a1] lens by (auto simp: space_of_def inflate_table_my_def)
  define s1 where "s1 = s\<lparr>h_codes := to_tab t, h_next := to_table t, h_work := to_work t, h_lencode := Codes 0, h_lenbits := to_bits t,
     h_distcode := h_distcode s, h_distbits := h_distbits s, d_tr := (d_tr s)\<lparr>dyn_ltree := to_tree t, dyn_dtree := ?dt\<rparr>, de_ret := to_ret t\<rparr>"
  have r1: "(de_table t (s\<lparr>h_next := 0, h_lencode := Codes 0, h_lenbits := 9\<rparr>))\<lparr>h_lenbits := to_bits t, d_tr := (d_tr s)\<lparr>dyn_ltree := to_tree t\<rparr>\<rparr> = s1"
    by (simp add: s1_def de_table_def)
  have b1: "dbuilt s s1" unfolding dbuilt_def
    by (intro conjI exI, use t lens in \<open>simp add: s1_def sizes_def\<close>, rule s1_def)
  show thesis
  proof (cases "to_ret t = 0")
    case False
    then have "deflate_codes flush s = de_bad ''invalid literal/lengths set'' s1"
      using t(1) r1 by (simp add: deflate_codes_def Let_def)
    then show thesis using bad b1 t(1) False by blast
  next
    case True
    have a2: "table_args DISTS (drop ?n ?ls) ?d (to_tab t) (to_table t) 6 (to_work t) ?dt"
      using n le'(2) lens t(2,3) t(4) [OF True] by (simp add: table_args_def max_syms_def space_of_def list_all_iff)
    obtain u where u: "inflate_table_my DISTS (drop ?n ?ls) ?d (to_tab t) (to_table t) 6 (to_work t) ?dt = Some u" "length (to_tab u) = ENOUGH"
      "length (to_work u) = 288" "to_ret u = 0 \<Longrightarrow> tree_of (take ?d (drop ?n ?ls)) ?dt (to_tree u)"
      using core_built [OF a2] t(2,3) by (auto simp: inflate_table_my_def)
    define s2 where "s2 = s\<lparr>h_codes := to_tab u, h_next := to_table u, h_work := to_work u, h_lencode := Codes 0, h_lenbits := to_bits t,
          h_distcode := Codes (to_table t), h_distbits := to_bits u, d_tr := (d_tr s)\<lparr>dyn_ltree := to_tree t, dyn_dtree := to_tree u\<rparr>, de_ret := to_ret u\<rparr>"
    have b2: "dbuilt s s2" unfolding dbuilt_def
      by (intro conjI exI, use u lens in \<open>simp add: s2_def sizes_def\<close>, rule s2_def)
    have run: "deflate_codes flush s = (if to_ret u \<noteq> 0 then de_bad ''invalid distances set'' s2
        else if flush = Z_TREES then Leave (s2\<lparr>d_mode := SKPI_HEADER_END\<rparr>) else Next (s2\<lparr>d_mode := SKPI_HEADER_END\<rparr>))"
    proof -
      have r2: "(de_table u (s1\<lparr>h_distcode := Codes (to_table t), h_distbits := 6\<rparr>))\<lparr>h_distbits := to_bits u,
          d_tr := (d_tr (s1\<lparr>h_distcode := Codes (to_table t), h_distbits := 6\<rparr>))\<lparr>dyn_dtree := to_tree u\<rparr>\<rparr> = s2"
        by (simp add: s1_def s2_def de_table_def)
      have f: "h_next s1 = to_table t" "h_lens s1 = ?ls" "h_nlen s1 = ?n" "h_ndist s1 = ?d" "h_codes s1 = to_tab t" "h_work s1 = to_work t"
        "dyn_dtree (d_tr s1) = ?dt" by (simp_all add: s1_def)
      show ?thesis using t(1) u(1) True r1 r2 f by (simp add: deflate_codes_def Let_def)
    qed
    show thesis
    proof (cases "to_ret u = 0")
      case False
      then show thesis using bad [OF _ b2] run t(1) u(1) by auto
    next
      case ok2: True
      then show thesis using ok [of s2] run b2 t(5) [OF True] u(4) [OF ok2] by (simp add: s2_def)
    qed
  qed
qed

lemma codes_dround:
  assumes bs: "dbasic s" and ct: "dcounts_ok s" and tr: "trees_room s" and le: "list_all (\<lambda>l. l \<le> 15) (take (h_nlen s + h_ndist s) (h_lens s))"
    and b: "r_bits s < 8" and m: "4 * length (rem s) + 2 \<le> B"
  shows "dround_ok flush B s (deflate_codes flush s)"
proof -
  have z: "sizes s" using bs by (simp add: dbasic_def)
  have frame: "dbasic t \<and> dmoves s t \<and> r_bits t = r_bits s \<and> rem t = rem s" if bt: "dbuilt s t" for t
  proof -
    obtain tab nx wk lc lb dc db r lt dt where t: "t = s\<lparr>h_codes := tab, h_next := nx, h_work := wk, h_lencode := lc, h_lenbits := lb,
       h_distcode := dc, h_distbits := db, d_tr := (d_tr s)\<lparr>dyn_ltree := lt, dyn_dtree := dt\<rparr>, de_ret := r\<rparr>" and zt: "sizes t"
      using bt unfolding dbuilt_def by blast
    have "dbasic t" using bs zt by (simp add: dbasic_def rinv_def t)
    moreover have "dmoves s t" by (rule dmoves_same) (auto simp: dstream_id_def t intro: exI [of _ 0])
    ultimately show ?thesis by (simp add: t rem_def)
  qed
  show ?thesis
  proof (cases rule: deflate_codes_spec [OF z ct tr le, of flush, case_names ok bad])
    case (ok t)
    let ?t = "t\<lparr>d_mode := SKPI_HEADER_END\<rparr>"
    note f = frame [OF ok(2)]
    have "deflate_inv ?t" using f b by (auto simp: deflate_inv_def dmode_ok_def dbasic_def sizes_def rinv_def)
    moreover have "dmoves s ?t" using f by (simp add: dmoves_mode)
    moreover have "rem ?t = rem t" by (simp add: rem_def)
    then have "dmu ?t < B" using f m by (simp add: dmu_def drank_def)
    ultimately show ?thesis using ok(1,3) by (simp add: dround_ok_def dstuck_def)
  next
    case (bad t msg)
    note f = frame [OF bad(2)]
    show ?thesis unfolding bad(1) by (rule dbad_round) (use f m in simp_all)
  qed
qed

lemma past_deflate:
  fixes s t :: deflate_run
  assumes "plain.past c k s t"
  shows "de_rest t = de_rest s" "rem t = drop c (rem s)" "rinv t" "dmoves s t" "dcounts_ok t = dcounts_ok s" "trees_room t = trees_room s"
    "length (h_lens t) = 320 \<Longrightarrow> dbasic s \<Longrightarrow> dbasic t" "length (rem t) \<le> length (rem s)"
proof -
  show r: "de_rest t = de_rest s" "rem t = drop c (rem s)" "rinv t" using assms by (simp_all add: plain.past_def)
  note f = de_fields [OF r(1)]
  show "dmoves s t" by (rule dmoves_same) (use assms f in \<open>auto simp: dstream_id_def plain.past_def\<close>)
  show "dcounts_ok t = dcounts_ok s" "trees_room t = trees_room s" using f by (simp_all add: dcounts_ok_def trees_room_def)
  show "dbasic t" if "length (h_lens t) = 320" "dbasic s" using that f r(3) by (simp add: dbasic_def sizes_def)
  show "length (rem t) \<le> length (rem s)" using r(2) by simp
qed

lemma CODELENS_dround:
  assumes "deflate_inv s" and m: "d_mode s = CODELENS" and r: "de_ret s = 0"
  shows "dround_ok flush (dmu s) s (deflate_CODELENS flush s)"
proof -
  define mx where "mx = h_nlen s + h_ndist s"
  have bs: "dbasic s" and ms: "trees_room s" "dcounts_ok s" "h_have s < mx"
    "code_table (code_at s (h_lencode s)) (h_lenbits s) CODES" "list_all (\<lambda>l. l \<le> 15) (take (h_have s) (h_lens s))"
    "\<forall>ext. r_bits s < 8 + snd (cl_sym (code_at s (h_lencode s)) (h_lenbits s) (held s @ ext))"
    using assms by (auto simp: deflate_inv_def dmode_ok_def mx_def)
  have ri: "rinv s" and len: "length (h_lens s) = 320" using bs by (auto simp: dbasic_def sizes_def)
  have tl: "mx \<le> length (h_lens s)" using ms(2) len by (simp add: dcounts_ok_def mx_def)
  have st: "plain.cl_stop 0 s (codelens_loop drop_bits (mx - h_have s) s)" unfolding mx_def
    by (rule plain.codelens_loop_spec [OF ri ms(4)]) (use ms tl in \<open>auto simp: rem_held mx_def\<close>)
  have dm: "dmu s = 4 * length (rem s) + 2" using m by (simp add: dmu_def drank_def)
  show ?thesis
  proof (cases "codelens_loop drop_bits (mx - h_have s) s")
    case (CL_more t)
    then obtain c where p: "plain.past c 14 s t" and t: "r_bits t < 8" "h_have t = mx" "length (h_lens t) = 320"
      "cl_reads (code_at s (h_lencode s)) (h_lenbits s) mx (rem s) (take (h_have s) (h_lens s)) (rem t) (take mx (h_lens t))"
      using st len by (auto simp: plain.cl_stop_def Let_def mx_def)
    note f = past_deflate [OF p] and g = de_fields [OF past_deflate(1) [OF p]]
    have bt: "dbasic t" by (rule f(7) [OF t(3) bs])
    have le: "list_all (\<lambda>l. l \<le> 15) (take (h_nlen t + h_ndist t) (h_lens t))" using cl_reads_le [OF t(4) ms(5)] g by (simp add: mx_def)
    have "dround_ok flush (dmu s) t (deflate_codes flush t)"
      by (rule codes_dround [OF bt _ _ le t(1)]) (use f ms dm in simp_all)
    moreover have "dround_ok flush (dmu s) t (de_bad ''invalid code -- missing end-of-block'' t)"
      by (rule dbad_round [OF bt dmoves_refl]) (use f dm in simp)
    ultimately have "dround_ok flush (dmu s) t (deflate_CODELENS flush s)" using CL_more by (simp add: deflate_CODELENS_def mx_def)
    then show ?thesis by (rule dround_ok_trans [OF f(4)])
  next
    case (CL_short t)
    then obtain c where p: "plain.past c (7 * (mx - h_have t) + 14) s t" and t: "r_next t = []" "h_have t < mx"
      "length (h_lens t) = 320" "length (rem t) < snd (cl_sym (code_at t (h_lencode t)) (h_lenbits t) (rem t))"
      "cl_reads (code_at s (h_lencode s)) (h_lenbits s) mx (rem s) (take (h_have s) (h_lens s)) (rem t) (take (h_have t) (h_lens t))"
      using st len by (auto simp: plain.cl_stop_def Let_def mx_def)
    note f = past_deflate [OF p] and g = de_fields [OF past_deflate(1) [OF p]]
    have bt: "dbasic t" by (rule f(7) [OF t(3) bs])
    have ct: "code_table (code_at t (h_lencode t)) (h_lenbits t) CODES"
      using ms(4) plain.code_at_past [OF p] plain.past_huff [OF p] by simp
    have "rem t = held t" using t(1) by (simp add: rem_held)
    then have "r_bits t < 8 + snd (cl_sym (code_at t (h_lencode t)) (h_lenbits t) (held t @ ext))" for ext
      using code_table.cl_sym_prefix [OF ct, of "held t" ext] t(4) by fastforce
    then have "dmode_ok t" using f(5,6) g m ms(1,2) t(2) ct cl_reads_le [OF t(5) ms(5)] by (simp add: dmode_ok_def mx_def)
    then show ?thesis using CL_short bt f(4) g r t(1) by (simp add: deflate_CODELENS_def dround_ok_def deflate_inv_def dstuck_def mx_def)
  next
    case (CL_bad t)
    then obtain c where p: "plain.past c 0 s t" and t: "length (h_lens t) = 320"
      using st len by (auto simp: plain.cl_stop_def Let_def)
    note f = past_deflate [OF p]
    have "dround_ok flush (dmu s) s (de_bad ''invalid bit length repeat'' t)"
      by (rule dbad_round [OF f(7) [OF t bs] f(4)]) (use f(8) dm in simp)
    then show ?thesis using CL_bad by (simp add: deflate_CODELENS_def mx_def)
  next
    case CL_undef
    then show ?thesis using st by (simp add: plain.cl_stop_def Let_def)
  qed
qed

section \<open>The code length code\<close>

text \<open>What case LENLENS does once all its fields are there: \<open>t\<close> is the state with the lengths of the code length
  code in place and \<open>x\<close> the one with the tables built.\<close>

lemma lenlens_table:
  assumes bs: "dbasic t" and tr: "trees_room t" and h: "h_have t \<le> 19" and o: "list_all (\<lambda>l. l \<le> 7) (ordered (h_have t) (h_lens t))"
  obtains v w where "inflate_table_my CODES (h_lens (lenlens_pad (19 - h_have t) t)) 19 (h_codes t) 0 7 (h_work t) (bl_tree (d_tr t)) = Some v"
    "w = (lenlens_pad (19 - h_have t) t)\<lparr>h_lencode := Codes 0, de_ret := to_ret v, h_codes := to_tab v, h_next := to_table v, h_work := to_work v,
       h_lenbits := to_bits v, d_tr := (d_tr t)\<lparr>bl_tree := to_tree v\<rparr>\<rparr>"
    "dbasic w" "plain.past 0 0 t (lenlens_pad (19 - h_have t) t)" "ordered 19 (h_lens w) = ordered (h_have t) (h_lens t) @ replicate (19 - h_have t) 0"
    "to_ret v = 0 \<Longrightarrow> code_table (code_at w (Codes 0)) (to_bits v) CODES"
    "to_ret v = 0 \<Longrightarrow> tree_of (take 19 (h_lens w)) (bl_tree (d_tr t)) (to_tree v)" "to_ret v = 0 \<Longrightarrow> trees_room w" "r_bits w = r_bits t" "rem w = rem t"
    "list_all (\<lambda>l. l \<le> 7) (take 19 (h_lens w))" "dcounts_ok w = dcounts_ok t"
proof -
  define u where "u = lenlens_pad (19 - h_have t) t"
  have len: "length (h_lens t) = 320" and ri: "rinv t" using bs by (auto simp: dbasic_def sizes_def)
  have p0: "plain.past 0 0 t t" by (rule plain.past_refl [OF ri]) simp
  have up: "plain.past 0 0 t u" "r_bits u = r_bits t" "length (h_lens u) = 320"
    "ordered 19 (h_lens u) = ordered (h_have t) (h_lens t) @ replicate (19 - h_have t) 0"
    using plain.lenlens_pad_spec [of t "19 - h_have t" 0 0 t] h len p0 by (simp_all add: u_def)
  note g = de_fields [OF past_deflate(1) [OF up(1)]]
  have bu: "dbasic u" by (rule past_deflate(7) [OF up(1,3) bs])
  have o7: "list_all (\<lambda>l. l \<le> 7) (take 19 (h_lens u))"
    by (rule ordered_all) (use up(3,4) o in \<open>auto simp: list_all_iff\<close>)
  have z: "length (h_work u) = 288" "length (h_codes u) = ENOUGH" using bu by (auto simp: dbasic_def sizes_def)
  have "table_args CODES (h_lens u) 19 (h_codes u) 0 7 (h_work u) (bl_tree (d_tr t))"
    using o7 z up(3) tr by (simp add: table_args_def max_syms_def space_of_def trees_room_def)
  from core_built [OF this] obtain v where v: "inflate_table_my CODES (h_lens u) 19 (h_codes u) 0 7 (h_work u) (bl_tree (d_tr t)) = Some v"
    "length (to_tab v) = ENOUGH" "length (to_work v) = 288"
    "to_ret v = 0 \<Longrightarrow> code_table (part_of 0 (to_table v) (to_tab v)) (to_bits v) CODES"
    "to_ret v = 0 \<Longrightarrow> tree_of (take 19 (h_lens u)) (bl_tree (d_tr t)) (to_tree v)"
    using z by (metis inflate_table_my_def)
  define w where "w = u\<lparr>h_lencode := Codes 0, de_ret := to_ret v, h_codes := to_tab v, h_next := to_table v, h_work := to_work v,
       h_lenbits := to_bits v, d_tr := (d_tr t)\<lparr>bl_tree := to_tree v\<rparr>\<rparr>"
  have wl: "h_lens w = h_lens u" "rem w = rem u" "r_bits w = r_bits u" by (simp_all add: w_def rem_def)
  have wc: "h_nlen w = h_nlen t" "h_ndist w = h_ndist t" "ncode (d_tr w) = ncode (d_tr t)" by (simp_all add: w_def g(19,20) g(1))
  have wn: "dcounts_ok w = dcounts_ok t" unfolding dcounts_ok_def wc by (rule refl)
  have "rem u = rem t" using past_deflate(2) [OF up(1)] by simp
  moreover have "dbasic w" using bu v(2,3) by (simp add: dbasic_def sizes_def rinv_def w_def)
  moreover have "trees_room w" if "to_ret v = 0" using v(5) [OF that] tr by (simp add: trees_room_def w_def tree_of_def)
  moreover have "code_table (code_at w (Codes 0)) (to_bits v) CODES" if "to_ret v = 0"
    using code_table_mono [OF v(4) [OF that], of "nth_opt (to_tab v)"] codes_part [OF _ same_below_refl, of 0]
    by (simp add: w_def code_at_codes)
  ultimately show thesis using that [of v w] v(1,5) [unfolded g(17,18)] up o7 wl wn unfolding u_def w_def by simp
qed

lemma CODELENS_start:
  assumes "dbasic w" and "trees_room w" and "dcounts_ok w" and "r_bits w < 8" and "code_table (code_at w (h_lencode w)) (h_lenbits w) CODES"
  shows "deflate_inv (w\<lparr>h_have := 0, d_mode := CODELENS\<rparr>)"
proof -
  have "code_at (w\<lparr>h_have := 0, d_mode := CODELENS\<rparr>) = code_at w" by (simp add: code_at_def fun_eq_iff split: code_ptr.split)
  then show ?thesis using assms
    by (auto simp: deflate_inv_def dmode_ok_def dbasic_def sizes_def rinv_def trees_room_def dcounts_ok_def)
qed

lemma LENLENS_dround:
  assumes "deflate_inv s" and m: "d_mode s = LENLENS" and r: "de_ret s = 0"
  shows "dround_ok flush (dmu s) s (deflate_LENLENS flush s)"
proof -
  define nc where "nc = ncode (d_tr s)"
  define k where "k = nc - h_have s"
  have bs: "dbasic s" and ms: "r_bits s < 8" "trees_room s" "dcounts_ok s" "h_have s < nc"
    "list_all (\<lambda>l. l \<le> 7) (ordered (h_have s) (h_lens s))"
    using assms by (auto simp: deflate_inv_def dmode_ok_def nc_def)
  have ri: "rinv s" and len: "length (h_lens s) = 320" and nc19: "nc \<le> 19" using bs ms(3) by (auto simp: dbasic_def sizes_def dcounts_ok_def nc_def)
  have sp: "if 3 * k \<le> length (rem s)
    then \<exists>t. lenlens_loop drop_bits k s = Got t \<and> plain.past (3 * k) 0 s t \<and> r_bits t < 8 \<and> h_have t = h_have s + k \<and>
      length (h_lens t) = length (h_lens s) \<and> ordered (h_have t) (h_lens t) = ordered (h_have s) (h_lens s) @ fields3 k (rem s)
    else \<exists>t j. lenlens_loop drop_bits k s = Short t \<and> plain.past (3 * j) (3 * (k - j) + 0) s t \<and> j < k \<and>
      r_next t = [] \<and> length (rem t) < 3 \<and> h_have t = h_have s + j \<and> length (h_lens t) = length (h_lens s) \<and>
      ordered (h_have t) (h_lens t) = ordered (h_have s) (h_lens s) @ fields3 j (rem s)"
    by (rule plain.lenlens_loop_spec [OF ri]) (use ms len nc19 in \<open>simp_all add: k_def\<close>)
  have dm: "dmu s = 4 * length (rem s) + 2" using m by (simp add: dmu_def drank_def)
  show ?thesis
  proof (cases "3 * k \<le> length (rem s)")
    case False
    then obtain t j where t: "lenlens_loop drop_bits k s = Short t" "plain.past (3 * j) (3 * (k - j)) s t" "j < k"
      "r_next t = []" "length (rem t) < 3" "h_have t = h_have s + j" "length (h_lens t) = 320"
      "ordered (h_have t) (h_lens t) = ordered (h_have s) (h_lens s) @ fields3 j (rem s)"
      using sp len by auto
    note f = past_deflate [OF t(2)] and g = de_fields [OF past_deflate(1) [OF t(2)]]
    have bt: "dbasic t" by (rule f(7) [OF t(7) bs])
    have "dmode_ok t" using f(5,6) g m ms t(3,5,6,8) fields3_le [of j "rem s"] by (simp add: dmode_ok_def length_rem k_def nc_def)
    then show ?thesis using t(1,4) bt f(4) g r
      by (simp add: deflate_LENLENS_def k_def [symmetric] nc_def [symmetric] dround_ok_def deflate_inv_def dstuck_def)
  next
    case True
    then obtain t where t: "lenlens_loop drop_bits k s = Got t" "plain.past (3 * k) 0 s t" "r_bits t < 8"
      "h_have t = nc" "length (h_lens t) = 320" "ordered (h_have t) (h_lens t) = ordered (h_have s) (h_lens s) @ fields3 k (rem s)"
      using sp len ms(4) by (auto simp: k_def)
    note f = past_deflate [OF t(2)] and g = de_fields [OF past_deflate(1) [OF t(2)]]
    have bt: "dbasic t" by (rule f(7) [OF t(5) bs])
    have o: "list_all (\<lambda>l. l \<le> 7) (ordered (h_have t) (h_lens t))" using t(6) ms(5) fields3_le [of k "rem s"] by simp
    have tr: "trees_room t" and h19: "h_have t \<le> 19" using f(6) ms(2) t(4) nc19 by simp_all
    obtain v w where v: "inflate_table_my CODES (h_lens (lenlens_pad (19 - h_have t) t)) 19 (h_codes t) 0 7 (h_work t) (bl_tree (d_tr t)) = Some v"
      and w: "w = (lenlens_pad (19 - h_have t) t)\<lparr>h_lencode := Codes 0, de_ret := to_ret v, h_codes := to_tab v, h_next := to_table v, h_work := to_work v,
         h_lenbits := to_bits v, d_tr := (d_tr t)\<lparr>bl_tree := to_tree v\<rparr>\<rparr>"
      and W: "dbasic w" "plain.past 0 0 t (lenlens_pad (19 - h_have t) t)" "to_ret v = 0 \<Longrightarrow> code_table (code_at w (Codes 0)) (to_bits v) CODES"
        "to_ret v = 0 \<Longrightarrow> trees_room w" "r_bits w = r_bits t" "rem w = rem t" "dcounts_ok w = dcounts_ok t"
      by (rule lenlens_table [OF bt tr h19 o]) blast
    note h = de_fields [OF past_deflate(1) [OF W(2)]]
    have run: "deflate_LENLENS flush s = (if to_ret v \<noteq> 0 then de_bad ''invalid code lengths set'' w
        else deflate_CODELENS flush (w\<lparr>h_have := 0, d_mode := CODELENS\<rparr>))"
      using t(1) v h by (simp add: deflate_LENLENS_def k_def [symmetric] nc_def [symmetric] Let_def de_table_def w)
    have "dmoves (lenlens_pad (19 - h_have t) t) w" by (rule dmoves_same) (auto simp: w dstream_id_def intro: exI [of _ 0])
    then have mw: "dmoves s w" using dmoves_trans [OF f(4)] dmoves_trans [OF past_deflate(4) [OF W(2)]] by blast
    have l: "length (rem w) \<le> length (rem s)" using W(6) f(8) by simp
    show ?thesis
    proof (cases "to_ret v = 0")
      case False
      have "dround_ok flush (dmu s) s (de_bad ''invalid code lengths set'' w)"
        by (rule dbad_round [OF W(1) mw]) (use l dm in simp)
      then show ?thesis using run False by simp
    next
      case ok: True
      define x where "x = w\<lparr>h_have := 0, d_mode := CODELENS\<rparr>"
      have "dcounts_ok w" using ms(3) f(5) W(7) by simp
      moreover have "h_lencode w = Codes 0" "h_lenbits w = to_bits v" unfolding w by simp_all
      ultimately have ix: "deflate_inv x" unfolding x_def
        by (intro CODELENS_start) (use W(1) W(3,4) [OF ok] W(5) t(3) in simp_all)
      have xf: "d_mode x = CODELENS" "de_ret x = 0" "rem x = rem w" using ok by (simp_all add: x_def w rem_def)
      have "dround_ok flush (dmu x) x (deflate_CODELENS flush x)" by (rule CODELENS_dround [OF ix xf(1,2)])
      moreover have "dmu x \<le> dmu s" using xf l dm by (simp add: dmu_def drank_def)
      ultimately have "dround_ok flush (dmu s) x (deflate_CODELENS flush x)" by (rule dround_ok_mono)
      moreover have "dmoves s x" using mw by (simp add: x_def dmoves_def dstream_id_def)
      ultimately show ?thesis using run ok by (simp add: x_def [symmetric]) (rule dround_ok_trans)
    qed
  qed
qed

section \<open>The counts and the type of a block\<close>

lemma dwith_bits_round:
  assumes "dbasic s" and "n \<le> 48" and "de_ret s = 0"
    and short: "\<And>r. pulled n s r \<Longrightarrow> fst r = [] \<Longrightarrow> snd (snd r) < n \<Longrightarrow> dmode_ok (set_regs r s)"
    and got: "\<And>r. pulled n s r \<Longrightarrow> n \<le> snd (snd r) \<Longrightarrow> dbasic (set_regs r s) \<Longrightarrow> dround_ok flush B (set_regs r s) (k (set_regs r s))"
  shows "dround_ok flush B s (with_bits n s k)"
proof -
  have r: "rinv s" using assms(1) by (simp add: dbasic_def)
  have bm: "dbasic (set_regs r s)" "dmoves s (set_regs r s)" if "pulled n s r" for r
    using that assms(1) by (auto simp: dbasic_def sizes_def pulled_def dstream_id_def intro!: dmoves_same)
  show ?thesis
  proof (cases rule: with_bits_cases [OF r assms(2), of k, case_names got short])
    case (got r)
    then show ?thesis using assms(5) [of r] bm [of r] dround_ok_trans by metis
  next
    case (short r)
    then show ?thesis using assms(3,4) bm [of r] by (simp add: dround_ok_def deflate_inv_def dstuck_def)
  qed
qed

lemma drop_value: "n + m \<le> r_bits s \<Longrightarrow> m < 32 \<Longrightarrow> BITS m (drop_bits n s) = val_of (take m (drop n (rem s)))"
  using BITS_rem [of m "drop_bits n s"] drop_bits_rem [of n s] by simp

lemma drop_drop_bits: "drop_bits m (drop_bits n s) = drop_bits (n + m) s"
  by (cases s) (simp add: drop_bits_def add.commute)

definition count_trees :: "nat \<Rightarrow> nat \<Rightarrow> nat \<Rightarrow> trees_state \<Rightarrow> trees_state" where
  "count_trees n d c t = t\<lparr>l_desc := (l_desc t)\<lparr>max_code := n\<rparr>, d_desc := (d_desc t)\<lparr>max_code := d\<rparr>, ncode := c\<rparr>"

lemma de_counts_eq:
  assumes "14 \<le> r_bits s"
  shows "de_counts s = (drop_bits 14 s)\<lparr>h_nlen := val_of (take 5 (rem s)) + 257, h_ndist := val_of (take 5 (drop 5 (rem s))) + 1,
     d_tr := count_trees (val_of (take 5 (rem s)) + 257) (val_of (take 5 (drop 5 (rem s))) + 1) (val_of (take 4 (drop 10 (rem s))) + 4) (d_tr s)\<rparr>"
proof -
  have e: "de_counts s = (drop_bits 4 (drop_bits 5 (drop_bits 5 s)))\<lparr>h_nlen := BITS 5 s + 257, h_ndist := BITS 5 (drop_bits 5 s) + 1,
     d_tr := count_trees (BITS 5 s + 257) (BITS 5 (drop_bits 5 s) + 1) (BITS 4 (drop_bits 5 (drop_bits 5 s)) + 4) (d_tr s)\<rparr>"
    by (cases s) (simp add: de_counts_def drop_bits_def BITS_def Let_def count_trees_def)
  have v: "BITS 5 s = val_of (take 5 (rem s))" "BITS 5 (drop_bits 5 s) = val_of (take 5 (drop 5 (rem s)))"
    "BITS 4 (drop_bits 10 s) = val_of (take 4 (drop 10 (rem s)))"
    using assms by (simp_all add: BITS_rem drop_bits_rem)
  show ?thesis unfolding e drop_drop_bits using v by simp
qed

lemma val_of_le: "val_of (take n bs) < 2 ^ n"
  using less_le_trans [OF val_of_less [of "take n bs"] power_increasing [of "length (take n bs)" n "2::nat"]] by simp

lemma TABLE_dround:
  assumes "deflate_inv s" and m: "d_mode s = TABLE" and r: "de_ret s = 0"
  shows "dround_ok flush (dmu s) s (deflate_TABLE flush s)"
proof -
  have bs: "dbasic s" and ms: "r_bits s < 14" "trees_room s" using assms by (auto simp: deflate_inv_def dmode_ok_def)
  have dm: "dmu s = 4 * length (rem s) + 2" using m by (simp add: dmu_def drank_def)
  show ?thesis unfolding deflate_TABLE_def
  proof (rule dwith_bits_round [OF bs _ r])
    fix rg assume rg: "pulled 14 s rg"
    show "dmode_ok (set_regs rg s)" if "snd (snd rg) < 14" using that m ms by (simp add: dmode_ok_def trees_room_def)
    assume b: "14 \<le> snd (snd rg)" and bb: "dbasic (set_regs rg s)"
    let ?s = "set_regs rg s"
    define n where "n = val_of (take 5 (rem ?s)) + 257"
    define d where "d = val_of (take 5 (drop 5 (rem ?s))) + 1"
    define c where "c = val_of (take 4 (drop 10 (rem ?s))) + 4"
    have bnd: "n \<le> 288" "d \<le> 32" "c \<le> 19" "257 \<le> n" "1 \<le> d" "4 \<le> c"
      using val_of_le [of 5 "rem ?s"] val_of_le [of 5 "drop 5 (rem ?s)"] val_of_le [of 4 "drop 10 (rem ?s)"] by (simp_all add: n_def d_def c_def)
    define x where "x = (de_counts ?s)\<lparr>h_have := 0, d_mode := LENLENS\<rparr>"
    have x: "x = (drop_bits 14 ?s)\<lparr>h_nlen := n, h_ndist := d, d_tr := count_trees n d c (d_tr s), h_have := 0, d_mode := LENLENS\<rparr>"
      using de_counts_eq [of ?s] b by (simp add: x_def n_def d_def c_def)
    have ri: "rinv (drop_bits 14 ?s)" by (rule drop_bits_inv) (use bb b in \<open>simp_all add: dbasic_def\<close>)
    have bits: "r_bits x < 8" using rg ms(1) by (auto simp: x pulled_def)
    have "rem x = rem (drop_bits 14 ?s)" by (simp add: x rem_def)
    then have rx: "length (rem x) \<le> length (rem s)" using drop_bits_rem [of 14 ?s] b rg by (simp add: pulled_def)
    have "deflate_inv x" using bb ri bits ms(2) bnd
      by (auto simp: deflate_inv_def dmode_ok_def dbasic_def sizes_def rinv_def trees_room_def dcounts_ok_def count_trees_def x ordered_def)
    then have "dround_ok flush (dmu x) x (deflate_LENLENS flush x)" by (rule LENLENS_dround) (use r in \<open>simp_all add: x\<close>)
    moreover have "dmu x \<le> dmu s" using rx dm by (simp add: dmu_def drank_def) (simp add: x)
    ultimately have "dround_ok flush (dmu s) x (deflate_LENLENS flush x)" by (rule dround_ok_mono)
    moreover have "dmoves ?s x" by (rule dmoves_same) (auto simp: x dstream_id_def intro: exI [of _ 0])
    ultimately show "dround_ok flush (dmu s) ?s (deflate_LENLENS flush ((de_counts ?s)\<lparr>h_have := 0, d_mode := LENLENS\<rparr>))"
      unfolding x_def [symmetric] by (rule dround_ok_trans [rotated])
  qed simp
qed

lemma ddrop_step:
  assumes "dbasic t" and "n \<le> r_bits t"
  shows "dbasic (drop_bits n t)" "dmoves t (drop_bits n t)" "rem (drop_bits n t) = drop n (rem t)"
  using assms drop_bits_inv [of t n] drop_bits_rem [of n t]
  by (auto simp: dbasic_def sizes_def dstream_id_def intro!: dmoves_same exI [of _ 0])

text \<open>After the three bits of the block type.\<close>

definition type_mode :: "nat \<Rightarrow> deflate_mode" where
  "type_mode ty = (if ty = 0 then STORED else if ty = 1 then SKPI_HEADER_END else if ty = 2 then TABLE else BAD)"

definition type_tree :: "nat \<Rightarrow> tree_type \<Rightarrow> tree_type" where
  "type_tree ty old = (if ty = 0 then STORE else if ty = 1 then FIXED else if ty = 2 then DYNAMIC else old)"

definition typed :: "nat \<Rightarrow> deflate_run \<Rightarrow> deflate_run" where
  "typed ty s = (drop_bits 3 s)\<lparr>d_last := val_of (take 1 (rem s)), d_mode := type_mode ty, d_ttype := type_tree ty (d_ttype s),
     de_strm := (if ty < 3 then de_strm s else (de_strm s)\<lparr>z_msg := Some ''invalid block type''\<rparr>)\<rparr>"

lemma de_type_eq:
  assumes "3 \<le> r_bits s" and "ty = val_of (take 2 (drop 1 (rem s)))"
  shows "de_type flush (drop_bits 1 (s\<lparr>d_last := BITS 1 s\<rparr>)) =
    (if ty = 1 \<and> flush = Z_TREES then Leave (typed ty s) else Next (typed ty s))"
proof -
  define u where "u = drop_bits 1 (s\<lparr>d_last := BITS 1 s\<rparr>)"
  have u: "u = (drop_bits 1 s)\<lparr>d_last := val_of (take 1 (rem s))\<rparr>"
    using BITS_rem [of 1 s] assms(1) by (cases s) (simp add: u_def drop_bits_def)
  have b: "BITS 2 u = ty" using drop_value [of 1 2 s] assms by (simp add: u BITS_def)
  have dd: "drop_bits 2 u = (drop_bits 3 s)\<lparr>d_last := val_of (take 1 (rem s))\<rparr>" by (cases s) (simp add: u drop_bits_def numeral_3_eq_3)
  have c: "ty < 4" using val_of_le [of 2] assms(2) by simp
  consider "ty = 0" | "ty = 1" | "ty = 2" | "ty = 3" using c by linarith
  then have "de_type flush u = (if ty = 1 \<and> flush = Z_TREES then Leave (typed ty s) else Next (typed ty s))"
  proof cases
    case 1
    have "drop_bits 2 (u\<lparr>d_ttype := STORE, d_mode := STORED\<rparr>) = typed ty s"
      using 1 dd by (cases s) (simp add: typed_def type_mode_def type_tree_def drop_bits_def u)
    then show ?thesis using 1 b by (simp add: de_type_def)
  next
    case 2
    have "drop_bits 2 (u\<lparr>d_mode := SKPI_HEADER_END, d_ttype := FIXED\<rparr>) = typed ty s"
      using 2 dd by (cases s) (simp add: typed_def type_mode_def type_tree_def drop_bits_def u)
    then show ?thesis using 2 b by (simp add: de_type_def)
  next
    case 3
    have "drop_bits 2 (u\<lparr>d_mode := TABLE, d_ttype := DYNAMIC\<rparr>) = typed ty s"
      using 3 dd by (cases s) (simp add: typed_def type_mode_def type_tree_def drop_bits_def u)
    then show ?thesis using 3 b by (simp add: de_type_def)
  next
    case 4
    have "drop_bits 2 ((de_msg ''invalid block type'' u)\<lparr>d_mode := BAD\<rparr>) = typed ty s"
      using 4 dd by (cases s) (simp add: typed_def type_mode_def type_tree_def drop_bits_def de_msg_def u)
    then show ?thesis using 4 b by (simp add: de_type_def)
  qed
  then show ?thesis by (simp add: u_def)
qed

lemma typed_fields:
  assumes "dbasic s" and "3 \<le> r_bits s"
  shows "dbasic (typed ty s)" "dmoves s (typed ty s)" "rem (typed ty s) = drop 3 (rem s)" "r_bits (typed ty s) = r_bits s - 3"
    "d_mode (typed ty s) = type_mode ty" "de_ret (typed ty s) = de_ret s" "d_tr (typed ty s) = d_tr s"
  using ddrop_step [OF assms] by (auto simp: typed_def dbasic_def sizes_def rinv_def rem_def dmoves_def dstream_id_def)

lemma TYPEDO_dround:
  assumes "dbasic s0" and "r_bits s0 < 8" and m: "d_mode s0 = TYPEDO \<or> d_mode s0 = TYPE_0" and r: "de_ret s0 = 0"
  shows "dround_ok flush (dmu s0) s0 (deflate_TYPEDO flush s0)"
proof -
  define s where "s = s0\<lparr>d_tr := clear_trees (d_tr s0)\<rparr>"
  have bs: "dbasic s" "r_bits s < 8" "de_ret s = 0" "rem s = rem s0" "d_mode s = d_mode s0" "trees_room s"
    using assms by (simp_all add: s_def dbasic_def sizes_def rinv_def rem_def trees_room_def clear_trees_def)
  have mv: "dmoves s0 s" by (rule dmoves_same) (auto simp: s_def dstream_id_def intro: exI [of _ 0])
  have dm: "dmu s0 = 4 * length (rem s) + 2" using m bs(4) by (auto simp: dmu_def drank_def)
  have mo: "r_bits t < 8 \<Longrightarrow> d_mode t = d_mode s \<Longrightarrow> dmode_ok t" for t using m bs(5) by (auto simp: dmode_ok_def)
  have run: "deflate_TYPEDO flush s0 = (if d_last s \<noteq> 0 then Next ((BYTEBITS s)\<lparr>d_mode := DONE\<rparr>)
      else with_bits 3 s (\<lambda>s. de_type flush (drop_bits 1 (s\<lparr>d_last := BITS 1 s\<rparr>))))"
    by (simp add: deflate_TYPEDO_def s_def Let_def)
  have "dround_ok flush (dmu s0) s (Next ((BYTEBITS s)\<lparr>d_mode := DONE\<rparr>))"
  proof (rule next_round)
    have le: "r_bits s mod 8 \<le> r_bits s" by simp
    note D = ddrop_step [OF bs(1) le, folded BYTEBITS_def]
    show "dbasic ((BYTEBITS s)\<lparr>d_mode := DONE\<rparr>)" using D(1) by (simp add: dbasic_def sizes_def rinv_def)
    show "dmode_ok ((BYTEBITS s)\<lparr>d_mode := DONE\<rparr>)" by (simp add: dmode_ok_def)
    show "dmoves s ((BYTEBITS s)\<lparr>d_mode := DONE\<rparr>)" using D(2) by (simp add: dmoves_mode)
    have "rem ((BYTEBITS s)\<lparr>d_mode := DONE\<rparr>) = rem (BYTEBITS s)" by (simp add: rem_def)
    then show "dmu ((BYTEBITS s)\<lparr>d_mode := DONE\<rparr>) < dmu s0" using D(3) dm by (simp add: dmu_def drank_def)
  qed (use bs in simp)
  moreover have "dround_ok flush (dmu s0) s (with_bits 3 s (\<lambda>s. de_type flush (drop_bits 1 (s\<lparr>d_last := BITS 1 s\<rparr>))))"
  proof (rule dwith_bits_round [OF bs(1) _ bs(3)])
    fix rg assume rg: "pulled 3 s rg"
    show "dmode_ok (set_regs rg s)" if "snd (snd rg) < 3" using that by (intro mo) simp_all
    assume b: "3 \<le> snd (snd rg)" and bb: "dbasic (set_regs rg s)"
    let ?s = "set_regs rg s"
    define ty where "ty = val_of (take 2 (drop 1 (rem ?s)))"
    have b3: "3 \<le> r_bits ?s" using b by simp
    note T = typed_fields [OF bb b3, of ty]
    have "r_bits (typed ty ?s) < 8" using T(4) rg bs(2) by (auto simp: pulled_def)
    then have ok: "dmode_ok (typed ty ?s)" using T(5,7) bs(6) by (auto simp: dmode_ok_def type_mode_def trees_room_def)
    have "rem ?s = rem s" using rg by (simp add: pulled_def)
    then have "length (rem s) = 3 + length (rem (typed ty ?s))" using T(3) b3 length_rem [of ?s] by simp
    then have "dmu (typed ty ?s) < dmu s0" using dm drank_le [of "d_mode (typed ty ?s)"] by (simp add: dmu_def)
    then have "dround_ok flush (dmu s0) ?s (Next (typed ty ?s))" "flush = Z_TREES \<Longrightarrow> dround_ok flush (dmu s0) ?s (Leave (typed ty ?s))"
      using T ok bs(3) by (simp_all add: dround_ok_def deflate_inv_def dstuck_def)
    then show "dround_ok flush (dmu s0) ?s (de_type flush (drop_bits 1 (?s\<lparr>d_last := BITS 1 ?s\<rparr>)))"
      unfolding de_type_eq [OF b3 refl] ty_def [symmetric] by (simp only: split: if_split) blast
  qed simp
  ultimately have "dround_ok flush (dmu s0) s (deflate_TYPEDO flush s0)" using run by (simp split: if_split)
  then show ?thesis by (rule dround_ok_trans [OF mv])
qed

section \<open>Stored blocks, the end of a header\<close>

lemma bytebits_mod: "r_bits (BYTEBITS s) mod 8 = 0" "r_bits (BYTEBITS s) \<le> r_bits s" "r_bits (BYTEBITS s) = r_bits s - r_bits s mod 8"
  by (simp_all add: BYTEBITS_def)

lemma BYTEBITS_step:
  assumes "dbasic t"
  shows "dbasic (BYTEBITS t)" "dmoves t (BYTEBITS t)" "length (rem (BYTEBITS t)) \<le> length (rem t)"
  using ddrop_step [OF assms, of "r_bits t mod 8"] by (simp_all add: BYTEBITS_def)

lemma pulled_mod: "pulled n s r \<Longrightarrow> snd (snd r) mod 8 = r_bits s mod 8"
proof -
  assume p: "pulled n s r"
  then have "length (rem (set_regs r s)) = length (rem s)" by (simp add: pulled_def)
  then have "snd (snd r) + 8 * length (fst r) = r_bits s + 8 * length (r_next s)" by (simp add: length_rem)
  then show ?thesis by (metis mod_mult_self2)
qed

lemma STORED_dround:
  assumes "deflate_inv s0" and m: "d_mode s0 = STORED" and r: "de_ret s0 = 0"
  shows "dround_ok flush (dmu s0) s0 (deflate_STORED s0)"
proof -
  define s where "s = BYTEBITS s0"
  have b0: "dbasic s0" "r_bits s0 < 32" using assms by (auto simp: deflate_inv_def dmode_ok_def)
  have bs: "dbasic s" "de_ret s = 0" "d_mode s = STORED" "r_bits s < 32" "r_bits s mod 8 = 0" "dmoves s0 s" "length (rem s) \<le> length (rem s0)"
    using BYTEBITS_step [OF b0(1)] b0(2) bytebits_mod [of s0] m r by (auto simp: s_def)
  have dm: "dmu s0 = 4 * length (rem s0) + 2" using m by (simp add: dmu_def drank_def)
  have "dround_ok flush (dmu s0) s (with_bits 32 s (\<lambda>s.
      if r_hold s AND 0xffff \<noteq> drop_bit 16 (r_hold s) XOR 0xffff then de_bad ''invalid stored block lengths'' s
      else Next ((INITBITS (s\<lparr>d_length := unat ((ucast (r_hold s) :: uint32) AND 0xffff)\<rparr>))\<lparr>d_mode := SKPI_HEADER_END\<rparr>)))"
  proof (rule dwith_bits_round [OF bs(1) _ bs(2)])
    fix rg assume rg: "pulled 32 s rg"
    show "dmode_ok (set_regs rg s)" if "snd (snd rg) < 32" using that bs(3) by (simp add: dmode_ok_def)
    assume b: "32 \<le> snd (snd rg)" and bb: "dbasic (set_regs rg s)"
    let ?s = "set_regs rg s"
    have rs: "rem ?s = rem s" using rg by (simp add: pulled_def)
    define t where "t = (INITBITS (?s\<lparr>d_length := unat ((ucast (r_hold ?s) :: uint32) AND 0xffff)\<rparr>))\<lparr>d_mode := SKPI_HEADER_END\<rparr>"
    have "dround_ok flush (dmu s0) ?s (de_bad ''invalid stored block lengths'' ?s)"
      by (rule dbad_round [OF bb dmoves_refl]) (use rs bs(7) dm in simp)
    moreover have "dround_ok flush (dmu s0) ?s (Next t)"
    proof (rule next_round)
      show "dbasic t" "dmode_ok t" using bb by (simp_all add: t_def dbasic_def sizes_def rinv_def INITBITS_def dmode_ok_def)
      show "dmoves ?s t" by (rule dmoves_same) (auto simp: t_def dstream_id_def INITBITS_def intro: exI [of _ 0])
      have "length (rem t) \<le> length (rem ?s)" by (simp add: t_def length_rem INITBITS_def)
      then show "dmu t < dmu s0" using rs bs(7) dm by (simp add: dmu_def drank_def) (simp add: t_def)
    qed (use bs(2) in \<open>simp add: t_def\<close>)
    ultimately show "dround_ok flush (dmu s0) ?s (if r_hold ?s AND 0xffff \<noteq> drop_bit 16 (r_hold ?s) XOR 0xffff
        then de_bad ''invalid stored block lengths'' ?s
        else Next ((INITBITS (?s\<lparr>d_length := unat ((ucast (r_hold ?s) :: uint32) AND 0xffff)\<rparr>))\<lparr>d_mode := SKPI_HEADER_END\<rparr>))"
      unfolding t_def by (simp only: split: if_split) blast
  qed simp
  then show ?thesis unfolding deflate_STORED_def s_def [symmetric] by (rule dround_ok_trans [OF bs(6)])
qed

lemma SKPI_dround:
  assumes "deflate_inv s0" and m: "d_mode s0 = SKPI_HEADER_END" and r: "de_ret s0 = 0"
  shows "dround_ok flush (dmu s0) s0 (deflate_SKPI_HEADER_END s0)"
proof -
  define s where "s = BYTEBITS s0"
  have b0: "dbasic s0" "r_bits s0 < 16" using assms by (auto simp: deflate_inv_def dmode_ok_def)
  have bs: "dbasic s" "de_ret s = 0" "d_mode s = SKPI_HEADER_END" "r_bits s < 16" "r_bits s mod 8 = 0" "dmoves s0 s" "length (rem s) \<le> length (rem s0)"
    using BYTEBITS_step [OF b0(1)] b0(2) bytebits_mod [of s0] m r by (auto simp: s_def)
  have dm: "dmu s0 = 4 * length (rem s0) + 1" using m by (simp add: dmu_def drank_def)
  have "dround_ok flush (dmu s0) s (with_bits 16 s (\<lambda>s. let s1 = drop_bits 16 s
      in Next (s1\<lparr>d_mode := (if d_ttype s1 = STORE then COPY_0 else LEN_0)\<rparr>)))"
  proof (rule dwith_bits_round [OF bs(1) _ bs(2)])
    fix rg assume rg: "pulled 16 s rg"
    show "dmode_ok (set_regs rg s)" if "snd (snd rg) < 16" using that bs(3) by (simp add: dmode_ok_def)
    assume b: "16 \<le> snd (snd rg)" and bb: "dbasic (set_regs rg s)"
    let ?s = "set_regs rg s"
    define t where "t = (drop_bits 16 ?s)\<lparr>d_mode := (if d_ttype (drop_bits 16 ?s) = STORE then COPY_0 else LEN_0)\<rparr>"
    have b16: "16 \<le> r_bits ?s" using b by simp
    note D = ddrop_step [OF bb b16]
    have "snd (snd rg) < 24" using rg bs(4) by (auto simp: pulled_def)
    then have "snd (snd rg) = 16" using b pulled_mod [OF rg] bs(5) by presburger
    then have z: "r_bits t = 0" by (simp add: t_def)
    have "rem t = rem (drop_bits 16 ?s)" by (simp add: t_def rem_def)
    then have "length (rem s) = 16 + length (rem t)" using D(3) rg length_rem [of ?s] b by (simp add: pulled_def)
    moreover have "dmode_ok t" using z by (simp add: dmode_ok_def t_def)
    moreover have "dbasic t" using D(1) by (simp add: t_def dbasic_def sizes_def rinv_def)
    moreover have "dmoves ?s t" using D(2) by (simp add: t_def dmoves_mode)
    moreover have "de_ret t = 0" using bs(2) by (simp add: t_def)
    ultimately have "dround_ok flush (dmu s0) ?s (Next t)"
      by (intro next_round) (use bs(7) dm drank_le [of "d_mode t"] in \<open>auto simp: dmu_def\<close>)
    then show "dround_ok flush (dmu s0) ?s (let s1 = drop_bits 16 ?s in Next (s1\<lparr>d_mode := (if d_ttype s1 = STORE then COPY_0 else LEN_0)\<rparr>))"
      by (simp only: t_def Let_def)
  qed simp
  then show ?thesis unfolding deflate_SKPI_HEADER_END_def s_def [symmetric] by (rule dround_ok_trans [OF bs(6)])
qed

section \<open>Any round\<close>

lemma deflate_step_round:
  assumes "deflate_inv s" and "de_ret s = 0 \<or> d_mode s = BAD"
  shows "dround_ok flush (dmu s) s (deflate_step flush s)"
proof (cases "d_mode s = BAD")
  case True
  have "dmoves s (s\<lparr>de_ret := Z_DATA_ERROR\<rparr>)" by (rule dmoves_same) (auto simp: dstream_id_def intro: exI [of _ 0])
  then show ?thesis using assms(1) True
    by (simp add: deflate_step_def dround_ok_def deflate_inv_def dmode_ok_def dbasic_def sizes_def rinv_def dstuck_def)
next
  case nb: False
  then have r: "de_ret s = 0" using assms(2) by simp
  have b: "dbasic s" "dmode_ok s" using assms(1) by (simp_all add: deflate_inv_def)
  have lim: "4 * length (rem s) \<le> dmu s" by (simp add: dmu_def)
  have rd: "ready s" if "r_bits s = 0" using b that by (simp add: ready_def)
  show ?thesis
  proof (cases "d_mode s")
    case HEAD
    have "dround_ok flush (dmu s) s (Next (s\<lparr>d_mode := TYPEDO\<rparr>))"
      by (rule next_round) (use b r HEAD in \<open>auto simp: dbasic_def sizes_def rinv_def dmode_ok_def dmoves_mode dmoves_refl dmu_def drank_def rem_def\<close>)
    then show ?thesis using HEAD b by (simp add: deflate_step_def deflate_HEAD_def dbasic_def)
  next
    case TYPE_0
    then show ?thesis using TYPEDO_dround [OF b(1) _ _ r] b assms(1) r
      by (auto simp: deflate_step_def deflate_TYPE_def dmode_ok_def dround_ok_def dmoves_refl dstuck_def)
  next
    case TYPEDO
    then show ?thesis using TYPEDO_dround [OF b(1) _ _ r] b by (simp add: deflate_step_def dmode_ok_def)
  next
    case STORED
    then show ?thesis using STORED_dround [OF assms(1) _ r] by (simp add: deflate_step_def)
  next
    case COPY_0
    then show ?thesis using COPY_0_dround [OF rd r _ lim] b by (simp add: deflate_step_def dmode_ok_def)
  next
    case COPY
    then show ?thesis using COPY_dround [OF b(1) r _ _ lim] b by (simp add: deflate_step_def dmode_ok_def)
  next
    case TABLE
    then show ?thesis using TABLE_dround [OF assms(1) _ r] by (simp add: deflate_step_def)
  next
    case LENLENS
    then show ?thesis using LENLENS_dround [OF assms(1) _ r] by (simp add: deflate_step_def)
  next
    case CODELENS
    then show ?thesis using CODELENS_dround [OF assms(1) _ r] by (simp add: deflate_step_def)
  next
    case SKPI_HEADER_END
    then show ?thesis using SKPI_dround [OF assms(1) _ r] by (simp add: deflate_step_def)
  next
    case LEN_0
    then show ?thesis using LEN_0_dround [OF rd r _ lim] b by (simp add: deflate_step_def dmode_ok_def)
  next
    case LEN
    then show ?thesis using LEN_dround [OF rd r _ lim] b by (simp add: deflate_step_def dmode_ok_def)
  next
    case INS1
    then show ?thesis using INS1_dround [OF rd r _ lim] b by (simp add: deflate_step_def dmode_ok_def)
  next
    case INS2
    then show ?thesis using INS2_dround [OF _ r _ lim] b by (simp add: deflate_step_def dmode_ok_def half_def)
  next
    case MATCH
    then show ?thesis using MATCH_dround [OF rd r] b by (simp add: deflate_step_def dmode_ok_def dmu_def drank_def)
  next
    case LIT
    then show ?thesis using LIT_dround [OF rd r] b by (simp add: deflate_step_def dmode_ok_def dmu_def drank_def)
  next
    case ENDOFBLOCK
    then show ?thesis using ENDOFBLOCK_dround [OF rd r] b by (simp add: deflate_step_def dmode_ok_def)
  next
    case DONE
    have "dmoves s (s\<lparr>de_ret := Z_STREAM_END\<rparr>)" by (rule dmoves_same) (auto simp: dstream_id_def intro: exI [of _ 0])
    then show ?thesis using DONE b
      by (simp add: deflate_step_def deflate_DONE_def dround_ok_def deflate_inv_def dmode_ok_def dbasic_def sizes_def rinv_def dstuck_def)
  qed (use b nb in \<open>simp_all add: dmode_ok_def\<close>)
qed

end
