(* ===== verification/Deflate_Loop.thy ===== *)
theory Deflate_Loop
  imports Deflate_Rounds_Hdr
begin

text \<open>
  Whole calls of \<^verbatim>\<open>j_deflate\<close>: the loop ends within its fuel, the invariant holds again between calls, and
  what a call does to the stream.
\<close>

section \<open>The loop\<close>

text \<open>How a run of the loop ends: at \<open>inf_leave\<close>, or at once when the symbol buffer is full.\<close>

definition loop_end :: "int \<Rightarrow> deflate_run \<Rightarrow> deflate_run run \<Rightarrow> bool" where
  "loop_end flush s res \<longleftrightarrow>
    (\<exists>t. res = Done (fst (de_leave flush t)) (snd (de_leave flush t)) \<and> deflate_inv t \<and> dmoves s t \<and> dstuck flush t) \<or>
    (\<exists>t. res = Done 1 t \<and> dmoves s t \<and> sym_next (d_tr t) = sym_end (d_tr t) \<and> (d_mode t = LIT \<or> d_mode t = MATCH))"

lemma loop_end_trans: "dmoves s t \<Longrightarrow> loop_end flush t res \<Longrightarrow> loop_end flush s res"
  using dmoves_trans by (auto simp: loop_end_def)

lemma deflate_loop_stops:
  assumes "deflate_inv s" and "de_ret s = Z_OK \<or> d_mode s = BAD" and "dmu s < n"
  shows "loop_end flush s (deflate_loop n flush s)"
  using assms
proof (induction n arbitrary: s)
  case (Suc n)
  note r = deflate_step_round [OF Suc.prems(1), of flush]
  have r': "dround_ok flush (dmu s) s (deflate_step flush s)" using r Suc.prems(2) by simp
  show ?case
  proof (cases "deflate_step flush s")
    case (Next t)
    then have t: "deflate_inv t" "dmoves s t" "dmu t < dmu s" "de_ret t = Z_OK \<or> d_mode t = BAD" using r' by (auto simp: dround_ok_def)
    have "loop_end flush t (deflate_loop n flush t)" using Suc.IH [OF t(1,4)] t(3) Suc.prems(3) by simp
    then show ?thesis using Next loop_end_trans [OF t(2)] by simp
  next
    case (Leave t)
    then show ?thesis using r' by (auto simp: dround_ok_def loop_end_def split: prod.splits intro!: exI [of _ t])
  next
    case (Ret x t)
    then show ?thesis using r' by (auto simp: dround_ok_def loop_end_def)
  qed (use r' in \<open>auto simp: dround_ok_def\<close>)
qed simp

section \<open>Between calls\<close>

definition no_locals :: de_locals where
  "no_locals = \<lparr>de_ins_buf_index = 0, de_ins_buf_have = 0, de_ins_type = 0\<rparr>"

definition good_deflate :: "de_globals \<Rightarrow> deflate_strm \<Rightarrow> bool" where
  "good_deflate g strm \<longleftrightarrow> \<not> deflateStateCheck (Some strm) \<and>
    (\<forall>st. z_state strm = Some st \<longrightarrow> deflate_inv (deflate_enter 0 no_locals g strm st))"

lemma denter_fields:
  "r_next (deflate_enter out l g strm st) = z_next_in strm" "r_hold (deflate_enter out l g strm st) = d_hold st"
  "r_bits (deflate_enter out l g strm st) = d_bits st" "de_in (deflate_enter out l g strm st) = length (z_next_in strm)"
  "de_out (deflate_enter out l g strm st) = out" "de_ret (deflate_enter out l g strm st) = 0" "de_strm (deflate_enter out l g strm st) = strm"
  "de_g (deflate_enter out l g strm st) = g" "de_l (deflate_enter out l g strm st) = l" "d_strm (deflate_enter out l g strm st) = d_strm st"
  "d_status (deflate_enter out l g strm st) = d_status st" "d_wrap (deflate_enter out l g strm st) = d_wrap st"
  "d_tr (deflate_enter out l g strm st) = d_tr st" "d_pending_out (deflate_enter out l g strm st) = d_pending_out st"
  "d_mode (deflate_enter out l g strm st) = (if d_mode st = TYPE_0 then TYPEDO else d_mode st)"
  "d_last (deflate_enter out l g strm st) = d_last st" "d_ttype (deflate_enter out l g strm st) = d_ttype st"
  "d_length (deflate_enter out l g strm st) = d_length st" "d_offset (deflate_enter out l g strm st) = d_offset st"
  "h_nlen (deflate_enter out l g strm st) = h_nlen st" "h_ndist (deflate_enter out l g strm st) = h_ndist st"
  "h_have (deflate_enter out l g strm st) = h_have st" "h_lens (deflate_enter out l g strm st) = h_lens st"
  "h_work (deflate_enter out l g strm st) = h_work st" "h_codes (deflate_enter out l g strm st) = h_codes st"
  "h_lencode (deflate_enter out l g strm st) = h_lencode st" "h_lenbits (deflate_enter out l g strm st) = h_lenbits st"
  by (simp_all add: deflate_enter_def Let_def de_LOAD_def deflate_state.defs deflate_run.defs huff.defs reader.defs)

text \<open>The invariant as a property of the fields that it looks at.\<close>

lemma deflate_inv_cong:
  fixes s t :: deflate_run
  assumes "d_mode t = d_mode s \<or> d_mode s = TYPE_0 \<and> d_mode t = TYPEDO" and "r_hold t = r_hold s" "r_bits t = r_bits s" "d_wrap t = d_wrap s"
    and "h_nlen t = h_nlen s" "h_ndist t = h_ndist s" "h_have t = h_have s" "h_lens t = h_lens s" "h_work t = h_work s" "h_codes t = h_codes s"
    and "h_lencode t = h_lencode s" "h_lenbits t = h_lenbits s" "d_length t = d_length s" "insbuf (de_g t) = insbuf (de_g s)"
    and tr: "bl_tree (d_tr t) = bl_tree (d_tr s)" "dyn_ltree (d_tr t) = dyn_ltree (d_tr s)" "dyn_dtree (d_tr t) = dyn_dtree (d_tr s)"
      "ncode (d_tr t) = ncode (d_tr s)"
    and inv: "deflate_inv s"
  shows "deflate_inv t"
proof -
  have c: "code_at t = code_at s" using assms(10) by (simp add: code_at_def fun_eq_iff split: code_ptr.split)
  have "trees_room t = trees_room s" "dcounts_ok t = dcounts_ok s" "held t = held s" "dbasic t = dbasic s"
    using assms by (simp_all only: trees_room_def dcounts_ok_def held_def dbasic_def sizes_def rinv_def)
  then show ?thesis using inv assms(1,3,5-8,11-13) tr(4) c by (cases "d_mode s") (auto simp: deflate_inv_def dmode_ok_def)
qed

lemma enter_inv_any:
  assumes "deflate_inv (deflate_enter out l g strm st)"
    and "d_mode st' = d_mode st" "d_hold st' = d_hold st" "d_bits st' = d_bits st" "d_wrap st' = d_wrap st"
    and "h_nlen st' = h_nlen st" "h_ndist st' = h_ndist st" "h_have st' = h_have st" "h_lens st' = h_lens st" "h_work st' = h_work st"
    and "h_codes st' = h_codes st" "h_lencode st' = h_lencode st" "h_lenbits st' = h_lenbits st" "d_length st' = d_length st"
    and "bl_tree (d_tr st') = bl_tree (d_tr st)" "dyn_ltree (d_tr st') = dyn_ltree (d_tr st)" "dyn_dtree (d_tr st') = dyn_dtree (d_tr st)"
      "ncode (d_tr st') = ncode (d_tr st)"
  shows "deflate_inv (deflate_enter out' l' g strm' st')"
  by (rule deflate_inv_cong [OF _ _ _ _ _ _ _ _ _ _ _ _ _ _ _ _ _ _ assms(1)]) (use assms in \<open>simp_all add: denter_fields\<close>)

section \<open>A call\<close>

lemma de_leave_fields:
  fixes flush t
  defines "u \<equiv> snd (de_leave flush t)"
  shows "z_next_in (de_strm u) = r_next t" "z_out (de_strm u) = z_out (de_strm t)" "z_avail_out (de_strm u) = z_avail_out (de_strm t)"
    "z_total_in (de_strm u) = z_total_in (de_strm t) + of_nat (de_in t - length (r_next t))"
    "d_hold u = r_hold t" "d_bits u = r_bits t" "d_mode u = d_mode t" "d_strm u = d_strm t" "d_status u = d_status t" "de_g u = de_g t" "d_tr u = d_tr t"
    "d_wrap u = d_wrap t" "h_nlen u = h_nlen t" "h_ndist u = h_ndist t" "h_have u = h_have t" "h_lens u = h_lens t" "h_work u = h_work t"
    "h_codes u = h_codes t" "h_lencode u = h_lencode t" "h_lenbits u = h_lenbits t" "d_length u = d_length t" "d_pending_out u = d_pending_out t"
    "z_addr (de_strm u) = z_addr (de_strm t)" "z_zalloc (de_strm u) = z_zalloc (de_strm t)" "z_zfree (de_strm u) = z_zfree (de_strm t)"
    "z_in_null (de_strm u) = z_in_null (de_strm t)" "z_out_null (de_strm u) = z_out_null (de_strm t)" "d_last u = d_last t" "d_ttype u = d_ttype t"
    "d_offset u = d_offset t"
  by (simp_all add: u_def de_leave_def Let_def de_RESTORE_def)

lemma truncate_fields:
  fixes u :: deflate_run
  shows "d_mode (deflate_state.truncate u) = d_mode u" "d_hold (deflate_state.truncate u) = d_hold u" "d_bits (deflate_state.truncate u) = d_bits u"
    "d_wrap (deflate_state.truncate u) = d_wrap u" "h_nlen (deflate_state.truncate u) = h_nlen u" "h_ndist (deflate_state.truncate u) = h_ndist u"
    "h_have (deflate_state.truncate u) = h_have u" "h_lens (deflate_state.truncate u) = h_lens u" "h_work (deflate_state.truncate u) = h_work u"
    "h_codes (deflate_state.truncate u) = h_codes u" "h_lencode (deflate_state.truncate u) = h_lencode u"
    "h_lenbits (deflate_state.truncate u) = h_lenbits u" "d_length (deflate_state.truncate u) = d_length u" "d_tr (deflate_state.truncate u) = d_tr u"
    "d_strm (deflate_state.truncate u) = d_strm u" "d_status (deflate_state.truncate u) = d_status u"
    "d_pending_out (deflate_state.truncate u) = d_pending_out u" "d_last (deflate_state.truncate u) = d_last u"
    "d_ttype (deflate_state.truncate u) = d_ttype u" "d_offset (deflate_state.truncate u) = d_offset u"
  by (simp_all add: deflate_state.defs huff.defs reader.defs)

lemma leave_good:
  fixes flush
  assumes "deflate_inv t"
  defines "u \<equiv> snd (de_leave flush t)"
  shows "deflate_inv (deflate_enter out l (de_g u) strm (deflate_state.truncate u))"
  by (rule deflate_inv_cong [OF _ _ _ _ _ _ _ _ _ _ _ _ _ _ _ _ _ _ assms(1)])
    (simp_all add: u_def denter_fields truncate_fields de_leave_fields)

definition dcall_ok :: "deflate_strm \<Rightarrow> deflate_strm \<Rightarrow> bool" where
  "dcall_ok strm strm' \<longleftrightarrow>
    (\<exists>j. j \<le> length (z_next_in strm) \<and> z_next_in strm' = drop j (z_next_in strm) \<and> z_total_in strm' = z_total_in strm + of_nat j) \<and>
    (\<exists>w. z_out strm' = z_out strm @ w \<and> z_avail_out strm' + length w \<le> z_avail_out strm)"

text \<open>The symbol buffer was full: the input of the call has been read but is handed back.\<close>

definition buffer_full :: "deflate_strm \<Rightarrow> deflate_strm \<Rightarrow> bool" where
  "buffer_full strm strm' \<longleftrightarrow> z_next_in strm' = z_next_in strm \<and>
    (\<exists>st. z_state strm' = Some st \<and> sym_next (d_tr st) = sym_end (d_tr st) \<and> (d_mode st = LIT \<or> d_mode st = MATCH))"

lemma good_check:
  "\<not> deflateStateCheck (Some strm) \<longleftrightarrow> (\<exists>st. z_state strm = Some st \<and> z_zalloc strm \<and> z_zfree strm \<and> d_strm st = z_addr strm \<and>
     d_status st \<in> {INIT_STATE, EXTRA_STATE, NAME_STATE, COMMENT_STATE, HCRC_STATE, BUSY_STATE, FINISH_STATE})"
  by (auto simp: deflateStateCheck_def split: option.splits if_splits)

lemma deflate_my_call:
  assumes good: "good_deflate g strm" and out: "\<not> z_out_null strm" and inp: "z_in_null strm \<longrightarrow> z_next_in strm = []"
  obtains (leave) u strm' t where "deflate_my out l flush g strm = Done (fst (de_leave flush t)) (u, strm')" "good_deflate u strm'" "dcall_ok strm strm'"
      "dstuck flush t" "z_next_in strm' = r_next t" "z_avail_out strm' = z_avail_out (de_strm t)" "\<exists>st'. z_state strm' = Some st' \<and> d_mode st' = d_mode t"
    | (full) u strm' where "deflate_my out l flush g strm = Done 1 (u, strm')" "dcall_ok strm strm'" "buffer_full strm strm'"
proof -
  obtain st where st: "z_state strm = Some st" "z_zalloc strm" "z_zfree strm" "d_strm st = z_addr strm"
    "d_status st \<in> {INIT_STATE, EXTRA_STATE, NAME_STATE, COMMENT_STATE, HCRC_STATE, BUSY_STATE, FINISH_STATE}"
    using good by (auto simp: good_deflate_def good_check)
  define s where "s = deflate_enter out l g strm st"
  have "deflate_inv (deflate_enter 0 no_locals g strm st)" using good st by (simp add: good_deflate_def)
  then have si: "deflate_inv s" unfolding s_def by (rule enter_inv_any) simp_all
  note e = denter_fields [of out l g strm st, folded s_def]
  have "loop_end flush s (deflate_loop (deflate_fuel s) flush s)"
    by (rule deflate_loop_stops [OF si _ dmu_fuel]) (simp add: e)
  then consider (a) t where "deflate_loop (deflate_fuel s) flush s = Done (fst (de_leave flush t)) (snd (de_leave flush t))"
      "deflate_inv t" "dmoves s t" "dstuck flush t"
    | (b) t where "deflate_loop (deflate_fuel s) flush s = Done 1 t" "dmoves s t" "sym_next (d_tr t) = sym_end (d_tr t)" "d_mode t = LIT \<or> d_mode t = MATCH"
    by (auto simp: loop_end_def)
  then show thesis
  proof cases
    case (a t)
    define u where "u = snd (de_leave flush t)"
    define strm' where "strm' = (de_strm u)\<lparr>z_state := Some (deflate_state.truncate u)\<rparr>"
    note l = de_leave_fields [of flush t, folded u_def]
    have run: "deflate_my out l flush g strm = Done (fst (de_leave flush t)) (de_g u, strm')"
      using st out inp a(1) by (auto simp: deflate_my_def s_def [symmetric] Let_def deflate_exit_def u_def strm'_def)
    have id: "dstream_id t = dstream_id s" using a(3) by (simp add: dmoves_def)
    then have "\<not> deflateStateCheck (Some strm')"
      using st e l by (auto simp: good_check strm'_def dstream_id_def truncate_fields)
    then have gs: "good_deflate (de_g u) strm'"
      using leave_good [OF a(2), of 0 no_locals flush strm'] by (simp add: good_deflate_def strm'_def u_def)
    obtain j where j: "r_next t = drop j (z_next_in strm)" "j \<le> length (z_next_in strm)"
    proof -
      obtain j where j: "r_next t = drop j (z_next_in strm)" using a(3) e by (auto simp: dmoves_def)
      then show thesis using that [of "min j (length (z_next_in strm))"] by (cases "j \<le> length (z_next_in strm)") auto
    qed
    have in_t: "de_in t = length (z_next_in strm)" "z_total_in (de_strm t) = z_total_in strm" using id e by (auto simp: dstream_id_def)
    obtain w where w: "z_out (de_strm t) = z_out strm @ w" "z_avail_out (de_strm t) + length w \<le> z_avail_out strm" using a(3) e by (auto simp: dmoves_def)
    have co: "dcall_ok strm strm'"
      unfolding dcall_ok_def using l j w in_t by (intro conjI exI [of _ j] exI [of _ w]) (simp_all add: strm'_def)
    show thesis by (rule leave [OF run gs co a(4)]) (use l in \<open>simp_all add: strm'_def truncate_fields\<close>)
  next
    case (b t)
    define strm' where "strm' = (de_strm t)\<lparr>z_state := Some (deflate_state.truncate t)\<rparr>"
    have run: "deflate_my out l flush g strm = Done 1 (de_g t, strm')"
      using st out inp b(1) by (auto simp: deflate_my_def s_def [symmetric] Let_def deflate_exit_def strm'_def)
    have id: "dstream_id t = dstream_id s" using b(2) by (simp add: dmoves_def)
    then have nx: "z_next_in strm' = z_next_in strm" "z_total_in strm' = z_total_in strm" using e by (simp_all add: strm'_def dstream_id_def)
    obtain w where w: "z_out (de_strm t) = z_out strm @ w" "z_avail_out (de_strm t) + length w \<le> z_avail_out strm" using b(2) e by (auto simp: dmoves_def)
    have co: "dcall_ok strm strm'"
      unfolding dcall_ok_def using nx w by (intro conjI exI [of _ 0] exI [of _ w]) (simp_all add: strm'_def)
    show thesis by (rule full [OF run co]) (use nx b in \<open>simp add: buffer_full_def strm'_def truncate_fields\<close>)
  qed
qed

text \<open>Flushing pending output and recording the flush value leave the invariant alone.\<close>

lemma flush_pending_trees:
  assumes "flush_pending strm s0 = (strm', s1)"
  shows "writer.more (d_tr s1) = writer.more (d_tr s0)"
  using assms by (auto simp: flush_pending_def Let_def j_tr_flush_bits_def split: if_splits)

lemma good_update:
  assumes "good_deflate g strm" and "z_state strm = Some st"
    and "\<exists>t po lf. st' = st\<lparr>d_tr := t, d_pending_out := po, d_last_flush := lf\<rparr> \<and> writer.more t = writer.more (d_tr st)"
    and "z_state strm' = Some st'" "z_addr strm' = z_addr strm" "z_zalloc strm' = z_zalloc strm" "z_zfree strm' = z_zfree strm"
  shows "good_deflate g strm'"
proof -
  obtain t po lf where st': "st' = st\<lparr>d_tr := t, d_pending_out := po, d_last_flush := lf\<rparr>" and m: "writer.more t = writer.more (d_tr st)"
    using assms(3) by blast
  have inv: "deflate_inv (deflate_enter 0 no_locals g strm st)" using assms(1,2) by (simp add: good_deflate_def)
  have "deflate_inv (deflate_enter 0 no_locals g strm' st')"
    by (rule enter_inv_any [OF inv]) (use more_fields [OF m] in \<open>simp_all add: st'\<close>)
  then show ?thesis using assms(1,2,4-) by (auto simp: good_deflate_def good_check st')
qed

definition de_args_ok :: "int \<Rightarrow> deflate_strm \<Rightarrow> bool" where
  "de_args_ok flush strm \<longleftrightarrow> 0 \<le> flush \<and> flush \<le> Z_BLOCK \<and> \<not> z_out_null strm \<and> (z_in_null strm \<longrightarrow> z_next_in strm = []) \<and>
    (map_option d_status (z_state strm) = Some FINISH_STATE \<longrightarrow> flush = Z_FINISH)"

text \<open>Why a call that was admitted returned.\<close>

definition de_reason :: "int \<Rightarrow> int \<Rightarrow> deflate_strm \<Rightarrow> bool" where
  "de_reason flush ret strm' \<longleftrightarrow>
    (ret = Z_DATA_ERROR \<and> map_option d_mode (z_state strm') = Some BAD \<or>
     map_option d_mode (z_state strm') = Some DONE \<and> (ret = Z_OK \<or> ret = Z_STREAM_END) \<or>
     (z_next_in strm' = [] \<or> z_avail_out strm' = 0 \<or> flush = Z_BLOCK) \<and> ret \<in> {Z_OK, Z_STREAM_END, Z_BUF_ERROR})"

lemma deflate_rest_call:
  assumes good: "good_deflate g strm" and args: "de_args_ok flush strm"
  obtains ret g' strm' where "deflate_rest out l flush g strm = Done ret (g', Some strm')" "dcall_ok strm strm'"
    "good_deflate g' strm' \<and> de_reason flush ret strm' \<or> buffer_full strm strm' \<and> (ret = Z_OK \<or> ret = Z_STREAM_END)"
proof -
  have io: "\<not> z_out_null strm" "z_in_null strm \<longrightarrow> z_next_in strm = []" and fl: "flush \<noteq> Z_TREES" using args by (auto simp: de_args_ok_def)
  show thesis
  proof (cases rule: deflate_my_call [OF good io, of out l flush, case_names leave full])
    case (leave u strm' t)
    obtain st' where st': "z_state strm' = Some st'" "d_mode st' = d_mode t" using leave(7) by blast
    define r where "r = fst (de_leave flush t)"
    have r: "r = de_ret t \<or> r = Z_BUF_ERROR \<and> de_ret t = Z_OK" by (simp add: r_def de_leave_def Let_def de_RESTORE_def)
    define ret where "ret = (if r \<noteq> Z_OK \<and> r \<noteq> Z_STREAM_END then r else if pending (d_tr st') \<noteq> 0 then Z_OK else Z_STREAM_END)"
    have "deflate_rest out l flush g strm = Done ret (u, Some strm')" using leave(1) st' by (simp add: deflate_rest_def ret_def r_def)
    moreover have "de_reason flush ret strm'" using leave(4-6) st' r fl by (auto simp: dstuck_def de_reason_def ret_def)
    ultimately show thesis using that leave(2,3) by blast
  next
    case (full u strm')
    then obtain st' where st': "z_state strm' = Some st'" by (auto simp: buffer_full_def)
    have "deflate_rest out l flush g strm = Done (if pending (d_tr st') \<noteq> 0 then Z_OK else Z_STREAM_END) (u, Some strm')"
      using full(1) st' by (simp add: deflate_rest_def)
    then show thesis by (rule that [OF _ full(2)]) (use full(3) in auto)
  qed
qed

lemma dcall_ok_trans:
  assumes "z_next_in s1 = z_next_in s0" "z_total_in s1 = z_total_in s0"
    and "\<exists>w. z_out s1 = z_out s0 @ w \<and> z_avail_out s1 + length w \<le> z_avail_out s0" and "dcall_ok s1 s2"
  shows "dcall_ok s0 s2"
proof -
  obtain v w where "z_out s1 = z_out s0 @ v" "z_avail_out s1 + length v \<le> z_avail_out s0" "z_out s2 = z_out s1 @ w" "z_avail_out s2 + length w \<le> z_avail_out s1"
    using assms(3,4) by (auto simp: dcall_ok_def)
  then have "\<exists>w. z_out s2 = z_out s0 @ w \<and> z_avail_out s2 + length w \<le> z_avail_out s0" by (intro exI [of _ "v @ w"]) simp
  then show ?thesis using assms(1,2,4) by (simp add: dcall_ok_def)
qed

lemma j_deflate_call:
  assumes good: "good_deflate g strm" and args: "de_args_ok flush strm" and av: "z_avail_out strm \<noteq> 0"
  obtains ret g' strm' where "j_deflate out l flush g (Some strm) = Done ret (g', Some strm')" "dcall_ok strm strm'"
    "good_deflate g' strm' \<and> de_reason flush ret strm' \<or> buffer_full strm strm' \<and> (ret = Z_OK \<or> ret = Z_STREAM_END)"
proof -
  obtain st where st: "z_state strm = Some st" and chk: "\<not> deflateStateCheck (Some strm)" using good by (auto simp: good_deflate_def good_check)
  define s1 where "s1 = st\<lparr>d_last_flush := flush\<rparr>"
  define strm1 where "strm1 = strm\<lparr>z_state := Some s1\<rparr>"
  have s1: "s1 = st\<lparr>d_tr := d_tr st, d_pending_out := d_pending_out st, d_last_flush := flush\<rparr>" by (simp add: s1_def)
  have ex: "\<exists>t po lf. s1 = st\<lparr>d_tr := t, d_pending_out := po, d_last_flush := lf\<rparr> \<and> writer.more t = writer.more (d_tr st)"
    by (intro exI [of _ "d_tr st"] exI [of _ "d_pending_out st"] exI [of _ flush] conjI s1 refl)
  have g1: "good_deflate g strm1" by (rule good_update [OF good st ex]) (simp_all add: strm1_def)
  have a1: "de_args_ok flush strm1" using args st by (simp add: de_args_ok_def strm1_def s1_def)
  have guards: "\<not> (deflateStateCheck (Some strm) \<or> flush > Z_BLOCK \<or> flush < 0)" "\<not> (z_out_null strm \<or> z_next_in strm \<noteq> [] \<and> z_in_null strm \<or>
      d_status st = FINISH_STATE \<and> flush \<noteq> Z_FINISH)" using chk args st by (auto simp: de_args_ok_def)
  have run: "j_deflate out l flush g (Some strm) =
      (if pending (d_tr s1) \<noteq> 0 then
         (case flush_pending strm1 s1 of (strm2, s2) \<Rightarrow>
            if z_avail_out strm2 = 0 then Done Z_OK (g, Some (strm2\<lparr>z_state := Some (s2\<lparr>d_last_flush := -1\<rparr>)\<rparr>))
            else deflate_rest out l flush g (strm2\<lparr>z_state := Some s2\<rparr>))
       else if z_next_in strm1 = [] \<and> RANK flush \<le> RANK (d_last_flush st) \<and> flush \<noteq> Z_FINISH then err_return Z_BUF_ERROR g strm1
       else deflate_rest out l flush g strm1)"
    unfolding j_deflate_def if_not_P [OF guards(1)] option.case st if_not_P [OF guards(2)] if_not_P [OF av] Let_def s1_def strm1_def
    by (rule refl)
  have same: "dcall_ok strm1 x \<Longrightarrow> dcall_ok strm x" for x by (simp add: dcall_ok_def strm1_def)
  have bf: "buffer_full strm1 x = buffer_full strm x" for x by (simp add: buffer_full_def strm1_def)
  show thesis
  proof (cases "pending (d_tr s1) = 0")
    case True
    show thesis
    proof (cases "z_next_in strm1 = [] \<and> RANK flush \<le> RANK (d_last_flush st) \<and> flush \<noteq> Z_FINISH")
      case e: True
      let ?x = "strm1\<lparr>z_msg := ERR_MSG Z_BUF_ERROR\<rparr>"
      have "good_deflate g ?x" by (rule good_update [OF good st ex]) (simp_all add: strm1_def)
      moreover have "de_reason flush Z_BUF_ERROR ?x" using e by (simp add: de_reason_def)
      moreover have "dcall_ok strm ?x" by (auto simp: dcall_ok_def strm1_def intro: exI [of _ 0])
      moreover have "j_deflate out l flush g (Some strm) = Done Z_BUF_ERROR (g, Some ?x)" using run True e by (simp add: err_return_def)
      ultimately show thesis using that by blast
    next
      case False
      obtain ret g' strm' where r: "deflate_rest out l flush g strm1 = Done ret (g', Some strm')" "dcall_ok strm1 strm'"
        "good_deflate g' strm' \<and> de_reason flush ret strm' \<or> buffer_full strm1 strm' \<and> (ret = Z_OK \<or> ret = Z_STREAM_END)"
        by (rule deflate_rest_call [OF g1 a1])
      show thesis by (rule that [OF _ same [OF r(2)]]) (use run True False r bf in auto)
    qed
  next
    case False
    obtain strm2 s2 where f: "flush_pending strm1 s1 = (strm2, s2)" by fastforce
    note fm = flush_pending_moves [OF f]
    obtain t po where s2: "s2 = s1\<lparr>d_tr := t, d_pending_out := po\<rparr>" using fm(1) by blast
    have m: "writer.more t = writer.more (d_tr st)" using flush_pending_trees [OF f] s2 by (simp add: s1_def)
    have good2: "good_deflate g (strm2\<lparr>z_state := Some (s2\<lparr>d_last_flush := lf\<rparr>)\<rparr>)" for lf
      by (rule good_update [OF good st, of "s2\<lparr>d_last_flush := lf\<rparr>"], intro exI [of _ t] exI [of _ po] exI [of _ lf])
        (use m fm in \<open>simp_all add: s2 s1_def strm1_def\<close>)
    have lf: "s2\<lparr>d_last_flush := d_last_flush s2\<rparr> = s2" by simp
    have eq: "z_next_in strm2 = z_next_in strm" "z_total_in strm2 = z_total_in strm" "z_out_null strm2 = z_out_null strm" "z_in_null strm2 = z_in_null strm"
      "\<exists>w. z_out strm2 = z_out strm @ w \<and> z_avail_out strm2 + length w \<le> z_avail_out strm"
      using fm by (simp_all add: strm1_def)
    show thesis
    proof (cases "z_avail_out strm2 = 0")
      case z: True
      let ?x = "strm2\<lparr>z_state := Some (s2\<lparr>d_last_flush := -1\<rparr>)\<rparr>"
      have "dcall_ok strm ?x" unfolding dcall_ok_def using eq by (intro conjI exI [of _ 0]) simp_all
      moreover have "de_reason flush Z_OK ?x" using z by (simp add: de_reason_def)
      moreover have "j_deflate out l flush g (Some strm) = Done Z_OK (g, Some ?x)" using run False f z by simp
      ultimately show thesis using that good2 by blast
    next
      case nz: False
      let ?x = "strm2\<lparr>z_state := Some s2\<rparr>"
      have gx: "good_deflate g ?x" using good2 [of "d_last_flush s2"] by (simp only: lf)
      have ax: "de_args_ok flush ?x" using args st eq by (simp add: de_args_ok_def s2 s1_def)
      obtain ret g' strm' where r: "deflate_rest out l flush g ?x = Done ret (g', Some strm')" "dcall_ok ?x strm'"
        "good_deflate g' strm' \<and> de_reason flush ret strm' \<or> buffer_full ?x strm' \<and> (ret = Z_OK \<or> ret = Z_STREAM_END)"
        by (rule deflate_rest_call [OF gx ax])
      have "dcall_ok strm strm'" by (rule dcall_ok_trans [OF _ _ _ r(2)]) (use eq in simp_all)
      moreover have "buffer_full ?x strm' = buffer_full strm strm'" using eq(1) by (simp add: buffer_full_def)
      moreover have "j_deflate out l flush g (Some strm) = Done ret (g', Some strm')" using run False f nz r(1) by simp
      ultimately show thesis using that r(3) by blast
    qed
  qed
qed

section \<open>Setting up\<close>

text \<open>What \<^verbatim>\<open>malloc\<close> has to deliver: arrays of the declared sizes, and zero in the two fields that no routine sets
  before they are read.\<close>

definition fresh_deflate :: "deflate_state \<Rightarrow> bool" where
  "fresh_deflate st \<longleftrightarrow> length (h_lens st) = 320 \<and> length (h_work st) = 288 \<and> length (h_codes st) = ENOUGH \<and> d_hold st = 0 \<and> d_bits st = 0"

definition memory_ok :: "deflate_memory \<Rightarrow> bool" where
  "memory_ok mem \<longleftrightarrow> mem_window mem \<and> mem_prev mem \<and> mem_head mem \<and> (\<forall>n. \<exists>b. mem_pending_buf mem n = Some b \<and> length b = n)"

definition deflate_accepts :: "int \<Rightarrow> int \<Rightarrow> int \<Rightarrow> int \<Rightarrow> int \<Rightarrow> int \<Rightarrow> bool" where
  "deflate_accepts max_mem_level level method windowBits memLevel strategy \<longleftrightarrow>
     -1 \<le> level \<and> level \<le> 9 \<and> method = Z_DEFLATED \<and> 1 \<le> memLevel \<and> memLevel \<le> max_mem_level \<and> 0 \<le> strategy \<and> strategy \<le> Z_FIXED \<and>
     (-15 \<le> windowBits \<and> windowBits \<le> -9 \<or> 8 \<le> windowBits \<and> windowBits \<le> 15)"

definition demo_trees :: trees_state where
  "demo_trees = trees_blank 128"

definition demo_deflate :: deflate_state where
  "demo_deflate = \<lparr>r_next = [], r_hold = 0, r_bits = 0, h_nlen = 0, h_ndist = 0, h_have = 0, h_lens = replicate 320 0, h_work = replicate 288 0,
     h_codes = replicate ENOUGH (mk_code (0, 0, 0)), h_next = 0, h_lencode = Codes 0, h_lenbits = 0, h_distcode = Codes 0, h_distbits = 0,
     d_tr = demo_trees, d_strm = 0, d_status = INIT_STATE, d_pending_buf_size = 2048, d_pending_out = 0, d_wrap = 0, d_gzhead = None, d_method = 8,
     d_last_flush = -2, d_w_size = 32768, d_w_bits = 15, d_w_mask = 32767, d_hash_size = 256, d_hash_bits = 8, d_hash_mask = 255, d_hash_shift = 3,
     d_level = 9, d_strategy = 4, d_lit_bufsize = 128, d_high_water = 0, d_last = 0, d_ttype = STORE, d_length = 0, d_offset = 0, d_hold = 0, d_bits = 0,
     d_mode = HEAD\<rparr>"

definition demo_memory :: deflate_memory where
  "demo_memory = \<lparr>mem_state = Some demo_deflate, mem_window = True, mem_prev = True, mem_head = True, mem_pending_buf = (\<lambda>n. Some (replicate n 0))\<rparr>"

definition demo_globals :: de_globals where
  "demo_globals = \<lparr>de_ins_buf = replicate 6 0, insbuf = replicate 6 0\<rparr>"

text \<open>The instruction stream of an empty last block with fixed codes.\<close>

definition demo_dstream :: deflate_strm where
  "demo_dstream = \<lparr>z_next_in = [0x03, 0xaa, 0xff, 0xaa, 0xff], z_in_null = False, z_total_in = 0, z_out = [], z_out_null = False, z_avail_out = 16,
     z_total_out = 0, z_msg = None, z_state = Some demo_deflate, z_zalloc = True, z_zfree = True, z_data_type = 0, z_adler = 0, z_addr = 0\<rparr>"

lemma demo_dfacts: "fresh_deflate demo_deflate" "memory_ok demo_memory" "length (insbuf demo_globals) = 6" "mem_state demo_memory = Some demo_deflate"
  by (simp_all add: fresh_deflate_def demo_deflate_def memory_ok_def demo_memory_def demo_globals_def)

lemma fresh_dinv:
  assumes "fresh_deflate st" and "d_mode st = HEAD" "d_wrap st = 0" and "length (insbuf g) = 6"
  shows "deflate_inv (deflate_enter out l g strm st)"
  using assms by (simp add: deflate_inv_def dmode_ok_def dbasic_def sizes_def rinv_def fresh_deflate_def denter_fields)

lemma demo_dgood: "good_deflate demo_globals demo_dstream" "de_args_ok Z_NO_FLUSH demo_dstream" "z_avail_out demo_dstream \<noteq> 0"
  using fresh_dinv [OF demo_dfacts(1) _ _ demo_dfacts(3)]
  by (simp_all add: good_deflate_def deflateStateCheck_def demo_dstream_def de_args_ok_def) (simp_all add: demo_deflate_def)

lemma deflate_rejects:
  assumes "\<not> deflate_accepts max_mem_level level method windowBits memLevel strategy"
  shows "j_deflateInit2 max_mem_level mem level method windowBits memLevel strategy (Some strm) =
    (Z_STREAM_ERROR, Some (strm\<lparr>z_msg := None, z_zalloc := True, z_zfree := True\<rparr>))"
proof (cases "deflate_wrap windowBits")
  case None
  then show ?thesis by (simp add: j_deflateInit2_def)
next
  case (Some p)
  obtain wr wb where p: "p = (wr, wb)" by fastforce
  have w: "wr = (if windowBits < 0 then 0 else 1)" "wb = (if windowBits < 0 then - windowBits else windowBits)" "-15 \<le> windowBits"
    using Some by (auto simp: p deflate_wrap_def split: if_splits)
  have bad: "memLevel < 1 \<or> memLevel > max_mem_level \<or> method \<noteq> Z_DEFLATED \<or> wb < 8 \<or> wb > 15 \<or>
      (if level = Z_DEFAULT_COMPRESSION then 6 else level) < 0 \<or> (if level = Z_DEFAULT_COMPRESSION then 6 else level) > 9 \<or>
      strategy < 0 \<or> strategy > Z_FIXED \<or> wb = 8 \<and> wr \<noteq> 1"
  proof (rule ccontr)
    assume n: "\<not> ?thesis"
    have "-1 \<le> level \<and> level \<le> 9" using n by (simp split: if_splits)
    moreover have "-15 \<le> windowBits \<and> windowBits \<le> -9 \<or> 8 \<le> windowBits \<and> windowBits \<le> 15"
      using n w by (simp split: if_splits)
    ultimately show False using assms n by (simp add: deflate_accepts_def)
  qed
  show ?thesis unfolding j_deflateInit2_def option.case Let_def Some p prod.case if_P [OF bad] by (rule refl)
qed

lemma deflate_sizes_fields:
  "h_lens (deflate_sizes w m s) = h_lens s" "h_work (deflate_sizes w m s) = h_work s" "h_codes (deflate_sizes w m s) = h_codes s"
  "d_hold (deflate_sizes w m s) = d_hold s" "d_bits (deflate_sizes w m s) = d_bits s" "d_tr (deflate_sizes w m s) = d_tr s"
  "d_strm (deflate_sizes w m s) = d_strm s" "d_status (deflate_sizes w m s) = d_status s" "d_wrap (deflate_sizes w m s) = d_wrap s"
  "d_lit_bufsize (deflate_sizes w m s) = 2 ^ (nat m + 6)"
  by (simp_all add: deflate_sizes_def Let_def)



section \<open>Claims\<close>



text \<open>C10: The invariant of the re-encoder (table sizes, code counts, the bit buffer, what each mode needs) holds again after every
  call, so that calls can be chained, except after a call that ended because the symbol buffer was full.\<close>

theorem j_deflate_keeps_invariant:
  assumes "good_deflate g strm" and "de_args_ok flush strm" and "z_avail_out strm \<noteq> 0"
    and "j_deflate out l flush g (Some strm) = Done ret (g', Some strm')"
  shows "good_deflate g' strm' \<or>
    z_next_in strm' = z_next_in strm \<and> (\<exists>st. z_state strm' = Some st \<and> sym_next (d_tr st) = sym_end (d_tr st) \<and> (d_mode st = LIT \<or> d_mode st = MATCH))"
  by (rule j_deflate_call [OF assms(1-3), of out l]) (use assms(4) in \<open>auto simp: buffer_full_def\<close>)

theorem j_deflate_keeps_invariant_witness:
  "case j_deflate 0 no_locals Z_NO_FLUSH demo_globals (Some demo_dstream) of
     Done ret (g', Some strm') \<Rightarrow> good_deflate g' strm' \<or> z_next_in strm' = z_next_in demo_dstream
   | _ \<Rightarrow> False"
proof (rule j_deflate_call [OF demo_dgood, of 0 no_locals])
  fix ret g' strm'
  assume r: "j_deflate 0 no_locals Z_NO_FLUSH demo_globals (Some demo_dstream) = Done ret (g', Some strm')"
  show ?thesis using j_deflate_keeps_invariant [OF demo_dgood r] r by auto
qed

text \<open>C11: No call gives up early: when it returns, the stream is corrupt (and stays so), or it is finished, or the call has
  used all the input or all the output space or was asked to stop at a block, or the symbol buffer is full.  Z_DATA_ERROR is returned only for a
  corrupt stream, and Z_STREAM_ERROR and Z_MEM_ERROR never.\<close>

theorem j_deflate_progress:
  assumes "good_deflate g strm" and "de_args_ok flush strm" and "z_avail_out strm \<noteq> 0"
    and "j_deflate out l flush g (Some strm) = Done ret (g', Some strm')"
  shows "ret = Z_DATA_ERROR \<and> map_option d_mode (z_state strm') = Some BAD \<or>
    ret \<in> {Z_OK, Z_STREAM_END} \<and> map_option d_mode (z_state strm') = Some DONE \<or>
    ret \<in> {Z_OK, Z_STREAM_END, Z_BUF_ERROR} \<and> (z_next_in strm' = [] \<or> z_avail_out strm' = 0 \<or> flush = Z_BLOCK) \<or>
    ret \<in> {Z_OK, Z_STREAM_END} \<and> (\<exists>st. z_state strm' = Some st \<and> sym_next (d_tr st) = sym_end (d_tr st))"
  by (rule j_deflate_call [OF assms(1-3), of out l]) (use assms(4) in \<open>auto simp: buffer_full_def de_reason_def\<close>)

theorem j_deflate_progress_witness:
  "case j_deflate 0 no_locals Z_NO_FLUSH demo_globals (Some demo_dstream) of
     Done ret (g', Some strm') \<Rightarrow> ret = Z_DATA_ERROR \<or> ret \<in> {Z_OK, Z_STREAM_END, Z_BUF_ERROR}
   | _ \<Rightarrow> False"
proof (rule j_deflate_call [OF demo_dgood, of 0 no_locals])
  fix ret g' strm'
  assume r: "j_deflate 0 no_locals Z_NO_FLUSH demo_globals (Some demo_dstream) = Done ret (g', Some strm')"
  show ?thesis using j_deflate_progress [OF demo_dgood r] r by auto
qed

end
