(* ===== verification/Deflate_Symbols.thy ===== *)
theory Deflate_Symbols
  imports Deflate_Loop Trees_Stored Instructions
begin

text \<open>
  What the re-encoder does with the instruction stream of a block: every instruction is tallied as the symbol it stands
  for, and the marker of the end emits the block.  The bits that have left the encoder, in the output or still pending, are
  followed through the rounds of \<^verbatim>\<open>deflate_my\<close>.
\<close>

section \<open>Rounds that go on\<close>

fun run_rounds :: "nat \<Rightarrow> int \<Rightarrow> deflate_run \<Rightarrow> deflate_run option" where
  "run_rounds 0 flush s = Some s"
| "run_rounds (Suc n) flush s = (case deflate_step flush s of Next t \<Rightarrow> run_rounds n flush t | _ \<Rightarrow> None)"

lemma run_rounds_loop: "run_rounds n flush s = Some t \<Longrightarrow> deflate_loop (n + m) flush s = deflate_loop m flush t"
  by (induction n arbitrary: s) (auto split: step.splits)

lemma run_rounds_add: "run_rounds n flush s = Some t \<Longrightarrow> run_rounds m flush t = Some u \<Longrightarrow> run_rounds (n + m) flush s = Some u"
  by (induction n arbitrary: s) (auto split: step.splits)

definition reaches :: "int \<Rightarrow> deflate_run \<Rightarrow> deflate_run \<Rightarrow> bool" where
  "reaches flush s t \<longleftrightarrow> (\<exists>n. run_rounds n flush s = Some t)"

lemma reaches_refl: "reaches flush s s"
  unfolding reaches_def by (rule exI [of _ 0]) simp

lemma reaches_trans [trans]: "reaches flush s t \<Longrightarrow> reaches flush t u \<Longrightarrow> reaches flush s u"
  unfolding reaches_def using run_rounds_add by blast

lemma reaches_step: "deflate_step flush s = Next t \<Longrightarrow> reaches flush t u \<Longrightarrow> reaches flush s u"
proof -
  assume s: "deflate_step flush s = Next t" and "reaches flush t u"
  then obtain n where "run_rounds n flush t = Some u" by (auto simp: reaches_def)
  then have "run_rounds (Suc n) flush s = Some u" using s by simp
  then show "reaches flush s u" unfolding reaches_def by blast
qed

lemma reaches_next: "deflate_step flush s = Next t \<Longrightarrow> reaches flush s t"
  by (rule reaches_step [OF _ reaches_refl])

section \<open>Instructions and symbols\<close>

definition tally :: "instr \<Rightarrow> trees_state \<Rightarrow> trees_state" where
  "tally i t = (case instr_sym i of (dist, lc) \<Rightarrow>
     if dist = 0 then fst (tr_tally_lit_my (of_nat lc) t) else fst (tr_tally_dist_my (of_nat dist) (of_nat lc) t))"

lemma instr_sym_ok: "instr_ok i \<Longrightarrow> sym_ok (instr_sym i)"
  by (cases i) (auto simp: sym_ok_def word_less_nat_alt)

definition dkept :: "deflate_run \<Rightarrow> deflate_run \<Rightarrow> bool" where
  "dkept s t \<longleftrightarrow> de_strm t = de_strm s \<and> d_ttype t = d_ttype s \<and> d_last t = d_last s \<and> d_pending_out t = d_pending_out s \<and> de_ret t = de_ret s"

text \<open>The size of the output buffer.\<close>

definition space :: "deflate_run \<Rightarrow> nat" where
  "space s = z_avail_out (de_strm s) + length (z_out (de_strm s))"

lemma dkept_refl: "dkept s s"
  by (simp add: dkept_def)

lemma dkept_trans: "dkept s t \<Longrightarrow> dkept t u \<Longrightarrow> dkept s u"
  by (simp add: dkept_def)

lemma LIT_go:
  assumes "d_mode s = LIT" and "sym_next (fst (tr_tally_lit_my (of_nat (d_length s)) (d_tr s))) \<noteq> sym_end (fst (tr_tally_lit_my (of_nat (d_length s)) (d_tr s)))"
  shows "deflate_step flush s = Next (s\<lparr>d_tr := fst (tr_tally_lit_my (of_nat (d_length s)) (d_tr s)), d_mode := LEN\<rparr>)"
  using assms by (simp add: deflate_step_def deflate_LIT_def tr_tally_lit_my_def Let_def)

lemma lit_round:
  assumes "ready s" and "d_mode s = LEN" and "v < 256" and "r_next s = instr_bytes (Lit v) @ rest"
    and "sym_next (tally (Lit v) (d_tr s)) \<noteq> sym_end (tally (Lit v) (d_tr s))"
  shows "\<exists>t. reaches flush s t \<and> ready t \<and> d_mode t = LEN \<and> r_next t = rest \<and> d_tr t = tally (Lit v) (d_tr s) \<and> dkept s t"
proof -
  have v: "unat (ucast v :: byte) = unat v" using assms(3) by (simp add: unsigned_ucast_eq take_bit_nat_eq_self word_less_nat_alt)
  obtain u where u: "deflate_step flush s = Next (u\<lparr>d_length := unat v, d_mode := LIT\<rparr>)" "ready u" "r_next u = rest" "d_tr u = d_tr s" "dkept s u"
  proof (cases "v = 0xaa")
    case True
    let ?e = "eat 0 0xaa (0xaa # rest) s"
    have 1: "r_next s = 0xaa # 0xaa # rest" using assms(4) True by simp
    have re: "ready (?e\<lparr>d_mode := INS1\<rparr>)" using ready_eat [OF assms(1)] by simp
    have "deflate_step flush s = Next (((eat 1 0xaa rest (?e\<lparr>d_mode := INS1\<rparr>)))\<lparr>d_length := unat v, d_mode := LIT\<rparr>)"
      using assms(2) LEN_eq [OF assms(1)] INS1_eq [OF re] True by (simp add: deflate_step_def 1)
    moreover have "ready (eat 1 0xaa rest (?e\<lparr>d_mode := INS1\<rparr>))" by (rule ready_eat [OF re])
    ultimately show ?thesis using that by (simp add: dkept_def)
  next
    case False
    have "ucast v \<noteq> (0xaa :: byte)"
    proof
      assume "ucast v = (0xaa :: byte)"
      then have "unat v = unat (0xaa :: ush)" using v by simp
      then show False using False unsigned_word_eqI [of v "0xaa"] by blast
    qed
    then have "deflate_step flush s = Next ((eat 0 (ucast v) rest s)\<lparr>d_length := unat v, d_mode := LIT\<rparr>)"
      using assms(2,4) LEN_eq [OF assms(1)] False v by (simp add: deflate_step_def)
    then show ?thesis using that ready_eat [OF assms(1)] by (simp add: dkept_def)
  qed
  let ?w = "u\<lparr>d_length := unat v, d_mode := LIT\<rparr>"
  have t: "tally (Lit v) (d_tr s) = fst (tr_tally_lit_my (of_nat (d_length ?w)) (d_tr ?w))" using u(4) by (simp add: tally_def)
  have "deflate_step flush ?w = Next (?w\<lparr>d_tr := tally (Lit v) (d_tr s), d_mode := LEN\<rparr>)"
    unfolding t by (rule LIT_go) (use assms(5) t in \<open>simp_all\<close>)
  then have "reaches flush s (?w\<lparr>d_tr := tally (Lit v) (d_tr s), d_mode := LEN\<rparr>)"
    by (intro reaches_step [OF u(1)] reaches_next)
  then show ?thesis using u by (intro exI [of _ "?w\<lparr>d_tr := tally (Lit v) (d_tr s), d_mode := LEN\<rparr>"]) (simp add: dkept_def)
qed

text \<open>The three bytes after the mark of a match, put together again.\<close>

lemma match_bytes:
  assumes "3 \<le> len" "len \<le> 258" "dist \<le> 32768"
  shows "unat (of_nat (drop_bit 8 dist) :: byte) = dist div 256" "\<not> (0x80 :: byte) < of_nat (drop_bit 8 dist)"
    "unat (of_nat dist :: byte) + push_bit 8 (dist div 256) = dist" "unat (of_int (int len - 3) :: byte) = len - 3"
proof -
  have d: "drop_bit 8 dist = dist div 256" by (simp add: drop_bit_eq_div)
  have le: "dist div 256 \<le> 128" using assms(3) by simp
  then show u: "unat (of_nat (drop_bit 8 dist) :: byte) = dist div 256" unfolding d by (simp add: unsigned_of_nat take_bit_nat_eq_self)
  show "\<not> (0x80 :: byte) < of_nat (drop_bit 8 dist)" using u le by (simp add: word_less_nat_alt)
  show "unat (of_nat dist :: byte) + push_bit 8 (dist div 256) = dist" by (simp add: unsigned_of_nat take_bit_eq_mod push_bit_eq_mult)
  have "of_int (int len - 3) = (of_nat (len - 3) :: byte)" using assms(1) by (simp add: of_nat_diff)
  then show "unat (of_int (int len - 3) :: byte) = len - 3" using assms(2) by (simp add: unsigned_of_nat take_bit_nat_eq_self del: of_int_diff of_nat_diff)
qed

lemma match_round:
  assumes "ready s" and "d_mode s = LEN" and ok: "instr_ok (Match len dist)" and "r_next s = instr_bytes (Match len dist) @ rest"
    and "sym_next (tally (Match len dist) (d_tr s)) \<noteq> sym_end (tally (Match len dist) (d_tr s))"
  shows "\<exists>t. reaches flush s t \<and> ready t \<and> d_mode t = LEN \<and> r_next t = rest \<and> d_tr t = tally (Match len dist) (d_tr s) \<and> dkept s t"
proof -
  define b1 b2 b3 where b: "b1 = (of_nat (drop_bit 8 dist) :: byte)" "b2 = (of_nat dist :: byte)" "b3 = (of_int (int len - 3) :: byte)"
  note m = match_bytes [of len dist, folded b]
  have m: "unat b1 = dist div 256" "\<not> 0x80 < b1" "unat b2 + push_bit 8 (dist div 256) = dist" "unat b3 = len - 3" using ok m by simp_all
  have nx: "r_next s = 0xaa # b1 # b2 # b3 # rest" using assms(4) by (simp only: instr_bytes.simps b append.simps)
  define s1 where "s1 = (eat 0 0xaa (b1 # b2 # b3 # rest) s)\<lparr>d_mode := INS1\<rparr>"
  define s2 where "s2 = (eat 1 b1 (b2 # b3 # rest) s1)\<lparr>d_mode := INS2\<rparr>"
  define s3 where "s3 = (eat2 b2 b3 rest s2)\<lparr>d_mode := MATCH, d_length := len - 3, d_offset := dist\<rparr>"
  have r1: "ready s1" using ready_eat [OF assms(1)] by (simp add: s1_def)
  have r2: "ready s2" using ready_eat [OF r1] by (simp add: s2_def)
  have h: "half s2" "inbytes s2 = b2 # b3 # rest" "insbuf (de_g s2) ! 1 = dist div 256"
    using ready_basic [OF r2] ready_facts [OF r1] m(1) by (simp_all add: inbytes_def s2_def)
  have nb: "b1 \<noteq> 0xaa" "b1 \<noteq> 0xff" using m(2) by auto
  have "deflate_LEN s = deflate_INS1 s1" using LEN_eq [OF assms(1)] by (simp add: nx s1_def)
  also have "\<dots> = deflate_INS2 s2" using INS1_eq [OF r1] nb m(2) by (simp add: s1_def s2_def)
  also have "\<dots> = deflate_MATCH s3" using INS2_eq [OF h(1)] h(2,3) m(3,4) by (simp add: s3_def)
  finally have run: "deflate_step flush s = deflate_MATCH s3" using assms(2) by (simp add: deflate_step_def)
  have tr: "d_tr s3 = d_tr s" by (simp add: s3_def s2_def s1_def)
  have ta: "tally (Match len dist) (d_tr s) = fst (tr_tally_dist_my (of_nat dist) (of_nat (len - 3)) (d_tr s))" using ok by (simp add: tally_def)
  have "deflate_MATCH s3 = Next (s3\<lparr>d_tr := tally (Match len dist) (d_tr s), d_mode := LEN\<rparr>)"
    using assms(5) unfolding ta by (simp add: deflate_MATCH_def tr tr_tally_dist_my_def Let_def) (simp add: s3_def)
  then have "reaches flush s (s3\<lparr>d_tr := tally (Match len dist) (d_tr s), d_mode := LEN\<rparr>)" using run by (intro reaches_next) simp
  moreover have "ready (s3\<lparr>d_tr := tally (Match len dist) (d_tr s), d_mode := LEN\<rparr>)"
    using r2 by (simp add: s3_def ready_def dbasic_def sizes_def rinv_def eat2_def eat_def)
  ultimately show ?thesis
    by (intro exI [of _ "s3\<lparr>d_tr := tally (Match len dist) (d_tr s), d_mode := LEN\<rparr>"]) (simp add: dkept_def s3_def s2_def s1_def)
qed

section \<open>Tallying a list of instructions\<close>

lemma unat_small_byte: "n < 256 \<Longrightarrow> unat (ucast (of_nat n :: uint32) :: byte) = n"
  by (simp add: unsigned_ucast_eq unsigned_of_nat take_bit_nat_eq_self)

lemma tally_puts:
  assumes "instr_ok i"
  shows "\<exists>a b c. tally i t = sym_put c (sym_put b (sym_put a t)) \<and> (unat a + unat b * 256, unat c) = instr_sym i"
proof (cases i)
  case (Lit v)
  define c where "c = (ucast (of_nat (unat v) :: uint32) :: byte)"
  have "unat v < 256" using assms Lit by (simp add: word_less_nat_alt)
  then have "unat c = unat v" unfolding c_def by (rule unat_small_byte)
  moreover have "tally i t = sym_put c (sym_put 0 (sym_put 0 t))" unfolding c_def by (simp add: Lit tally_def tr_tally_lit_my_def Let_def)
  ultimately show ?thesis using Lit by (intro exI [of _ c] exI [of _ 0]) simp
next
  case (Match len dist)
  define d where "d = (ucast (of_nat dist :: uint32) :: ush)"
  have "unat d = dist" using assms Match by (simp add: d_def unsigned_ucast_eq unsigned_of_nat take_bit_nat_eq_self)
  then have "unat (ucast d :: byte) + unat (ucast (drop_bit 8 d) :: byte) * 256 = dist" by (simp add: ush_bytes)
  moreover have "unat (ucast (of_nat (len - 3) :: uint32) :: byte) = len - 3"
    using assms Match by (intro unat_small_byte) auto
  moreover have "tally i t = sym_put (ucast (of_nat (len - 3) :: uint32)) (sym_put (ucast (drop_bit 8 d)) (sym_put (ucast d) t))"
    using assms Match by (simp add: tally_def tr_tally_dist_my_def Let_def d_def del: of_nat_diff)
  ultimately show ?thesis using Match by (metis instr_sym.simps(2))
qed (use assms in simp)

lemma tally_one:
  assumes "instr_ok i" and "sym_next t = 3 * k" and "sym_off t + 3 * Suc k \<le> length (pending_buf t)"
  shows "\<exists>pb. tally i t = t\<lparr>pending_buf := pb, sym_next := 3 * Suc k\<rparr> \<and> length pb = length (pending_buf t) \<and>
    take (sym_off t) pb = take (sym_off t) (pending_buf t)" and "syms (tally i t) 0 (Suc k) = syms t 0 k @ [instr_sym i]"
proof -
  obtain a b c where p: "tally i t = sym_put c (sym_put b (sym_put a t))" "(unat a + unat b * 256, unat c) = instr_sym i" using tally_puts [OF assms(1)] by blast
  have room: "sym_off t + sym_next t + 3 \<le> length (pending_buf t)" using assms(2,3) by simp
  show "\<exists>pb. tally i t = t\<lparr>pending_buf := pb, sym_next := 3 * Suc k\<rparr> \<and> length pb = length (pending_buf t) \<and>
      take (sym_off t) pb = take (sym_off t) (pending_buf t)"
    unfolding p(1) sym_put3 [OF room] Let_def using assms(2)
    by (intro exI [of _ "(pending_buf t)[sym_off t + sym_next t := a, Suc (sym_off t + sym_next t) := b, Suc (Suc (sym_off t + sym_next t)) := c]"]) simp
  show "syms (tally i t) 0 (Suc k) = syms t 0 k @ [instr_sym i]" unfolding p(1) syms_sym_put3 [OF room assms(2)] p(2) by (rule refl)
qed

lemma tally_list:
  assumes "list_all instr_ok is" and "sym_next t = 3 * k" and "sym_off t + 3 * (k + length is) \<le> length (pending_buf t)"
  shows "\<exists>pb. fold tally is t = t\<lparr>pending_buf := pb, sym_next := 3 * (k + length is)\<rparr> \<and> length pb = length (pending_buf t) \<and>
    take (sym_off t) pb = take (sym_off t) (pending_buf t) \<and> syms (fold tally is t) 0 (k + length is) = syms t 0 k @ map instr_sym is"
  using assms
proof (induction "is" arbitrary: t k)
  case Nil
  then show ?case by (intro exI [of _ "pending_buf t"]) simp
next
  case (Cons i "is")
  have r: "sym_off t + 3 * Suc k \<le> length (pending_buf t)" using Cons.prems(3) by simp
  note o = tally_one [OF _ Cons.prems(2) r, of i]
  obtain pb where pb: "tally i t = t\<lparr>pending_buf := pb, sym_next := 3 * Suc k\<rparr>" "length pb = length (pending_buf t)"
      "take (sym_off t) pb = take (sym_off t) (pending_buf t)"
    using o(1) Cons.prems(1) by auto
  obtain pb' where pb': "fold tally is (tally i t) = (tally i t)\<lparr>pending_buf := pb', sym_next := 3 * (Suc k + length is)\<rparr>"
      "length pb' = length (pending_buf (tally i t))" "take (sym_off (tally i t)) pb' = take (sym_off (tally i t)) (pending_buf (tally i t))"
      "syms (fold tally is (tally i t)) 0 (Suc k + length is) = syms (tally i t) 0 (Suc k) @ map instr_sym is"
    using Cons.IH [of "tally i t" "Suc k"] Cons.prems pb by auto
  show ?case using pb pb' o(2) Cons.prems(1) by (intro exI [of _ pb']) simp
qed

lemma instr_round:
  assumes "ready s" and "d_mode s = LEN" and "instr_ok i" and "r_next s = instr_bytes i @ rest"
    and "sym_next (tally i (d_tr s)) \<noteq> sym_end (tally i (d_tr s))"
  shows "\<exists>t. reaches flush s t \<and> ready t \<and> d_mode t = LEN \<and> r_next t = rest \<and> d_tr t = tally i (d_tr s) \<and> dkept s t"
proof (cases i)
  case (Lit v)
  then show ?thesis using lit_round [OF assms(1,2), of v rest flush] assms(3-5) by simp
next
  case (Match len dist)
  then show ?thesis using match_round [OF assms(1,2), of len dist rest flush] assms(3-5) by simp
qed (use assms(3) in simp)

lemma instrs_run:
  assumes "ready s" and "d_mode s = LEN" and "list_all instr_ok is" and "r_next s = concat (map instr_bytes is) @ rest"
    and "sym_next (d_tr s) = 3 * k" and "sym_off (d_tr s) + 3 * (k + length is) \<le> length (pending_buf (d_tr s))"
    and "3 * (k + length is) < sym_end (d_tr s)"
  shows "\<exists>t. reaches flush s t \<and> ready t \<and> d_mode t = LEN \<and> r_next t = rest \<and> d_tr t = fold tally is (d_tr s) \<and> dkept s t"
  using assms
proof (induction "is" arbitrary: s k)
  case Nil
  then show ?case using reaches_refl dkept_refl by fastforce
next
  case (Cons i "is")
  have io: "instr_ok i" "list_all instr_ok is" using Cons.prems(3) by simp_all
  have r: "sym_off (d_tr s) + 3 * Suc k \<le> length (pending_buf (d_tr s))" using Cons.prems(6) by simp
  obtain pb where pb: "tally i (d_tr s) = (d_tr s)\<lparr>pending_buf := pb, sym_next := 3 * Suc k\<rparr>" "length pb = length (pending_buf (d_tr s))"
    using tally_one(1) [OF io(1) Cons.prems(5) r] by blast
  have nf: "sym_next (tally i (d_tr s)) \<noteq> sym_end (tally i (d_tr s))" using pb Cons.prems(7) by simp
  obtain t where t: "reaches flush s t" "ready t" "d_mode t = LEN" "r_next t = concat (map instr_bytes is) @ rest" "d_tr t = tally i (d_tr s)" "dkept s t"
    using instr_round [OF Cons.prems(1,2) io(1) _ nf, of "concat (map instr_bytes is) @ rest" flush] Cons.prems(4) by auto
  obtain u where u: "reaches flush t u" "ready u" "d_mode u = LEN" "r_next u = rest" "d_tr u = fold tally is (d_tr t)" "dkept t u"
    using Cons.IH [OF t(2,3) io(2) t(4), of "Suc k"] Cons.prems(6,7) pb t(5) by auto
  show ?case using u t reaches_trans [OF t(1) u(1)] dkept_trans [OF t(6) u(6)] by auto
qed

section \<open>What has left the encoder\<close>

definition sent :: "deflate_strm \<Rightarrow> 'z deflate_state_scheme \<Rightarrow> bool list" where
  "sent strm s = bytes_bits (z_out strm) @ bytes_bits (take (pending (d_tr s)) (drop (d_pending_out s) (pending_buf (d_tr s)))) @
     bits_of (bi_valid (d_tr s)) (bi_buf (d_tr s))"

lemma sent_start: "d_pending_out s = 0 \<Longrightarrow> sent strm s = bytes_bits (z_out strm) @ wout (d_tr s)"
  by (simp add: sent_def wout_def)

lemma bi_flush_room: "wroom 0 s \<Longrightarrow> pending (bi_flush s) \<le> length (pending_buf s)"
  by (auto simp: bi_flush_def wroom_def)

lemma flush_pending_sent:
  assumes f: "flush_pending strm s0 = (strm', s1)" and w: "winv (d_tr s0)" "wroom 0 (d_tr s0)" and z: "d_pending_out s0 = 0"
  shows "sent strm' s1 = sent strm s0"
    and "z_avail_out strm' \<noteq> 0 \<Longrightarrow> pending (d_tr s1) = 0 \<and> d_pending_out s1 = 0"
    and "bi_valid (d_tr s1) < 8" and "reg_ok (bi_buf (d_tr s1)) (bi_valid (d_tr s1))" and "\<not> oob (d_tr s1)"
    and "writer.more (d_tr s1) = writer.more (d_tr s0)" and "length (pending_buf (d_tr s1)) = length (pending_buf (d_tr s0))"
    and "z_avail_out strm' + length (z_out strm') = z_avail_out strm + length (z_out strm)"
proof -
  define t where "t = bi_flush (d_tr s0)"
  have t: "wout t = wout (d_tr s0)" "reg_ok (bi_buf t) (bi_valid t)" "\<not> oob t" "bi_valid t < 8" "pending t \<le> length (pending_buf t)"
      "writer.more t = writer.more (d_tr s0)" "length (pending_buf t) = length (pending_buf (d_tr s0))"
    using bi_flush_correct [OF w] bi_flush_room [OF w(2)] by (simp_all add: t_def winv_def)
  define len where "len = min (pending t) (z_avail_out strm)"
  define x where "x = strm\<lparr>z_out := z_out strm @ take len (pending_buf t), z_total_out := z_total_out strm + of_nat len, z_avail_out := z_avail_out strm - len\<rparr>"
  define u where "u = s0\<lparr>d_tr := t\<lparr>pending := pending t - len, oob := False\<rparr>, d_pending_out := if pending t = len then 0 else len\<rparr>"
  have s0: "sent strm s0 = bytes_bits (z_out strm) @ wout t" using sent_start [OF z] t(1) by simp
  have r: "len = 0 \<and> strm' = strm \<and> s1 = s0\<lparr>d_tr := t\<rparr> \<or> len \<noteq> 0 \<and> strm' = x \<and> s1 = u"
    using f z t(3,5) by (auto simp: flush_pending_def Let_def j_tr_flush_bits_def t_def [symmetric] len_def x_def u_def min_def split: if_splits)
  have "sent x u = bytes_bits (z_out strm) @ wout t"
  proof -
    have "take len (pending_buf t) @ take (pending t - len) (drop len (pending_buf t)) = take (pending t) (pending_buf t)"
      using take_add [of len "pending t - len" "pending_buf t"] by (simp add: len_def)
    then have "bytes_bits (take len (pending_buf t)) @ bytes_bits (take (pending t - len) (drop len (pending_buf t))) = bytes_bits (take (pending t) (pending_buf t))"
      by (simp flip: bytes_bits_append)
    then show ?thesis by (auto simp: sent_def x_def u_def wout_def)
  qed
  then show "sent strm' s1 = sent strm s0" using r s0 z by (auto simp: sent_def wout_def)
  show "z_avail_out strm' \<noteq> 0 \<Longrightarrow> pending (d_tr s1) = 0 \<and> d_pending_out s1 = 0"
    using r z by (auto simp: x_def u_def len_def min_def split: if_splits)
  show "bi_valid (d_tr s1) < 8" "reg_ok (bi_buf (d_tr s1)) (bi_valid (d_tr s1))" "\<not> oob (d_tr s1)"
    "writer.more (d_tr s1) = writer.more (d_tr s0)" "length (pending_buf (d_tr s1)) = length (pending_buf (d_tr s0))"
    using r t by (auto simp: u_def)
  show "z_avail_out strm' + length (z_out strm') = z_avail_out strm + length (z_out strm)"
    using r t(5) by (auto simp: x_def len_def)
qed

section \<open>Huffman blocks\<close>

definition block_bits :: "tree_type \<Rightarrow> uint32 \<Rightarrow> (nat \<times> nat) list \<Rightarrow> trees_state \<Rightarrow> bool list" where
  "block_bits type lst xs t = vbits (block_head type lst t @ block_values (block_ltree type t) (block_dtree type t) xs)"

definition put_block :: "uint32 \<Rightarrow> bool list \<Rightarrow> bool list \<Rightarrow> bool list" where
  "put_block lst out b = (if lst = 0 then id else pad8) (out @ b)"

lemma bi_windup_room: "wroom 0 s \<Longrightarrow> wroom 0 (bi_windup s)"
  by (auto simp: wroom_def bi_windup_def Let_def)

lemma huffman_flush:
  assumes w: "winv t" and ty: "type \<noteq> STORE" and l: "lst \<in> {0, 1}" and fits: "block_fits type lst xs t" and xs: "list_all sym_ok xs"
    and u: "u = t\<lparr>pending_buf := pb, sym_next := 3 * length xs\<rparr>" "length pb = length (pending_buf t)"
      "take (sym_off t) pb = take (sym_off t) (pending_buf t)" "syms u 0 (length xs) = xs"
  shows "wout (tr_flush_block_my buf len type lst u) = put_block lst (wout t) (block_bits type lst xs t)"
    and "winv (tr_flush_block_my buf len type lst u)" and "wroom 0 (tr_flush_block_my buf len type lst u)"
    and "sym_next (tr_flush_block_my buf len type lst u) = 0" and "sym_off (tr_flush_block_my buf len type lst u) = sym_off t"
    and "sym_end (tr_flush_block_my buf len type lst u) = sym_end t" and "length (pending_buf (tr_flush_block_my buf len type lst u)) = length (pending_buf t)"
proof -
  note f = fits [unfolded block_fits_def Let_def]
  have same: "block_head type lst u = block_head type lst t" "block_ltree type u = block_ltree type t" "block_dtree type u = block_dtree type t"
    "header_state_ok type u = header_state_ok type t" "wbits u = wbits t" "winv u = winv t" "sym_off u = sym_off t"
    "wroom k u = wroom k t" for k
    using u(2) by (simp_all add: u(1) block_head_def block_ltree_def block_dtree_def header_state_ok_def header_ok_def wbits_def winv_def wroom_def Let_def split: tree_type.split)
  have "pending t \<le> sym_off t" using f by (auto simp: wbits_def)
  then have "take (pending t) pb = take (pending t) (pending_buf t)" using arg_cong [OF u(3), of "take (pending t)"] by (simp add: min_absorb1)
  then have wo: "wout u = wout t" by (simp add: u(1) wout_def)
  have un: "sym_next u = 3 * length xs" "sym_off u + sym_next u \<le> length (pending_buf u)" using f u(2) by (simp_all add: u(1))
  have hyp: "header_state_ok type u" "trees_ok (block_ltree type u) (block_dtree type u)" "list_all sym_ok (syms u 0 (length xs))"
    "wbits u + widths (block_head type lst u) \<le> 8 * sym_off u"
    "overlay_ok (wbits u + widths (block_head type lst u)) (sym_off u) (map (sym_values (block_ltree type u) (block_dtree type u)) (syms u 0 (length xs)))"
    "wroom (widths (block_head type lst u @ block_values (block_ltree type u) (block_dtree type u) (syms u 0 (length xs)))) u"
    using f xs by (simp_all add: same u(4))
  have wu: "winv u" using w same by simp
  note b = flush_block_bits [OF wu ty l hyp(1,2,3) un hyp(4,5,6), of buf len]
  note a = flush_block_all [OF ty hyp(1,3) un hyp(4,5), of buf len]
  show "wout (tr_flush_block_my buf len type lst u) = put_block lst (wout t) (block_bits type lst xs t)" "winv (tr_flush_block_my buf len type lst u)"
    using b by (simp_all add: same u(4) wo put_block_def block_bits_def)
  define v where "v = init_block (send_all send_bits (block_head type lst u @ block_values (block_ltree type u) (block_dtree type u) (syms u 0 (length xs))) u)"
  have a: "tr_flush_block_my buf len type lst u = (if lst \<noteq> 0 then bi_windup v else v)" using a by (simp add: v_def Let_def)
  have v: "wroom 0 v" "sym_next v = 0" "sym_off v = sym_off t" "sym_end v = sym_end t" "length (pending_buf v) = length (pending_buf t)"
    using hyp(6) u(2) wbits_send_all [of "block_head type lst u @ block_values (block_ltree type u) (block_dtree type u) (syms u 0 (length xs))" u]
    by (simp_all add: v_def wroom_def wbits_def same) (simp_all add: u(1))
  show "wroom 0 (tr_flush_block_my buf len type lst u)" "sym_next (tr_flush_block_my buf len type lst u) = 0" "sym_off (tr_flush_block_my buf len type lst u) = sym_off t"
    "sym_end (tr_flush_block_my buf len type lst u) = sym_end t" "length (pending_buf (tr_flush_block_my buf len type lst u)) = length (pending_buf t)"
    using v bi_windup_room [OF v(1)] more_fields [OF bi_windup_frame(4) [of v]] by (simp_all add: a)
qed

section \<open>The end of a block\<close>

definition at_block :: "deflate_run \<Rightarrow> bool" where
  "at_block s \<longleftrightarrow> winv (d_tr s) \<and> pending (d_tr s) = 0 \<and> d_pending_out s = 0 \<and> sym_next (d_tr s) = 0"

text \<open>A block has been read and emitted: the loop goes on with the next block, or is left because the output is full.\<close>

definition block_done :: "int \<Rightarrow> deflate_run \<Rightarrow> deflate_run \<Rightarrow> bool" where
  "block_done flush s t \<longleftrightarrow> (\<exists>m. reaches flush s m \<and> deflate_step flush m = (if z_avail_out (de_strm t) = 0 then Leave t else Next t)) \<and>
    ready t \<and> d_mode t = TYPE_0 \<and> bi_valid (d_tr t) < 8 \<and> (z_avail_out (de_strm t) \<noteq> 0 \<longrightarrow> at_block t)"

lemma block_done_trans: "reaches flush s m \<Longrightarrow> block_done flush m t \<Longrightarrow> block_done flush s t"
  unfolding block_done_def using reaches_trans by blast

lemma ENDOFBLOCK_sent:
  fixes s :: deflate_run
  defines "t' \<equiv> tr_flush_block_my (sym_off (d_tr s)) (sym_next (d_tr s)) (d_ttype s) (of_nat (d_last s)) (d_tr s)"
  assumes "ready s" and "d_mode s = ENDOFBLOCK" and "d_pending_out s = 0" and "winv t'" "wroom 0 t'" and "sym_next t' = 0"
  shows "\<exists>t. block_done flush s t \<and> r_next t = r_next s \<and> sent (de_strm t) t = bytes_bits (z_out (de_strm s)) @ wout t' \<and> d_last t = d_last s \<and>
    de_ret t = de_ret s \<and> sym_off (d_tr t) = sym_off t' \<and> sym_end (d_tr t) = sym_end t' \<and> length (pending_buf (d_tr t)) = length (pending_buf t') \<and>
    space t = space s"
proof -
  define s1 where "s1 = s\<lparr>d_mode := TYPE_0, d_tr := t'\<rparr>"
  obtain strm s2 where f: "flush_pending (de_strm s1) s1 = (strm, s2)" by fastforce
  obtain u po where s2: "s2 = s1\<lparr>d_tr := u, d_pending_out := po\<rparr>" using flush_pending_moves(1) [OF f] by blast
  note p = flush_pending_sent [OF f]
  have p: "sent strm s2 = sent (de_strm s1) s1" "z_avail_out strm \<noteq> 0 \<Longrightarrow> pending (d_tr s2) = 0 \<and> d_pending_out s2 = 0"
    "winv (d_tr s2)" "writer.more (d_tr s2) = writer.more t'" "length (pending_buf (d_tr s2)) = length (pending_buf t')" "z_avail_out strm + length (z_out strm) = space s"
    "bi_valid (d_tr s2) < 8"
    using p assms(4-6) by (simp_all add: s1_def winv_def space_def)
  define t where "t = s2\<lparr>de_strm := strm\<rparr>"
  have "deflate_step flush s = (if z_avail_out (de_strm t) = 0 then Leave t else Next t)"
    using f assms(3) by (simp add: deflate_step_def deflate_ENDOFBLOCK_def Let_def s1_def t_def t'_def)
  moreover have rd: "ready t" "d_mode t = TYPE_0" "r_next t = r_next s" "d_last t = d_last s" "de_ret t = de_ret s"
    using assms(2) by (auto simp: t_def s2 s1_def ready_def dbasic_def sizes_def rinv_def)
  moreover have m: "sym_off (d_tr t) = sym_off t'" "sym_end (d_tr t) = sym_end t'" "sym_next (d_tr t) = 0"
    using more_fields [OF p(4)] assms(7) by (simp_all add: t_def)
  moreover have "z_avail_out (de_strm t) \<noteq> 0 \<longrightarrow> at_block t" using p(2,3) m(3) by (simp add: t_def at_block_def)
  moreover have "sent (de_strm t) t = bytes_bits (z_out (de_strm s)) @ wout t'"
  proof -
    have "sent (de_strm t) t = sent strm s2" by (simp add: t_def sent_def)
    then show ?thesis using p(1) sent_start [of s1] assms(4) by (simp add: s1_def)
  qed
  ultimately show ?thesis unfolding block_done_def using reaches_refl [of flush s] p(5-7) by (intro exI [of _ t]) (auto simp: t_def space_def)
qed

lemma end_marker:
  assumes "ready s" and "d_mode s = LEN" and "r_next s = instr_bytes End_block @ rest"
  shows "\<exists>t. reaches flush s t \<and> ready t \<and> d_mode t = ENDOFBLOCK \<and> r_next t = rest \<and> d_tr t = d_tr s \<and> dkept s t"
proof -
  let ?e = "(eat 0 0xaa (0xff # rest) s)\<lparr>d_mode := INS1\<rparr>"
  have 1: "r_next s = 0xaa # 0xff # rest" using assms(3) by simp
  have re: "ready ?e" using ready_eat [OF assms(1)] by simp
  have "deflate_step flush s = Next ((eat 1 0xff rest ?e)\<lparr>d_mode := ENDOFBLOCK\<rparr>)"
    using assms(2) LEN_eq [OF assms(1)] INS1_eq [OF re] by (simp add: deflate_step_def 1)
  then have "reaches flush s ((eat 1 0xff rest ?e)\<lparr>d_mode := ENDOFBLOCK\<rparr>)" by (rule reaches_next)
  then show ?thesis using ready_eat [OF re] by (intro exI [of _ "(eat 1 0xff rest ?e)\<lparr>d_mode := ENDOFBLOCK\<rparr>"]) (simp add: dkept_def)
qed

text \<open>A block of instructions, from the first instruction to the output.\<close>

lemma huffman_block:
  assumes "ready s" and "d_mode s = LEN" and "d_ttype s \<noteq> STORE" and "d_last s \<le> 1" and "at_block s" and "list_all instr_ok is"
    and "r_next s = concat (map instr_bytes is) @ instr_bytes End_block @ rest"
    and "block_fits (d_ttype s) (of_nat (d_last s)) (map instr_sym is) (d_tr s)" and "3 * length is < sym_end (d_tr s)"
  shows "\<exists>t. block_done flush s t \<and> r_next t = rest \<and>
    sent (de_strm t) t = bytes_bits (z_out (de_strm s)) @ put_block (of_nat (d_last s)) (wout (d_tr s)) (block_bits (d_ttype s) (of_nat (d_last s)) (map instr_sym is) (d_tr s)) \<and>
    d_last t = d_last s \<and> de_ret t = de_ret s \<and> sym_off (d_tr t) = sym_off (d_tr s) \<and> sym_end (d_tr t) = sym_end (d_tr s) \<and>
    length (pending_buf (d_tr t)) = length (pending_buf (d_tr s)) \<and> space t = space s"
proof -
  have ab: "winv (d_tr s)" "d_pending_out s = 0" "sym_next (d_tr s) = 3 * 0" using assms(5) by (simp_all add: at_block_def)
  have room: "sym_off (d_tr s) + 3 * (0 + length is) \<le> length (pending_buf (d_tr s))" using assms(8) by (simp add: block_fits_def Let_def)
  obtain u where u: "reaches flush s u" "ready u" "d_mode u = LEN" "r_next u = instr_bytes End_block @ rest" "d_tr u = fold tally is (d_tr s)" "dkept s u"
    using instrs_run [OF assms(1,2,6,7) ab(3) room, of flush] assms(9) by auto
  obtain v where v: "reaches flush u v" "ready v" "d_mode v = ENDOFBLOCK" "r_next v = rest" "d_tr v = d_tr u" "dkept u v"
    using end_marker [OF u(2-4), of flush] by blast
  have k: "d_ttype v = d_ttype s" "d_last v = d_last s" "d_pending_out v = 0" "de_strm v = de_strm s" "de_ret v = de_ret s"
    using u(6) v(6) ab(2) by (simp_all add: dkept_def)
  obtain pb where pb: "d_tr v = (d_tr s)\<lparr>pending_buf := pb, sym_next := 3 * length (map instr_sym is)\<rparr>" "length pb = length (pending_buf (d_tr s))"
      "take (sym_off (d_tr s)) pb = take (sym_off (d_tr s)) (pending_buf (d_tr s))" "syms (d_tr v) 0 (length (map instr_sym is)) = map instr_sym is"
    using tally_list [OF assms(6) ab(3) room] u(5) v(5) by (auto simp: syms_def)
  have ok: "list_all sym_ok (map instr_sym is)" using assms(6) instr_sym_ok by (auto simp: list_all_iff)
  have l: "(of_nat (d_last s) :: uint32) \<in> {0, 1}" using assms(4) by (cases "d_last s") auto
  define T where "T = tr_flush_block_my (sym_off (d_tr v)) (sym_next (d_tr v)) (d_ttype v) (of_nat (d_last v)) (d_tr v)"
  note h = huffman_flush [OF ab(1) assms(3) l assms(8) ok pb, of "sym_off (d_tr v)" "sym_next (d_tr v)", folded k(1,2), folded T_def]
  obtain t where t: "block_done flush v t" "r_next t = r_next v" "sent (de_strm t) t = bytes_bits (z_out (de_strm v)) @ wout T" "d_last t = d_last v"
      "de_ret t = de_ret v" "sym_off (d_tr t) = sym_off T" "sym_end (d_tr t) = sym_end T" "length (pending_buf (d_tr t)) = length (pending_buf T)" "space t = space v"
    using ENDOFBLOCK_sent [OF v(2,3) k(3), folded T_def, OF h(2,3,4), of flush] by blast
  show ?thesis using block_done_trans [OF reaches_trans [OF u(1) v(1)] t(1)] t(2-) h(1,5-7) k v(4) by (intro exI [of _ t]) (simp add: space_def)
qed

end
