(* ===== verification/Deflate_Blocks.thy ===== *)
theory Deflate_Blocks
  imports Deflate_Symbols
begin

text \<open>
  Whole blocks with fixed codes and stored blocks in \<^verbatim>\<open>deflate_my\<close>, from the header byte to the emitted bits, and streams made of them.
\<close>

section \<open>Block headers of one byte\<close>

lemma with_first:
  assumes "r_hold s = 0" and "r_bits s = 0" and "0 < n" "n \<le> 8" and "r_next s = b # bs"
  shows "with_bits n s k = k (s\<lparr>r_next := bs, r_hold := ucast b, r_bits := 8\<rparr>)"
  using assms by (cases bs) (simp_all add: with_bits_def NEEDBITS_def set_regs_def Let_def)

lemma byte_fields: "low_bits 1 (ucast (b :: byte)) = unat b mod 2" "low_bits 2 (drop_bit 1 (ucast b)) = unat b div 2 mod 4"
proof -
  have u: "unat (ucast b :: ulong) = unat b" by (rule unat_byte)
  show "low_bits 1 (ucast b) = unat b mod 2" by (simp add: low_bits_mod u)
  have "unat (drop_bit 1 (ucast b :: ulong)) = unat b div 2" unfolding unat_drop_bit_eq u by (simp add: drop_bit_eq_div)
  then show "low_bits 2 (drop_bit 1 (ucast b)) = unat b div 2 mod 4" by (subst low_bits_mod) simp_all
qed

definition at_type :: "int \<Rightarrow> deflate_run \<Rightarrow> bool" where
  "at_type flush s \<longleftrightarrow> flush \<noteq> Z_BLOCK \<and> flush \<noteq> Z_TREES \<and> (d_mode s = TYPEDO \<or> d_mode s = TYPE_0)"

text \<open>What the type byte leaves: the trees cleared, five bits held.\<close>

definition typed_as :: "deflate_run \<Rightarrow> deflate_run \<Rightarrow> bool" where
  "typed_as s t \<longleftrightarrow> dbasic t \<and> d_tr t = clear_trees (d_tr s) \<and> de_strm t = de_strm s \<and> d_pending_out t = d_pending_out s \<and> de_ret t = de_ret s"

lemma type_byte:
  assumes "ready s" and "at_type flush s" and "d_last s = 0" and "r_next s = b # rest" and "unat b div 2 mod 4 = (if ty = STORE then 0 else 1)" and "ty \<noteq> DYNAMIC"
  shows "\<exists>t. deflate_step flush s = Next t \<and> typed_as s t \<and> r_bits t = 5 \<and> r_next t = rest \<and> d_ttype t = ty \<and> d_last t = unat b mod 2 \<and>
    d_mode t = (if ty = STORE then STORED else SKPI_HEADER_END)"
proof -
  note rf = ready_facts [OF assms(1)]
  define s1 where "s1 = s\<lparr>d_tr := clear_trees (d_tr s)\<rparr>"
  define s2 where "s2 = drop_bits 1 (s1\<lparr>r_next := rest, r_hold := ucast b, r_bits := 8, d_last := unat b mod 2\<rparr>)"
  define t where "t = drop_bits 2 (s2\<lparr>d_ttype := ty, d_mode := (if ty = STORE then STORED else SKPI_HEADER_END)\<rparr>)"
  have w: "with_bits 3 s1 k = k (s1\<lparr>r_next := rest, r_hold := ucast b, r_bits := 8\<rparr>)" for k
    by (rule with_first) (use rf assms(4) in \<open>simp_all add: s1_def\<close>)
  have b: "BITS 2 s2 = (if ty = STORE then 0 else 1)" using assms(5) byte_fields(2) [of b] by (simp add: BITS_def s2_def drop_bits_def)
  have "deflate_step flush s = deflate_TYPEDO flush s"
    using assms(2) by (auto simp: deflate_step_def deflate_TYPE_def at_type_def)
  also have "\<dots> = de_type flush s2"
    using assms(3) by (simp add: deflate_TYPEDO_def Let_def s1_def [symmetric] w)
      (simp add: s1_def s2_def BITS_def byte_fields(1) [unfolded One_nat_def])
  also have "\<dots> = Next t"
  proof -
    have sw: "s2\<lparr>d_mode := m, d_ttype := y\<rparr> = s2\<lparr>d_ttype := y, d_mode := m\<rparr>" for m y by (cases s2) simp
    show ?thesis using b assms(2,6) by (cases ty) (simp_all add: de_type_def Let_def t_def at_type_def sw)
  qed
  finally have run: "deflate_step flush s = Next t" .
  have ok: "hold_ok (ucast b) 8" using hold_add_ok [of 0 0 b] by simp
  have "rinv (s1\<lparr>r_next := rest, r_hold := ucast b, r_bits := 8, d_last := unat b mod 2\<rparr>)" using ok by (simp add: rinv_def)
  then have "rinv s2" unfolding s2_def by (rule drop_bits_inv) simp
  then have "rinv (s2\<lparr>d_ttype := ty, d_mode := (if ty = STORE then STORED else SKPI_HEADER_END)\<rparr>)" by (simp add: rinv_def)
  then have ri: "rinv t" unfolding t_def by (rule drop_bits_inv) (simp add: s2_def)
  have "dbasic t" using assms(1) ri by (simp add: ready_def dbasic_def sizes_def t_def s2_def s1_def)
  then have "typed_as s t" by (simp add: typed_as_def t_def s2_def s1_def)
  then show ?thesis using run by (intro exI [of _ t]) (simp add: t_def s2_def)
qed

lemma byte_boundary:
  assumes "dbasic s" and "r_bits s < 8"
  shows "ready (BYTEBITS s)" "r_next (BYTEBITS s) = r_next s"
proof -
  have "rinv s" using assms(1) by (simp add: dbasic_def)
  note B = BYTEBITS_rem [OF this]
  show "ready (BYTEBITS s)" using assms B by (simp add: ready_def dbasic_def sizes_def)
  show "r_next (BYTEBITS s) = r_next s" by (simp add: BYTEBITS_def)
qed

text \<open>The two bytes that follow the header.\<close>

lemma skip_two:
  assumes "ready s" and "r_next s = x # y # rest"
  shows "\<exists>t. with_bits 16 s k = k t \<and> ready (drop_bits 16 t) \<and> r_next (drop_bits 16 t) = rest \<and> de_rest t = de_rest s"
proof -
  define t where "t = s\<lparr>r_next := rest, r_hold := ucast x + push_bit 8 (ucast y), r_bits := 16\<rparr>"
  have r: "rinv s" "r_bits s = 0" using ready_facts [OF assms(1)] by simp_all
  have "with_bits 16 s k = k t" using with_two [OF r(1), of k] r assms(2) by (simp add: inbytes_def t_def)
  moreover have ok: "hold_ok (ucast x) 8" using hold_add_ok [of 0 0 x] by simp
  then have "rinv t" using hold_add_ok [OF ok, of y] by (simp add: t_def rinv_def)
  then have "rinv (drop_bits 16 t)" by (rule drop_bits_inv) (simp add: t_def)
  then have "ready (drop_bits 16 t)" using assms(1) by (simp add: ready_def dbasic_def sizes_def t_def)
  ultimately show ?thesis by (intro exI [of _ t]) (simp add: t_def de_rest_def)
qed

lemma skip_header_end:
  assumes "dbasic s" and "r_bits s < 8" and "d_mode s = SKPI_HEADER_END" and "r_next s = x # y # rest"
  shows "\<exists>t. deflate_step flush s = Next t \<and> ready t \<and> d_mode t = (if d_ttype s = STORE then COPY_0 else LEN_0) \<and> r_next t = rest \<and> d_tr t = d_tr s \<and>
    dkept s t \<and> d_length t = d_length s"
proof -
  note B = byte_boundary [OF assms(1,2)]
  have nx: "r_next (BYTEBITS s) = x # y # rest" using B(2) assms(4) by simp
  define k where "k = (\<lambda>u :: deflate_run. Next ((drop_bits 16 u)\<lparr>d_mode := (if d_ttype (drop_bits 16 u) = STORE then COPY_0 else LEN_0)\<rparr>))"
  obtain t where t: "with_bits 16 (BYTEBITS s) k = k t" "ready (drop_bits 16 t)" "r_next (drop_bits 16 t) = rest" "de_rest t = de_rest (BYTEBITS s)"
    using skip_two [OF B(1) nx] by blast
  have r: "de_rest (drop_bits 16 t) = de_rest s" using t(4) by (simp only: de_rest_ops)
  note f = de_fields [OF r]
  define u where "u = (drop_bits 16 t)\<lparr>d_mode := (if d_ttype s = STORE then COPY_0 else LEN_0)\<rparr>"
  have "deflate_step flush s = with_bits 16 (BYTEBITS s) k" using assms(3) by (simp add: deflate_step_def deflate_SKPI_HEADER_END_def k_def Let_def)
  also have "\<dots> = k t" by (rule t(1))
  also have "\<dots> = Next u" by (simp only: k_def f(7) u_def)
  finally show ?thesis using t(2,3) f by (intro exI [of _ u]) (simp add: u_def dkept_def)
qed

section \<open>A block with fixed codes\<close>

lemma LEN_0_start:
  assumes "ready s" and "d_mode s = LEN_0" and "block_done flush (s\<lparr>d_mode := LEN\<rparr>) t"
  shows "block_done flush s t"
proof -
  have st: "deflate_step flush s = deflate_step flush (s\<lparr>d_mode := LEN\<rparr>)"
    using assms(2) by (simp add: deflate_step_def deflate_LEN_0_def INITBITS_ready [OF assms(1)])
  obtain m n where m: "run_rounds n flush (s\<lparr>d_mode := LEN\<rparr>) = Some m" "deflate_step flush m = (if z_avail_out (de_strm t) = 0 then Leave t else Next t)"
    using assms(3) by (auto simp: block_done_def reaches_def)
  have "\<exists>m. reaches flush s m \<and> deflate_step flush m = (if z_avail_out (de_strm t) = 0 then Leave t else Next t)"
  proof (cases n)
    case 0
    then show ?thesis using m st reaches_refl [of flush s] by (intro exI [of _ s]) simp
  next
    case (Suc k)
    then have "run_rounds n flush s = Some m" using m(1) st by simp
    then show ?thesis using m(2) unfolding reaches_def by blast
  qed
  then show ?thesis using assms(3) by (simp add: block_done_def)
qed

lemma clear_trees_frame [simp]:
  "wout (clear_trees t) = wout t" "winv (clear_trees t) = winv t" "wbits (clear_trees t) = wbits t" "sym_off (clear_trees t) = sym_off t"
  "sym_next (clear_trees t) = sym_next t" "sym_end (clear_trees t) = sym_end t" "pending (clear_trees t) = pending t" "pending_buf (clear_trees t) = pending_buf t"
  by (simp_all add: clear_trees_def wout_def winv_def wbits_def)

definition fixed_bits :: "uint32 \<Rightarrow> instr list \<Rightarrow> bool list" where
  "fixed_bits lst is = bits_of 3 (2 + lst) @ vbits (block_values static_ltree static_dtree (map instr_sym is))"

lemma fixed_block:
  assumes "ready s" and "at_type flush s" and "d_last s = 0" and "at_block s" and "list_all instr_ok is"
    and "r_next s = b # x # y # concat (map instr_bytes is) @ instr_bytes End_block @ rest" and "unat b div 2 mod 4 = 1"
    and "sym_off (d_tr s) + 3 * length is \<le> length (pending_buf (d_tr s))" and "wbits (d_tr s) + 7 * length is + 10 \<le> 8 * sym_off (d_tr s)"
    and "3 * length is < sym_end (d_tr s)"
  defines "lst \<equiv> of_nat (unat b mod 2)"
  shows "\<exists>t. block_done flush s t \<and> r_next t = rest \<and> sent (de_strm t) t = bytes_bits (z_out (de_strm s)) @ put_block lst (wout (d_tr s)) (fixed_bits lst is) \<and>
    d_last t = unat b mod 2 \<and> de_ret t = de_ret s \<and> sym_off (d_tr t) = sym_off (d_tr s) \<and> sym_end (d_tr t) = sym_end (d_tr s) \<and>
    length (pending_buf (d_tr t)) = length (pending_buf (d_tr s)) \<and> space t = space s"
proof -
  obtain u where u: "deflate_step flush s = Next u" "typed_as s u" "r_bits u = 5" "r_next u = x # y # concat (map instr_bytes is) @ instr_bytes End_block @ rest"
      "d_ttype u = FIXED" "d_last u = unat b mod 2" "d_mode u = SKPI_HEADER_END"
    using type_byte [OF assms(1-3,6), of FIXED] assms(7) by auto
  note ty = u(2) [unfolded typed_as_def]
  obtain v where v: "deflate_step flush u = Next v" "ready v" "d_mode v = LEN_0" "r_next v = concat (map instr_bytes is) @ instr_bytes End_block @ rest"
      "d_tr v = d_tr u" "dkept u v"
    using skip_header_end [OF _ _ u(7,4), of flush] ty u(3,5) by auto
  have k: "de_strm v = de_strm s" "d_tr v = clear_trees (d_tr s)" "d_ttype v = FIXED" "d_last v = unat b mod 2" "d_pending_out v = 0" "de_ret v = de_ret s"
    using ty v(5,6) u(5,6) assms(4) by (simp_all add: dkept_def at_block_def)
  let ?w = "v\<lparr>d_mode := LEN\<rparr>"
  have m2: "unat b mod 2 \<le> 1" using mod_less_divisor [of 2 "unat b"] by linarith
  have ok: "list_all sym_ok (map instr_sym is)" using assms(5) instr_sym_ok by (auto simp: list_all_iff)
  have fits: "block_fits (d_ttype ?w) (of_nat (d_last ?w)) (map instr_sym is) (d_tr ?w)"
    using fixed_fits [OF ok, of "d_tr ?w" "of_nat (d_last ?w)"] assms(8,9) k by simp
  obtain t where t: "block_done flush ?w t" "r_next t = rest"
      "sent (de_strm t) t = bytes_bits (z_out (de_strm ?w)) @ put_block (of_nat (d_last ?w)) (wout (d_tr ?w)) (block_bits (d_ttype ?w) (of_nat (d_last ?w)) (map instr_sym is) (d_tr ?w))"
      "d_last t = d_last ?w" "de_ret t = de_ret ?w" "sym_off (d_tr t) = sym_off (d_tr ?w)" "sym_end (d_tr t) = sym_end (d_tr ?w)"
      "length (pending_buf (d_tr t)) = length (pending_buf (d_tr ?w))" "space t = space ?w"
    using huffman_block [OF _ _ _ _ _ assms(5) _ fits, of rest flush] v(2,4) k m2 assms(4,10) by (auto simp: at_block_def)
  have "block_bits FIXED lst (map instr_sym is) (d_tr v) = fixed_bits lst is"
    by (simp add: block_bits_def fixed_bits_def block_head_def block_ltree_def block_dtree_def)
  moreover have "block_done flush s t"
    by (rule block_done_trans [OF reaches_step [OF u(1) reaches_next [OF v(1)]] LEN_0_start [OF v(2,3) t(1)]])
  ultimately show ?thesis using t(2-) k by (intro exI [of _ t]) (simp add: lst_def space_def)
qed

section \<open>A stored block\<close>

definition word_bytes :: "ush \<Rightarrow> byte list" where
  "word_bytes w = [ucast w, ucast (drop_bit 8 w)]"

definition stored_field :: "nat \<Rightarrow> byte list" where
  "stored_field n = word_bytes (of_nat n) @ word_bytes (NOT (of_nat n))"

lemma four_bytes:
  fixes w :: ush
  defines "h \<equiv> ((ucast (ucast w :: byte) + push_bit 8 (ucast (ucast (drop_bit 8 w) :: byte))) + push_bit 16 (ucast (ucast (NOT w) :: byte))) +
    push_bit 24 (ucast (ucast (drop_bit 8 (NOT w)) :: byte)) :: ulong"
  shows "h AND 0xffff = ucast w" "drop_bit 16 h XOR 0xffff = ucast w"
proof -
  have a: "hold_ok (ucast (ucast w :: byte)) 8" using hold_add_ok [of 0 0 "ucast w"] by simp
  define b1 b2 b3 where bs: "b1 = (ucast (drop_bit 8 w) :: byte)" "b2 = (ucast (NOT w) :: byte)" "b3 = (ucast (drop_bit 8 (NOT w)) :: byte)"
  have b: "hold_ok (ucast (ucast w :: byte) + push_bit 8 (ucast b1)) 16" using hold_add_ok [OF a, of b1] by simp
  have c: "hold_ok (ucast (ucast w :: byte) + push_bit 8 (ucast b1) + push_bit 16 (ucast b2)) 24" using hold_add_ok [OF b, of b2] by simp
  have h: "h = ((ucast (ucast w :: byte) OR push_bit 8 (ucast (ucast (drop_bit 8 w) :: byte))) OR push_bit 16 (ucast (ucast (NOT w) :: byte))) OR
      push_bit 24 (ucast (ucast (drop_bit 8 (NOT w)) :: byte))"
    unfolding h_def bs [symmetric] by (subst hold_add_or [OF c], subst hold_add_or [OF b], subst hold_add_or [OF a]) (rule refl)
  have m: "(0xffff :: ulong) = mask 16" by (simp add: mask_eq_exp_minus_1)
  have wl: "bit w i \<Longrightarrow> i < 16" for i using bit_imp_le_length [of w i] by simp
  show "h AND 0xffff = ucast w" unfolding h m by (rule bit_word_eqI) (auto simp: bit_simps dest: wl)
  show "drop_bit 16 h XOR 0xffff = ucast w" unfolding h m by (rule bit_word_eqI) (auto simp: bit_simps dest: wl)
qed

lemma STORED_go:
  assumes "dbasic s" and "r_bits s < 8" and "d_mode s = STORED" and "r_next s = stored_field n @ rest" and "n < 65536"
  shows "\<exists>t. deflate_step flush s = Next t \<and> ready t \<and> d_mode t = SKPI_HEADER_END \<and> r_next t = rest \<and> d_tr t = d_tr s \<and> dkept s t \<and> d_length t = n"
proof -
  note B = byte_boundary [OF assms(1,2)]
  note rf = ready_facts [OF B(1)]
  define w where "w = (of_nat n :: ush)"
  have uw: "unat w = n" using assms(5) by (simp add: w_def unsigned_of_nat take_bit_nat_eq_self)
  define h where "h = (((ucast (ucast w :: byte) + push_bit 8 (ucast (ucast (drop_bit 8 w) :: byte))) + push_bit 16 (ucast (ucast (NOT w) :: byte))) +
    push_bit 24 (ucast (ucast (drop_bit 8 (NOT w)) :: byte)) :: ulong)"
  note fb = four_bytes [of w, folded h_def]
  define u where "u = (BYTEBITS s)\<lparr>r_next := rest, r_hold := h, r_bits := 32\<rparr>"
  have nx: "r_next (BYTEBITS s) = [ucast w, ucast (drop_bit 8 w), ucast (NOT w), ucast (drop_bit 8 (NOT w))] @ rest"
    using B(2) assms(4) by (simp add: stored_field_def word_bytes_def w_def)
  have "pull_bits 32 (r_next (BYTEBITS s)) 0 0 = (rest, h, 32)" unfolding nx by (cases rest) (simp_all add: h_def)
  then have wb: "with_bits 32 (BYTEBITS s) k = k u" for k using rf by (simp add: with_bits_def NEEDBITS_def set_regs_def u_def Let_def)
  define t where "t = (INITBITS (u\<lparr>d_length := n\<rparr>))\<lparr>d_mode := SKPI_HEADER_END\<rparr>"
  have "ucast h AND 0xffff = (ucast (h AND 0xffff) :: uint32)" by (rule bit_word_eqI) (auto simp: bit_simps)
  also have "\<dots> = ucast w" unfolding fb(1) by (rule bit_word_eqI) (auto simp: bit_simps)
  finally have len: "unat ((ucast h :: uint32) AND 0xffff) = n" using uw assms(5) by (simp add: unsigned_ucast_eq take_bit_nat_eq_self)
  have "deflate_step flush s = Next t"
    using assms(3) fb len by (simp add: deflate_step_def deflate_STORED_def wb) (simp add: u_def t_def)
  moreover have "ready t" using B(1) by (simp add: t_def u_def ready_def dbasic_def sizes_def rinv_def INITBITS_def)
  ultimately show ?thesis by (intro exI [of _ t]) (simp add: t_def u_def dkept_def INITBITS_def BYTEBITS_def drop_bits_def)
qed

lemma COPY_end:
  assumes "ready s" and "d_mode s = COPY \<or> d_mode s = COPY_0" and "d_length s = 0" and "r_next s = x # y # rest"
  shows "\<exists>t. reaches flush s t \<and> ready t \<and> d_mode t = ENDOFBLOCK \<and> r_next t = rest \<and> d_tr t = d_tr s \<and> dkept s t"
proof -
  define k where "k = (\<lambda>u :: deflate_run. Next ((drop_bits 16 u)\<lparr>d_mode := ENDOFBLOCK\<rparr>))"
  let ?s = "s\<lparr>d_mode := COPY\<rparr>"
  obtain t where t: "with_bits 16 ?s k = k t" "ready (drop_bits 16 t)" "r_next (drop_bits 16 t) = rest" "de_rest t = de_rest ?s"
    using skip_two [of ?s x y rest k] assms(1,4) by auto
  have r: "de_rest (drop_bits 16 t) = de_rest ?s" using t(4) by (simp only: de_rest_ops)
  note f = de_fields [OF r]
  have e: "s\<lparr>d_mode := COPY\<rparr> = s" if "d_mode s = COPY" using that by (cases s) simp
  have "deflate_step flush s = deflate_COPY ?s"
  proof (cases "d_mode s = COPY")
    case True
    then show ?thesis unfolding e [OF True] by (simp add: deflate_step_def)
  next
    case False
    then show ?thesis using assms(2) by (simp add: deflate_step_def deflate_COPY_0_def)
  qed
  also have "\<dots> = k t" using assms(3) t(1) by (simp add: deflate_COPY_def k_def)
  finally have "deflate_step flush s = Next ((drop_bits 16 t)\<lparr>d_mode := ENDOFBLOCK\<rparr>)" by (simp only: k_def)
  then show ?thesis using reaches_next t(2,3) f by (intro exI [of _ "(drop_bits 16 t)\<lparr>d_mode := ENDOFBLOCK\<rparr>"]) (auto simp: dkept_def)
qed

lemma COPY_go:
  assumes "ready s" and "d_mode s = COPY_0" and "d_length s = length bs" and "r_next s = bs @ x # y # rest"
    and "sym_next (d_tr s) = 0" and "sym_off (d_tr s) + length bs \<le> length (pending_buf (d_tr s))"
  shows "\<exists>t. reaches flush s t \<and> ready t \<and> d_mode t = ENDOFBLOCK \<and> r_next t = rest \<and> dkept s t \<and>
    d_tr t = (d_tr s)\<lparr>pending_buf := take (sym_off (d_tr s)) (pending_buf (d_tr s)) @ bs @ drop (sym_off (d_tr s) + length bs) (pending_buf (d_tr s)),
      sym_next := length bs\<rparr>"
proof (cases "bs = []")
  case True
  have "(d_tr s)\<lparr>pending_buf := pending_buf (d_tr s), sym_next := 0\<rparr> = d_tr s" using assms(5) by (cases "d_tr s") simp
  then show ?thesis using COPY_end [OF assms(1), of x y rest flush] assms(2-4) True by auto
next
  case False
  define t where "t = s\<lparr>d_mode := COPY, d_tr := sym_copy bs (d_tr s), r_next := x # y # rest, d_length := 0\<rparr>"
  have "deflate_step flush s = Next t" using assms(2-4) False by (simp add: deflate_step_def deflate_COPY_0_def deflate_COPY_def t_def)
  moreover have "ready t" using assms(1) by (auto simp: t_def ready_def dbasic_def sizes_def rinv_def)
  moreover obtain u where u: "reaches flush t u" "ready u" "d_mode u = ENDOFBLOCK" "r_next u = rest" "d_tr u = d_tr t" "dkept t u"
    using COPY_end [of t x y rest flush] \<open>ready t\<close> by (auto simp: t_def)
  moreover have "dkept s u" using u(6) by (simp add: t_def dkept_def)
  ultimately show ?thesis using reaches_step [of flush s t u] assms(5,6) by (intro exI [of _ u]) (simp add: t_def sym_copy_def Let_def)
qed

definition stored_out :: "uint32 \<Rightarrow> byte list \<Rightarrow> bool list \<Rightarrow> bool list" where
  "stored_out lst bs out = pad8 (out @ bits_of 3 lst) @ bits_of 16 (of_nat (length bs) :: ush) @ bits_of 16 (NOT (of_nat (length bs)) :: ush) @ bytes_bits bs"

lemma stored_block_frame:
  "writer.more (j_tr_stored_block buf n lst s) = writer.more s" "length (pending_buf (j_tr_stored_block buf n lst s)) = length (pending_buf s)"
  "pending (j_tr_stored_block buf n lst s) = pending (stored_head n lst s) + n"
  by (auto simp: j_tr_stored_block_head stored_head_def copy_pending_def Let_def)

lemma stored_flush:
  assumes w: "winv t" and l: "lst \<in> {0, 1}" and r: "sym_off t + length bs \<le> length (pending_buf t)" "wbits t + 42 + 8 * length bs \<le> 8 * sym_off t"
    and u: "u = t\<lparr>pending_buf := take (sym_off t) (pending_buf t) @ bs @ drop (sym_off t + length bs) (pending_buf t), sym_next := length bs\<rparr>"
  defines "T \<equiv> tr_flush_block_my (sym_off u) (sym_next u) STORE lst u"
  shows "wout T = stored_out lst bs (wout t)" "winv T" "wroom 0 T" "sym_next T = 0" "sym_off T = sym_off t" "sym_end T = sym_end t"
    "length (pending_buf T) = length (pending_buf t)"
proof -
  define J where "J = j_tr_stored_block (sym_off u) (length bs) lst u"
  have le: "length (pending_buf u) = length (pending_buf t)" "sym_off u = sym_off t" "wbits u = wbits t" "winv u" "sym_end u = sym_end t" "bi_valid u = bi_valid t"
    using r(1) w by (simp_all add: u wbits_def winv_def)
  have "pending t \<le> sym_off t" using r(2) by (auto simp: wbits_def)
  then have wo: "wout u = wout t" using r(1) by (simp add: u wout_def)
  have dat: "take (length bs) (drop (sym_off u) (pending_buf u)) = bs" using r(1) by (simp add: u)
  note B = stored_block_out [OF le(4) l, of "sym_off u" "length bs", folded J_def]
  have B: "wout J = stored_out lst bs (wout t)" "winv J" "bi_valid J = 0" using B r le wo dat by (simp_all add: stored_out_def)
  note F = stored_block_frame [of "sym_off u" "length bs" lst u, folded J_def]
  have v: "bi_valid u \<le> 16" using w le(6) by (simp add: winv_def reg_ok_def)
  have room: "wroom 0 J" using stored_head_pending(1) [OF v, of "length bs" lst] F(2,3) B(3) r le by (simp add: wroom_def)
  have T: "T = (if lst \<noteq> 0 then bi_windup (init_block J) else init_block J)" by (simp add: T_def tr_flush_block_my_def J_def u Let_def)
  have wi: "bi_windup (init_block J) = (init_block J)\<lparr>bi_buf := 0, bi_valid := 0\<rparr>" using B(3) by (simp add: bi_windup_def)
  have b0: "bi_buf J = 0" using B(2,3) by (simp add: winv_def reg_ok_def)
  show "wout T = stored_out lst bs (wout t)" "winv T" "wroom 0 T"
    using B room b0 unfolding T wi by (auto simp: wout_def winv_def wroom_def)
  show "sym_next T = 0" "sym_off T = sym_off t" "sym_end T = sym_end t" "length (pending_buf T) = length (pending_buf t)"
    using more_fields [OF F(1)] F(2) le unfolding T wi by auto
qed

lemma stored_block:
  assumes "ready s" and "at_type flush s" and "d_last s = 0" and "at_block s" and "length bs < 65536"
    and "r_next s = b # stored_field (length bs) @ x # y # bs @ x' # y' # rest" and "unat b div 2 mod 4 = 0"
    and "sym_off (d_tr s) + length bs \<le> length (pending_buf (d_tr s))" and "wbits (d_tr s) + 42 + 8 * length bs \<le> 8 * sym_off (d_tr s)"
  defines "lst \<equiv> of_nat (unat b mod 2)"
  shows "\<exists>t. block_done flush s t \<and> r_next t = rest \<and> sent (de_strm t) t = bytes_bits (z_out (de_strm s)) @ stored_out lst bs (wout (d_tr s)) \<and>
    d_last t = unat b mod 2 \<and> de_ret t = de_ret s \<and> sym_off (d_tr t) = sym_off (d_tr s) \<and> sym_end (d_tr t) = sym_end (d_tr s) \<and>
    length (pending_buf (d_tr t)) = length (pending_buf (d_tr s)) \<and> space t = space s"
proof -
  obtain u where u: "deflate_step flush s = Next u" "typed_as s u" "r_bits u = 5" "r_next u = stored_field (length bs) @ x # y # bs @ x' # y' # rest"
      "d_ttype u = STORE" "d_last u = unat b mod 2" "d_mode u = STORED"
    using type_byte [OF assms(1-3,6), of STORE] assms(7) by auto
  note ty = u(2) [unfolded typed_as_def]
  obtain v where v: "deflate_step flush u = Next v" "ready v" "d_mode v = SKPI_HEADER_END" "r_next v = x # y # bs @ x' # y' # rest" "d_tr v = d_tr u" "dkept u v" "d_length v = length bs"
    using STORED_go [OF _ _ u(7,4) assms(5), of flush] ty u(3) by auto
  obtain w where w: "deflate_step flush v = Next w" "ready w" "d_mode w = COPY_0" "r_next w = bs @ x' # y' # rest" "d_tr w = d_tr v" "dkept v w" "d_length w = length bs"
    using skip_header_end [OF _ _ v(3,4), of flush] ready_basic [OF v(2)] u(5) v(6,7) by (auto simp: dkept_def)
  have k: "de_strm w = de_strm s" "d_tr w = clear_trees (d_tr s)" "d_ttype w = STORE" "d_last w = unat b mod 2" "d_pending_out w = 0" "de_ret w = de_ret s"
    using ty v(5,6) w(5,6) u(5,6) assms(4) by (simp_all add: dkept_def at_block_def)
  have sn: "sym_next (d_tr w) = 0" "sym_off (d_tr w) + length bs \<le> length (pending_buf (d_tr w))" "winv (d_tr w)" "wbits (d_tr w) + 42 + 8 * length bs \<le> 8 * sym_off (d_tr w)"
    using k(2) assms(4,8,9) by (simp_all add: at_block_def)
  obtain z where z: "reaches flush w z" "ready z" "d_mode z = ENDOFBLOCK" "r_next z = rest" "dkept w z"
      "d_tr z = (d_tr w)\<lparr>pending_buf := take (sym_off (d_tr w)) (pending_buf (d_tr w)) @ bs @ drop (sym_off (d_tr w) + length bs) (pending_buf (d_tr w)), sym_next := length bs\<rparr>"
    using COPY_go [OF w(2,3,7,4) sn(1,2), of flush] by blast
  have kz: "de_strm z = de_strm s" "d_ttype z = STORE" "d_last z = unat b mod 2" "d_pending_out z = 0" "de_ret z = de_ret s" using k z(5) by (simp_all add: dkept_def)
  have l: "(of_nat (d_last z) :: uint32) \<in> {0, 1}" using kz(3) by (cases "even (unat b)") (auto simp: even_iff_mod_2_eq_zero odd_iff_mod_2_eq_one)
  define T where "T = tr_flush_block_my (sym_off (d_tr z)) (sym_next (d_tr z)) (d_ttype z) (of_nat (d_last z)) (d_tr z)"
  note h = stored_flush [OF sn(3) l sn(2,4) z(6), folded kz(2), folded T_def]
  obtain t where t: "block_done flush z t" "r_next t = r_next z" "sent (de_strm t) t = bytes_bits (z_out (de_strm z)) @ wout T" "d_last t = d_last z"
      "de_ret t = de_ret z" "sym_off (d_tr t) = sym_off T" "sym_end (d_tr t) = sym_end T" "length (pending_buf (d_tr t)) = length (pending_buf T)" "space t = space z"
    using ENDOFBLOCK_sent [OF z(2,3) kz(4), folded T_def, OF h(2,3,4), of flush] by blast
  have "block_done flush s t"
    by (rule block_done_trans [OF reaches_step [OF u(1) reaches_step [OF v(1) reaches_step [OF w(1) z(1)]]] t(1)])
  then show ?thesis using t(2-) h kz z(4) k(2) by (intro exI [of _ t]) (simp add: lst_def space_def)
qed

end
