(* ===== verification/Deflate_Stream.thy ===== *)
theory Deflate_Stream
  imports Deflate_Blocks
begin

text \<open>
  A whole instruction stream in one call of \<^verbatim>\<open>j_deflate\<close>: blocks with fixed codes and stored blocks, one after the other, are re-encoded as the
  DEFLATE stream they stand for.
\<close>

section \<open>Streams\<close>

datatype block = Fixed "instr list" | Stored "byte list"

text \<open>The bytes that \<open>j_inflate\<close> writes for a block; the argument is 1 for the last block and 0 otherwise.\<close>

fun block_input :: "nat \<Rightarrow> block \<Rightarrow> byte list" where
  "block_input l (Fixed is) = of_nat (2 + l) # 0xaa # 0xff # concat (map instr_bytes is) @ instr_bytes End_block"
| "block_input l (Stored bs) = of_nat l # stored_field (length bs) @ 0xaa # 0xff # bs @ [0xaa, 0xff]"

text \<open>What the block adds to the bits of the compressed stream.\<close>

fun block_output :: "nat \<Rightarrow> block \<Rightarrow> bool list \<Rightarrow> bool list" where
  "block_output l (Fixed is) out = put_block (of_nat l) out (fixed_bits (of_nat l) is)"
| "block_output l (Stored bs) out = stored_out (of_nat l) bs out"

fun stream_input :: "block list \<Rightarrow> byte list" where
  "stream_input [] = []"
| "stream_input [b] = block_input 1 b"
| "stream_input (b # c # bs) = block_input 0 b @ stream_input (c # bs)"

fun stream_output :: "block list \<Rightarrow> bool list \<Rightarrow> bool list" where
  "stream_output [] out = out"
| "stream_output [b] out = block_output 1 b out"
| "stream_output (b # c # bs) out = stream_output (c # bs) (block_output 0 b out)"

text \<open>The block fits the buffer whose first \<open>off\<close> of \<open>cap\<close> bytes are in front of the symbols.\<close>

fun block_small :: "nat \<Rightarrow> nat \<Rightarrow> nat \<Rightarrow> block \<Rightarrow> bool" where
  "block_small off endp cap (Fixed is) = (list_all instr_ok is \<and> 7 * length is + 26 \<le> 8 * off \<and> off + 3 * length is \<le> cap \<and> 3 * length is < endp)"
| "block_small off endp cap (Stored bs) = (length bs < 65536 \<and> 8 * length bs + 58 \<le> 8 * off \<and> off + length bs \<le> cap)"

lemma block_output_aligned: "block_output l b (bytes_bits bs @ out) = bytes_bits bs @ block_output l b out"
proof -
  have p: "pad8 (bytes_bits bs @ xs) = bytes_bits bs @ pad8 xs" for xs
    using pad8_append_aligned [of "bytes_bits bs" xs] by simp
  show ?thesis by (cases b) (simp_all add: put_block_def stored_out_def p)
qed

lemma block_output_length: "length out \<le> length (block_output l b out)"
  by (cases b) (auto simp: put_block_def stored_out_def pad8_def)

lemma stream_output_length: "length out \<le> length (stream_output bs out)"
  by (induction bs out rule: stream_output.induct) (auto intro: block_output_length order_trans)

lemma one_block:
  assumes "ready s" and "at_type flush s" and "d_last s = 0" and "at_block s" and "l \<le> 1" and "r_next s = block_input l b @ rest"
    and "block_small (sym_off (d_tr s)) (sym_end (d_tr s)) (length (pending_buf (d_tr s))) b"
  shows "\<exists>t. block_done flush s t \<and> r_next t = rest \<and> sent (de_strm t) t = block_output l b (sent (de_strm s) s) \<and>
    d_last t = l \<and> de_ret t = de_ret s \<and> sym_off (d_tr t) = sym_off (d_tr s) \<and> sym_end (d_tr t) = sym_end (d_tr s) \<and>
    length (pending_buf (d_tr t)) = length (pending_buf (d_tr s)) \<and> space t = space s"
proof -
  have wb: "wbits (d_tr s) \<le> 16" using assms(4) by (simp add: at_block_def wbits_def winv_def reg_ok_def)
  have se: "sent (de_strm s) s = bytes_bits (z_out (de_strm s)) @ wout (d_tr s)" using assms(4) by (intro sent_start) (simp add: at_block_def)
  have l: "l = 0 \<or> l = 1" using assms(5) by auto
  show ?thesis
  proof (cases b)
    case (Fixed "is")
    have u: "unat (of_nat (2 + l) :: byte) = 2 + l" using l by auto
    have e: "unat (of_nat (2 + l) :: byte) div 2 mod 4 = 1" "unat (of_nat (2 + l) :: byte) mod 2 = l" unfolding u using l by auto
    note f = fixed_block [OF assms(1-4), of "is" "of_nat (2 + l)" "0xaa" "0xff" rest, unfolded e]
    show ?thesis using f assms(6,7) wb unfolding Fixed se block_output_aligned by auto
  next
    case (Stored bs)
    have u: "unat (of_nat l :: byte) = l" using l by auto
    have e: "unat (of_nat l :: byte) div 2 mod 4 = 0" "unat (of_nat l :: byte) mod 2 = l" unfolding u using l by auto
    note f = stored_block [OF assms(1-4), of bs "of_nat l" "0xaa" "0xff" "0xaa" "0xff" rest, unfolded e]
    show ?thesis using f assms(6,7) wb unfolding Stored se block_output_aligned by auto
  qed
qed

lemma block_done_next:
  assumes "block_done flush s t" and "length (sent (de_strm t) t) < 8 * space t"
  shows "reaches flush s t" "at_block t"
proof -
  have nz: "z_avail_out (de_strm t) \<noteq> 0"
  proof
    assume "z_avail_out (de_strm t) = 0"
    then show False using assms(2) by (simp add: sent_def space_def)
  qed
  obtain m where m: "reaches flush s m" "deflate_step flush m = Next t" using assms(1) nz by (auto simp: block_done_def)
  show "reaches flush s t" by (rule reaches_trans [OF m(1) reaches_next [OF m(2)]])
  show "at_block t" using assms(1) nz by (simp add: block_done_def)
qed

lemma stream_run:
  assumes "bks \<noteq> []" and "ready s" and "at_type flush s" and "d_last s = 0" and "at_block s" and "r_next s = stream_input bks @ rest"
    and "list_all (block_small (sym_off (d_tr s)) (sym_end (d_tr s)) (length (pending_buf (d_tr s)))) bks"
    and "length (stream_output bks (sent (de_strm s) s)) < 8 * space s"
  shows "\<exists>t. reaches flush s t \<and> ready t \<and> d_mode t = TYPE_0 \<and> d_last t = 1 \<and> at_block t \<and> bi_valid (d_tr t) < 8 \<and> r_next t = rest \<and>
    sent (de_strm t) t = stream_output bks (sent (de_strm s) s) \<and> de_ret t = de_ret s"
  using assms
proof (induction bks arbitrary: s rule: stream_input.induct)
  case (2 b)
  obtain t where t: "block_done flush s t" "r_next t = rest" "sent (de_strm t) t = block_output 1 b (sent (de_strm s) s)" "d_last t = 1" "de_ret t = de_ret s" "space t = space s"
    using one_block [OF 2(2-5), of 1 b rest] 2(6,7) by auto
  have "length (sent (de_strm t) t) < 8 * space t" using 2(8) t(3,6) by simp
  note n = block_done_next [OF t(1) this]
  show ?case using n t by (intro exI [of _ t]) (simp add: block_done_def)
next
  case (3 b c bs)
  obtain t where t: "block_done flush s t" "r_next t = stream_input (c # bs) @ rest" "sent (de_strm t) t = block_output 0 b (sent (de_strm s) s)" "d_last t = 0"
      "de_ret t = de_ret s" "space t = space s" "sym_off (d_tr t) = sym_off (d_tr s)" "sym_end (d_tr t) = sym_end (d_tr s)" "length (pending_buf (d_tr t)) = length (pending_buf (d_tr s))"
    using one_block [OF 3(3-6), of 0 b "stream_input (c # bs) @ rest"] 3(7,8) by auto
  have so: "length (stream_output (c # bs) (sent (de_strm t) t)) < 8 * space t" using 3(9) t(3,6) by simp
  then have "length (sent (de_strm t) t) < 8 * space t" using stream_output_length [of "sent (de_strm t) t" "c # bs"] by simp
  note n = block_done_next [OF t(1) this]
  have r: "ready t" "d_mode t = TYPE_0" using t(1) by (simp_all add: block_done_def)
  have ty: "at_type flush t" using 3(4) r(2) by (simp add: at_type_def)
  obtain u where u: "reaches flush t u" "ready u" "d_mode u = TYPE_0" "d_last u = 1" "at_block u" "bi_valid (d_tr u) < 8" "r_next u = rest"
      "sent (de_strm u) u = stream_output (c # bs) (sent (de_strm t) t)" "de_ret u = de_ret t"
    using 3(1) [OF _ r(1) ty t(4) n(2) t(2) _ so] 3(8) t(7-9) by auto
  show ?case using u t(3,5) reaches_trans [OF n(1) u(1)] by (intro exI [of _ u]) simp
qed simp

lemma stream_output_dvd: "bks \<noteq> [] \<Longrightarrow> 8 dvd length (stream_output bks out)"
proof (induction bks out rule: stream_output.induct)
  case (2 b out)
  show ?case
  proof (cases b)
    case (Stored bs)
    have "8 dvd length (pad8 (out @ bits_of 3 (1::uint32)))" by (rule length_pad8)
    then show ?thesis using Stored by (simp add: stored_out_def dvd_add_right_iff)
  qed (simp add: put_block_def length_pad8)
qed simp_all

lemma stream_output_aligned: "stream_output bks (bytes_bits bs @ out) = bytes_bits bs @ stream_output bks out"
  by (induction bks out rule: stream_output.induct) (simp_all add: block_output_aligned)

section \<open>A whole call\<close>

lemma run_rounds_short: "run_rounds n flush s = Some t \<Longrightarrow> k \<le> n \<Longrightarrow> deflate_loop k flush s = Out_of_fuel"
proof (induction k arbitrary: n s)
  case (Suc k)
  then obtain m where "n = Suc m" by (cases n) auto
  then show ?case using Suc by (auto split: step.splits)
qed simp

lemma loop_result:
  assumes "deflate_inv s" and "de_ret s = Z_OK" and "reaches flush s u" and "deflate_step flush u = Leave v"
  shows "deflate_loop (deflate_fuel s) flush s = Done (fst (de_leave flush v)) (snd (de_leave flush v))"
proof -
  obtain n where n: "run_rounds n flush s = Some u" using assms(3) by (auto simp: reaches_def)
  have "loop_end flush s (deflate_loop (deflate_fuel s) flush s)"
    by (rule deflate_loop_stops [OF assms(1) _ dmu_fuel]) (simp add: assms(2))
  then have "deflate_loop (deflate_fuel s) flush s \<noteq> Out_of_fuel" by (auto simp: loop_end_def)
  then have "n < deflate_fuel s" using run_rounds_short [OF n] by (meson not_le)
  then obtain m where m: "deflate_fuel s = n + Suc m" using less_iff_Suc_add by auto
  show ?thesis unfolding m run_rounds_loop [OF n] by (simp add: assms(4) split: prod.split)
qed

lemma stream_end:
  assumes "ready t" and "at_type flush t" and "d_last t = 1"
  shows "\<exists>u. deflate_step flush t = Next u \<and> deflate_step flush u = Leave (u\<lparr>de_ret := Z_STREAM_END\<rparr>) \<and> r_next u = r_next t \<and> de_strm u = de_strm t \<and>
    d_tr u = clear_trees (d_tr t)"
proof -
  define u where "u = (BYTEBITS (t\<lparr>d_tr := clear_trees (d_tr t)\<rparr>))\<lparr>d_mode := DONE\<rparr>"
  have "deflate_step flush t = Next u"
    using assms(2,3) by (auto simp: deflate_step_def deflate_TYPE_def deflate_TYPEDO_def at_type_def u_def Let_def)
  moreover have "deflate_step flush u = Leave (u\<lparr>de_ret := Z_STREAM_END\<rparr>)"
    using assms(1) by (simp add: deflate_step_def deflate_DONE_def u_def ready_def dbasic_def)
  ultimately show ?thesis by (intro exI [of _ u]) (simp add: u_def BYTEBITS_def)
qed

definition encoder_idle :: "deflate_state \<Rightarrow> bool" where
  "encoder_idle st \<longleftrightarrow> d_mode st \<in> {HEAD, TYPE_0, TYPEDO} \<and> d_last st = 0 \<and> d_bits st = 0 \<and> winv (d_tr st) \<and> pending (d_tr st) = 0 \<and> d_pending_out st = 0 \<and>
     sym_next (d_tr st) = 0"

lemma deflate_my_stream:
  assumes good: "good_deflate g strm" and args: "de_args_ok flush strm" "flush \<noteq> Z_BLOCK" and st: "z_state strm = Some st" and idle: "encoder_idle st"
    and bks: "bks \<noteq> []" "list_all (block_small (sym_off (d_tr st)) (sym_end (d_tr st)) (length (pending_buf (d_tr st)))) bks"
    and inp: "z_next_in strm = stream_input bks @ rest" and spc: "length (stream_output bks (wout (d_tr st))) < 8 * z_avail_out strm"
  shows "\<exists>g' strm' st'. deflate_my out l flush g strm = Done Z_STREAM_END (g', strm') \<and> z_next_in strm' = rest \<and> z_state strm' = Some st' \<and> pending (d_tr st') = 0 \<and>
    bytes_bits (z_out strm') = bytes_bits (z_out strm) @ stream_output bks (wout (d_tr st))"
proof -
  define s where "s = deflate_enter out l g strm st"
  have "deflate_inv (deflate_enter 0 no_locals g strm st)" using good st by (simp add: good_deflate_def)
  then have si: "deflate_inv s" unfolding s_def by (rule enter_inv_any) simp_all
  note e = denter_fields [of out l g strm st, folded s_def]
  have rd: "ready s" using si idle e(3) by (simp add: ready_def deflate_inv_def encoder_idle_def)
  obtain s1 where s1: "reaches flush s s1" "ready s1" "at_type flush s1" "r_next s1 = z_next_in strm" "d_tr s1 = d_tr st" "de_strm s1 = strm" "d_last s1 = 0"
      "at_block s1" "de_ret s1 = 0"
  proof (cases "d_mode st = HEAD")
    case True
    have "deflate_step flush s = Next (s\<lparr>d_mode := TYPEDO\<rparr>)" using rd True e by (simp add: deflate_step_def deflate_HEAD_def ready_def dbasic_def)
    then show ?thesis using that [of "s\<lparr>d_mode := TYPEDO\<rparr>"] reaches_next rd e idle args by (auto simp: at_type_def at_block_def encoder_idle_def de_args_ok_def)
  next
    case False
    show ?thesis by (rule that [OF reaches_refl rd]) (use e idle args False in \<open>auto simp: at_type_def at_block_def encoder_idle_def de_args_ok_def\<close>)
  qed
  have se: "sent (de_strm s1) s1 = bytes_bits (z_out strm) @ wout (d_tr st)" using s1(5,6,8) sent_start [of s1 strm] by (simp add: at_block_def)
  obtain t where t: "reaches flush s1 t" "ready t" "d_mode t = TYPE_0" "d_last t = 1" "at_block t" "bi_valid (d_tr t) < 8" "r_next t = rest"
      "sent (de_strm t) t = bytes_bits (z_out strm) @ stream_output bks (wout (d_tr st))"
    using stream_run [OF bks(1) s1(2,3,7,8), of rest] bks(2) inp spc s1(4-6) unfolding se stream_output_aligned by (auto simp: space_def)
  have tt: "at_type flush t" using s1(3) t(3) by (simp add: at_type_def)
  obtain u where u: "deflate_step flush t = Next u" "deflate_step flush u = Leave (u\<lparr>de_ret := Z_STREAM_END\<rparr>)" "r_next u = rest" "de_strm u = de_strm t" "d_tr u = clear_trees (d_tr t)"
    using stream_end [OF t(2) tt t(4)] t(7) by auto
  have zt: "bytes_bits (z_out (de_strm t)) = bytes_bits (z_out strm) @ stream_output bks (wout (d_tr st))"
  proof -
    have se_t: "sent (de_strm t) t = bytes_bits (z_out (de_strm t)) @ bits_of (bi_valid (d_tr t)) (bi_buf (d_tr t))" using t(5) by (simp add: sent_def at_block_def)
    have "8 dvd length (sent (de_strm t) t)" unfolding t(8) using stream_output_dvd [OF bks(1)] by simp
    then have "8 dvd bi_valid (d_tr t)" unfolding se_t by (simp add: dvd_add_right_iff)
    then have "bi_valid (d_tr t) = 0" using t(6) by (auto dest: dvd_imp_le)
    then show ?thesis using se_t t(8) by simp
  qed
  define v where "v = snd (de_leave flush (u\<lparr>de_ret := Z_STREAM_END\<rparr>))"
  note lf = de_leave_fields [of flush "u\<lparr>de_ret := Z_STREAM_END\<rparr>", folded v_def, simplified]
  have ret: "fst (de_leave flush (u\<lparr>de_ret := Z_STREAM_END\<rparr>)) = Z_STREAM_END" by (simp add: de_leave_def Let_def de_RESTORE_def)
  have "reaches flush s u" by (rule reaches_trans [OF s1(1) reaches_trans [OF t(1) reaches_next [OF u(1)]]])
  then have "deflate_loop (deflate_fuel s) flush s = Done Z_STREAM_END v"
    using loop_result [OF si e(6) _ u(2)] by (simp add: ret v_def)
  then have "deflate_my out l flush g strm = Done Z_STREAM_END (de_g v, (de_strm v)\<lparr>z_state := Some (deflate_state.truncate v)\<rparr>)"
    using args st by (auto simp: deflate_my_def de_args_ok_def s_def [symmetric] Let_def deflate_exit_def)
  moreover have "pending (d_tr v) = 0" using lf u(5) t(5) by (simp add: at_block_def)
  ultimately show ?thesis using lf u(3,4) zt by (simp add: truncate_fields)
qed

section \<open>Claims\<close>

lemma demo_idle: "z_state demo_dstream = Some demo_deflate" "encoder_idle demo_deflate" "d_tr demo_deflate = trees_blank 128"
  by (simp_all add: demo_dstream_def encoder_idle_def demo_deflate_def demo_trees_def trees_blank_def winv_def)

text \<open>The bits of an empty last block with fixed codes: 1, 1, 0, seven zeros and the padding.\<close>

lemma empty_fixed_stream: "stream_output [Fixed []] [] = bytes_bits [3, 0]"
proof -
  have "unat (Code (static_ltree ! 256)) = 0" "unat (Len (static_ltree ! 256)) = 7"
    using static_ltree_nth [of 256] by (simp_all add: fixed_len_def fixed_code_def rev_bits_zero)
  then have "cw static_ltree 256 = (0, 7)" by (simp add: cw_def unsigned_eq_0_iff)
  then have "stream_output [Fixed []] [] = pad8 ([] @ bits_of 3 (3::uint32) @ vbits [(0::uint32, 7)])"
    by (simp add: put_block_def fixed_bits_def block_values_def)
  also have "\<dots> = bytes_bits [3, 0]" by code_simp
  finally show ?thesis .
qed




definition demo_dyn_trees :: trees_state where
  "demo_dyn_trees = block_demo\<lparr>sym_next := 0\<rparr>"

definition demo_dyn :: deflate_run where
  "demo_dyn = deflate_enter 0 no_locals demo_globals (demo_dstream\<lparr>z_next_in := [65, 0xaa, 0, 5, 7, 0xaa, 0xff, 1]\<rparr>)
     (demo_deflate\<lparr>d_mode := LEN, d_ttype := DYNAMIC, d_tr := demo_dyn_trees\<rparr>)"

lemma demo_dyn_fields:
  "ready demo_dyn" "d_mode demo_dyn = LEN" "d_ttype demo_dyn = DYNAMIC" "d_last demo_dyn = 0" "d_tr demo_dyn = demo_dyn_trees" "at_block demo_dyn"
  "r_next demo_dyn = concat (map instr_bytes [Lit 65, Match 10 5]) @ instr_bytes End_block @ [1]"
proof -
  note e = denter_fields [of 0 no_locals demo_globals "demo_dstream\<lparr>z_next_in := [65, 0xaa, 0, 5, 7, 0xaa, 0xff, 1]\<rparr>"
      "demo_deflate\<lparr>d_mode := LEN, d_ttype := DYNAMIC, d_tr := demo_dyn_trees\<rparr>", folded demo_dyn_def]
  show "ready demo_dyn" using demo_dfacts(1,3) e by (simp add: ready_def dbasic_def rinv_def sizes_def fresh_deflate_def) (simp add: demo_deflate_def)
  show tr: "d_mode demo_dyn = LEN" "d_ttype demo_dyn = DYNAMIC" "d_last demo_dyn = 0" "d_tr demo_dyn = demo_dyn_trees"
    "r_next demo_dyn = concat (map instr_bytes [Lit 65, Match 10 5]) @ instr_bytes End_block @ [1]"
    using e by (simp_all add: demo_deflate_def)
  show "at_block demo_dyn" using block_demo_ok(1,8) e(14) by (simp add: at_block_def tr(4) demo_dyn_trees_def wbits_def winv_def demo_deflate_def)
qed


text \<open>C28: When a literal or a match fills the symbol buffer, \<open>deflate_my\<close> returns 1 at once: the symbol is in the buffer, but nothing is flushed and the
  position in the input that the caller sees has not moved.\<close>

theorem symbol_buffer_full:
  assumes "d_mode s = LIT \<or> d_mode s = MATCH" and "sym_next (d_tr s) + 3 = sym_end (d_tr s)" and "sym_off (d_tr s) + sym_end (d_tr s) \<le> length (pending_buf (d_tr s))"
  shows "\<exists>t. deflate_loop (Suc n) flush s = Done 1 t \<and> de_strm t = de_strm s \<and> sym_next (d_tr t) = sym_end (d_tr t) \<and> d_mode t = d_mode s \<and> pending (d_tr t) = pending (d_tr s)"
proof -
  have room: "sym_off (d_tr s) + sym_next (d_tr s) + 3 \<le> length (pending_buf (d_tr s))" using assms(2,3) by simp
  show ?thesis using assms(1,2)
    by (auto simp: deflate_step_def deflate_LIT_def deflate_MATCH_def tr_tally_lit_my_def tr_tally_dist_my_def sym_put3 [OF room] Let_def)
qed

theorem symbol_buffer_full_witness:
  "\<exists>t. deflate_loop 1 0 (demo_dyn\<lparr>d_mode := LIT, d_tr := demo_dyn_trees\<lparr>sym_next := 3057\<rparr>\<rparr>) = Done 1 t \<and> de_strm t = de_strm demo_dyn"
proof -
  have "sym_end demo_dyn_trees = 3060" "sym_off demo_dyn_trees = 256" "length (pending_buf demo_dyn_trees) = 4096"
    using block_demo_ok by (simp_all add: demo_dyn_trees_def block_demo_tally trees_blank_def)
  then show ?thesis
    using symbol_buffer_full [of "demo_dyn\<lparr>d_mode := LIT, d_tr := demo_dyn_trees\<lparr>sym_next := 3057\<rparr>\<rparr>" 0 0] by auto
qed

end
