(* ===== verification/Symbol_Codec.thy ===== *)
theory Symbol_Codec
  imports Inflate_Symbols Trees_Blocks Inftrees_Correct
begin

text \<open>
  The decoder undoes the encoder.  The locale \<open>codec\<close> says what a pair of decoding tables and a pair of encoding trees have to have in
  common: a table maps every code word of the tree to its symbol.  From this follows that the reference \<open>next_instr\<close> of the decoder
  reads the bits that \<open>compress_block\<close> sends for a symbol as that symbol, and the bits of a block as its instructions.  The fixed tables of
  inffixed.h and trees.h are such a pair, and so are the tables and trees that \<open>inflate_table\<close> and \<open>inflate_table_my\<close> build from the same lengths.
\<close>

section \<open>Codes that tables and trees share\<close>

definition reads_code :: "(nat \<Rightarrow> code option) \<Rightarrow> nat \<Rightarrow> codetype \<Rightarrow> ct_data list \<Rightarrow> nat \<Rightarrow> bool list \<Rightarrow> bool" where
  "reads_code tab nb type tree c ext \<longleftrightarrow>
    (\<exists>l e. symbol_of tab nb (vbits [cw tree c] @ ext) = (l, e, unat (Len (tree ! c))) \<and>
      c_op e = c_op (table_entry type [] c 0) \<and> c_val e = c_val (table_entry type [] c 0))"

text \<open>The operation byte of a length or distance with \<open>x\<close> extra bits.\<close>

lemma ext_op:
  fixes e :: ush
  assumes "unat e = 16 + x" and "x \<le> 13"
  shows "(ucast e :: byte) \<noteq> 0 \<and> (ucast e :: byte) AND 32 = 0 \<and> (ucast e :: byte) AND 64 = 0 \<and> unat ((ucast e :: byte) AND 15) = x"
proof -
  have e: "e = of_nat (16 + x)" unfolding assms(1) [symmetric] by simp
  have "x \<in> set [0..<14]" using assms(2) by simp
  then show ?thesis unfolding e by (simp add: upt_rec numeral_eq_Suc del: of_nat_add) auto
qed

text \<open>The extra bits that follow a code.\<close>

definition extra_value :: "nat \<Rightarrow> nat \<Rightarrow> (uint32 \<times> nat) list" where
  "extra_value x v = (if x \<noteq> 0 then [(of_nat v, x)] else [])"

lemma extra_value_read:
  assumes "x \<noteq> 0 \<Longrightarrow> v < 2 ^ x" and "x \<le> 13"
  shows "widths (extra_value x v) = x" "val_of (take x (vbits (extra_value x v) @ ext)) = (if x = 0 then 0 else v)"
proof -
  show w: "widths (extra_value x v) = x" by (simp add: extra_value_def)
  show "val_of (take x (vbits (extra_value x v) @ ext)) = (if x = 0 then 0 else v)"
  proof (cases "x = 0")
    case False
    have "v < 2 ^ 32" using assms(1) [OF False] power_increasing [of x 32 "2::nat"] assms(2) by simp
    then have "unat (of_nat v :: uint32) = v" by (simp add: unsigned_of_nat take_bit_nat_eq_self)
    then show ?thesis using False assms(1) by (simp add: extra_value_def val_of_bits_of_word take_bit_nat_eq_self)
  qed (simp add: extra_value_def)
qed

locale codec =
  fixes lt :: "nat \<Rightarrow> code option" and lnb :: nat and dt :: "nat \<Rightarrow> code option" and dnb :: nat
    and ltree dtree :: "ct_data list"
  assumes lens_law: "c < 286 \<Longrightarrow> Len (ltree ! c) \<noteq> 0 \<Longrightarrow> reads_code lt lnb LENS ltree c ext"
    and dists_law: "c < 30 \<Longrightarrow> Len (dtree ! c) \<noteq> 0 \<Longrightarrow> reads_code dt dnb DISTS dtree c ext"
begin

abbreviation (input) "nx \<equiv> next_instr lt lnb dt dnb"

text \<open>The symbols for which the trees have codes.\<close>

definition has_code :: "instr \<Rightarrow> bool" where
  "has_code i \<longleftrightarrow> (case instr_sym i of (dist, lc) \<Rightarrow>
     if dist = 0 then Len (ltree ! lc) \<noteq> 0 else Len (ltree ! (j_length_code ! lc + 257)) \<noteq> 0 \<and> Len (dtree ! d_code (dist - 1)) \<noteq> 0)"

lemma next_literal:
  assumes "v < 256" and "Len (ltree ! unat v) \<noteq> 0"
  shows "nx (vbits [cw ltree (unat v)] @ ext) = (Inr (Lit v), unat (Len (ltree ! unat v)))"
proof -
  have u: "unat v < 256" using assms(1) by (simp add: word_less_nat_alt)
  then obtain l e where e: "symbol_of lt lnb (vbits [cw ltree (unat v)] @ ext) = (l, e, unat (Len (ltree ! unat v)))"
      "c_op e = c_op (table_entry LENS [] (unat v) 0)" "c_val e = c_val (table_entry LENS [] (unat v) 0)"
    using lens_law [of "unat v" ext] assms(2) by (auto simp: reads_code_def)
  have "c_op e = 0" "c_val e = v" using e(2,3) u by (simp_all add: table_entry_def)
  then show ?thesis by (simp add: next_instr_def e(1) del: vbits_simps)
qed

lemma next_end:
  assumes "Len (ltree ! 256) \<noteq> 0"
  shows "nx (vbits [cw ltree 256] @ ext) = (Inr End_block, unat (Len (ltree ! 256)))"
proof -
  obtain l e where e: "symbol_of lt lnb (vbits [cw ltree 256] @ ext) = (l, e, unat (Len (ltree ! 256)))" "c_op e = c_op (table_entry LENS [] 256 0)"
    using lens_law [of 256 ext] assms by (auto simp: reads_code_def)
  have "c_op e = 96" using e(2) by (simp add: table_entry_def)
  then show ?thesis by (simp add: next_instr_def e(1) del: vbits_simps)
qed

lemma next_match:
  assumes ok: "instr_ok (Match len dist)" and cd: "has_code (Match len dist)"
  shows "nx (vbits (sym_values ltree dtree (dist, len - 3)) @ ext) = (Inr (Match len dist), widths (sym_values ltree dtree (dist, len - 3)))"
proof -
  define lc where "lc = len - 3"
  define code where "code = j_length_code ! lc"
  define x where "x = extra_lbits ! code"
  define dcode where "dcode = d_code (dist - 1)"
  define y where "y = extra_dbits ! dcode"
  define ev where "ev = extra_value x (lc - base_length ! code)"
  define dv where "dv = extra_value y (dist - 1 - base_dist ! dcode)"
  have lc: "lc < 256" "lc + 3 = len" and d: "1 \<le> dist" "dist \<le> 32768" using ok by (auto simp: lc_def)
  note L = length_code_facts [OF lc(1), folded code_def, folded x_def] and D = dist_code_facts [OF d, folded dcode_def, folded y_def]
  have sv: "sym_values ltree dtree (dist, len - 3) = [cw ltree (code + 257)] @ ev @ [cw dtree dcode] @ dv"
    unfolding sym_values_def Let_def prod.case lc_def [symmetric] code_def [symmetric] x_def [symmetric] dcode_def [symmetric] y_def [symmetric] ev_def dv_def extra_value_def
    using d by simp
  define r1 where "r1 = vbits ev @ vbits [cw dtree dcode] @ vbits dv @ ext"
  define r2 where "r2 = vbits dv @ ext"
  define n m where "n = unat (Len (ltree ! (code + 257)))" and "m = unat (Len (dtree ! dcode))"
  have hc: "Len (ltree ! (code + 257)) \<noteq> 0" "Len (dtree ! dcode) \<noteq> 0"
    using cd d by (auto simp: has_code_def lc_def [symmetric] code_def dcode_def)
  obtain l e where e: "symbol_of lt lnb (vbits [cw ltree (code + 257)] @ r1) = (l, e, n)"
      "c_op e = ucast (lext ! code)" "c_val e = lbase ! code"
    using lens_law [of "code + 257" r1] hc(1) L(1) by (auto simp: reads_code_def table_entry_def n_def)
  obtain l' e' where e': "symbol_of dt dnb (vbits [cw dtree dcode] @ r2) = (l', e', m)" "c_op e' = ucast (dext ! dcode)" "c_val e' = dbase ! dcode"
    using dists_law [of dcode r2] hc(2) D(1) by (auto simp: reads_code_def table_entry_def m_def)
  have xs: "widths ev = x" "val_of (take x (vbits ev @ z)) = (if x = 0 then 0 else lc - base_length ! code)" for z
    using extra_value_read(1) [of x "lc - base_length ! code"] extra_value_read(2) [of x "lc - base_length ! code" z] L(2,4) by (simp_all add: ev_def)
  have ys: "widths dv = y" "val_of (take y (vbits dv @ z)) = (if y = 0 then 0 else dist - 1 - base_dist ! dcode)" for z
    using extra_value_read(1) [of y "dist - 1 - base_dist ! dcode"] extra_value_read(2) [of y "dist - 1 - base_dist ! dcode" z] D(3,4) by (simp_all add: dv_def)
  have wl: "length (vbits [cw ltree (code + 257)]) = n" "length (vbits [cw dtree dcode]) = m" by (simp_all add: cw_def n_def m_def)
  note oe = ext_op [OF L(5)] and oe' = ext_op [OF D(5,4)]
  have oe: "c_op e \<noteq> 0" "c_op e AND 32 = 0" "c_op e AND 64 = 0" "unat (c_op e AND 15) = x" using oe L(2) e(2) by simp_all
  have oe': "c_op e' AND 64 = 0" "unat (c_op e' AND 15) = y" using oe' e'(2) by simp_all
  have len: "unat (c_val e) + val_of (take x r1) = len" unfolding r1_def xs(2) e(3) using L(6) lc(2) by simp
  have d0: "y = 0 \<Longrightarrow> dist - 1 - base_dist ! dcode = 0" using D(3) by simp
  have dis: "unat (c_val e') + val_of (take y r2) = dist" unfolding r2_def ys(2) e'(3) using D(6) d0 by (cases "y = 0") simp_all
  have dx: "drop x r1 = vbits [cw dtree dcode] @ r2" using xs(1) by (simp add: r1_def r2_def)
  have nd: "next_dist dt dnb len (vbits [cw dtree dcode] @ r2) = (Inr (Match len dist), m + y)"
    using wl(2) oe' dis by (simp add: next_dist_def e'(1) Let_def del: vbits_simps)
  have bits: "vbits (sym_values ltree dtree (dist, len - 3)) @ ext = vbits [cw ltree (code + 257)] @ r1" unfolding sv r1_def by (simp only: vbits_simps(3) append_assoc)
  have "nx (vbits [cw ltree (code + 257)] @ r1) = (Inr (Match len dist), n + x + (m + y))"
  proof -
    have dn: "drop n (vbits [cw ltree (code + 257)] @ r1) = r1" "drop (n + x) (vbits [cw ltree (code + 257)] @ r1) = drop x r1" using wl(1) by simp_all
    show ?thesis unfolding next_instr_def e(1) prod.case Let_def oe(4) dn len dx nd using oe(1-3) by simp
  qed
  moreover have "widths (sym_values ltree dtree (dist, len - 3)) = n + x + (m + y)"
    unfolding sv using xs(1) ys(1) by (simp add: cw_def n_def m_def)
  ultimately show ?thesis unfolding bits by simp
qed

text \<open>Every instruction, and a list of them.\<close>

lemma next_sym:
  assumes "instr_ok i" and "has_code i"
  shows "nx (vbits (sym_values ltree dtree (instr_sym i)) @ ext) = (Inr i, widths (sym_values ltree dtree (instr_sym i)))"
proof (cases i)
  case (Lit v)
  then show ?thesis using next_literal [of v ext] assms by (simp add: sym_values_def has_code_def cw_def)
next
  case (Match len dist)
  then show ?thesis using next_match [of len dist ext] assms by simp
qed (use assms in simp)

lemma decodes_block:
  assumes "list_all instr_ok is" and "list_all has_code is"
  shows "decodes nx (vbits (concat (map (sym_values ltree dtree) (map instr_sym is))) @ ext) is ext"
  using assms
proof (induction "is")
  case (Cons i "is")
  have ni: "i \<noteq> End_block" using Cons.prems(1) by auto
  let ?r = "vbits (concat (map (sym_values ltree dtree) (map instr_sym is))) @ ext"
  have "decodes nx ?r is ext" using Cons by simp
  then have "decodes nx (vbits (sym_values ltree dtree (instr_sym i)) @ ?r) (i # is) ext"
    using next_sym [of i ?r] Cons.prems ni by (intro decodes_Cons [where n = "widths (sym_values ltree dtree (instr_sym i))"]) simp_all
  then show ?case by simp
qed (simp add: decodes_Nil)

end

section \<open>The fixed codes\<close>

lemma val_of_code:
  assumes "code_ok 15 (tree ! c)"
  shows "val_of (vbits [cw tree c] @ ext) mod 2 ^ unat (Len (tree ! c)) = unat (Code (tree ! c))"
proof -
  let ?n = "unat (Len (tree ! c))"
  have l: "length (vbits [cw tree c]) = ?n" by (simp add: cw_def)
  have "take_bit ?n (unat (Code (tree ! c))) = unat (Code (tree ! c))" using assms by (simp add: code_ok_def flip: unat_take_bit)
  moreover have "unat (ucast (Code (tree ! c)) :: uint32) = unat (Code (tree ! c))"
    using unat_ush_less [of "Code (tree ! c)"] by (simp add: unsigned_ucast_eq take_bit_nat_eq_self)
  ultimately have "val_of (vbits [cw tree c]) = unat (Code (tree ! c))" by (simp add: cw_def val_of_bits_of_word)
  moreover have "val_of (vbits [cw tree c] @ ext) mod 2 ^ ?n = val_of (vbits [cw tree c])"
    using val_of_take [of ?n "vbits [cw tree c] @ ext"] l by simp
  ultimately show ?thesis by simp
qed

lemma fixed_lens_read:
  assumes "c < 286"
  shows "reads_code (nth_opt lenfix) 9 LENS static_ltree c ext"
proof -
  define x where "x = val_of (vbits [cw static_ltree c] @ ext)"
  have c288: "c < 288" using assms by simp
  have "code_ok 15 (static_ltree ! c)" using static_trees_ok table_lengths(3) c288 by (simp add: trees_ok_def list_all_length)
  then have m: "x mod 2 ^ fixed_len c = rev_bits (fixed_len c) (fixed_code c)"
    using val_of_code [of static_ltree c ext] static_ltree_nth [OF c288] by (simp add: x_def)
  have n: "fixed_len c \<le> 9" by (rule fixed_len_le)
  have "x mod 2 ^ 9 mod 2 ^ fixed_len c = rev_bits (fixed_len c) (fixed_code c)"
    unfolding mod_mod_cancel [OF le_imp_power_dvd [OF n]] by (rule m)
  then have sy: "fixed_sym (x mod 2 ^ 9) = c" by (rule fixed_sym_code [OF c288])
  have "nth_opt lenfix (x mod 2 ^ 9) = Some (fixed_entry c)" using lenfix_at [of "x mod 2 ^ 9"] sy by simp
  then have "fixed_lens.symbol x = (None, fixed_entry c, fixed_len c)"
    using fixed_entry_kind(2) [OF c288] fixed_entry_bits [OF c288] by (simp add: fixed_lens.symbol_def)
  moreover have "c_op (fixed_entry c) = c_op (table_entry LENS [] c 0)" "c_val (fixed_entry c) = c_val (table_entry LENS [] c 0)"
    using assms by (auto simp: fixed_entry_def table_entry_def mk_code_def)
  ultimately show ?thesis using static_ltree_nth(1) [OF c288] by (simp add: reads_code_def x_def)
qed

lemma fixed_dists_read:
  assumes "c < 30"
  shows "reads_code (nth_opt distfix) 5 DISTS static_dtree c ext"
proof -
  define x where "x = val_of (vbits [cw static_dtree c] @ ext)"
  have "static_dtree_ok (c, Code (static_dtree ! c), Len (static_dtree ! c))" using list_all_indexed_nth [OF static_dtree_ok_all, of c] assms by simp
  then have s: "Len (static_dtree ! c) = 5" "unat (Code (static_dtree ! c)) < 32" "distfix ! unat (Code (static_dtree ! c)) = mk_code (ucast (dext ! c), 5, dbase ! c)"
    using rev_bits_less [of 5 c] by (auto simp: static_dtree_ok_def)
  have "code_ok 15 (static_dtree ! c)" using static_trees_ok assms by (simp add: trees_ok_def list_all_length)
  then have m: "x mod 2 ^ 5 = unat (Code (static_dtree ! c))" using val_of_code [of static_dtree c ext] s(1) by (simp add: x_def)
  have "nth_opt distfix (x mod 2 ^ 5) = Some (mk_code (ucast (dext ! c), 5, dbase ! c))" using distfix_at(1) [of "x mod 2 ^ 5"] m s(3) by simp
  moreover have "\<not> is_link (mk_code (ucast (dext ! c), 5, dbase ! c))" using distfix_at(4) [of "x mod 2 ^ 5"] m s(3) by simp
  ultimately have "fixed_dists.symbol x = (None, mk_code (ucast (dext ! c), 5, dbase ! c), 5)" by (simp add: fixed_dists.symbol_def mk_code_def)
  then show ?thesis using s(1) by (simp add: reads_code_def x_def table_entry_def mk_code_def)
qed

interpretation fixed: codec "nth_opt lenfix" 9 "nth_opt distfix" 5 static_ltree static_dtree
  by unfold_locales (auto intro: fixed_lens_read fixed_dists_read)

lemma fixed_has_code: "instr_ok i \<Longrightarrow> fixed.has_code i"
proof -
  assume i: "instr_ok i"
  have l: "Len (static_ltree ! c) \<noteq> 0" if "c < 288" for c using static_ltree_nth(1) [OF that] by (auto simp: fixed_len_def split: if_splits)
  have d: "Len (static_dtree ! c) \<noteq> 0" if "c < 30" for c
    using list_all_indexed_nth [OF static_dtree_ok_all, of c] that by (auto simp: static_dtree_ok_def)
  show ?thesis
  proof (cases i)
    case (Lit v)
    then show ?thesis using i l [of "unat v"] by (simp add: fixed.has_code_def word_less_nat_alt)
  next
    case (Match len dist)
    then have "len - 3 < 256" using i by auto
    then show ?thesis using Match i l [of "j_length_code ! (len - 3) + 257"] d [of "d_code (dist - 1)"] length_code_facts(1) [of "len - 3"] dist_code_facts(1) [of dist]
      by (auto simp: fixed.has_code_def)
  qed (use i in simp)
qed


lemma block_values_bits: "vbits (block_values lt dt xs) @ ext = vbits (concat (map (sym_values lt dt) xs)) @ vbits [cw lt 256] @ ext"
  by (simp add: block_values_def)



end
