(* ===== verification/Spec2Isabelle.thy ===== *)
theory Spec2Isabelle
  imports Zlib_Base Trees_Stored Inftrees_Correct Inflate_Loop Deflate_Stream Symbol_Codec
begin

text \<open>
  A verification of the lossless gzip transformation of SimEnc, the C code of src/partial.

  \<^bold>\<open>The program.\<close>  SimEnc stores container layers deduplicated.  A gzip layer hides similar contents behind
  different Huffman codes, so before deduplication \<^verbatim>\<open>decode_docker.cpp\<close> replaces its DEFLATE stream by an
  \<^emph>\<open>instruction stream\<close>: for every block a copy of the block header, padded to bytes and closed by the marker aa ff, then
  one instruction for each LZ77 symbol (a literal byte, aa aa for the literal aa, or aa followed by the distance, high byte
  first, and the length less three) and the marker aa ff for the end of the block.  \<^verbatim>\<open>encode_docker.cpp\<close> turns an instruction
  stream back into the DEFLATE stream, with the Huffman codes of the recorded headers.  Both sit on libz_j, a modified zlib 1.2.12:
  \<^verbatim>\<open>inflate.c\<close>, \<^verbatim>\<open>inffast.c\<close> and \<^verbatim>\<open>inftrees.c\<close> decode, \<^verbatim>\<open>deflate.c\<close> and \<^verbatim>\<open>trees.c\<close> encode, \<^verbatim>\<open>crc32.c\<close>, \<^verbatim>\<open>adler32.c\<close> and \<^verbatim>\<open>zutil.c\<close> are shared.

  \<^bold>\<open>Configuration.\<close>  The model is of the code as it is compiled: \<^verbatim>\<open>MY_ZLIB\<close> defined, \<^verbatim>\<open>GUNZIP\<close> defined in inflate.c, \<^verbatim>\<open>GZIP\<close>
  not defined in deflate.c, \<^verbatim>\<open>ZLIB_DEBUG\<close> off, CRC tables for W = 8 and N = 5, little endian, 32-bit \<open>int\<close>, 64-bit \<open>long\<close>.
  \<^verbatim>\<open>zconf.h\<close> is not part of the repository: \<open>MAX_WBITS\<close> and \<open>MAX_MEM_LEVEL\<close> are arguments.  The contents of memory that \<^verbatim>\<open>malloc\<close>
  returned, and whether it returned any, are arguments too, as are the two uninitialised local variables of \<^verbatim>\<open>deflate_my\<close>.

  \<^bold>\<open>Conventions.\<close>  A struct is a record, an enum a datatype, C integers whose width matters are words, counters are natural numbers.
  A pointer into an array is an index; \<open>next_in\<close> with \<open>avail_in\<close> is the list of the bytes still to read, the output buffer is
  the list of the bytes written and the space left.  One function models each case of the two big switches; a case that falls through
  calls the next one.  It returns \<open>Next s\<close> for \<^verbatim>\<open>break\<close>, \<open>Leave s\<close> for \<^verbatim>\<open>goto inf_leave\<close>, \<open>Ret r s\<close> for \<^verbatim>\<open>return r\<close> and \<open>Undef\<close>
  for an access outside an array or to an indeterminate value, so that no such access can hide in a theorem.  Writes
  outside \<open>pending_buf\<close> and \<open>header_buf\<close> set ghost flags (\<open>oob\<close>, \<open>header_oob\<close>).  The loops carry fuel: \<open>inflate_loop\<close> sixteen rounds for each
  bit of input and byte of output space and sixteen more, \<open>deflate_loop\<close> four for each bit of input and eight more; running out
  is the value \<open>Out_of_fuel\<close>, which the theorems on \<open>j_inflate\<close> and \<open>j_deflate\<close> exclude with the measures of \<open>Inflate_Inv\<close> and \<open>Deflate_Inv\<close>.
  The loops over code lengths have as fuel the number of lengths still missing, since every round stores at least one.

  \<^bold>\<open>Theories.\<close>
  \<^item> \<open>Prelude\<close>: machine integers, bit strings of words and bytes, shared lemmas.  \<open>Zlib_Base\<close>: zutil.c, zutil.h, constants of zfunc.h.
    \<open>Z_Stream\<close>: \<^verbatim>\<open>z_stream\<close>, \<^verbatim>\<open>gz_header\<close>, the outcome of a round.
  \<^item> \<open>Code_Tables\<close>: the tables of trees.h, inffixed.h, inftrees.c and trees.c.  They agree with each other.
  \<^item> \<open>Bit_Sink\<close>, \<open>Bit_Writer\<close>: the output register, as an interface (locale \<open>bit_sink\<close>) and its implementation in trees.c.
    \<open>Recorder\<close>: the second implementation, the header recorder of inflate.c.
  \<^item> \<open>Trees\<close>: trees.c.  \<open>Trees_Header\<close>: dynamic headers.  \<open>Trees_Blocks\<close>: Huffman blocks, which are written into the array their symbols are
    read from.  \<open>Trees_Stored\<close>: stored blocks.
  \<^item> \<open>Bit_Reader\<close>: the input macros, with their interface (locale \<open>bit_source\<close>).  \<open>Code_Reader\<close>, \<open>Code_Lengths\<close>: the loops that
    inflate.c and deflate.c have in common, proved once over the locale \<open>dropping\<close>, which both \<^verbatim>\<open>DROPBITS\<close> macros satisfy.
  \<^item> \<open>Inftrees\<close>: \<^verbatim>\<open>inflate_table\<close> of inftrees.c and \<^verbatim>\<open>inflate_table_my\<close> of deflate.c.  \<open>Inftrees_Sort\<close>, \<open>Inftrees_Codes\<close>, \<open>Inftrees_Fill\<close>,
    \<open>Inftrees_Table\<close>, \<open>Inftrees_Frame\<close>, \<open>Inftrees_Lookup\<close>, \<open>Inftrees_Correct\<close>: they build the canonical code of RFC 1951.
    \<open>Symbol_Table\<close> and the locale \<open>code_table\<close> say how such a table is read; \<open>Fixed_Tables\<close> shows it for inffixed.h.
  \<^item> \<open>Inflate_State\<close>, \<open>Inffast\<close>, \<open>Inflate\<close>: inflate.h, inffast.c, inflate.c.  \<open>Inflate_Symbols\<close>, \<open>Inflate_Decode\<close>: a symbol decoded on the fast
    and on the slow path against the reference \<open>next_instr\<close>.  \<open>Inflate_Header\<close>, \<open>Inflate_Tables\<close>: block headers.  \<open>Inflate_Inv\<close>, \<open>Inflate_Rounds\<close>,
    \<open>Inflate_Rounds_Sym\<close>, \<open>Inflate_Rounds_Hdr\<close>, \<open>Inflate_Rounds_Gz\<close>, \<open>Inflate_Loop\<close>: invariant, one lemma for each case, whole calls.
  \<^item> \<open>Instructions\<close>: the instruction stream.  \<open>Deflate_State\<close>, \<open>Deflate\<close>: deflate.h and deflate.c.  \<open>Deflate_Inv\<close>, \<open>Deflate_Rounds\<close>,
    \<open>Deflate_Rounds_Hdr\<close>, \<open>Deflate_Loop\<close>: invariant, one lemma for each case, whole calls.
  \<^item> \<open>Crc32_Tables\<close>, \<open>Crc32\<close>, \<open>Adler32\<close>: crc32.h, crc32.c, adler32.c against bit-by-bit and textbook definitions.

  \<^bold>\<open>Results.\<close>  For both state machines: every call returns, within its arrays, keeps the invariant and stops only for a stated
  reason.  For the tables: the decoder's and the encoder's tables describe the same prefix code.  For the encoder: what a block consists of, bit
  by bit, and when the shared buffer is large enough for it.  For the check values: equality with their definitions and the combination
  of two of them.

  \<^bold>\<open>Not modelled.\<close>  The modes of \<open>j_deflate\<close> for zlib-wrapped streams are modelled but the invariant is for raw streams, which is what
  encode_docker.cpp asks for first; a resumed SENDINS of a wrapped stream reads indeterminate counters.
  Code that is compiled out, and prototypes of routines that deflate.c no longer has.  The command-line
  mains and messages.  Outside src/partial: the training experiments (src/training, floating-point models over NGT and third-party
  compressors) and the registry fork (src/simenc, Go).
\<close>

end
